(* ===== verification/Prelude.thy ===== *)
theory Prelude
  imports Main "HOL-Library.Word"
begin

unbundle bit_operations_syntax

text \<open>
  Shared vocabulary of the development: the machine integer types of
  \<^verbatim>\<open>kernel/types.h\<close>, the page arithmetic of \<^verbatim>\<open>kernel/riscv.h\<close> and the limits of
  \<^verbatim>\<open>kernel/param.h\<close>, and the outcome monad in which every kernel function is written.

  A kernel function is a function from the kernel state to an outcome: it returns a value in a
  new state (\<open>Ret\<close>), it calls \<^verbatim>\<open>panic()\<close> (\<open>Panic\<close>, with the message), or it switches to the
  scheduler (\<open>Sched\<close>, with the state in which it gave the processor up).
\<close>

section \<open>Machine integers\<close>

type_synonym u8 = "8 word"
type_synonym u16 = "16 word"
type_synonym u32 = "32 word"
type_synonym u64 = "64 word"

section \<open>Limits of param.h\<close>

abbreviation (input) NPROC :: nat where "NPROC \<equiv> 64"
abbreviation (input) NCPU :: nat where "NCPU \<equiv> 8"
abbreviation (input) NOFILE :: nat where "NOFILE \<equiv> 16"
abbreviation (input) NFILE :: nat where "NFILE \<equiv> 100"
abbreviation (input) NINODE :: nat where "NINODE \<equiv> 50"
abbreviation (input) NDEV :: nat where "NDEV \<equiv> 10"
abbreviation (input) ROOTDEV :: nat where "ROOTDEV \<equiv> 1"
abbreviation (input) MAXARG :: nat where "MAXARG \<equiv> 32"
abbreviation (input) MAXOPBLOCKS :: nat where "MAXOPBLOCKS \<equiv> 10"
abbreviation (input) LOGBLOCKS :: nat where "LOGBLOCKS \<equiv> MAXOPBLOCKS * 3"
abbreviation (input) NBUF :: nat where "NBUF \<equiv> MAXOPBLOCKS * 3"
abbreviation (input) MAXPATH :: nat where "MAXPATH \<equiv> 128"

section \<open>The outcome monad\<close>

datatype ('a, 's) out = Ret 'a 's | Panic string | Sched 's

type_synonym ('s, 'a) km = "'s \<Rightarrow> ('a, 's) out"

definition kret :: "'a \<Rightarrow> ('s, 'a) km" where
  "kret a s = Ret a s"

definition kbind :: "('s, 'a) km \<Rightarrow> ('a \<Rightarrow> ('s, 'b) km) \<Rightarrow> ('s, 'b) km" where
  "kbind m f s = (case m s of Ret a t \<Rightarrow> f a t | Panic e \<Rightarrow> Panic e | Sched t \<Rightarrow> Sched t)"

definition kthen :: "('s, 'a) km \<Rightarrow> ('s, 'b) km \<Rightarrow> ('s, 'b) km" where
  "kthen m n = kbind m (\<lambda>_. n)"

definition kpanic :: "string \<Rightarrow> ('s, 'a) km" where
  "kpanic e s = Panic e"

definition kget :: "('s \<Rightarrow> 'a) \<Rightarrow> ('s, 'a) km" where
  "kget f s = Ret (f s) s"

definition kmod :: "('s \<Rightarrow> 's) \<Rightarrow> ('s, unit) km" where
  "kmod f s = Ret () (f s)"

definition kwhen :: "bool \<Rightarrow> ('s, unit) km \<Rightarrow> ('s, unit) km" where
  "kwhen b m = (if b then m else kret ())"

text \<open>The loops of the source: a plain \<^verbatim>\<open>for\<close> over an index range, a \<^verbatim>\<open>for\<close> that may leave
  early with a result (\<open>Some\<close> is the early exit), and a \<^verbatim>\<open>for\<close> with loop variables.\<close>

primrec kfor :: "'i list \<Rightarrow> ('i \<Rightarrow> ('s, unit) km) \<Rightarrow> ('s, unit) km" where
  "kfor [] body = kret ()"
| "kfor (i # is) body = kthen (body i) (kfor is body)"

primrec kfind :: "'i list \<Rightarrow> ('i \<Rightarrow> ('s, 'r option) km) \<Rightarrow> ('s, 'r option) km" where
  "kfind [] body = kret None"
| "kfind (i # is) body =
     kbind (body i) (\<lambda>r. case r of None \<Rightarrow> kfind is body | Some x \<Rightarrow> kret (Some x))"

primrec kfold :: "'i list \<Rightarrow> ('i \<Rightarrow> 'a \<Rightarrow> ('s, 'a) km) \<Rightarrow> 'a \<Rightarrow> ('s, 'a) km" where
  "kfold [] body acc = kret acc"
| "kfold (i # is) body acc = kbind (body i acc) (kfold is body)"

named_theorems kmonad \<open>evaluation of the outcome monad\<close>

lemma kret_eval [kmonad]: "kret a s = Ret a s"
  by (simp add: kret_def)

lemma kpanic_eval [kmonad]: "kpanic e s = Panic e"
  by (simp add: kpanic_def)

lemma kget_eval [kmonad]: "kget f s = Ret (f s) s"
  by (simp add: kget_def)

lemma kmod_eval [kmonad]: "kmod f s = Ret () (f s)"
  by (simp add: kmod_def)

lemma kbind_eval [kmonad]:
  "kbind m f s = (case m s of Ret a t \<Rightarrow> f a t | Panic e \<Rightarrow> Panic e | Sched t \<Rightarrow> Sched t)"
  by (simp add: kbind_def)

lemma kthen_eval [kmonad]:
  "kthen m n s = (case m s of Ret a t \<Rightarrow> n t | Panic e \<Rightarrow> Panic e | Sched t \<Rightarrow> Sched t)"
  by (simp add: kthen_def kbind_def)

lemma kwhen_eval [kmonad]: "kwhen b m s = (if b then m s else Ret () s)"
  by (simp add: kwhen_def kret_def)

lemma kbind_cong [fundef_cong]:
  assumes "m s = m' s" and "\<And>a t. m' s = Ret a t \<Longrightarrow> f a t = g a t"
  shows "kbind m f s = kbind m' g s"
  using assms by (auto simp: kbind_def split: out.split)

lemma kbind_Ret_iff:
  "kbind m f s = Ret b u \<longleftrightarrow> (\<exists>a t. m s = Ret a t \<and> f a t = Ret b u)"
  by (auto simp: kbind_def split: out.splits)

lemma kthen_Ret_iff:
  "kthen m n s = Ret b u \<longleftrightarrow> (\<exists>a t. m s = Ret a t \<and> n t = Ret b u)"
  by (simp add: kthen_def kbind_Ret_iff)

lemma kfor_append: "kfor (xs @ ys) body s = kthen (kfor xs body) (kfor ys body) s"
  by (induction xs arbitrary: s) (auto simp: kmonad split: out.splits)

lemma kbind_Ret: "m s = Ret x t \<Longrightarrow> kbind m f s = f x t"
  by (simp add: kmonad)

lemma kthen_Ret: "m s = Ret x t \<Longrightarrow> kthen m f s = f t"
  by (simp add: kmonad)

lemma kbind_kget: "kbind (kget f) g s = g (f s) s"
  by (simp add: kmonad)

lemma kfor_upt:
  assumes step: "\<And>i s. i < n \<Longrightarrow> I i s \<Longrightarrow> \<exists>t. body i s = Ret () t \<and> I (Suc i) t" and "I 0 s"
  shows "\<exists>t. kfor [0..<n] body s = Ret () t \<and> I n t"
  using step
proof (induction n)
  case 0
  then show ?case using \<open>I 0 s\<close> by (simp add: kmonad)
next
  case (Suc n)
  then obtain t where "kfor [0..<n] body s = Ret () t" "I n t" by (meson less_SucI)
  moreover obtain u where "body n t = Ret () u" "I (Suc n) u" using Suc.prems [of n t] calculation(2) by blast
  ultimately show ?case by (simp add: kfor_append kmonad)
qed

section \<open>Hoare triples over outcomes\<close>

text \<open>\<open>kvalid P m Q\<close>: run from a state satisfying \<open>P\<close>, \<open>m\<close> returns, and value and state satisfy
  \<open>Q\<close> (total: neither panic nor a switch).  \<open>kpart P m Q\<close> is the weaker form that says nothing
  when \<open>m\<close> panics or switches.\<close>

definition kvalid :: "('s \<Rightarrow> bool) \<Rightarrow> ('s, 'a) km \<Rightarrow> ('a \<Rightarrow> 's \<Rightarrow> bool) \<Rightarrow> bool" where
  "kvalid P m Q \<longleftrightarrow> (\<forall>s. P s \<longrightarrow> (\<exists>a t. m s = Ret a t \<and> Q a t))"

definition kpart :: "('s \<Rightarrow> bool) \<Rightarrow> ('s, 'a) km \<Rightarrow> ('a \<Rightarrow> 's \<Rightarrow> bool) \<Rightarrow> bool" where
  "kpart P m Q \<longleftrightarrow> (\<forall>s a t. P s \<longrightarrow> m s = Ret a t \<longrightarrow> Q a t)"

lemma kvalid_bind:
  "kvalid P m R \<Longrightarrow> (\<And>a. kvalid (R a) (f a) Q) \<Longrightarrow> kvalid P (kbind m f) Q"
  unfolding kvalid_def kbind_def by fastforce

lemma kvalid_kfor:
  assumes "\<And>i. i \<in> set is \<Longrightarrow> kvalid I (body i) (\<lambda>_. I)"
  shows "kvalid I (kfor is body) (\<lambda>_. I)"
  using assms
proof (induction "is")
  case Nil
  then show ?case by (simp add: kvalid_def kret_def)
next
  case (Cons i "is")
  have "kvalid I (body i) (\<lambda>_. I)" and "kvalid I (kfor is body) (\<lambda>_. I)"
    using Cons by auto
  then show ?case
    by (auto simp: kthen_def intro!: kvalid_bind)
qed

section \<open>Relations kept by every run\<close>

text \<open>A reflexive and transitive relation between the state before and the state after is kept by
  a whole function as soon as each of its steps keeps it, whichever way the function ends.  The
  frame conditions of the components are instances.\<close>

definition kkeeps :: "('s \<Rightarrow> 's \<Rightarrow> bool) \<Rightarrow> ('s, 'a) km \<Rightarrow> bool" where
  "kkeeps R m \<longleftrightarrow> (\<forall>s. case m s of Ret a t \<Rightarrow> R s t | Panic e \<Rightarrow> True | Sched t \<Rightarrow> R s t)"

named_theorems keeps \<open>introduction rules for frame relations\<close>

locale frame_rel =
  fixes R :: "'s \<Rightarrow> 's \<Rightarrow> bool"
  assumes refl: "R s s"
    and trans: "R s t \<Longrightarrow> R t u \<Longrightarrow> R s u"
begin

lemma keeps_ret: "kkeeps R (kret a)"
  by (simp add: kkeeps_def kret_def refl)

lemma keeps_panic: "kkeeps R (kpanic e)"
  by (simp add: kkeeps_def kpanic_def)

lemma keeps_get: "kkeeps R (kget f)"
  by (simp add: kkeeps_def kget_def refl)

lemma keeps_mod: "(\<And>s. R s (f s)) \<Longrightarrow> kkeeps R (kmod f)"
  by (simp add: kkeeps_def kmod_def)

lemma keeps_bind: "kkeeps R m \<Longrightarrow> (\<And>a. kkeeps R (f a)) \<Longrightarrow> kkeeps R (kbind m f)"
  unfolding kkeeps_def kbind_def by (fastforce split: out.splits intro: trans)

lemma keeps_then: "kkeeps R m \<Longrightarrow> kkeeps R n \<Longrightarrow> kkeeps R (kthen m n)"
  unfolding kthen_def by (rule keeps_bind)

lemma keeps_when: "(b \<Longrightarrow> kkeeps R m) \<Longrightarrow> kkeeps R (kwhen b m)"
  by (simp add: kwhen_def keeps_ret)

lemma keeps_if: "(b \<Longrightarrow> kkeeps R m) \<Longrightarrow> (\<not> b \<Longrightarrow> kkeeps R n) \<Longrightarrow> kkeeps R (if b then m else n)"
  by simp

lemma keeps_case_option:
  "(x = None \<Longrightarrow> kkeeps R m) \<Longrightarrow> (\<And>y. x = Some y \<Longrightarrow> kkeeps R (f y)) \<Longrightarrow>
   kkeeps R (case x of None \<Rightarrow> m | Some y \<Rightarrow> f y)"
  by (cases x) auto

lemma keeps_kfor: "(\<And>i. kkeeps R (body i)) \<Longrightarrow> kkeeps R (kfor is body)"
  by (induction "is") (auto intro: keeps_ret keeps_then)

lemma keeps_kfind: "(\<And>i. kkeeps R (body i)) \<Longrightarrow> kkeeps R (kfind is body)"
  by (induction "is") (auto intro!: keeps_ret keeps_bind split: option.split)

lemma keeps_kfold: "(\<And>i a. kkeeps R (body i a)) \<Longrightarrow> kkeeps R (kfold is body acc)"
  by (induction "is" arbitrary: acc) (auto intro!: keeps_ret keeps_bind)

lemmas keeps_rules =
  keeps_ret keeps_panic keeps_get keeps_bind keeps_then keeps_when keeps_if keeps_case_option
  keeps_kfor keeps_kfind keeps_kfold

end

section \<open>Transition systems and their invariants\<close>

inductive reach :: "('s \<Rightarrow> bool) \<Rightarrow> ('s \<Rightarrow> 's \<Rightarrow> bool) \<Rightarrow> 's \<Rightarrow> bool"
  for init :: "'s \<Rightarrow> bool" and step :: "'s \<Rightarrow> 's \<Rightarrow> bool" where
  reach_init: "init s \<Longrightarrow> reach init step s"
| reach_step: "reach init step s \<Longrightarrow> step s t \<Longrightarrow> reach init step t"

locale inv_system =
  fixes init :: "'s \<Rightarrow> bool" and step :: "'s \<Rightarrow> 's \<Rightarrow> bool" and inv :: "'s \<Rightarrow> bool"
  assumes inv_init: "init s \<Longrightarrow> inv s"
    and inv_step: "inv s \<Longrightarrow> step s t \<Longrightarrow> inv t"
begin

lemma reach_inv: "reach init step s \<Longrightarrow> inv s"
  by (induction rule: reach.induct) (auto intro: inv_init inv_step)

end

lemma sint_small: "n < 2 ^ 31 \<Longrightarrow> sint (of_nat n :: u32) = int n"
  by (simp add: sint_uint signed_take_bit_int_eq_self uint_nat take_bit_nat_eq_self unsigned_of_nat)

text \<open>A value stored back into a C \<^verbatim>\<open>int\<close>: two's complement in 32 bits.\<close>

definition int32 :: "int \<Rightarrow> int" where
  "int32 x = sint (word_of_int x :: u32)"

lemma int32_id: "- (2 ^ 31) \<le> x \<Longrightarrow> x < 2 ^ 31 \<Longrightarrow> int32 x = x"
  by (simp add: int32_def signed_of_int signed_take_bit_int_eq_self_iff)

lemma int32_add: "int32 (int32 x + y) = int32 (x + y)" and int32_diff: "int32 (int32 x - y) = int32 (x - y)"
  by (simp_all add: int32_def)

section \<open>Opening a run\<close>

text \<open>The value of a loop-free prefix is often decided by the state alone; these are the
  elimination forms used to open a successful run.\<close>

lemma kkeeps_Ret: "kkeeps R m \<Longrightarrow> m s = Ret a t \<Longrightarrow> R s t"
  unfolding kkeeps_def by (metis out.simps(10))

end
