(* ===== verification/Printf.thy ===== *)
theory Printf
  imports Prelude
begin

text \<open>
  Formatted output: \<^verbatim>\<open>kernel/printf.c\<close> and \<^verbatim>\<open>user/printf.c\<close>.  Both print through a routine that
  takes one character (\<^verbatim>\<open>consputc\<close>, or a \<^verbatim>\<open>write\<close> of one byte), so what a call does is
  the text it sends there.  A variadic argument is an integer register or a string pointer; asking
  for an argument that was not passed, or of the other sort, is undefined in C and is \<open>None\<close> here.
\<close>

datatype varg = Vint u64 | Vstr "string option"

datatype base = Dec | Hex

primrec base_num :: "base \<Rightarrow> u64" where
  "base_num Dec = 10"
| "base_num Hex = 16"

definition kdigits :: string where "kdigits = ''0123456789abcdef''"
definition udigits :: string where "udigits = ''0123456789ABCDEF''"

section \<open>printint and printptr\<close>

text \<open>The loop that fills \<^verbatim>\<open>buf\<close> from index 0, least significant digit first.\<close>

function printint_loop :: "string \<Rightarrow> base \<Rightarrow> u64 \<Rightarrow> char list" where
  "printint_loop ds b x =
     ds ! unat (x mod base_num b) #
     (if x div base_num b = 0 then [] else printint_loop ds b (x div base_num b))"
  by pat_completeness auto

lemma unat_base: "unat (x div base_num b) = unat x div unat (base_num b)"
  by (cases b) (simp_all add: unat_div)

termination printint_loop
proof (relation "measure (\<lambda>(ds, b, x). unat x)")
  fix ds b x
  assume nz: "x div base_num b \<noteq> 0"
  have "0 < unat x" "1 < unat (base_num b)"
    using nz by (cases b; auto simp: unat_gt_0)+
  then show "((ds, b, x div base_num b), ds, b, x) \<in> measure (\<lambda>(ds, b, x). unat x)"
    by (simp add: unat_base)
qed simp

declare printint_loop.simps [simp del]

definition printint_buf :: "string \<Rightarrow> u64 \<Rightarrow> base \<Rightarrow> bool \<Rightarrow> char list" where
  "printint_buf ds xx b sign =
     (let neg = sign \<and> sint xx < 0;
          x = (if neg then - xx else xx);
          buf = printint_loop ds b x
      in if neg then buf @ ''-'' else buf)"

text \<open>\<^verbatim>\<open>while(--i >= 0) putc(buf[i])\<close>.\<close>

definition printint :: "string \<Rightarrow> u64 \<Rightarrow> base \<Rightarrow> bool \<Rightarrow> string" where
  "printint ds xx b sign = rev (printint_buf ds xx b sign)"

primrec printptr_loop :: "string \<Rightarrow> nat \<Rightarrow> u64 \<Rightarrow> string" where
  "printptr_loop ds 0 x = ''''"
| "printptr_loop ds (Suc n) x = ds ! unat (drop_bit 60 x) # printptr_loop ds n (push_bit 4 x)"

definition printptr :: "string \<Rightarrow> u64 \<Rightarrow> string" where
  "printptr ds x = ''0x'' @ printptr_loop ds 16 x"

section \<open>Arguments\<close>

text \<open>\<^verbatim>\<open>va_arg\<close> of an integer and of a string, with what is printed for it.\<close>

fun va_int :: "(u64 \<Rightarrow> string) \<Rightarrow> varg list \<Rightarrow> (string \<times> varg list) option" where
  "va_int f (Vint v # ap) = Some (f v, ap)"
| "va_int f ap = None"

fun va_str :: "varg list \<Rightarrow> (string \<times> varg list) option" where
  "va_str (Vstr s # ap) = Some (case s of None \<Rightarrow> ''(null)'' | Some t \<Rightarrow> t, ap)"
| "va_str ap = None"

definition char_at :: "string \<Rightarrow> nat \<Rightarrow> char" where
  "char_at s i = (if i < length s then s ! i else CHR 0x00)"

section \<open>The kernel\<close>

text \<open>What \<^verbatim>\<open>consputc\<close> sends for the argument of a \<^verbatim>\<open>%c\<close>: 0x100 is its \<^verbatim>\<open>BACKSPACE\<close>.\<close>

definition consputc_text :: "u32 \<Rightarrow> string" where
  "consputc_text c = (if c = 0x100 then [CHR 0x08, CHR '' '', CHR 0x08] else [char_of (unat (ucast c :: u8))])"

text \<open>The chain of tests of \<^verbatim>\<open>kernel/printf.c: printf\<close> on the three characters after the percent sign:
  what is printed, the arguments that are left, and how many characters the conversion takes beyond
  the first.\<close>

definition kconv :: "char \<Rightarrow> char \<Rightarrow> char \<Rightarrow> varg list \<Rightarrow> (string \<times> varg list) option \<times> nat" where
  "kconv c0 c1 c2 ap =
     (if c0 = CHR ''d'' then (va_int (\<lambda>v. printint kdigits (scast (ucast v :: u32)) Dec True) ap, 0)
      else if c0 = CHR ''l'' \<and> c1 = CHR ''d'' then (va_int (\<lambda>v. printint kdigits v Dec True) ap, 1)
      else if c0 = CHR ''l'' \<and> c1 = CHR ''l'' \<and> c2 = CHR ''d'' then (va_int (\<lambda>v. printint kdigits v Dec True) ap, 2)
      else if c0 = CHR ''u'' then (va_int (\<lambda>v. printint kdigits (ucast (ucast v :: u32)) Dec False) ap, 0)
      else if c0 = CHR ''l'' \<and> c1 = CHR ''u'' then (va_int (\<lambda>v. printint kdigits v Dec False) ap, 1)
      else if c0 = CHR ''l'' \<and> c1 = CHR ''l'' \<and> c2 = CHR ''u'' then (va_int (\<lambda>v. printint kdigits v Dec False) ap, 2)
      else if c0 = CHR ''x'' then (va_int (\<lambda>v. printint kdigits (ucast (ucast v :: u32)) Hex False) ap, 0)
      else if c0 = CHR ''l'' \<and> c1 = CHR ''x'' then (va_int (\<lambda>v. printint kdigits v Hex False) ap, 1)
      else if c0 = CHR ''l'' \<and> c1 = CHR ''l'' \<and> c2 = CHR ''x'' then (va_int (\<lambda>v. printint kdigits v Hex False) ap, 2)
      else if c0 = CHR ''p'' then (va_int (printptr kdigits) ap, 0)
      else if c0 = CHR ''c'' then (va_int (\<lambda>v. consputc_text (ucast v)) ap, 0)
      else if c0 = CHR ''s'' then (va_str ap, 0)
      else if c0 = CHR ''%'' then (Some (''%'', ap), 0)
      else (Some ([CHR ''%'', c0], ap), 0))"

text \<open>The loop looks ahead from the percent sign and ends on a percent sign at the end of the format.
  A format is the list of its characters before the terminating NUL.\<close>

function kfmt :: "string \<Rightarrow> varg list \<Rightarrow> string option" where
  "kfmt [] ap = Some ''''"
| "cx \<noteq> CHR ''%'' \<Longrightarrow> kfmt (cx # f) ap = map_option (Cons cx) (kfmt f ap)"
| "kfmt [CHR ''%''] ap = Some ''''"
| "kfmt (CHR ''%'' # c0 # f) ap =
     (case kconv c0 (char_at f 0) (char_at f 1) ap of
        (None, k) \<Rightarrow> None
      | (Some (out, ap'), k) \<Rightarrow> map_option ((@) out) (kfmt (drop k f) ap'))"
proof -
  fix P and x :: "string \<times> varg list"
  assume "\<And>ap. x = ([], ap) \<Longrightarrow> P" "\<And>cx f ap. cx \<noteq> CHR ''%'' \<Longrightarrow> x = (cx # f, ap) \<Longrightarrow> P"
    "\<And>ap. x = ([CHR ''%''], ap) \<Longrightarrow> P" "\<And>c0 f ap. x = (CHR ''%'' # c0 # f, ap) \<Longrightarrow> P"
  then show P by (cases x) (metis list.exhaust)
qed auto
termination kfmt
  by (relation "measure (\<lambda>(f, ap). length f)") auto

definition kprintf_text :: "string \<Rightarrow> varg list \<Rightarrow> string option" where
  "kprintf_text fmt ap = kfmt fmt ap"

lemmas kfmt_eval = kprintf_text_def kfmt.simps kconv_def va_int.simps va_str.simps char_at_def

section \<open>The user library\<close>

text \<open>The chain of tests of \<^verbatim>\<open>user/printf.c: vprintf\<close>.  \<^verbatim>\<open>putc\<close> writes the byte it is given.\<close>

definition uconv :: "char \<Rightarrow> char \<Rightarrow> char \<Rightarrow> varg list \<Rightarrow> (string \<times> varg list) option \<times> nat" where
  "uconv c0 c1 c2 ap =
     (if c0 = CHR ''d'' then (va_int (\<lambda>v. printint udigits (scast (ucast v :: u32)) Dec True) ap, 0)
      else if c0 = CHR ''l'' \<and> c1 = CHR ''d'' then (va_int (\<lambda>v. printint udigits v Dec True) ap, 1)
      else if c0 = CHR ''l'' \<and> c1 = CHR ''l'' \<and> c2 = CHR ''d'' then (va_int (\<lambda>v. printint udigits v Dec True) ap, 2)
      else if c0 = CHR ''u'' then (va_int (\<lambda>v. printint udigits (ucast (ucast v :: u32)) Dec False) ap, 0)
      else if c0 = CHR ''l'' \<and> c1 = CHR ''u'' then (va_int (\<lambda>v. printint udigits v Dec False) ap, 1)
      else if c0 = CHR ''l'' \<and> c1 = CHR ''l'' \<and> c2 = CHR ''u'' then (va_int (\<lambda>v. printint udigits v Dec False) ap, 2)
      else if c0 = CHR ''x'' then (va_int (\<lambda>v. printint udigits (ucast (ucast v :: u32)) Hex False) ap, 0)
      else if c0 = CHR ''l'' \<and> c1 = CHR ''x'' then (va_int (\<lambda>v. printint udigits v Hex False) ap, 1)
      else if c0 = CHR ''l'' \<and> c1 = CHR ''l'' \<and> c2 = CHR ''x'' then (va_int (\<lambda>v. printint udigits v Hex False) ap, 2)
      else if c0 = CHR ''p'' then (va_int (printptr udigits) ap, 0)
      else if c0 = CHR ''c'' then (va_int (\<lambda>v. [char_of (unat (ucast v :: u8))]) ap, 0)
      else if c0 = CHR ''s'' then (va_str ap, 0)
      else if c0 = CHR ''%'' then (Some (''%'', ap), 0)
      else (Some ([CHR ''%'', c0], ap), 0))"

text \<open>The loop keeps a state between characters.\<close>

function ufmt :: "bool \<Rightarrow> string \<Rightarrow> varg list \<Rightarrow> string option" where
  "ufmt st [] ap = Some ''''"
| "ufmt False (c0 # f) ap =
     (if c0 = CHR ''%'' then ufmt True f ap else map_option (Cons c0) (ufmt False f ap))"
| "ufmt True (c0 # f) ap =
     (case uconv c0 (char_at f 0) (char_at f 1) ap of
        (None, k) \<Rightarrow> None
      | (Some (out, ap'), k) \<Rightarrow> map_option ((@) out) (ufmt False (drop k f) ap'))"
  by pat_completeness auto
termination ufmt
  by (relation "measure (\<lambda>(st, f, ap). length f)") auto

definition vprintf_text :: "string \<Rightarrow> varg list \<Rightarrow> string option" where
  "vprintf_text fmt ap = ufmt False fmt ap"

section \<open>Numbers printed and read back\<close>

lemma printint_loop_length:
  "unat x < unat (base_num b) ^ Suc k \<Longrightarrow> length (printint_loop ds b x) \<le> Suc k"
proof (induction k arbitrary: x)
  case 0
  then have "x div base_num b = 0" by (simp add: word_unat_eq_iff unat_base)
  then show ?case by (simp add: printint_loop.simps [of ds b x])
next
  case (Suc k)
  have "0 < unat (base_num b)" by (cases b) simp_all
  then have "unat (x div base_num b) < unat (base_num b) ^ Suc k"
    using Suc.prems by (simp add: unat_base less_mult_imp_div_less mult.commute)
  from Suc.IH [OF this] show ?case by (simp add: printint_loop.simps [of ds b x])
qed

lemma unat_minus_neg: "sint xx < 0 \<Longrightarrow> int (unat (- xx)) = - sint xx" for xx :: u64
proof -
  assume neg: "sint xx < 0"
  have ge: "- (2 ^ 63) \<le> sint xx" using sint_greater_eq [of xx] by simp
  have "uint (- xx) = uint (word_of_int (- sint xx) :: u64)" by simp
  also have "\<dots> = - sint xx"
    unfolding uint_word_of_int_eq using neg ge by (intro take_bit_int_eq_self) simp_all
  finally show ?thesis by simp
qed

lemma sint_nonneg_uint: "0 \<le> sint xx \<Longrightarrow> sint xx = uint xx" for xx :: u64
proof -
  assume nn: "0 \<le> sint xx"
  have lt: "sint xx < 2 ^ 63" using sint_less [of xx] by simp
  have "uint xx = uint (word_of_int (sint xx) :: u64)" by simp
  also have "\<dots> = sint xx"
    unfolding uint_word_of_int_eq using nn lt by (intro take_bit_int_eq_self) simp_all
  finally show ?thesis by simp
qed

definition digit_val :: "string \<Rightarrow> char \<Rightarrow> nat" where
  "digit_val ds c = length (takeWhile (\<lambda>d. d \<noteq> c) ds)"

definition read_nat :: "string \<Rightarrow> base \<Rightarrow> string \<Rightarrow> nat" where
  "read_nat ds b cs = foldl (\<lambda>n c. n * unat (base_num b) + digit_val ds c) 0 cs"

definition read_int :: "string \<Rightarrow> base \<Rightarrow> string \<Rightarrow> int" where
  "read_int ds b cs =
     (if cs \<noteq> [] \<and> hd cs = CHR ''-'' then - int (read_nat ds b (tl cs)) else int (read_nat ds b cs))"

definition digit_table :: "string \<Rightarrow> bool" where
  "digit_table ds \<longleftrightarrow> distinct ds \<and> length ds = 16 \<and> CHR ''-'' \<notin> set ds"

lemma digit_table_k [simp]: "digit_table kdigits"
  by (simp add: digit_table_def kdigits_def)

lemma digit_table_u [simp]: "digit_table udigits"
  by (simp add: digit_table_def udigits_def)

lemma digit_val_nth: "distinct ds \<Longrightarrow> i < length ds \<Longrightarrow> digit_val ds (ds ! i) = i"
  unfolding digit_val_def
  by (subst takeWhile_eq_take_P_nth [of i]) (auto simp: nth_eq_iff_index_eq)

lemma read_nat_snoc:
  "read_nat ds b (cs @ [c]) = read_nat ds b cs * unat (base_num b) + digit_val ds c"
  by (simp add: read_nat_def)

lemma unat_mod_base: "unat (x mod base_num b) = unat x mod unat (base_num b)"
  by (cases b) (simp_all add: unat_mod)

lemma base_num_bound: "1 < unat (base_num b)" "unat (base_num b) \<le> 16"
  by (cases b; simp)+

lemma mod_base_less: "unat (x mod base_num b) < 16"
  unfolding unat_mod_base using base_num_bound [of b]
  by (intro less_le_trans [OF mod_less_divisor]) simp_all

lemma read_printint_loop:
  assumes "digit_table ds"
  shows "read_nat ds b (rev (printint_loop ds b x)) = unat x"
  using assms
proof (induction ds b x rule: printint_loop.induct)
  case (1 ds b x)
  have d: "digit_val ds (ds ! unat (x mod base_num b)) = unat (x mod base_num b)"
    using 1(2) mod_base_less [of x b] by (simp add: digit_table_def digit_val_nth)
  show ?case
  proof (cases "x div base_num b = 0")
    case True
    then have "unat x < unat (base_num b)"
      using base_num_bound(1) [of b] by (auto simp: word_unat_eq_iff unat_base div_eq_0_iff)
    then show ?thesis using True d
      by (simp add: printint_loop.simps [of ds b x] read_nat_def unat_mod_base)
  next
    case False
    then show ?thesis using 1 d
      by (simp add: printint_loop.simps [of ds b x] read_nat_snoc unat_base unat_mod_base)
  qed
qed

lemma printint_loop_set: "digit_table ds \<Longrightarrow> c \<in> set (printint_loop ds b x) \<Longrightarrow> c \<in> set ds"
proof (induction ds b x rule: printint_loop.induct)
  case (1 ds b x)
  then show ?case using mod_base_less [of x b]
    by (auto simp: printint_loop.simps [of ds b x] digit_table_def split: if_splits)
qed

lemma printint_loop_nonempty: "printint_loop ds b x \<noteq> []"
  by (simp add: printint_loop.simps [of ds b x])

lemma read_int_digits:
  assumes "digit_table ds"
  shows "read_int ds b (rev (printint_loop ds b x)) = uint x"
proof -
  have "hd (rev (printint_loop ds b x)) \<noteq> CHR ''-''"
    using printint_loop_set [OF assms] printint_loop_nonempty [of ds b x] assms
    by (metis digit_table_def list.set_sel(1) rev_is_Nil_conv set_rev)
  then show ?thesis by (simp add: read_int_def read_printint_loop [OF assms])
qed

text \<open>C31: the text \<^verbatim>\<open>printint\<close> prints, read back in its base, is the number it was given (as a
  signed 64-bit number when the sign is asked for, the most negative one included), and the digits
  and the sign never need more than the twenty bytes of \<^verbatim>\<open>buf\<close>.\<close>

theorem printint_read_back:
  assumes "digit_table ds"
  shows "read_int ds b (printint ds xx b sign) = (if sign then sint xx else uint xx) \<and>
    length (printint_buf ds xx b sign) \<le> 20"
proof
  show "read_int ds b (printint ds xx b sign) = (if sign then sint xx else uint xx)"
  proof (cases "sign \<and> sint xx < 0")
    case True
    then have "read_int ds b (printint ds xx b sign) = - int (unat (- xx))"
      by (simp add: printint_def printint_buf_def Let_def read_int_def read_printint_loop [OF assms])
    then show ?thesis using True by (simp only: unat_minus_neg) simp
  next
    case False
    then have "read_int ds b (printint ds xx b sign) = uint xx"
      by (auto simp: printint_def printint_buf_def Let_def read_int_digits [OF assms])
    then show ?thesis using False sint_nonneg_uint [of xx] by (auto simp: not_less)
  qed
  show "length (printint_buf ds xx b sign) \<le> 20"
  proof (cases "sign \<and> sint xx < 0")
    case True
    have "int (unat (- xx)) \<le> 2 ^ 63"
      unfolding unat_minus_neg [OF conjunct2 [OF True]] using sint_greater_eq [of xx] by simp
    then have "unat (- xx) \<le> 2 ^ 63" by (metis of_nat_le_iff of_nat_numeral of_nat_power)
    then have "length (printint_loop ds b (- xx)) \<le> Suc 18"
      by (intro printint_loop_length) (cases b, simp_all)
    then show ?thesis using True by (simp add: printint_buf_def Let_def)
  next
    case False
    have "unat xx < 18446744073709551616" by (rule less_le_trans [OF unsigned_less]) simp
    then have "length (printint_loop ds b xx) \<le> Suc 19"
      by (intro printint_loop_length) (cases b, simp_all)
    then show ?thesis using False by (auto simp: printint_buf_def Let_def)
  qed
qed

theorem printint_read_back_witness:
  "read_int kdigits Dec (printint kdigits 0x8000000000000000 Dec True) = - 9223372036854775808 \<and>
   length (printint_buf kdigits 0x8000000000000000 Dec True) \<le> 20"
  using printint_read_back [OF digit_table_k, of Dec "0x8000000000000000" True] by simp

section \<open>The kernel and the user library\<close>

text \<open>A character of the kernel's output and the one at the same place of the user library's.\<close>

definition same_char :: "char \<Rightarrow> char \<Rightarrow> bool" where
  "same_char c d \<longleftrightarrow> c = d \<or> (\<exists>i \<in> {10..<16}. c = kdigits ! i \<and> d = udigits ! i)"

lemma same_char_refl [simp]: "same_char c c"
  by (simp add: same_char_def)

lemma same_refl [simp]: "list_all2 same_char cs cs"
  by (simp add: list_all2_same)

lemma same_digit: "i < 16 \<Longrightarrow> same_char (kdigits ! i) (udigits ! i)"
proof (cases "i < 10")
  case True
  then have "i \<in> {0, 1, 2, 3, 4, 5, 6, 7, 8, 9}" by (simp, presburger)
  then show ?thesis by (auto simp: same_char_def kdigits_def udigits_def)
next
  case False
  assume "i < 16"
  with False show ?thesis unfolding same_char_def by (intro disjI2 bexI [of _ i]) simp_all
qed

lemma same_printint_loop: "list_all2 same_char (printint_loop kdigits b x) (printint_loop udigits b x)"
proof (induction kdigits b x rule: printint_loop.induct)
  case (1 b x)
  then show ?case using same_digit [OF mod_base_less]
    by (simp add: printint_loop.simps [of _ b x])
qed

lemma same_printint: "list_all2 same_char (printint kdigits x b sg) (printint udigits x b sg)"
  by (auto simp: printint_def printint_buf_def Let_def same_printint_loop intro!: list_all2_appendI simp del: rev_append)

lemma same_printptr: "list_all2 same_char (printptr kdigits x) (printptr udigits x)"
proof -
  have "unat (drop_bit 60 x) < 16" for x :: u64
  proof -
    have x: "unat x < 2 ^ 64" by (rule less_le_trans [OF unsigned_less]) simp
    have "unat (drop_bit 60 x) = unat x div 2 ^ 60"
      by (simp only: unsigned_drop_bit_eq) (use x in \<open>simp add: drop_bit_eq_div take_bit_nat_eq_self\<close>)
    with x show ?thesis by (simp add: less_mult_imp_div_less)
  qed
  then have "list_all2 same_char (printptr_loop kdigits n x) (printptr_loop udigits n x)" for n x
    by (induction n arbitrary: x) (simp_all add: same_digit)
  then show ?thesis by (simp add: printptr_def)
qed

definition no_backspace :: "varg list \<Rightarrow> bool" where
  "no_backspace ap \<longleftrightarrow> (\<forall>v. Vint v \<in> set ap \<longrightarrow> (ucast v :: u32) \<noteq> 0x100)"

lemma same_va_int:
  assumes "no_backspace ap" "\<And>v. (ucast v :: u32) \<noteq> 0x100 \<Longrightarrow> list_all2 same_char (f v) (g v)"
  shows "rel_option (rel_prod (list_all2 same_char) (=)) (va_int f ap) (va_int g ap)"
  using assms by (cases "(f, ap)" rule: va_int.cases) (auto simp: no_backspace_def)

lemma va_str_refl: "rel_option (rel_prod (list_all2 same_char) (=)) (va_str ap) (va_str ap)"
  by (cases ap rule: va_str.cases) simp_all

lemma same_byte: "(ucast (ucast v :: u32) :: u8) = ucast (v :: u64)"
  by (rule bit_word_eqI) (auto simp: bit_simps)

text \<open>The two chains take the same branch.\<close>

lemma same_conv:
  assumes "no_backspace ap"
  shows "rel_option (rel_prod (list_all2 same_char) (=)) (fst (kconv c0 c1 c2 ap)) (fst (uconv c0 c1 c2 ap)) \<and>
    snd (kconv c0 c1 c2 ap) = snd (uconv c0 c1 c2 ap)"
  unfolding kconv_def uconv_def
  by (simp add: same_va_int [OF assms] same_printint same_printptr va_str_refl consputc_text_def same_byte)

lemma va_rest: "va_int f ap = Some (out, ap') \<or> va_str ap = Some (out, ap') \<Longrightarrow> set ap' \<subseteq> set ap"
  by (cases "(f, ap)" rule: va_int.cases; cases ap rule: va_str.cases) auto

lemma kconv_rest: "kconv c0 c1 c2 ap = (Some (out, ap'), k) \<Longrightarrow> set ap' \<subseteq> set ap"
  unfolding kconv_def by (auto split: if_splits dest: va_rest [OF disjI1] va_rest [OF disjI2])

lemma same_fmt: "no_backspace ap \<Longrightarrow> rel_option (list_all2 same_char) (kfmt fmt ap) (ufmt False fmt ap)"
proof (induction fmt ap rule: kfmt.induct)
  case (2 cx f ap)
  then show ?case by (auto simp: option.rel_map intro: option.rel_mono_strong)
next
  case (4 c0 f ap)
  obtain r k where kc: "kconv c0 (char_at f 0) (char_at f 1) ap = (r, k)" by fastforce
  obtain q where uc: "uconv c0 (char_at f 0) (char_at f 1) ap = (q, k)"
    and rel: "rel_option (rel_prod (list_all2 same_char) (=)) r q"
    using same_conv [OF 4(2), of c0 "char_at f 0" "char_at f 1"] kc by (metis fst_conv prod.collapse snd_conv)
  show ?case
  proof (cases r)
    case None
    then show ?thesis using kc uc rel by simp
  next
    case (Some oa)
    then obtain out ap' out' where o: "r = Some (out, ap')" "q = Some (out', ap')" "list_all2 same_char out out'"
      using rel by (cases oa) (auto simp: option_rel_Some1)
    have "no_backspace ap'" using kconv_rest [OF kc [unfolded o]] 4(2) by (auto simp: no_backspace_def)
    then have "rel_option (list_all2 same_char) (kfmt (drop k f) ap') (ufmt False (drop k f) ap')"
      by (rule 4(1) [OF kc [symmetric] o(1) refl])
    then show ?thesis using kc uc o(1, 2)
      by (auto simp: option.rel_map intro!: list_all2_appendI o(3) elim: option.rel_mono_strong)
  qed
qed auto

text \<open>C30: the kernel's \<^verbatim>\<open>printf\<close> and the user library's \<^verbatim>\<open>printf\<close>, two separately written loops and chains
  of conversions, print the same text for every format and arguments, except that a hexadecimal digit
  above 9 is a lower-case letter in the one and the same upper-case letter in the other; both ask for
  the same arguments.  The kernel's \<^verbatim>\<open>%c\<close> treats the value 0x100 as a backspace, so no argument may be
  that value.\<close>

theorem printf_kernel_eq_user:
  assumes "\<forall>v. Vint v \<in> set ap \<longrightarrow> (ucast v :: u32) \<noteq> 0x100"
  shows "rel_option (list_all2 same_char) (kprintf_text fmt ap) (vprintf_text fmt ap)"
  using same_fmt [of ap fmt] assms by (simp add: kprintf_text_def vprintf_text_def no_backspace_def)

lemma printf_case_example:
  "kprintf_text ''%x%'' [Vint 0xbeef] = Some ''beef''" "vprintf_text ''%x%'' [Vint 0xbeef] = Some ''BEEF''"
  by code_simp+

theorem printf_kernel_eq_user_witness:
  "\<exists>k u. kprintf_text ''%x%'' [Vint 0xbeef] = Some k \<and> vprintf_text ''%x%'' [Vint 0xbeef] = Some u \<and>
     list_all2 same_char k u \<and> k \<noteq> u"
  using printf_kernel_eq_user [of "[Vint 0xbeef]" "''%x%''"] by (simp add: printf_case_example)

end
