(* ===== verification/Locks.thy ===== *)
theory Locks
  imports Prelude Printf
begin

text \<open>
  The locks of the kernel and the part of the kernel state every function shares.

  A kernel function runs on one processor.  What it observes of a spin lock is whether its own
  processor holds it: \<open>held\<close> is the set of locks the running processor holds, which is what
  \<^verbatim>\<open>holding()\<close> reads, and its size is the nesting depth \<^verbatim>\<open>mycpu()->noff\<close>.
  \<open>acquire\<close> and \<open>release\<close> have the two panics of \<^verbatim>\<open>kernel/spinlock.c\<close>.  The theory \<open>Spinlock\<close>
  models that file itself (the atomic swap, the per-processor interrupt nesting) on several
  processors and shows that it implements these two operations.
\<close>

section \<open>Lock and channel identities\<close>

text \<open>Sleep locks sit in the buffers (\<^verbatim>\<open>b->lock\<close>) and in the in-memory inodes (\<^verbatim>\<open>ip->lock\<close>).\<close>

datatype slock = Slock_buf nat | Slock_inode nat

datatype lock =
    Lkmem | Lpid | Lwait | Lproc nat | Lshm nat | Lticks
  | Lkmutex nat | Lksem nat | Lpipe u64 | Lftable | Litable | Lbcache | Llog
  | Lsleep slock | Lcons | Ltx | Lvdisk | Lpr

text \<open>A sleep channel is the address of a kernel object; only its identity matters.\<close>

datatype chan =
    Chan_proc nat | Chan_ticks | Chan_kmutex nat | Chan_ksem nat
  | Chan_nread u64 | Chan_nwrite u64 | Chan_slock slock | Chan_log
  | Chan_cons | Chan_tx | Chan_diskfree | Chan_buf nat

section \<open>State of the running processor\<close>

record kbase =
  held :: "lock set"         \<comment> \<open>spin locks the running processor holds\<close>
  cproc :: "nat option"      \<comment> \<open>\<^verbatim>\<open>mycpu()->proc\<close>: index into the process table\<close>
  klog :: "string list"      \<comment> \<open>what \<^verbatim>\<open>printf\<close> has printed, newest first\<close>

text \<open>Concrete states for the examples: each layer of the state adds its fields to those below.\<close>

named_theorems blank \<open>definitions of the example states\<close>

definition blank_base :: "'a \<Rightarrow> 'a kbase_scheme" where
  [blank]: "blank_base x = \<lparr>held = {}, cproc = Some 0, klog = [], \<dots> = x\<rparr>"

definition acquire :: "lock \<Rightarrow> ('a kbase_scheme, unit) km" where
  "acquire l s = (if l \<in> held s then Panic ''acquire'' else Ret () (s\<lparr>held := insert l (held s)\<rparr>))"

definition release :: "lock \<Rightarrow> ('a kbase_scheme, unit) km" where
  "release l s = (if l \<in> held s then Ret () (s\<lparr>held := held s - {l}\<rparr>) else Panic ''release'')"

text \<open>\<^verbatim>\<open>printf\<close> outside a panic: the text goes to the console under \<^verbatim>\<open>pr.lock\<close>.\<close>

definition kprintf :: "string \<Rightarrow> varg list \<Rightarrow> ('a kbase_scheme, unit) km" where
  "kprintf fmt ap =
     kthen (acquire Lpr)
     (kthen (case kprintf_text fmt ap of
               Some t \<Rightarrow> kmod (\<lambda>s. s\<lparr>klog := t # klog s\<rparr>)
             | None \<Rightarrow> kpanic ''kerneltrap'')
     (release Lpr))"

definition myproc :: "('a kbase_scheme, nat option) km" where
  "myproc = kget cproc"

text \<open>\<^verbatim>\<open>myproc()->x\<close> in a function that only runs on behalf of a process: with no process the
  dereference of the null pointer is a kernel page fault, which \<^verbatim>\<open>kerneltrap()\<close> turns into a
  panic.\<close>

definition curproc :: "('a kbase_scheme, nat) km" where
  "curproc = kbind myproc (\<lambda>p. case p of Some i \<Rightarrow> kret i | None \<Rightarrow> kpanic ''kerneltrap'')"

lemma acquire_free [kmonad]:
  "l \<notin> held s \<Longrightarrow> acquire l s = Ret () (s\<lparr>held := insert l (held s)\<rparr>)"
  by (simp add: acquire_def)

lemma acquire_again [kmonad]: "l \<in> held s \<Longrightarrow> acquire l s = Panic ''acquire''"
  by (simp add: acquire_def)

lemma release_held [kmonad]:
  "l \<in> held s \<Longrightarrow> release l s = Ret () (s\<lparr>held := held s - {l}\<rparr>)"
  by (simp add: release_def)

lemma release_not_held [kmonad]: "l \<notin> held s \<Longrightarrow> release l s = Panic ''release''"
  by (simp add: release_def)

lemma kprintf_eval [kmonad]:
  "Lpr \<notin> held s \<Longrightarrow> kprintf_text fmt ap = Some t \<Longrightarrow> kprintf fmt ap s = Ret () (s\<lparr>klog := t # klog s\<rparr>)"
  by (cases s) (simp add: kprintf_def kmonad)

lemma myproc_eval [kmonad]: "myproc s = Ret (cproc s) s"
  by (simp add: myproc_def kmonad)

lemma curproc_eval [kmonad]: "cproc s = Some p \<Longrightarrow> curproc s = Ret p s"
  by (simp add: curproc_def kmonad)

lemma curproc_none [kmonad]: "cproc s = None \<Longrightarrow> curproc s = Panic ''kerneltrap''"
  by (simp add: curproc_def kmonad)

end
