(* ===== verification/Spinlock.thy ===== *)
theory Spinlock
  imports Locks
begin

text \<open>
  \<^verbatim>\<open>kernel/spinlock.c\<close> on several processors (harts).  Each hart has the interrupt-enable bit of
  its \<^verbatim>\<open>sstatus\<close>, the nesting depth \<^verbatim>\<open>noff\<close> and the saved \<^verbatim>\<open>intena\<close>; each lock has the word the
  atomic swap works on and the recorded holder.  The bodies of \<^verbatim>\<open>acquire()\<close> and \<^verbatim>\<open>release()\<close> are
  cut at the atomic swap and at the store to \<^verbatim>\<open>lk->cpu\<close>, the points where another hart can
  intervene, and the pieces are the rules of a step relation.
\<close>

section \<open>State\<close>

record splock =
  locked :: u32
  lkname :: string
  lkcpu :: "nat option"

record hart =
  intr :: bool      \<comment> \<open>\<^verbatim>\<open>intr_get()\<close>\<close>
  noff :: int
  intena :: bool

text \<open>Where a hart is inside \<^verbatim>\<open>acquire()\<close> or \<^verbatim>\<open>release()\<close>.\<close>

datatype lockpc = Run | Spin lock | Took lock | Dropping lock

text \<open>\<open>cs h\<close> is the history of the callers: the locks for which hart \<open>h\<close> has returned from
  \<^verbatim>\<open>acquire()\<close> and not yet called \<^verbatim>\<open>release()\<close>.\<close>

record smp =
  harts :: "nat \<Rightarrow> hart"
  lks :: "lock \<Rightarrow> splock"
  pcs :: "nat \<Rightarrow> lockpc"
  cs :: "nat \<Rightarrow> lock set"

section \<open>Operations\<close>

definition upd_hart :: "nat \<Rightarrow> (hart \<Rightarrow> hart) \<Rightarrow> smp \<Rightarrow> smp" where
  "upd_hart h f s = s\<lparr>harts := (harts s)(h := f (harts s h))\<rparr>"

definition upd_lk :: "lock \<Rightarrow> (splock \<Rightarrow> splock) \<Rightarrow> smp \<Rightarrow> smp" where
  "upd_lk l f s = s\<lparr>lks := (lks s)(l := f (lks s l))\<rparr>"

definition initlock :: "lock \<Rightarrow> string \<Rightarrow> smp \<Rightarrow> smp" where
  "initlock l name = upd_lk l (\<lambda>k. k\<lparr>lkname := name, locked := 0, lkcpu := None\<rparr>)"

definition holding :: "nat \<Rightarrow> lock \<Rightarrow> smp \<Rightarrow> bool" where
  "holding h l s \<longleftrightarrow> locked (lks s l) \<noteq> 0 \<and> lkcpu (lks s l) = Some h"

definition push_off :: "nat \<Rightarrow> (smp, unit) km" where
  "push_off h =
     kbind (kget (\<lambda>s. intr (harts s h))) (\<lambda>old.
     kthen (kmod (upd_hart h (\<lambda>c. c\<lparr>intr := False\<rparr>)))
     (kthen (kbind (kget (\<lambda>s. noff (harts s h))) (\<lambda>n.
        kwhen (n = 0) (kmod (upd_hart h (\<lambda>c. c\<lparr>intena := old\<rparr>)))))
     (kmod (upd_hart h (\<lambda>c. c\<lparr>noff := noff c + 1\<rparr>)))))"

definition pop_off :: "nat \<Rightarrow> (smp, unit) km" where
  "pop_off h =
     kbind (kget (\<lambda>s. harts s h)) (\<lambda>c.
     if intr c then kpanic ''pop_off - interruptible''
     else if noff c < 1 then kpanic ''pop_off''
     else
     kthen (kmod (upd_hart h (\<lambda>c. c\<lparr>noff := noff c - 1\<rparr>)))
     (kbind (kget (\<lambda>s. harts s h)) (\<lambda>c.
     kwhen (noff c = 0 \<and> intena c) (kmod (upd_hart h (\<lambda>c. c\<lparr>intr := True\<rparr>))))))"

text \<open>The first part of \<^verbatim>\<open>acquire()\<close>, up to the spin loop.\<close>

definition acquire_enter :: "nat \<Rightarrow> lock \<Rightarrow> (smp, unit) km" where
  "acquire_enter h l =
     kthen (push_off h)
     (kbind (kget (holding h l)) (\<lambda>b. if b then kpanic ''acquire'' else kret ()))"

text \<open>\<^verbatim>\<open>__sync_lock_test_and_set(&lk->locked, 1)\<close>: the old value, and the word becomes 1.\<close>

definition test_and_set :: "lock \<Rightarrow> (smp, u32) km" where
  "test_and_set l =
     kbind (kget (\<lambda>s. locked (lks s l))) (\<lambda>old.
     kthen (kmod (upd_lk l (\<lambda>k. k\<lparr>locked := 1\<rparr>))) (kret old))"

definition acquire_exit :: "nat \<Rightarrow> lock \<Rightarrow> (smp, unit) km" where
  "acquire_exit h l = kmod (upd_lk l (\<lambda>k. k\<lparr>lkcpu := Some h\<rparr>))"

definition release_enter :: "nat \<Rightarrow> lock \<Rightarrow> (smp, unit) km" where
  "release_enter h l =
     kbind (kget (holding h l)) (\<lambda>b.
     if \<not> b then kpanic ''release'' else kmod (upd_lk l (\<lambda>k. k\<lparr>lkcpu := None\<rparr>)))"

definition release_exit :: "nat \<Rightarrow> lock \<Rightarrow> (smp, unit) km" where
  "release_exit h l = kthen (kmod (upd_lk l (\<lambda>k. k\<lparr>locked := 0\<rparr>))) (pop_off h)"

definition setpc :: "nat \<Rightarrow> lockpc \<Rightarrow> smp \<Rightarrow> smp" where
  "setpc h p s = s\<lparr>pcs := (pcs s)(h := p)\<rparr>"

definition setcs :: "nat \<Rightarrow> lock set \<Rightarrow> smp \<Rightarrow> smp" where
  "setcs h L s = s\<lparr>cs := (cs s)(h := L)\<rparr>"

inductive sp_step :: "smp \<Rightarrow> smp \<Rightarrow> bool" where
  sp_acquire: "pcs s h = Run \<Longrightarrow> acquire_enter h l s = Ret () t \<Longrightarrow> sp_step s (setpc h (Spin l) t)"
| sp_spin: "pcs s h = Spin l \<Longrightarrow> test_and_set l s = Ret v t \<Longrightarrow> v \<noteq> 0 \<Longrightarrow> sp_step s t"
| sp_took: "pcs s h = Spin l \<Longrightarrow> test_and_set l s = Ret 0 t \<Longrightarrow> sp_step s (setpc h (Took l) t)"
| sp_owned: "pcs s h = Took l \<Longrightarrow> acquire_exit h l s = Ret () t \<Longrightarrow>
     sp_step s (setcs h (insert l (cs s h)) (setpc h Run t))"
| sp_release: "pcs s h = Run \<Longrightarrow> release_enter h l s = Ret () t \<Longrightarrow>
     sp_step s (setcs h (cs s h - {l}) (setpc h (Dropping l) t))"
| sp_dropped: "pcs s h = Dropping l \<Longrightarrow> release_exit h l s = Ret () t \<Longrightarrow>
     sp_step s (setpc h Run t)"
| sp_intr: "pcs s h = Run \<Longrightarrow> noff (harts s h) = 0 \<Longrightarrow>
     sp_step s (upd_hart h (\<lambda>c. c\<lparr>intr := b\<rparr>) s)"

definition sp_init :: "smp \<Rightarrow> bool" where
  "sp_init s \<longleftrightarrow>
     (\<forall>l. locked (lks s l) = 0 \<and> lkcpu (lks s l) = None) \<and>
     (\<forall>h. noff (harts s h) = 0 \<and> pcs s h = Run \<and> cs s h = {})"

section \<open>Invariant\<close>

definition owns :: "smp \<Rightarrow> nat \<Rightarrow> lock \<Rightarrow> bool" where
  "owns s h l \<longleftrightarrow> l \<in> cs s h \<or> pcs s h = Took l \<or> pcs s h = Dropping l"

definition depth :: "smp \<Rightarrow> nat \<Rightarrow> int" where
  "depth s h = int (card (cs s h)) + (if pcs s h = Run then 0 else 1)"

definition sp_own :: "smp \<Rightarrow> bool" where
  "sp_own s \<longleftrightarrow>
     (\<forall>h l. owns s h l \<longrightarrow> locked (lks s l) \<noteq> 0) \<and>
     (\<forall>h k l. owns s h l \<longrightarrow> owns s k l \<longrightarrow> h = k) \<and>
     (\<forall>h l. l \<in> cs s h \<longleftrightarrow> lkcpu (lks s l) = Some h) \<and>
     (\<forall>h l. pcs s h = Took l \<or> pcs s h = Dropping l \<longrightarrow> l \<notin> cs s h)"

definition sp_irq :: "smp \<Rightarrow> bool" where
  "sp_irq s \<longleftrightarrow>
     (\<forall>h. finite (cs s h) \<and> noff (harts s h) = depth s h \<and>
          (0 < noff (harts s h) \<longrightarrow> \<not> intr (harts s h)))"

definition sp_inv :: "smp \<Rightarrow> bool" where
  "sp_inv s \<longleftrightarrow> sp_own s \<and> sp_irq s"

lemmas sp_defs = upd_hart_def upd_lk_def setpc_def setcs_def holding_def
  push_off_def pop_off_def acquire_enter_def test_and_set_def acquire_exit_def
  release_enter_def release_exit_def

lemma push_off_eval:
  "push_off h s = Ret () (upd_hart h (\<lambda>c. c\<lparr>intr := False,
      intena := (if noff c = 0 then intr c else intena c), noff := noff c + 1\<rparr>) s)"
  by (auto simp: push_off_def kmonad upd_hart_def)

lemma pop_off_eval:
  "\<not> intr (harts s h) \<Longrightarrow> 1 \<le> noff (harts s h) \<Longrightarrow>
   pop_off h s = Ret () (upd_hart h (\<lambda>c. if noff c = 1 \<and> intena c
      then c\<lparr>noff := noff c - 1, intr := True\<rparr> else c\<lparr>noff := noff c - 1\<rparr>) s)"
  by (auto simp: pop_off_def kmonad upd_hart_def)

lemma sp_own_cong: "cs t = cs s \<Longrightarrow> pcs t = pcs s \<Longrightarrow> lks t = lks s \<Longrightarrow> sp_own t = sp_own s"
  by (simp add: sp_own_def owns_def)

lemma sp_init_inv: "sp_init s \<Longrightarrow> sp_inv s"
  by (auto simp: sp_init_def sp_inv_def sp_own_def sp_irq_def owns_def depth_def)

lemma acquire_enter_Ret:
  "acquire_enter h l s = Ret () t \<longleftrightarrow>
     \<not> holding h l s \<and> push_off h s = Ret () t"
  by (auto simp: acquire_enter_def kmonad push_off_eval holding_def upd_hart_def)

lemma test_and_set_eval:
  "test_and_set l s = Ret (locked (lks s l)) (upd_lk l (\<lambda>k. k\<lparr>locked := 1\<rparr>) s)"
  by (simp add: test_and_set_def kmonad)

lemma acquire_exit_eval: "acquire_exit h l s = Ret () (upd_lk l (\<lambda>k. k\<lparr>lkcpu := Some h\<rparr>) s)"
  by (simp add: acquire_exit_def kmonad)

lemma release_enter_Ret:
  "release_enter h l s = Ret () t \<longleftrightarrow>
     holding h l s \<and> t = upd_lk l (\<lambda>k. k\<lparr>lkcpu := None\<rparr>) s"
  by (auto simp: release_enter_def kmonad)

lemma sp_acquire_inv:
  assumes inv: "sp_inv s" and pc: "pcs s h = Run" and en: "acquire_enter h l s = Ret () t"
  shows "sp_inv (setpc h (Spin l) t)"
proof -
  have t: "t = upd_hart h (\<lambda>c. c\<lparr>intr := False,
      intena := (if noff c = 0 then intr c else intena c), noff := noff c + 1\<rparr>) s"
    using en by (simp add: acquire_enter_Ret push_off_eval)
  have "sp_own (setpc h (Spin l) t)"
    using inv pc unfolding sp_inv_def sp_own_def t
    by (auto simp: upd_hart_def setpc_def owns_def split: if_splits)
  moreover have "sp_irq (setpc h (Spin l) t)"
    using inv pc by (simp add: sp_inv_def sp_irq_def t upd_hart_def setpc_def depth_def)
  ultimately show ?thesis by (simp add: sp_inv_def)
qed

lemma sp_spin_inv:
  assumes inv: "sp_inv s" and tas: "test_and_set l s = Ret v t" and old: "v \<noteq> 0"
  shows "sp_inv t"
proof -
  have t: "t = upd_lk l (\<lambda>k. k\<lparr>locked := 1\<rparr>) s"
    using tas by (simp add: test_and_set_eval)
  have "sp_own t"
    using inv unfolding sp_inv_def sp_own_def t
    by (auto simp: upd_lk_def owns_def split: if_splits)
  moreover have "sp_irq t"
    using inv by (simp add: sp_inv_def sp_irq_def t upd_lk_def depth_def)
  ultimately show ?thesis by (simp add: sp_inv_def)
qed

lemma sp_took_inv:
  assumes inv: "sp_inv s" and pc: "pcs s h = Spin l" and tas: "test_and_set l s = Ret 0 t"
  shows "sp_inv (setpc h (Took l) t)"
proof -
  have t: "t = upd_lk l (\<lambda>k. k\<lparr>locked := 1\<rparr>) s" and free: "locked (lks s l) = 0"
    using tas by (auto simp: test_and_set_eval)
  have nobody: "\<forall>k. \<not> owns s k l"
    using inv free unfolding sp_inv_def sp_own_def by blast
  then have "sp_own (setpc h (Took l) t)"
    using inv pc unfolding sp_inv_def sp_own_def t
    by (auto simp: upd_lk_def setpc_def owns_def split: if_splits)
  moreover have "sp_irq (setpc h (Took l) t)"
    using inv pc by (simp add: sp_inv_def sp_irq_def t upd_lk_def setpc_def depth_def)
  ultimately show ?thesis by (simp add: sp_inv_def)
qed

lemma sp_owned_inv:
  assumes inv: "sp_inv s" and pc: "pcs s h = Took l" and ex: "acquire_exit h l s = Ret () t"
  shows "sp_inv (setcs h (insert l (cs s h)) (setpc h Run t))"
proof -
  have t: "t = upd_lk l (\<lambda>k. k\<lparr>lkcpu := Some h\<rparr>) s"
    using ex by (simp add: acquire_exit_eval)
  have sole: "\<forall>k. owns s k l \<longrightarrow> k = h" and new: "l \<notin> cs s h"
    using inv pc unfolding sp_inv_def sp_own_def owns_def by blast+
  let ?u = "setcs h (insert l (cs s h)) (setpc h Run t)"
  have own: "owns ?u = owns s"
    using pc by (auto simp: fun_eq_iff owns_def t upd_lk_def setpc_def setcs_def)
  have lk: "locked (lks ?u m) = locked (lks s m)" for m
    by (simp add: t upd_lk_def setpc_def setcs_def)
  have cpu: "m \<in> cs ?u k \<longleftrightarrow> lkcpu (lks ?u m) = Some k" for m k
    using inv sole by (auto simp: sp_inv_def sp_own_def owns_def t upd_lk_def setpc_def setcs_def)
  have pcs: "pcs ?u k = Took m \<or> pcs ?u k = Dropping m \<Longrightarrow> m \<notin> cs ?u k" for m k
    using inv by (auto simp: sp_inv_def sp_own_def t upd_lk_def setpc_def setcs_def split: if_splits)
  have "sp_own ?u"
    using inv lk cpu pcs by (simp add: sp_inv_def sp_own_def own)
  moreover have "sp_irq (setcs h (insert l (cs s h)) (setpc h Run t))"
    using inv pc new
    by (simp add: sp_inv_def sp_irq_def t upd_lk_def setpc_def setcs_def depth_def)
  ultimately show ?thesis by (simp add: sp_inv_def)
qed

lemma sp_release_inv:
  assumes inv: "sp_inv s" and pc: "pcs s h = Run" and en: "release_enter h l s = Ret () t"
  shows "sp_inv (setcs h (cs s h - {l}) (setpc h (Dropping l) t))"
proof -
  have t: "t = upd_lk l (\<lambda>k. k\<lparr>lkcpu := None\<rparr>) s" and hold: "holding h l s"
    using en by (auto simp: release_enter_Ret)
  have mine: "l \<in> cs s h" and fin: "finite (cs s h)"
    using inv hold by (auto simp: sp_inv_def sp_own_def sp_irq_def holding_def)
  have card: "card (cs s h) = Suc (card (cs s h - {l}))"
    using card_Suc_Diff1 [OF fin mine] by (rule sym)
  have sole: "\<forall>k. owns s k l \<longrightarrow> k = h"
    using inv mine unfolding sp_inv_def sp_own_def owns_def by blast
  let ?u = "setcs h (cs s h - {l}) (setpc h (Dropping l) t)"
  have own: "owns ?u = owns s"
    using pc mine by (auto simp: fun_eq_iff owns_def t upd_lk_def setpc_def setcs_def)
  have lk: "locked (lks ?u m) = locked (lks s m)" for m
    by (simp add: t upd_lk_def setpc_def setcs_def)
  have cpu: "m \<in> cs ?u k \<longleftrightarrow> lkcpu (lks ?u m) = Some k" for m k
    using inv sole by (auto simp: sp_inv_def sp_own_def owns_def t upd_lk_def setpc_def setcs_def)
  have pcs: "pcs ?u k = Took m \<or> pcs ?u k = Dropping m \<Longrightarrow> m \<notin> cs ?u k" for m k
    using inv by (auto simp: sp_inv_def sp_own_def t upd_lk_def setpc_def setcs_def split: if_splits)
  have "sp_own ?u"
    using inv lk cpu pcs by (simp add: sp_inv_def sp_own_def own)
  moreover have "sp_irq (setcs h (cs s h - {l}) (setpc h (Dropping l) t))"
    using inv pc card by (simp add: sp_inv_def sp_irq_def t upd_lk_def setpc_def setcs_def depth_def)
  ultimately show ?thesis by (simp add: sp_inv_def)
qed

lemma release_exit_Ret:
  assumes inv: "sp_inv s" and pc: "pcs s h = Dropping l"
  shows "release_exit h l s = Ret () (upd_hart h (\<lambda>c. if noff c = 1 \<and> intena c
      then c\<lparr>noff := noff c - 1, intr := True\<rparr> else c\<lparr>noff := noff c - 1\<rparr>)
      (upd_lk l (\<lambda>k. k\<lparr>locked := 0\<rparr>) s))"
proof -
  have "noff (harts s h) = int (card (cs s h)) + 1" and "0 < noff (harts s h) \<longrightarrow> \<not> intr (harts s h)"
    using inv pc by (auto simp: sp_inv_def sp_irq_def depth_def)
  then show ?thesis
    by (simp add: release_exit_def kmonad pop_off_eval upd_lk_def)
qed

lemma sp_dropped_inv:
  assumes inv: "sp_inv s" and pc: "pcs s h = Dropping l" and ex: "release_exit h l s = Ret () t"
  shows "sp_inv (setpc h Run t)"
proof -
  note t = release_exit_Ret [OF inv pc, unfolded ex, simplified]
  have sole: "\<forall>k. owns s k l \<longrightarrow> k = h"
    using inv pc unfolding sp_inv_def sp_own_def owns_def by blast
  have "sp_own (setpc h Run t)"
    using inv pc sole unfolding sp_inv_def sp_own_def t
    by (auto simp: upd_hart_def upd_lk_def setpc_def owns_def split: if_splits)
  moreover have "sp_irq (setpc h Run t)"
    unfolding sp_irq_def
  proof
    fix k
    have k: "finite (cs s k) \<and> noff (harts s k) = depth s k \<and>
        (0 < noff (harts s k) \<longrightarrow> \<not> intr (harts s k))"
      using inv by (simp add: sp_inv_def sp_irq_def)
    have same: "cs (setpc h Run t) k = cs s k"
      by (simp add: t upd_hart_def upd_lk_def setpc_def)
    show "finite (cs (setpc h Run t) k) \<and> noff (harts (setpc h Run t) k) = depth (setpc h Run t) k \<and>
        (0 < noff (harts (setpc h Run t) k) \<longrightarrow> \<not> intr (harts (setpc h Run t) k))"
    proof (cases "k = h")
      case True
      have "noff (harts (setpc h Run t) h) = noff (harts s h) - 1"
        and "0 < noff (harts s h) - 1 \<Longrightarrow> intr (harts (setpc h Run t) h) = intr (harts s h)"
        by (auto simp: t upd_hart_def upd_lk_def setpc_def)
      with k pc True same show ?thesis by (simp add: depth_def) (simp add: setpc_def)
    next
      case False
      then have "harts (setpc h Run t) k = harts s k" "pcs (setpc h Run t) k = pcs s k"
        by (auto simp: t upd_hart_def upd_lk_def setpc_def)
      with k same show ?thesis by (simp add: depth_def)
    qed
  qed
  ultimately show ?thesis by (simp add: sp_inv_def)
qed

lemma sp_intr_inv:
  assumes inv: "sp_inv s" and pc: "pcs s h = Run" and "noff (harts s h) = 0"
  shows "sp_inv (upd_hart h (\<lambda>c. c\<lparr>intr := b\<rparr>) s)" (is "sp_inv ?t")
proof -
  have "sp_own ?t"
    using inv sp_own_cong [of ?t s] by (simp add: sp_inv_def upd_hart_def)
  moreover have "sp_irq ?t"
    using assms by (simp add: sp_inv_def sp_irq_def upd_hart_def depth_def)
  ultimately show ?thesis by (simp add: sp_inv_def)
qed

lemma sp_step_inv:
  assumes "sp_step s t" and "sp_inv s"
  shows "sp_inv t"
  using assms
proof cases
  case (sp_acquire h l t')
  with assms(2) show ?thesis by (simp add: sp_acquire_inv)
next
  case (sp_spin h l v)
  with assms(2) show ?thesis by (simp add: sp_spin_inv)
next
  case (sp_took h l t')
  with assms(2) show ?thesis by (simp add: sp_took_inv)
next
  case (sp_owned h l t')
  with assms(2) show ?thesis by (simp add: sp_owned_inv)
next
  case (sp_release h l t')
  with assms(2) show ?thesis by (simp add: sp_release_inv)
next
  case (sp_dropped h l t')
  with assms(2) show ?thesis by (simp add: sp_dropped_inv)
next
  case (sp_intr h b)
  with assms(2) show ?thesis by (simp add: sp_intr_inv)
qed

interpretation sp: inv_system sp_init sp_step sp_inv
  by unfold_locales (erule sp_init_inv, erule (1) sp_step_inv [rotated])

text \<open>The \<open>held\<close> set of the theory \<open>Locks\<close>, read off the fields the code has: the locks for which
  \<^verbatim>\<open>holding()\<close> answers yes on hart \<open>h\<close>.\<close>

definition sp_abs :: "nat \<Rightarrow> smp \<Rightarrow> kbase" where
  "sp_abs h s = \<lparr>held = {l. holding h l s}, cproc = None, klog = []\<rparr>"

lemma sp_abs_cs: "sp_inv s \<Longrightarrow> sp_abs h s = \<lparr>held = cs s h, cproc = None, klog = []\<rparr>"
  by (auto simp: sp_abs_def sp_inv_def sp_own_def owns_def holding_def)

lemma sp_owned_abs:
  assumes inv: "sp_inv s" and pc: "pcs s h = Took l"
  shows "acquire_exit h l s = Ret () (upd_lk l (\<lambda>k. k\<lparr>lkcpu := Some h\<rparr>) s)"
    and "acquire l (sp_abs h s) = Ret () (sp_abs h (upd_lk l (\<lambda>k. k\<lparr>lkcpu := Some h\<rparr>) s))"
proof -
  show "acquire_exit h l s = Ret () (upd_lk l (\<lambda>k. k\<lparr>lkcpu := Some h\<rparr>) s)" by (rule acquire_exit_eval)
  have "\<not> holding h l s" "locked (lks s l) \<noteq> 0"
    using inv pc by (auto simp: sp_inv_def sp_own_def owns_def holding_def)
  then show "acquire l (sp_abs h s) = Ret () (sp_abs h (upd_lk l (\<lambda>k. k\<lparr>lkcpu := Some h\<rparr>) s))"
    by (auto simp: acquire_def sp_abs_def holding_def upd_lk_def)
qed

lemma sp_release_abs:
  "release l (sp_abs h s) = (case release_enter h l s of Ret _ t \<Rightarrow> Ret () (sp_abs h t) | Panic e \<Rightarrow> Panic e | Sched t \<Rightarrow> Sched (sp_abs h t))"
  by (auto simp: release_def sp_abs_def release_enter_def kmonad holding_def upd_lk_def)

lemma sp_step_cs:
  assumes inv: "sp_inv s" and "sp_step s t"
  shows "cs t h = cs s h \<or>
    (\<exists>l. pcs s h = Took l \<and> pcs t h = Run \<and> l \<notin> cs s h \<and> cs t h = insert l (cs s h)) \<or>
    (\<exists>l. pcs s h = Run \<and> pcs t h = Dropping l \<and> l \<in> cs s h \<and> cs t h = cs s h - {l})"
  using assms(2)
proof cases
  case (sp_owned k l t')
  have "l \<notin> cs s k" using inv sp_owned(2) by (auto simp: sp_inv_def sp_own_def)
  with sp_owned show ?thesis by (auto simp: setcs_def setpc_def acquire_exit_eval upd_lk_def)
next
  case (sp_release k l t')
  have "l \<in> cs s k"
    using inv sp_release(3) by (auto simp: sp_inv_def sp_own_def release_enter_Ret holding_def)
  with sp_release show ?thesis by (auto simp: setcs_def setpc_def release_enter_Ret upd_lk_def)
next
  case (sp_dropped k l t')
  with release_exit_Ret [OF inv sp_dropped(2)] show ?thesis
    by (auto simp: setpc_def upd_hart_def upd_lk_def)
qed (auto simp: setpc_def upd_hart_def upd_lk_def acquire_enter_Ret push_off_eval test_and_set_eval)

lemma sp_step_abs:
  assumes inv: "sp_inv s" and st: "sp_step s t"
  shows "sp_abs h t = sp_abs h s \<or>
    (\<exists>l. pcs s h = Took l \<and> pcs t h = Run \<and> acquire l (sp_abs h s) = Ret () (sp_abs h t)) \<or>
    (\<exists>l. pcs s h = Run \<and> pcs t h = Dropping l \<and> release l (sp_abs h s) = Ret () (sp_abs h t))"
  using sp_step_cs [OF inv st, of h]
  unfolding sp_abs_cs [OF inv] sp_abs_cs [OF sp_step_inv [OF st inv]] by (auto simp: acquire_def release_def)

section \<open>A run\<close>

text \<open>Hart 0 takes \<^verbatim>\<open>kmem.lock\<close> from the boot state.\<close>

definition smp_boot :: smp where
  "smp_boot = \<lparr>harts = (\<lambda>_. \<lparr>intr = True, noff = 0, intena = False\<rparr>),
     lks = (\<lambda>_. \<lparr>locked = 0, lkname = [], lkcpu = None\<rparr>), pcs = (\<lambda>_. Run), cs = (\<lambda>_. {})\<rparr>"

definition smp_spin :: smp where
  "smp_spin = setpc 0 (Spin Lkmem) (upd_hart 0 (\<lambda>c. c\<lparr>intr := False, intena := True, noff := 1\<rparr>) smp_boot)"

definition smp_took :: smp where
  "smp_took = setpc 0 (Took Lkmem) (upd_lk Lkmem (\<lambda>k. k\<lparr>locked := 1\<rparr>) smp_spin)"

definition smp_own :: smp where
  "smp_own = setcs 0 {Lkmem} (setpc 0 Run (upd_lk Lkmem (\<lambda>k. k\<lparr>lkcpu := Some 0\<rparr>) smp_took))"

definition smp_drop :: smp where
  "smp_drop = setcs 0 {} (setpc 0 (Dropping Lkmem) (upd_lk Lkmem (\<lambda>k. k\<lparr>lkcpu := None\<rparr>) smp_own))"

lemma reach_smp_boot: "reach sp_init sp_step smp_boot"
  by (rule reach_init) (simp add: sp_init_def smp_boot_def)

lemma step_smp_spin: "sp_step smp_boot smp_spin"
proof -
  have "acquire_enter 0 Lkmem smp_boot =
      Ret () (upd_hart 0 (\<lambda>c. c\<lparr>intr := False, intena := True, noff := 1\<rparr>) smp_boot)"
    by (simp add: acquire_enter_Ret push_off_eval holding_def smp_boot_def upd_hart_def)
  from sp_acquire [OF _ this] show ?thesis by (simp add: smp_spin_def smp_boot_def)
qed

lemma step_smp_took: "sp_step smp_spin smp_took"
  using sp_took [of smp_spin 0 Lkmem]
  by (simp add: smp_took_def test_and_set_eval smp_spin_def smp_boot_def setpc_def upd_hart_def)

lemma step_smp_own: "sp_step smp_took smp_own"
  using sp_owned [of smp_took 0 Lkmem]
  by (simp add: smp_own_def acquire_exit_eval)
     (simp add: smp_took_def smp_spin_def smp_boot_def setpc_def upd_hart_def upd_lk_def)

lemma reach_smp_own: "reach sp_init sp_step smp_own"
  by (rule reach_step [OF reach_step [OF reach_step [OF reach_smp_boot
        step_smp_spin] step_smp_took] step_smp_own])

lemma smp_own_facts: "cs smp_own = (\<lambda>_. {})(0 := {Lkmem})" "pcs smp_own 0 = Run"
  "holding 0 Lkmem smp_own"
  by (simp_all add: smp_own_def smp_took_def smp_spin_def smp_boot_def setpc_def setcs_def
        upd_hart_def upd_lk_def holding_def)

lemma step_smp_drop: "sp_step smp_own smp_drop"
  using sp_release [of smp_own 0 Lkmem] smp_own_facts
  by (simp add: smp_drop_def release_enter_Ret)

lemma reach_smp_drop: "reach sp_init sp_step smp_drop"
  by (rule reach_step [OF reach_smp_own step_smp_drop])

section \<open>Properties\<close>

text \<open>C2: mutual exclusion.  Whatever the interleaving of the harts, two harts are never both
  between a return from \<^verbatim>\<open>acquire(lk)\<close> and their next \<^verbatim>\<open>release(lk)\<close> of the same lock.\<close>

theorem spinlock_mutual_exclusion:
  assumes "reach sp_init sp_step s" and "l \<in> cs s h" and "l \<in> cs s k"
  shows "h = k"
  using sp.reach_inv [OF assms(1)] assms(2,3) unfolding sp_inv_def sp_own_def owns_def by blast

theorem spinlock_mutual_exclusion_witness:
  "reach sp_init sp_step smp_own \<and> {k. Lkmem \<in> cs smp_own k} = {0}"
proof -
  have mine: "Lkmem \<in> cs smp_own 0" by (simp add: smp_own_facts)
  have "0 = k" if "Lkmem \<in> cs smp_own k" for k
    using reach_smp_own mine that by (rule spinlock_mutual_exclusion)
  with mine have "{k. Lkmem \<in> cs smp_own k} = {0}" by blast
  with reach_smp_own show ?thesis by simp
qed

text \<open>C26: interrupts are off on a hart while it holds any lock or is inside \<^verbatim>\<open>acquire()\<close> or
  \<^verbatim>\<open>release()\<close>, its nesting depth is the number of locks it holds (plus the one in hand), and
  the \<^verbatim>\<open>pop_off()\<close> at the end of \<^verbatim>\<open>release()\<close> reaches neither of its panics.\<close>

theorem spinlock_interrupt_nesting:
  assumes "reach sp_init sp_step s"
  shows "noff (harts s h) = int (card (cs s h)) + (if pcs s h = Run then 0 else 1) \<and>
    (cs s h \<noteq> {} \<or> pcs s h \<noteq> Run \<longrightarrow> \<not> intr (harts s h)) \<and>
    (\<forall>l. pcs s h = Dropping l \<longrightarrow> (\<exists>t. release_exit h l s = Ret () t))"
proof (intro conjI impI allI)
  have inv: "sp_inv s" by (rule sp.reach_inv [OF assms])
  then have irq: "finite (cs s h)" "noff (harts s h) = depth s h"
      "0 < noff (harts s h) \<longrightarrow> \<not> intr (harts s h)"
    by (auto simp: sp_inv_def sp_irq_def)
  then show "noff (harts s h) = int (card (cs s h)) + (if pcs s h = Run then 0 else 1)"
    by (simp add: depth_def)
  show "\<not> intr (harts s h)" if "cs s h \<noteq> {} \<or> pcs s h \<noteq> Run"
  proof -
    have "0 < depth s h"
      using that irq(1) by (cases "pcs s h = Run") (auto simp: depth_def card_gt_0_iff)
    with irq show ?thesis by simp
  qed
  show "\<exists>t. release_exit h l s = Ret () t" if "pcs s h = Dropping l" for l
    using release_exit_Ret [OF inv that] by blast
qed

theorem spinlock_interrupt_nesting_witness:
  "reach sp_init sp_step smp_drop \<and> pcs smp_drop 0 = Dropping Lkmem \<and> noff (harts smp_drop 0) = 1 \<and>
   \<not> intr (harts smp_drop 0) \<and> (\<exists>t. release_exit 0 Lkmem smp_drop = Ret () t)"
proof -
  have pc: "pcs smp_drop 0 = Dropping Lkmem" and cs: "cs smp_drop 0 = {}"
    by (simp_all add: smp_drop_def setcs_def setpc_def)
  then show ?thesis
    using reach_smp_drop spinlock_interrupt_nesting [OF reach_smp_drop, of 0] by simp
qed

text \<open>C25: the two lock operations the rest of the kernel is modelled with are those of \<^verbatim>\<open>spinlock.c\<close>, seen
  from one hart \<open>h\<close> through \<^verbatim>\<open>holding()\<close>.  In every reachable state a call of \<^verbatim>\<open>acquire()\<close> panics exactly when
  the abstract one does; the store that completes it has the abstract effect; a call of \<^verbatim>\<open>release()\<close>
  panics or takes effect as the abstract one does; and no other step of any hart changes what \<open>h\<close> holds.\<close>

theorem spinlock_refines_held:
  assumes "reach sp_init sp_step s"
  shows "((\<exists>e. acquire_enter h l s = Panic e) \<longleftrightarrow> (\<exists>e. acquire l (sp_abs h s) = Panic e)) \<and>
    (pcs s h = Took l \<longrightarrow> (\<exists>t. acquire_exit h l s = Ret () t \<and> acquire l (sp_abs h s) = Ret () (sp_abs h t))) \<and>
    release l (sp_abs h s) = (case release_enter h l s of Ret _ t \<Rightarrow> Ret () (sp_abs h t) | Panic e \<Rightarrow> Panic e | Sched t \<Rightarrow> Sched (sp_abs h t)) \<and>
    (\<forall>t. sp_step s t \<longrightarrow> sp_abs h t = sp_abs h s \<or>
      (\<exists>l. pcs s h = Took l \<and> pcs t h = Run \<and> acquire l (sp_abs h s) = Ret () (sp_abs h t)) \<or>
      (\<exists>l. pcs s h = Run \<and> pcs t h = Dropping l \<and> release l (sp_abs h s) = Ret () (sp_abs h t)))"
proof (intro conjI allI impI)
  have inv: "sp_inv s" by (rule sp.reach_inv [OF assms])
  show "(\<exists>e. acquire_enter h l s = Panic e) \<longleftrightarrow> (\<exists>e. acquire l (sp_abs h s) = Panic e)"
    by (auto simp: acquire_enter_def kmonad push_off_eval acquire_def sp_abs_def holding_def upd_hart_def)
  show "\<exists>t. acquire_exit h l s = Ret () t \<and> acquire l (sp_abs h s) = Ret () (sp_abs h t)" if "pcs s h = Took l"
    using sp_owned_abs [OF inv that] by blast
  show "release l (sp_abs h s) = (case release_enter h l s of Ret _ t \<Rightarrow> Ret () (sp_abs h t) | Panic e \<Rightarrow> Panic e | Sched t \<Rightarrow> Sched (sp_abs h t))"
    by (rule sp_release_abs)
  show "sp_abs h t = sp_abs h s \<or>
      (\<exists>l. pcs s h = Took l \<and> pcs t h = Run \<and> acquire l (sp_abs h s) = Ret () (sp_abs h t)) \<or>
      (\<exists>l. pcs s h = Run \<and> pcs t h = Dropping l \<and> release l (sp_abs h s) = Ret () (sp_abs h t))" if "sp_step s t" for t
    by (rule sp_step_abs [OF inv that])
qed

theorem spinlock_refines_held_witness:
  "reach sp_init sp_step smp_took \<and> pcs smp_took 0 = Took Lkmem \<and>
   (\<exists>t. acquire_exit 0 Lkmem smp_took = Ret () t \<and> acquire Lkmem (sp_abs 0 smp_took) = Ret () (sp_abs 0 t))"
proof -
  have "reach sp_init sp_step smp_took"
    by (rule reach_step [OF reach_step [OF reach_smp_boot step_smp_spin] step_smp_took])
  moreover have "pcs smp_took 0 = Took Lkmem" by (simp add: smp_took_def setpc_def)
  ultimately show ?thesis using spinlock_refines_held [of smp_took 0 Lkmem] by blast
qed

end
