(* ===== verification/Memory.thy ===== *)
theory Memory
  imports Prelude
begin

unbundle bit_operations_syntax

text \<open>
  Physical memory as the kernel sees it through its direct map, and the memory and string routines
  of \<^verbatim>\<open>kernel/string.c\<close>.  Memory is flat and byte addressed; a 64-bit load or store touches
  eight bytes in little-endian order.  Page tables, the free list of the page allocator, trap
  frames and user pages all live in this one memory.
\<close>

section \<open>Bytes and 64-bit words\<close>

type_synonym mem = "u64 \<Rightarrow> u8"

definition load64 :: "mem \<Rightarrow> u64 \<Rightarrow> u64" where
  "load64 m a =
     ucast (m a) OR push_bit 8 (ucast (m (a + 1))) OR push_bit 16 (ucast (m (a + 2))) OR
     push_bit 24 (ucast (m (a + 3))) OR push_bit 32 (ucast (m (a + 4))) OR
     push_bit 40 (ucast (m (a + 5))) OR push_bit 48 (ucast (m (a + 6))) OR
     push_bit 56 (ucast (m (a + 7)))"

definition store64 :: "mem \<Rightarrow> u64 \<Rightarrow> u64 \<Rightarrow> mem" where
  "store64 m a v = (\<lambda>x. if x - a < 8 then ucast (drop_bit (8 * unat (x - a)) v) else m x)"

definition aligned :: "nat \<Rightarrow> u64 \<Rightarrow> bool" where
  "aligned k a \<longleftrightarrow> take_bit k a = 0"

section \<open>string.c: memory routines\<close>

definition memset :: "mem \<Rightarrow> u64 \<Rightarrow> u8 \<Rightarrow> nat \<Rightarrow> mem" where
  "memset m dst c n = fold (\<lambda>i m. m(dst + of_nat i := c)) [0..<n] m"

definition copy_fwd :: "mem \<Rightarrow> u64 \<Rightarrow> u64 \<Rightarrow> nat \<Rightarrow> mem" where
  "copy_fwd m d s n = fold (\<lambda>i m. m(d + of_nat i := m (s + of_nat i))) [0..<n] m"

definition copy_bwd :: "mem \<Rightarrow> u64 \<Rightarrow> u64 \<Rightarrow> nat \<Rightarrow> mem" where
  "copy_bwd m d s n = fold (\<lambda>i m. m(d + of_nat i := m (s + of_nat i))) (rev [0..<n]) m"

definition memmove :: "mem \<Rightarrow> u64 \<Rightarrow> u64 \<Rightarrow> nat \<Rightarrow> mem" where
  "memmove m dst src n =
     (if n = 0 then m
      else if src < dst \<and> src + of_nat n > dst then copy_bwd m dst src n
      else copy_fwd m dst src n)"

text \<open>\<^verbatim>\<open>memcpy\<close> is there for the compiler's own calls.\<close>

definition memcpy :: "mem \<Rightarrow> u64 \<Rightarrow> u64 \<Rightarrow> nat \<Rightarrow> mem" where
  "memcpy m dst src n = memmove m dst src n"

primrec memcmp :: "mem \<Rightarrow> u64 \<Rightarrow> u64 \<Rightarrow> nat \<Rightarrow> int" where
  "memcmp m p q 0 = 0"
| "memcmp m p q (Suc n) =
     (if m p \<noteq> m q then uint (m p) - uint (m q) else memcmp m (p + 1) (q + 1) n)"

section \<open>string.c: character buffers\<close>

text \<open>A character pointer into an object of its own is the function from offsets to bytes.\<close>

type_synonym cbuf = "nat \<Rightarrow> u8"

definition cadv :: "cbuf \<Rightarrow> cbuf" where
  "cadv p = (\<lambda>i. p (Suc i))"

primrec strncmp :: "cbuf \<Rightarrow> cbuf \<Rightarrow> nat \<Rightarrow> int" where
  "strncmp p q 0 = 0"
| "strncmp p q (Suc n) =
     (if p 0 \<noteq> 0 \<and> p 0 = q 0 then strncmp (cadv p) (cadv q) n else uint (p 0) - uint (q 0))"

text \<open>\<^verbatim>\<open>strncpy\<close>: the first loop copies up to and including a NUL, the second pads with NULs.
  \<open>i\<close> is the offset both pointers have reached.\<close>

primrec strncpy_pad :: "cbuf \<Rightarrow> nat \<Rightarrow> nat \<Rightarrow> cbuf" where
  "strncpy_pad s i 0 = s"
| "strncpy_pad s i (Suc n) = strncpy_pad (s(i := 0)) (Suc i) n"

primrec strncpy_from :: "cbuf \<Rightarrow> cbuf \<Rightarrow> nat \<Rightarrow> nat \<Rightarrow> cbuf" where
  "strncpy_from s t i 0 = s"
| "strncpy_from s t i (Suc n) =
     (if t i \<noteq> 0 then strncpy_from (s(i := t i)) t (Suc i) n
      else strncpy_pad (s(i := 0)) (Suc i) n)"

definition strncpy :: "cbuf \<Rightarrow> cbuf \<Rightarrow> nat \<Rightarrow> cbuf" where
  "strncpy s t n = strncpy_from s t 0 n"

primrec safestrcpy_from :: "cbuf \<Rightarrow> cbuf \<Rightarrow> nat \<Rightarrow> nat \<Rightarrow> cbuf" where
  "safestrcpy_from s t i 0 = s(i := 0)"
| "safestrcpy_from s t i (Suc n) =
     (if t i \<noteq> 0 then safestrcpy_from (s(i := t i)) t (Suc i) n
      else (s(i := 0))(Suc i := 0))"

definition safestrcpy :: "cbuf \<Rightarrow> cbuf \<Rightarrow> int \<Rightarrow> cbuf" where
  "safestrcpy s t n = (if n \<le> 0 then s else safestrcpy_from s t 0 (nat n - 1))"

partial_function (option) strlen_from :: "cbuf \<Rightarrow> nat \<Rightarrow> nat option" where
  "strlen_from s n = (if s n = 0 then Some n else strlen_from s (Suc n))"

definition strlen :: "cbuf \<Rightarrow> nat option" where
  "strlen s = strlen_from s 0"

section \<open>Alignment\<close>

lemma bit_byte: "bit (b :: u8) n \<Longrightarrow> n < 8"
  using bit_imp_le_length [of b n] by simp

lemma aligned_dvd: "k < 64 \<Longrightarrow> aligned k a \<longleftrightarrow> 2 ^ k dvd unat a"
proof -
  assume "k < 64"
  have "unat (take_bit k a) = unat a mod 2 ^ k"
    using unsigned_take_bit_eq [of k a, where ?'a = nat] take_bit_eq_mod [of k "unat a"] by simp
  then show ?thesis by (simp add: aligned_def dvd_eq_mod_eq_0 flip: unat_eq_0)
qed

lemma aligned_diff: "aligned k a \<Longrightarrow> aligned k b \<Longrightarrow> aligned k (b - a)"
  by (simp add: aligned_def take_bit_eq_0_iff)

lemma aligned_add: "aligned k a \<Longrightarrow> aligned k b \<Longrightarrow> aligned k (a + b)"
  by (simp add: aligned_def take_bit_eq_0_iff)

lemma aligned_weaken: "aligned k a \<Longrightarrow> j \<le> k \<Longrightarrow> aligned j a"
  unfolding aligned_def using take_bit_take_bit [of j k a] by (simp add: min_absorb1)

lemma aligned_apart:
  assumes "aligned k a" "aligned k b" "a \<noteq> b" "i < 2 ^ k" "k < 64"
  shows "2 ^ k \<le> unat ((b + of_nat i) - a)"
proof -
  let ?d = "unat (b - a)"
  have dvd: "2 ^ k dvd ?d" using assms by (simp add: aligned_diff flip: aligned_dvd)
  have "b - a \<noteq> 0" using assms(3) by simp
  then have "?d \<noteq> 0" by (simp add: unat_eq_0)
  then have ge: "2 ^ k \<le> ?d" using dvd by (simp add: dvd_imp_le)
  have "?d < 2 ^ 64" using unsigned_less [of "b - a"] by simp
  moreover obtain c where c: "?d = 2 ^ k * c" using dvd by (elim dvdE)
  moreover have e: "(2::nat) ^ 64 = 2 ^ k * 2 ^ (64 - k)"
    using assms(5) by (simp flip: power_add)
  ultimately have "2 ^ k * c < 2 ^ k * (2::nat) ^ (64 - k)" by presburger
  then have "c < 2 ^ (64 - k)" by simp
  then have "2 ^ k * c + 2 ^ k \<le> 2 ^ k * (2::nat) ^ (64 - k)"
    by (metis Suc_leI mult_Suc_right mult_le_mono2 add.commute)
  then have "?d + i < 2 ^ 64" using c e assms(4) by linarith
  then have "unat ((b - a) + of_nat i) = ?d + i"
    using assms(4) by (simp add: unat_word_ariths unat_of_nat)
  moreover have "(b + of_nat i) - a = (b - a) + of_nat i" by simp
  ultimately show ?thesis using ge by presburger
qed

section \<open>Loads, stores and memset\<close>

lemma bit_load64:
  assumes "j < 8" "i < 8"
  shows "bit (load64 m a) (8 * i + j) \<longleftrightarrow> bit (m (a + of_nat i)) j"
proof -
  have "i = 0 \<or> i = 1 \<or> i = 2 \<or> i = 3 \<or> i = 4 \<or> i = 5 \<or> i = 6 \<or> i = 7" using assms by arith
  then show ?thesis using assms(1)
    by (elim disjE) (auto simp: load64_def bit_simps dest: bit_byte)
qed

lemma load64_eqI:
  assumes "\<And>i. i < 8 \<Longrightarrow> m (a + of_nat i) = m' (b + of_nat i)"
  shows "load64 m a = load64 m' b"
proof (rule bit_word_eqI)
  fix n assume "n < LENGTH(64)"
  then have "n div 8 < 8" by simp
  then show "bit (load64 m a) n = bit (load64 m' b) n"
    using bit_load64 [of "n mod 8" "n div 8" m a] bit_load64 [of "n mod 8" "n div 8" m' b] assms
    by simp
qed

lemma load_store_same [simp]: "load64 (store64 m a v) a = v"
proof (rule bit_word_eqI)
  fix n assume n: "n < LENGTH(64)"
  then have "n div 8 < 8" by simp
  moreover from this have "(of_nat (n div 8) :: u64) < 8"
     by (simp add: word_less_nat_alt unat_of_nat)
  ultimately show "bit (load64 (store64 m a v) a) n = bit v n"
    using bit_load64 [of "n mod 8" "n div 8" "store64 m a v" a] n
    by (simp add: store64_def bit_simps unat_of_nat)
qed

lemma store64_apply: "8 \<le> unat (x - a) \<Longrightarrow> store64 m a v x = m x"
  by (simp add: store64_def word_less_nat_alt)

lemma load_store_other:
  "aligned 3 a \<Longrightarrow> aligned 3 b \<Longrightarrow> a \<noteq> b \<Longrightarrow> load64 (store64 m a v) b = load64 m b"
  using aligned_apart [of 3 a b] by (intro load64_eqI) (simp add: store64_apply)

lemma memset_apply:
  "n \<le> 2 ^ 64 \<Longrightarrow> memset m d c n x = (if unat (x - d) < n then c else m x)"
proof (induction n)
  case 0
  then show ?case by (simp add: memset_def)
next
  case (Suc n)
  have step: "memset m d c (Suc n) = (memset m d c n)(d + of_nat n := c)"
    by (simp add: memset_def)
  have eq: "x = d + of_nat n \<longleftrightarrow> unat (x - d) = n"
  proof
    assume "x = d + of_nat n" then show "unat (x - d) = n" using Suc.prems by (simp add: unat_of_nat)
  next
    assume "unat (x - d) = n" 
    then have "of_nat n = x - d" by auto
    then show "x = d + of_nat n" by simp
  qed
  show ?case using Suc eq by (auto simp: step less_Suc_eq)
qed

section \<open>memmove\<close>

lemma word_offset_eq: "n < 2 ^ 64 \<Longrightarrow> x = d + of_nat n \<longleftrightarrow> unat (x - d) = n" for x d :: u64
proof
  assume "n < 2 ^ 64" "x = d + of_nat n"
  then show "unat (x - d) = n" by (simp add: unat_of_nat)
next
  assume "unat (x - d) = n"
  then have "of_nat n = x - d" by auto
  then show "x = d + of_nat n" by simp
qed

lemma copy_fwd_apply:
  assumes "n \<le> 2 ^ 64" "\<And>i. i < n \<Longrightarrow> i \<le> unat ((s + of_nat i) - d)"
  shows "copy_fwd m d s n x = (if unat (x - d) < n then m (s + (x - d)) else m x)"
  using assms
proof (induction n arbitrary: x)
  case 0
  then show ?case by (simp add: copy_fwd_def)
next
  case (Suc n)
  have IH: "copy_fwd m d s n y = (if unat (y - d) < n then m (s + (y - d)) else m y)" for y
    using Suc by simp
  have step: "copy_fwd m d s (Suc n) = (copy_fwd m d s n)(d + of_nat n := copy_fwd m d s n (s + of_nat n))"
    by (simp add: copy_fwd_def)
  have src: "copy_fwd m d s n (s + of_nat n) = m (s + of_nat n)"
    using Suc.prems(2) [of n] by (simp add: IH)
  show ?case
  proof (cases "x = d + of_nat n")
    case True
    then have "unat (x - d) = n" using word_offset_eq [of n x d] Suc.prems by simp
    with True show ?thesis by (simp add: step src)
  next
    case False
    then have "unat (x - d) \<noteq> n" using word_offset_eq [of n x d] Suc.prems by simp
    with False show ?thesis by (simp add: step IH)
  qed
qed

lemma copy_bwd_apply:
  assumes "n \<le> 2 ^ 64"
    "\<And>i. i < n \<Longrightarrow> unat ((s + of_nat i) - d) \<le> i \<or> n \<le> unat ((s + of_nat i) - d)"
  shows "copy_bwd m d s n x = (if unat (x - d) < n then m (s + (x - d)) else m x)"
  using assms
proof (induction n arbitrary: m x)
  case 0
  then show ?case by (simp add: copy_bwd_def)
next
  case (Suc n)
  let ?m = "m(d + of_nat n := m (s + of_nat n))"
  have step: "copy_bwd m d s (Suc n) = copy_bwd ?m d s n"
    by (simp add: copy_bwd_def)
  have "copy_bwd ?m d s n x = (if unat (x - d) < n then ?m (s + (x - d)) else ?m x)"
  proof (rule Suc.IH)
    show "n \<le> 2 ^ 64" using Suc.prems by simp
    show "unat (s + word_of_nat i - d) \<le> i \<or> n \<le> unat (s + word_of_nat i - d)" if "i < n" for i
      using Suc.prems(2) [of i] that by auto
  qed
  moreover have "?m (s + (x - d)) = m (s + (x - d))" if "unat (x - d) < n"
  proof -
    have "s + (x - d) \<noteq> d + of_nat n"
      using Suc.prems that word_offset_eq [of n "s + (x - d)" d] Suc.prems(2) [of "unat (x - d)"]
      by auto
    then show ?thesis by simp
  qed
  moreover have "x = d + of_nat n \<longleftrightarrow> unat (x - d) = n"
    using Suc.prems by (intro word_offset_eq) simp
  ultimately show ?case by (auto simp: step less_Suc_eq)
qed

lemma unat_offset:
  assumes "unat s + n \<le> 2 ^ 64" "i < n"
  shows "unat (s + of_nat i :: u64) = unat s + i"
  using assms by (simp add: unat_word_ariths unat_of_nat)

lemma memmove_apply:
  assumes s: "unat src + n < 2 ^ 64" and d: "unat dst + n \<le> 2 ^ 64"
  shows "memmove m dst src n x = (if unat (x - dst) < n then m (src + (x - dst)) else m x)"
proof (cases "n = 0")
  case False
  have n: "n \<le> 2 ^ 64" using s by simp
  have off: "unat ((src + of_nat i) - dst) =
      (if unat dst \<le> unat src + i then unat src + i - unat dst else unat src + i + 2 ^ 64 - unat dst)"
    if "i < n" for i
    using unat_offset [OF less_imp_le [OF s] that] by (simp add: unat_sub_if_size word_size)
  show ?thesis
  proof (cases "src < dst \<and> src + of_nat n > dst")
    case True
    then have lt: "unat src < unat dst" by (simp add: word_less_nat_alt)
    have "copy_bwd m dst src n x = (if unat (x - dst) < n then m (src + (x - dst)) else m x)"
      by (rule copy_bwd_apply [OF n]) (use off lt d in auto)
    then show ?thesis using False True by (simp add: memmove_def)
  next
    case nov: False
    have "unat (src + of_nat n) = unat src + n"
      using s by (simp add: unat_word_ariths unat_of_nat)
    with nov have no: "unat dst \<le> unat src \<or> unat src + n \<le> unat dst"
      by (auto simp: word_less_nat_alt)
    have "copy_fwd m dst src n x = (if unat (x - dst) < n then m (src + (x - dst)) else m x)"
      by (rule copy_fwd_apply [OF n]) (use off d no in auto)
    then show ?thesis using False nov by (auto simp: memmove_def)
  qed
qed (simp add: memmove_def)


section \<open>Character buffers\<close>

lemma strncmp_eq_0:
  "strncmp p q n = 0 \<longleftrightarrow>
     (\<exists>k\<le>n. (\<forall>i<k. p i = q i \<and> p i \<noteq> 0) \<and> (k = n \<or> p k = 0 \<and> q k = 0))"
proof (induction n arbitrary: p q)
  case 0
  then show ?case by simp
next
  case (Suc n)
  show ?case
  proof (cases "p 0 \<noteq> 0 \<and> p 0 = q 0")
    case True
    have "(\<exists>k\<le>n. (\<forall>i<k. cadv p i = cadv q i \<and> cadv p i \<noteq> 0) \<and> (k = n \<or> cadv p k = 0 \<and> cadv q k = 0))
      \<longleftrightarrow> (\<exists>k\<le>Suc n. (\<forall>i<k. p i = q i \<and> p i \<noteq> 0) \<and> (k = Suc n \<or> p k = 0 \<and> q k = 0))"
      (is "?L = ?R")
    proof
      assume ?L
      then obtain k where "k \<le> n" "\<forall>i<k. p (Suc i) = q (Suc i) \<and> p (Suc i) \<noteq> 0"
        "k = n \<or> p (Suc k) = 0 \<and> q (Suc k) = 0" by (auto simp: cadv_def)
      with True show ?R
        by (intro exI [of _ "Suc k"]) (auto simp: less_Suc_eq_0_disj)
    next
      assume ?R
      then obtain k where k: "k \<le> Suc n" "\<forall>i<k. p i = q i \<and> p i \<noteq> 0"
        "k = Suc n \<or> p k = 0 \<and> q k = 0" by auto
      with True obtain j where "k = Suc j" by (cases k) auto
      with k show ?L by (intro exI [of _ j]) (auto simp: cadv_def)
    qed
    moreover have "strncmp p q (Suc n) = strncmp (cadv p) (cadv q) n" using True by auto
    ultimately show ?thesis by (simp only: Suc.IH)
  next
    case False
    then show ?thesis by (auto simp: word_uint_eq_iff intro!: exI [of _ 0]) (metis not_gr_zero zero_less_Suc)+
  qed
qed

lemma strncpy_pad_apply:
  "strncpy_pad s i n k = (if i \<le> k \<and> k < i + n then 0 else s k)"
  by (induction n arbitrary: s i) auto

lemma strncpy_from_apply:
  "strncpy_from s t i n k =
     (if i \<le> k \<and> k < i + n then (if \<exists>j. i \<le> j \<and> j \<le> k \<and> t j = 0 then 0 else t k) else s k)"
proof (induction n arbitrary: s i)
  case 0
  then show ?case by auto
next
  case (Suc n)
  have ex: "(\<exists>j. i \<le> j \<and> j \<le> k \<and> t j = 0) \<longleftrightarrow>
      (i \<le> k \<and> t i = 0) \<or> (\<exists>j. Suc i \<le> j \<and> j \<le> k \<and> t j = 0)"
    by (auto simp: Suc_le_eq order_less_le)
  consider "k = i" | "Suc i \<le> k" | "k < i" by linarith
  then show ?case
    using Suc.IH [of "s(i := t i)" "Suc i"] by cases (auto simp: strncpy_pad_apply ex fun_upd_def)
qed

lemma strlen_from_least:
  assumes "s n = 0" "i \<le> n" "\<And>j. i \<le> j \<Longrightarrow> j < n \<Longrightarrow> s j \<noteq> 0"
  shows "strlen_from s i = Some n"
  using assms
proof (induction "n - i" arbitrary: i)
  case 0
  then show ?case by (simp add: strlen_from.simps)
next
  case (Suc d)
  then have "s i \<noteq> 0" and "strlen_from s (Suc i) = Some n" by auto
  then show ?case by (subst strlen_from.simps) simp
qed

lemma strlen_Some:
  "s n = 0 \<Longrightarrow> (\<And>j. j < n \<Longrightarrow> s j \<noteq> 0) \<Longrightarrow> strlen s = Some n"
  by (simp add: strlen_def strlen_from_least)

section \<open>Property\<close>

text \<open>C34: \<^verbatim>\<open>memmove\<close> copies the bytes the source range held before the call, whichever way the
  two ranges overlap, and changes nothing outside the destination range.\<close>

theorem memmove_overlap_safe:
  assumes "unat src + n < 2 ^ 64" and "unat dst + n \<le> 2 ^ 64"
  shows "memmove m dst src n = (\<lambda>x. if unat (x - dst) < n then m (src + (x - dst)) else m x)"
  using memmove_apply [OF assms] by (simp add: fun_eq_iff)

theorem memmove_overlap_safe_witness:
  "memmove (\<lambda>a. ucast a) 2 0 4 5 = 3 \<and> memmove (\<lambda>a. ucast a) 0 2 4 3 = 5"
  using memmove_overlap_safe [of 0 4 2 "\<lambda>a. ucast a"] memmove_overlap_safe [of 2 4 0 "\<lambda>a. ucast a"]
  by simp

end
