(* ===== verification/Kalloc.thy ===== *)
theory Kalloc
  imports Locks Memory
begin

unbundle bit_operations_syntax

text \<open>
  \<^verbatim>\<open>kernel/kalloc.c\<close>: the physical page allocator.  The free list is the real one: the first eight
  bytes of a free page hold the address of the next free page, and \<^verbatim>\<open>kmem.freelist\<close> is the address
  of the first.  The end of the kernel image (\<^verbatim>\<open>end\<close>, set by the linker) is a field of the state.
\<close>

section \<open>Page arithmetic of riscv.h and memlayout.h\<close>

abbreviation PGSIZE :: u64 where "PGSIZE \<equiv> 4096"
abbreviation (input) PGBYTES :: nat where "PGBYTES \<equiv> 4096"

definition PGROUNDUP :: "u64 \<Rightarrow> u64" where
  "PGROUNDUP sz = (sz + PGSIZE - 1) AND NOT (PGSIZE - 1)"

definition PGROUNDDOWN :: "u64 \<Rightarrow> u64" where
  "PGROUNDDOWN a = a AND NOT (PGSIZE - 1)"

abbreviation KERNBASE :: u64 where "KERNBASE \<equiv> 0x80000000"
abbreviation PHYSTOP :: u64 where "PHYSTOP \<equiv> 0x88000000"

section \<open>State and operations\<close>

record kmem_st = kbase +
  phys :: mem
  freelist :: u64
  kend :: u64

definition blank_kmem :: "'a \<Rightarrow> 'a kmem_st_scheme" where
  [blank]: "blank_kmem x = blank_base (kmem_st_ext (\<lambda>_. 0) 0 0x80100000 x)"

definition kfree :: "u64 \<Rightarrow> ('a kmem_st_scheme, unit) km" where
  "kfree pa =
     kbind (kget kend) (\<lambda>e.
     if pa mod PGSIZE \<noteq> 0 \<or> pa < e \<or> pa \<ge> PHYSTOP then kpanic ''kfree''
     else
     kthen (kmod (\<lambda>s. s\<lparr>phys := memset (phys s) pa 1 PGBYTES\<rparr>))
     (kthen (acquire Lkmem)
     (kthen (kmod (\<lambda>s. s\<lparr>phys := store64 (phys s) pa (freelist s)\<rparr>))
     (kthen (kmod (\<lambda>s. s\<lparr>freelist := pa\<rparr>))
     (release Lkmem)))))"

definition kalloc :: "('a kmem_st_scheme, u64) km" where
  "kalloc =
     kthen (acquire Lkmem)
     (kbind (kget freelist) (\<lambda>r.
     kthen (kwhen (r \<noteq> 0) (kmod (\<lambda>s. s\<lparr>freelist := load64 (phys s) r\<rparr>)))
     (kthen (release Lkmem)
     (kthen (kwhen (r \<noteq> 0) (kmod (\<lambda>s. s\<lparr>phys := memset (phys s) r 5 PGBYTES\<rparr>)))
     (kret r)))))"

text \<open>The pages of \<^verbatim>\<open>for(; p + PGSIZE <= pa_end; p += PGSIZE)\<close>.\<close>

definition range_pages :: "u64 \<Rightarrow> u64 \<Rightarrow> u64 list" where
  "range_pages p e = map (\<lambda>i. p + of_nat i * PGSIZE) [0..<(unat e - unat p) div PGBYTES]"

definition freerange :: "u64 \<Rightarrow> u64 \<Rightarrow> ('a kmem_st_scheme, unit) km" where
  "freerange pa_start pa_end = kfor (range_pages (PGROUNDUP pa_start) pa_end) kfree"

definition kinit :: "('a kmem_st_scheme, unit) km" where
  "kinit = kbind (kget kend) (\<lambda>e. freerange e PHYSTOP)"

section \<open>The free list\<close>

text \<open>\<open>chain m p xs\<close>: following the next pointers from \<open>p\<close> visits the pages \<open>xs\<close> and ends in the
  null pointer.\<close>

primrec chain :: "mem \<Rightarrow> u64 \<Rightarrow> u64 list \<Rightarrow> bool" where
  "chain m p [] \<longleftrightarrow> p = 0"
| "chain m p (x # xs) \<longleftrightarrow> p = x \<and> p \<noteq> 0 \<and> chain m (load64 m p) xs"

definition page_ok :: "'a kmem_st_scheme \<Rightarrow> u64 \<Rightarrow> bool" where
  "page_ok s p \<longleftrightarrow> p mod PGSIZE = 0 \<and> kend s \<le> p \<and> p < PHYSTOP \<and> p \<noteq> 0"

definition kmem_ok :: "'a kmem_st_scheme \<Rightarrow> u64 list \<Rightarrow> bool" where
  "kmem_ok s xs \<longleftrightarrow> Lkmem \<notin> held s \<and> chain (phys s) (freelist s) xs \<and> distinct xs \<and>
     (\<forall>p \<in> set xs. page_ok s p)"

section \<open>Rounding and page ranges\<close>

lemma and_not_4095: "a AND - PGSIZE = push_bit 12 (drop_bit 12 a)"
proof -
  have "a AND NOT (mask 12) = push_bit 12 (drop_bit 12 a)"
    by (simp add: bit_eq_iff bit_simps) auto
  then show ?thesis by (simp flip: minus_exp_eq_not_mask)
qed

lemma unat_u64: "unat (a :: u64) < 18446744073709551616"
  by (rule less_le_trans [OF unsigned_less]) simp

lemma PGROUNDDOWN_shift: "PGROUNDDOWN a = push_bit 12 (drop_bit 12 a)"
  by (simp add: PGROUNDDOWN_def and_not_4095)

lemma PGROUNDUP_down: "PGROUNDUP a = PGROUNDDOWN (a + 4095)"
  by (simp add: PGROUNDUP_def PGROUNDDOWN_def algebra_simps)

lemma unat_PGROUNDDOWN: "unat (PGROUNDDOWN a) = unat a div 4096 * 4096"
proof -
  have "unat (drop_bit 12 a) = unat a div 4096"
    by (simp add: drop_bit_eq_div unat_div)
  moreover have "unat a div 4096 * 4096 < 2 ^ 64"
    using unat_u64 [of a] le_less_trans [OF div_times_less_eq_dividend] by simp
  ultimately show ?thesis
    by (simp add: PGROUNDDOWN_shift push_bit_eq_mult unat_word_ariths mult.commute)
qed

lemma unat_PGROUNDUP:
  "unat a + 4095 < 2 ^ 64 \<Longrightarrow> unat (PGROUNDUP a) = (unat a + 4095) div 4096 * 4096"
  by (simp add: PGROUNDUP_down unat_PGROUNDDOWN unat_word_ariths)

lemma page_mod_aligned: "a mod PGSIZE = 0 \<longleftrightarrow> aligned 12 a"
  by (simp add: aligned_def take_bit_eq_mod)

lemma aligned_PGROUNDDOWN [simp]: "aligned 12 (PGROUNDDOWN a)"
  by (simp add: aligned_dvd unat_PGROUNDDOWN)

lemma aligned_PGROUNDUP [simp]: "aligned 12 (PGROUNDUP a)"
  by (simp add: PGROUNDUP_down)

lemma PGROUNDDOWN_le: "PGROUNDDOWN a \<le> a"
  by (simp add: word_le_nat_alt unat_PGROUNDDOWN)

lemma PGROUNDDOWN_aligned: "aligned 12 a \<Longrightarrow> PGROUNDDOWN a = a"
  by (simp add: word_unat_eq_iff unat_PGROUNDDOWN aligned_dvd)

lemma range_pages_loop:
  assumes "unat p + 4096 < 2 ^ 64"
  shows "range_pages p e =
    (if unat p + 4096 \<le> unat e then p # range_pages (p + PGSIZE) e else [])"
proof -
  have u: "unat (p + PGSIZE) = unat p + 4096" using assms by (simp add: unat_word_ariths)
  show ?thesis
  proof (cases "unat p + 4096 \<le> unat e")
    case True
    then have "(unat e - unat p) div 4096 = Suc ((unat e - unat (p + PGSIZE)) div 4096)"
      using u by (simp add: le_div_geq)
    then show ?thesis using True
      by (simp add: range_pages_def upt_conv_Cons map_Suc_upt [symmetric] algebra_simps
            del: upt_Suc)
  qed (simp add: range_pages_def)
qed

lemma unat_range_page:
  assumes "i < (unat e - unat p) div 4096"
  shows "unat (p + of_nat i * PGSIZE) = unat p + i * 4096"
    and "unat p + i * 4096 + 4096 \<le> unat (e :: u64)"
proof -
  have "Suc i * 4096 \<le> (unat e - unat p) div 4096 * 4096"
    using assms by (intro mult_le_mono1) simp
  also have "\<dots> \<le> unat e - unat p" by (rule div_times_less_eq_dividend)
  finally show le: "unat p + i * 4096 + 4096 \<le> unat e" by simp
  from le unat_u64 [of e] show "unat (p + of_nat i * PGSIZE) = unat p + i * 4096"
    by (simp add: unat_word_ariths unat_of_nat mod_simps)
qed

lemma distinct_range_pages: "distinct (range_pages p e)"
  unfolding range_pages_def distinct_map
proof (intro conjI inj_onI)
  fix i j
  assume "i \<in> set [0..<(unat e - unat p) div 4096]" "j \<in> set [0..<(unat e - unat p) div 4096]"
    and eq: "p + of_nat i * PGSIZE = p + of_nat j * PGSIZE"
  then have "i < (unat e - unat p) div 4096" "j < (unat e - unat p) div 4096" by simp_all
  then have "unat p + i * 4096 = unat p + j * 4096"
    by (simp only: unat_range_page(1) [symmetric] eq)
  then show "i = j" by simp
qed simp

lemma in_range_pages:
  assumes "aligned 12 p"
  shows "q \<in> set (range_pages p e) \<longleftrightarrow> aligned 12 q \<and> p \<le> q \<and> unat q + 4096 \<le> unat e"
proof
  assume "q \<in> set (range_pages p e)"
  then obtain i where i: "i < (unat e - unat p) div 4096" and q: "q = p + of_nat i * PGSIZE"
    by (auto simp: range_pages_def)
  have "4096 dvd unat p" using assms by (simp add: aligned_dvd)
  then have "4096 dvd unat q" by (simp add: q unat_range_page(1) [OF i])
  then show "aligned 12 q \<and> p \<le> q \<and> unat q + 4096 \<le> unat e"
    using unat_range_page [OF i] by (simp add: aligned_dvd q word_le_nat_alt)
next
  assume q: "aligned 12 q \<and> p \<le> q \<and> unat q + 4096 \<le> unat e"
  then have d: "4096 dvd unat q" "4096 dvd unat p" and le: "unat p \<le> unat q"
    using assms by (simp_all add: aligned_dvd word_le_nat_alt)
  define i where "i = (unat q - unat p) div 4096"
  have eq: "unat q = unat p + i * 4096" using d le by (simp add: i_def)
  then have "i < (unat e - unat p) div 4096"
    using q by (simp add: less_eq_div_iff_mult_less_eq Suc_le_eq [symmetric] le_diff_conv2)
  moreover from this have "q = p + of_nat i * PGSIZE"
    using eq unat_range_page(1) [of i e p] by (simp add: word_unat_eq_iff)
  ultimately show "q \<in> set (range_pages p e)" by (auto simp: range_pages_def)
qed

section \<open>The allocator keeps its list\<close>

lemma chain_cong:
  "(\<And>q. q \<in> set xs \<Longrightarrow> load64 m q = load64 m' q) \<Longrightarrow> chain m p xs = chain m' p xs"
  by (induction xs arbitrary: p) auto

lemma chain_unique: "chain m p xs \<Longrightarrow> chain m p ys \<Longrightarrow> xs = ys"
  by (induction xs arbitrary: p ys) (case_tac ys; auto)+

lemma page_ok_aligned: "page_ok s p \<Longrightarrow> aligned 12 p"
  by (simp add: page_ok_def page_mod_aligned)

text \<open>Eight aligned bytes of one page are untouched by writes inside another page.\<close>

lemma load64_other_page:
  assumes "aligned 12 p" "aligned 12 q" "p \<noteq> q" "\<And>x. 4096 \<le> unat (x - p) \<Longrightarrow> m' x = m x"
  shows "load64 m' q = load64 m q"
  using aligned_apart [of 12 p q] assms by (intro load64_eqI) simp

lemma chain_other_page:
  assumes "aligned 12 p" "\<And>q. q \<in> set xs \<Longrightarrow> aligned 12 q" "p \<notin> set xs"
    "\<And>x. 4096 \<le> unat (x - p) \<Longrightarrow> m' x = m x"
  shows "chain m' r xs = chain m r xs"
  by (rule chain_cong, rule load64_other_page [of p]) (use assms in auto)

lemma kalloc_cons:
  assumes "kmem_ok s (x # xs)"
  shows "kalloc s = Ret x (s\<lparr>freelist := load64 (phys s) x, phys := memset (phys s) x 5 4096\<rparr>)"
  using assms by (auto simp: kalloc_def kmonad kmem_ok_def)

lemma kalloc_cons_ok:
  assumes "kmem_ok s (x # xs)"
  shows "kmem_ok (s\<lparr>freelist := load64 (phys s) x, phys := memset (phys s) x 5 4096\<rparr>) xs"
proof -
  have "chain (memset (phys s) x 5 4096) (load64 (phys s) x) xs = chain (phys s) (load64 (phys s) x) xs"
    by (rule chain_other_page [of x])
      (use assms in \<open>auto simp: kmem_ok_def memset_apply intro: page_ok_aligned\<close>)
  then show ?thesis using assms by (auto simp: kmem_ok_def page_ok_def)
qed

lemma kalloc_nil: "kmem_ok s [] \<Longrightarrow> kalloc s = Ret 0 s"
  by (auto simp: kalloc_def kmonad kmem_ok_def)

lemma kfree_eval:
  assumes "page_ok s p" "Lkmem \<notin> held s"
  shows "kfree p s = Ret () (s\<lparr>phys := store64 (memset (phys s) p 1 4096) p (freelist s), freelist := p\<rparr>)"
  using assms by (auto simp: kfree_def kmonad page_ok_def not_less not_le)

lemma kfree_bad:
  "p mod PGSIZE \<noteq> 0 \<or> p < kend s \<or> PHYSTOP \<le> p \<Longrightarrow> kfree p s = Panic ''kfree''"
  by (auto simp: kfree_def kmonad)

lemma kfree_ok:
  assumes "kmem_ok s xs" "page_ok s p" "p \<notin> set xs"
  shows "kmem_ok (s\<lparr>phys := store64 (memset (phys s) p 1 4096) p (freelist s), freelist := p\<rparr>) (p # xs)"
proof -
  let ?m = "store64 (memset (phys s) p 1 4096) p (freelist s)"
  have "chain ?m (freelist s) xs = chain (phys s) (freelist s) xs"
    by (rule chain_other_page [of p])
      (use assms in \<open>auto simp: kmem_ok_def memset_apply store64_apply intro: page_ok_aligned\<close>)
  then show ?thesis using assms by (auto simp: kmem_ok_def page_ok_def)
qed

lemma kmem_ok_poke:
  assumes "kmem_ok s xs" "PGROUNDDOWN a \<notin> set xs"
  shows "kmem_ok (s\<lparr>phys := (phys s)(a := v)\<rparr>) xs"
proof -
  have "unat (a - PGROUNDDOWN a) < 4096"
    using unat_sub [OF PGROUNDDOWN_le [of a]] by (simp add: unat_PGROUNDDOWN)
  then have "chain ((phys s)(a := v)) (freelist s) xs = chain (phys s) (freelist s) xs"
    by (intro chain_other_page [of "PGROUNDDOWN a"])
      (use assms in \<open>auto simp: kmem_ok_def intro: page_ok_aligned\<close>)
  then show ?thesis using assms by (auto simp: kmem_ok_def page_ok_def)
qed

lemma kmem_ok_cong:
  "held t = held s \<Longrightarrow> phys t = phys s \<Longrightarrow> freelist t = freelist s \<Longrightarrow> kend t = kend s \<Longrightarrow>
   kmem_ok t xs = kmem_ok s xs"
  by (simp add: kmem_ok_def page_ok_def)

lemma kfor_kfree:
  assumes "kmem_ok s xs" "distinct ps" "set ps \<inter> set xs = {}" "\<And>p. p \<in> set ps \<Longrightarrow> page_ok s p"
  shows "\<exists>t. kfor ps kfree s = Ret () t \<and> kmem_ok t (rev ps @ xs) \<and> kend t = kend s \<and> held t = held s"
  using assms
proof (induction ps arbitrary: s xs)
  case Nil
  then show ?case by (simp add: kmonad)
next
  case (Cons p ps)
  let ?t = "s\<lparr>phys := store64 (memset (phys s) p 1 4096) p (freelist s), freelist := p\<rparr>"
  have "kmem_ok ?t (p # xs)" using Cons.prems by (intro kfree_ok) auto
  moreover have "page_ok ?t q" if "q \<in> set ps" for q
    using Cons.prems that by (simp add: page_ok_def)
  ultimately obtain t where "kfor ps kfree ?t = Ret () t" "kmem_ok t (rev ps @ p # xs)"
    "kend t = kend s" "held t = held s"
    using Cons.IH [of ?t "p # xs"] Cons.prems by auto
  moreover have "kfree p s = Ret () ?t"
    using Cons.prems by (intro kfree_eval) (auto simp: kmem_ok_def)
  ultimately show ?case by (simp add: kmonad)
qed

text \<open>The pages \<^verbatim>\<open>kinit()\<close> puts on the free list: every whole page between \<^verbatim>\<open>end\<close> and
  \<^verbatim>\<open>PHYSTOP\<close>.\<close>

definition ram_pages :: "u64 \<Rightarrow> u64 set" where
  "ram_pages e = set (range_pages (PGROUNDUP e) PHYSTOP)"

lemma ram_pages_iff:
  assumes "e \<le> PHYSTOP"
  shows "p \<in> ram_pages e \<longleftrightarrow> aligned 12 p \<and> e \<le> p \<and> p < PHYSTOP"
proof -
  have e: "unat e \<le> 0x88000000" using assms by (simp add: word_le_nat_alt)
  then have u: "unat (PGROUNDUP e) = (unat e + 4095) div 4096 * 4096"
    by (simp add: unat_PGROUNDUP)
  have "PGROUNDUP e \<le> p \<and> unat p + 4096 \<le> unat PHYSTOP \<longleftrightarrow> e \<le> p \<and> p < PHYSTOP" if al: "aligned 12 p"
  proof -
    from al obtain k where k: "unat p = 4096 * k" by (auto simp: aligned_dvd)
    have "(unat e + 4095) div 4096 \<le> k \<longleftrightarrow> unat e \<le> 4096 * k" by linarith
    then show ?thesis by (simp add: word_le_nat_alt word_less_nat_alt u k) linarith
  qed
  then show ?thesis by (auto simp: ram_pages_def in_range_pages)
qed

lemma kinit_ok:
  assumes "freelist s = 0" "Lkmem \<notin> held s" "0 < kend s" "kend s \<le> PHYSTOP"
  shows "\<exists>t xs. kinit s = Ret () t \<and> kmem_ok t xs \<and> set xs = ram_pages (kend s) \<and>
    kend t = kend s \<and> held t = held s"
proof -
  have ok: "page_ok s p" if "p \<in> ram_pages (kend s)" for p
    using that assms(3) by (auto simp: ram_pages_iff [OF assms(4)] page_ok_def page_mod_aligned)
  have "kmem_ok s []" using assms by (simp add: kmem_ok_def)
  from kfor_kfree [OF this distinct_range_pages [of "PGROUNDUP (kend s)" PHYSTOP]] ok
  obtain t where "kfor (range_pages (PGROUNDUP (kend s)) PHYSTOP) kfree s = Ret () t"
    "kmem_ok t (rev (range_pages (PGROUNDUP (kend s)) PHYSTOP))" "kend t = kend s" "held t = held s"
    by (auto simp: ram_pages_def)
  then show ?thesis by (auto simp: kinit_def freerange_def kmonad ram_pages_def)
qed

section \<open>The contract of the allocator\<close>

text \<open>What the rest of the kernel relies on.  \<open>ok s F\<close>: the allocator is in order and \<open>F\<close> are its
  free pages; \<open>pool s\<close> are all pages it manages.  \<open>poke\<close> is a client writing a byte.\<close>

locale page_allocator =
  fixes alloc :: "('s, u64) km" and free :: "u64 \<Rightarrow> ('s, unit) km"
    and poke :: "u64 \<Rightarrow> u8 \<Rightarrow> 's \<Rightarrow> 's"
    and ok :: "'s \<Rightarrow> u64 set \<Rightarrow> bool" and pool :: "'s \<Rightarrow> u64 set"
  assumes alloc_some: "ok s F \<Longrightarrow> F \<noteq> {} \<Longrightarrow>
      \<exists>r t. alloc s = Ret r t \<and> r \<in> F \<and> ok t (F - {r}) \<and> pool t = pool s"
    and alloc_none: "ok s {} \<Longrightarrow> alloc s = Ret 0 s"
    and free_law: "ok s F \<Longrightarrow> p \<in> pool s \<Longrightarrow> p \<notin> F \<Longrightarrow>
      \<exists>t. free p s = Ret () t \<and> ok t (insert p F) \<and> pool t = pool s"
    and poke_law: "ok s F \<Longrightarrow> PGROUNDDOWN a \<notin> F \<Longrightarrow>
      ok (poke a v s) F \<and> pool (poke a v s) = pool s"
    and pool_null: "0 \<notin> pool s"

text \<open>The pages clients hold: a client gets a page, gives one it holds back, or writes inside one it
  holds.\<close>

inductive pg_step :: "('s, u64) km \<Rightarrow> (u64 \<Rightarrow> ('s, unit) km) \<Rightarrow> (u64 \<Rightarrow> u8 \<Rightarrow> 's \<Rightarrow> 's) \<Rightarrow>
    's \<times> u64 set \<Rightarrow> 's \<times> u64 set \<Rightarrow> bool"
  for alloc :: "('s, u64) km" and free :: "u64 \<Rightarrow> ('s, unit) km" and poke :: "u64 \<Rightarrow> u8 \<Rightarrow> 's \<Rightarrow> 's" where
  pg_alloc: "alloc s = Ret r t \<Longrightarrow> r \<noteq> 0 \<Longrightarrow> pg_step alloc free poke (s, L) (t, insert r L)"
| pg_full: "alloc s = Ret 0 t \<Longrightarrow> pg_step alloc free poke (s, L) (t, L)"
| pg_free: "p \<in> L \<Longrightarrow> free p s = Ret () t \<Longrightarrow> pg_step alloc free poke (s, L) (t, L - {p})"
| pg_poke: "PGROUNDDOWN a \<in> L \<Longrightarrow> pg_step alloc free poke (s, L) (poke a v s, L)"

inductive_cases pg_stepE: "pg_step alloc free poke (s, L) (t, M)"

definition pg_inv :: "('s \<Rightarrow> u64 set \<Rightarrow> bool) \<Rightarrow> ('s \<Rightarrow> u64 set) \<Rightarrow> 's \<times> u64 set \<Rightarrow> bool" where
  "pg_inv ok pool c \<longleftrightarrow> (\<exists>F. ok (fst c) F \<and> F \<inter> snd c = {} \<and> F \<union> snd c = pool (fst c))"

context page_allocator
begin

lemma pg_inv_step:
  assumes "pg_inv ok pool c" "pg_step alloc free poke c d"
  shows "pg_inv ok pool d"
  using assms(2,1)
proof cases
  case (pg_alloc s r t L)
  then obtain F where F: "ok s F" "F \<inter> L = {}" "F \<union> L = pool s"
    using assms(1) by (auto simp: pg_inv_def)
  have "F \<noteq> {}" using alloc_none [of s] F(1) pg_alloc(3,4) by (metis out.inject(1))
  then have "r \<in> F" "ok t (F - {r})" "pool t = pool s"
    using alloc_some [OF F(1)] pg_alloc(3) by (metis out.inject(1))+
  then show ?thesis using F pg_alloc(2) by (auto simp: pg_inv_def intro!: exI [of _ "F - {r}"])
next
  case (pg_full s t L)
  then obtain F where F: "ok s F" "F \<inter> L = {}" "F \<union> L = pool s"
    using assms(1) by (auto simp: pg_inv_def)
  have "F = {}"
    using alloc_some [OF F(1)] pg_full(3) pool_null [of s] F(3) by (metis UnI1 out.inject(1))
  then have "t = s" using alloc_none [of s] F(1) pg_full(3) by simp
  then show ?thesis using F pg_full(2) by (auto simp: pg_inv_def)
next
  case (pg_free p L s t)
  then obtain F where F: "ok s F" "F \<inter> L = {}" "F \<union> L = pool s"
    using assms(1) by (auto simp: pg_inv_def)
  moreover from this pg_free have "ok t (insert p F)" "pool t = pool s"
    using free_law [of s F p] by auto
  ultimately show ?thesis using pg_free by (auto simp: pg_inv_def intro!: exI [of _ "insert p F"])
next
  case (pg_poke a L s v)
  then obtain F where F: "ok s F" "F \<inter> L = {}" "F \<union> L = pool s"
    using assms(1) by (auto simp: pg_inv_def)
  moreover from this pg_poke have "ok (poke a v s) F" "pool (poke a v s) = pool s"
    using poke_law [of s F a v] by auto
  ultimately show ?thesis using pg_poke by (auto simp: pg_inv_def)
qed

end

sublocale page_allocator \<subseteq> pgs: inv_system
  "\<lambda>c. ok (fst c) (pool (fst c)) \<and> snd c = {}" "pg_step alloc free poke" "pg_inv ok pool"
proof
  show "ok (fst c) (pool (fst c)) \<and> snd c = {} \<Longrightarrow> pg_inv ok pool c" for c
    by (auto simp: pg_inv_def)
  show "pg_inv ok pool c \<Longrightarrow> pg_step alloc free poke c d \<Longrightarrow> pg_inv ok pool d" for c d
    by (rule pg_inv_step)
qed

definition kpoke :: "u64 \<Rightarrow> u8 \<Rightarrow> 'a kmem_st_scheme \<Rightarrow> 'a kmem_st_scheme" where
  "kpoke a v s = s\<lparr>phys := (phys s)(a := v)\<rparr>"

definition kmem_free :: "'a kmem_st_scheme \<Rightarrow> u64 set \<Rightarrow> bool" where
  "kmem_free s F \<longleftrightarrow> (\<exists>xs. kmem_ok s xs \<and> F = set xs)"

definition kmem_pool :: "'a kmem_st_scheme \<Rightarrow> u64 set" where
  "kmem_pool s = {p. page_ok s p}"

interpretation kmem: page_allocator kalloc kfree kpoke kmem_free kmem_pool
proof
  fix s :: "'a kmem_st_scheme" and F p a v
  show "\<exists>r t. kalloc s = Ret r t \<and> r \<in> F \<and> kmem_free t (F - {r}) \<and> kmem_pool t = kmem_pool s"
    if "kmem_free s F" "F \<noteq> {}"
  proof -
    from that obtain x xs where ok: "kmem_ok s (x # xs)" and F: "F = set (x # xs)"
      unfolding kmem_free_def by (metis list.exhaust set_empty)
    have "F - {x} = set xs" using ok F by (auto simp: kmem_ok_def)
    then show ?thesis using kalloc_cons [OF ok] kalloc_cons_ok [OF ok] F
      by (auto simp: kmem_free_def kmem_pool_def page_ok_def)
  qed
  show "kalloc s = Ret 0 s" if "kmem_free s {}"
    using that kalloc_nil by (auto simp: kmem_free_def)
  show "\<exists>t. kfree p s = Ret () t \<and> kmem_free t (insert p F) \<and> kmem_pool t = kmem_pool s"
    if fr: "kmem_free s F" and p: "p \<in> kmem_pool s" "p \<notin> F"
  proof -
    from fr obtain xs where xs: "kmem_ok s xs" "F = set xs" by (auto simp: kmem_free_def)
    then have ok: "page_ok s p" "p \<notin> set xs" "Lkmem \<notin> held s"
      using p by (auto simp: kmem_pool_def kmem_ok_def)
    let ?t = "s\<lparr>phys := store64 (memset (phys s) p 1 4096) p (freelist s), freelist := p\<rparr>"
    have "kfree p s = Ret () ?t" by (rule kfree_eval [OF ok(1,3)])
    moreover have "kmem_ok ?t (p # xs)" by (rule kfree_ok [OF xs(1) ok(1,2)])
    moreover have "kmem_pool ?t = kmem_pool s" by (simp add: kmem_pool_def page_ok_def)
    ultimately show ?thesis using xs(2) unfolding kmem_free_def by (metis list.simps(15))
  qed
  show "kmem_free (kpoke a v s) F \<and> kmem_pool (kpoke a v s) = kmem_pool s"
    if "kmem_free s F" "PGROUNDDOWN a \<notin> F"
    using that kmem_ok_poke [of s _ a v]
    by (auto simp: kmem_free_def kpoke_def kmem_pool_def page_ok_def)
  show "0 \<notin> kmem_pool s" by (simp add: kmem_pool_def page_ok_def)
qed

definition kmem_booted :: "'a kmem_st_scheme \<times> u64 set \<Rightarrow> bool" where
  "kmem_booted c \<longleftrightarrow> (\<exists>s. freelist s = 0 \<and> Lkmem \<notin> held s \<and> 0 < kend s \<and> kend s \<le> PHYSTOP \<and>
     kinit s = Ret () (fst c)) \<and> snd c = {}"

lemma kmem_booted_inv:
  assumes "kmem_booted c"
  shows "kmem_free (fst c) (kmem_pool (fst c)) \<and> snd c = {} \<and> kend (fst c) \<le> PHYSTOP \<and>
    kmem_pool (fst c) = ram_pages (kend (fst c))"
proof -
  from assms obtain s where s: "freelist s = 0" "Lkmem \<notin> held s" "0 < kend s" "kend s \<le> PHYSTOP"
    "kinit s = Ret () (fst c)" "snd c = {}" by (auto simp: kmem_booted_def)
  from kinit_ok [OF s(1-4)] s(5) obtain xs where xs: "kmem_ok (fst c) xs"
    "set xs = ram_pages (kend s)" "kend (fst c) = kend s" by auto
  have "kmem_pool (fst c) = ram_pages (kend s)"
    using s(3,4) xs(3) by (auto simp: kmem_pool_def page_ok_def page_mod_aligned ram_pages_iff)
  then show ?thesis using s xs by (auto simp: kmem_free_def)
qed

lemma reach_mono_init: "(\<And>s. i s \<Longrightarrow> j s) \<Longrightarrow> reach i st s \<Longrightarrow> reach j st s"
  by (rotate_tac, induction rule: reach.induct) (auto intro: reach.intros)

lemma kmem_pool_step:
  assumes "pg_step kalloc kfree kpoke c d" 
  shows "kend (fst d) = kend (fst c)"
  using assms
  by cases (auto simp: kalloc_def kfree_def kpoke_def kmonad acquire_def release_def
      split: out.splits if_splits)

lemma kmem_reach:
  assumes "reach kmem_booted (pg_step kalloc kfree kpoke) c"
  shows "pg_inv kmem_free kmem_pool c" and "kmem_pool (fst c) = ram_pages (kend (fst c))"
proof -
  have "reach (\<lambda>c. kmem_free (fst c) (kmem_pool (fst c)) \<and> snd c = {}) (pg_step kalloc kfree kpoke) c"
    using assms by (rule reach_mono_init [rotated]) (use kmem_booted_inv in blast)
  then show "pg_inv kmem_free kmem_pool c" by (rule kmem.pgs.reach_inv)
  show "kmem_pool (fst c) = ram_pages (kend (fst c))"
    using assms
  proof (induction rule: reach.induct)
    case (reach_init c)
    then show ?case using kmem_booted_inv by blast
  next
    case (reach_step c d)
    then show ?case using kmem_pool_step [of c d] by (simp add: kmem_pool_def page_ok_def)
  qed
qed

text \<open>C3: from boot on, whatever pages clients take, give back and write, \<^verbatim>\<open>kalloc()\<close> returns a page of
  RAM that nobody holds as long as there is one, and 0 otherwise, and a page that is held can
  always be given back: no page is ever handed out twice, and none is lost.\<close>

theorem kalloc_fresh_page:
  assumes "reach kmem_booted (pg_step kalloc kfree kpoke) (s, L)"
  shows "L \<subseteq> ram_pages (kend s) \<and>
    (if L = ram_pages (kend s) then kalloc s = Ret 0 s
     else (\<exists>r t. kalloc s = Ret r t \<and> r \<in> ram_pages (kend s) - L)) \<and>
    (\<forall>p \<in> L. \<exists>t. kfree p s = Ret () t)"
proof -
  from kmem_reach [OF assms] obtain F where F: "kmem_free s F" "F \<inter> L = {}" "F \<union> L = ram_pages (kend s)"
    and pool: "kmem_pool s = ram_pages (kend s)"
    by (auto simp: pg_inv_def)
  have "kalloc s = Ret 0 s" if "L = ram_pages (kend s)"
    using kmem.alloc_none [of s] F that by (metis inf_sup_absorb)
  moreover have "\<exists>r t. kalloc s = Ret r t \<and> r \<in> ram_pages (kend s) - L" if "L \<noteq> ram_pages (kend s)"
    using kmem.alloc_some [OF F(1)] F(2,3) that by (metis Diff_iff UnI1 disjoint_iff sup_bot_left)
  moreover have "\<exists>t. kfree p s = Ret () t" if "p \<in> L" for p
    using kmem.free_law [OF F(1), of p] F(2,3) pool that by auto
  ultimately show ?thesis using F(3) by auto
qed

definition kmem_one_page :: kmem_st where
  "kmem_one_page = \<lparr>held = {}, cproc = None, klog = [], phys = (\<lambda>_. 0), freelist = 0, kend = 0x87fff000\<rparr>"

theorem kalloc_fresh_page_witness:
  "\<exists>s t. kinit kmem_one_page = Ret () s \<and> kalloc s = Ret 0x87fff000 t"
proof -
  have pre: "freelist kmem_one_page = 0" "Lkmem \<notin> held kmem_one_page" "0 < kend kmem_one_page"
    "kend kmem_one_page \<le> PHYSTOP" by (simp_all add: kmem_one_page_def)
  then obtain s where s: "kinit kmem_one_page = Ret () s" "kend s = 0x87fff000"
    using kinit_ok [of kmem_one_page] by (auto simp: kmem_one_page_def)
  have ram: "ram_pages (kend s) = {0x87fff000}"
    by (simp add: s ram_pages_def PGROUNDUP_def range_pages_def)
  have "reach kmem_booted (pg_step kalloc kfree kpoke) (s, {})"
    by (rule reach_init) (use pre s in \<open>auto simp: kmem_booted_def\<close>)
  from kalloc_fresh_page [OF this] show ?thesis using s(1) by (auto simp: ram)
qed

end
