(* ===== verification/Proc_Table.thy ===== *)
theory Proc_Table
  imports Kalloc
begin

unbundle bit_operations_syntax

text \<open>
  The process table of \<^verbatim>\<open>kernel/proc.h\<close> and the functions of \<^verbatim>\<open>kernel/proc.c\<close> that only touch
  it: pid allocation, the priority scheduler, sleep and wakeup, kill, setpriority.

  A process is an index into \<^verbatim>\<open>proc[NPROC]\<close>; a \<^verbatim>\<open>struct proc *\<close> that may be null is an
  \<open>option\<close>.  The addresses the linker chooses (\<^verbatim>\<open>forkret\<close>, \<^verbatim>\<open>trampoline\<close>) are fields of the state.
  \<^verbatim>\<open>swtch\<close> to the scheduler ends a run with \<open>Sched\<close>; what a function does after it is scheduled
  again is a definition of its own (\<open>sleep_resume\<close>, \<open>yield_resume\<close>).
\<close>

section \<open>Process records\<close>

abbreviation MAXVA :: u64 where "MAXVA \<equiv> 0x4000000000"
abbreviation TRAMPOLINE :: u64 where "TRAMPOLINE \<equiv> 0x3FFFFFF000"
abbreviation TRAPFRAME :: u64 where "TRAPFRAME \<equiv> 0x3FFFFFE000"
abbreviation (input) SHM_PAGES :: nat where "SHM_PAGES \<equiv> 8"
abbreviation SHMBASE :: u64 where "SHMBASE \<equiv> 0x3FFFFF6000"

definition KSTACK :: "nat \<Rightarrow> u64" where
  "KSTACK p = TRAMPOLINE - (of_nat p + 1) * 2 * PGSIZE"

datatype procstate = UNUSED | USED | SLEEPING | RUNNABLE | RUNNING | ZOMBIE

record kcontext =
  ctx_ra :: u64
  ctx_sp :: u64
  ctx_s :: "nat \<Rightarrow> u64"

record proc =
  p_state :: procstate
  p_chan :: "chan option"
  p_killed :: int
  p_xstate :: int
  p_pid :: int
  p_priority :: int
  p_is_thread :: int
  p_tgid :: int
  p_parent :: "nat option"
  p_kstack :: u64
  p_sz :: u64
  p_pagetable :: u64
  p_trapframe :: u64
  p_context :: kcontext
  p_ofile :: "nat \<Rightarrow> nat option"
  p_cwd :: "nat option"
  p_name :: cbuf
  p_shm_mask :: u32

record shmseg =
  shm_pa :: u64
  shm_refcnt :: int

record proc_st = kmem_st +
  procs :: "nat \<Rightarrow> proc"
  initproc :: "nat option"
  nextpid :: int
  shmtable :: "nat \<Rightarrow> shmseg"
  ticks :: u32
  forkret_va :: u64
  trampoline_va :: u64

definition idle_proc :: proc where
  "idle_proc = \<lparr>p_state = UNUSED, p_chan = None, p_killed = 0, p_xstate = 0, p_pid = 0, p_priority = 0,
     p_is_thread = 0, p_tgid = 0, p_parent = None, p_kstack = 0, p_sz = 0, p_pagetable = 0,
     p_trapframe = 0, p_context = \<lparr>ctx_ra = 0, ctx_sp = 0, ctx_s = \<lambda>_. 0\<rparr>, p_ofile = \<lambda>_. None,
     p_cwd = None, p_name = \<lambda>_. 0, p_shm_mask = 0\<rparr>"

definition blank_table :: "(nat \<Rightarrow> proc) \<Rightarrow> 'a \<Rightarrow> 'a proc_st_scheme" where
  [blank]: "blank_table ps x =
     blank_kmem (proc_st_ext ps None 1 (\<lambda>_. \<lparr>shm_pa = 0, shm_refcnt = 0\<rparr>) 0 0 0 x)"

definition proc_at :: "nat \<Rightarrow> ('a proc_st_scheme, proc) km" where
  "proc_at i = kget (\<lambda>s. procs s i)"

definition upd_proc :: "nat \<Rightarrow> (proc \<Rightarrow> proc) \<Rightarrow> ('a proc_st_scheme, unit) km" where
  "upd_proc i f = kmod (\<lambda>s. s\<lparr>procs := (procs s)(i := f (procs s i))\<rparr>)"

definition allprocs :: "nat list" where
  "allprocs = [0..<NPROC]"

lemma proc_at_eval [kmonad]: "proc_at i s = Ret (procs s i) s"
  by (simp add: proc_at_def kmonad)

lemma upd_proc_eval [kmonad]:
  "upd_proc i f s = Ret () (s\<lparr>procs := (procs s)(i := f (procs s i))\<rparr>)"
  by (simp add: upd_proc_def kmonad)

section \<open>Initialisation and pid allocation\<close>

definition shminit :: "('a proc_st_scheme, unit) km" where
  "shminit = kfor [0..<SHM_PAGES] (\<lambda>i.
     kmod (\<lambda>s. s\<lparr>shmtable := (shmtable s)(i := (shmtable s i)\<lparr>shm_pa := 0, shm_refcnt := 0\<rparr>)\<rparr>))"

definition procinit :: "('a proc_st_scheme, unit) km" where
  "procinit = kthen shminit (kfor allprocs (\<lambda>i.
     upd_proc i (\<lambda>p. p\<lparr>p_state := UNUSED, p_kstack := KSTACK i\<rparr>)))"

definition allocpid :: "('a proc_st_scheme, int) km" where
  "allocpid =
     kthen (acquire Lpid)
     (kbind (kget nextpid) (\<lambda>pid.
     kthen (kmod (\<lambda>s. s\<lparr>nextpid := int32 (nextpid s + 1)\<rparr>))
     (kthen (release Lpid)
     (kret pid))))"

section \<open>Switching to the scheduler\<close>

text \<open>\<^verbatim>\<open>sched\<close> checks that the process lock is the only lock held (\<^verbatim>\<open>noff == 1\<close>); a held lock also
  means that interrupts are off, so the last panic of the source cannot be reached.\<close>

definition sched :: "('a proc_st_scheme, 'r) km" where
  "sched =
     kbind curproc (\<lambda>p.
     kbind (kget held) (\<lambda>h.
     kbind (proc_at p) (\<lambda>P.
     if Lproc p \<notin> h then kpanic ''sched p->lock''
     else if h \<noteq> {Lproc p} then kpanic ''sched locks''
     else if p_state P = RUNNING then kpanic ''sched RUNNING''
     else (\<lambda>s. Sched s))))"

definition yield :: "('a proc_st_scheme, 'r) km" where
  "yield =
     kbind curproc (\<lambda>p.
     kthen (acquire (Lproc p))
     (kthen (upd_proc p (\<lambda>P. P\<lparr>p_state := RUNNABLE\<rparr>))
     sched))"

definition yield_resume :: "('a proc_st_scheme, unit) km" where
  "yield_resume = kbind curproc (\<lambda>p. release (Lproc p))"

definition sleep :: "chan \<Rightarrow> lock \<Rightarrow> ('a proc_st_scheme, 'r) km" where
  "sleep ch lk =
     kbind curproc (\<lambda>p.
     kthen (acquire (Lproc p))
     (kthen (release lk)
     (kthen (upd_proc p (\<lambda>P. P\<lparr>p_chan := Some ch\<rparr>))
     (kthen (upd_proc p (\<lambda>P. P\<lparr>p_state := SLEEPING\<rparr>))
     sched))))"

definition sleep_resume :: "lock \<Rightarrow> ('a proc_st_scheme, unit) km" where
  "sleep_resume lk =
     kbind curproc (\<lambda>p.
     kthen (upd_proc p (\<lambda>P. P\<lparr>p_chan := None\<rparr>))
     (kthen (release (Lproc p))
     (acquire lk)))"

text \<open>A channel is null only in \<^verbatim>\<open>wakeup(p->parent)\<close> of a process without a parent.\<close>

definition wakeup :: "chan option \<Rightarrow> ('a proc_st_scheme, unit) km" where
  "wakeup ch = kfor allprocs (\<lambda>i.
     kbind myproc (\<lambda>me.
     kwhen (Some i \<noteq> me)
       (kthen (acquire (Lproc i))
       (kbind (proc_at i) (\<lambda>P.
       kthen (kwhen (p_state P = SLEEPING \<and> p_chan P = ch)
                (upd_proc i (\<lambda>P. P\<lparr>p_state := RUNNABLE\<rparr>)))
       (release (Lproc i)))))))"

section \<open>kill and setpriority\<close>

definition kkill :: "int \<Rightarrow> ('a proc_st_scheme, int) km" where
  "kkill pid =
     kbind (kfind allprocs (\<lambda>i.
       kthen (acquire (Lproc i))
       (kbind (proc_at i) (\<lambda>P.
       if p_pid P = pid then
         kthen (upd_proc i (\<lambda>P. P\<lparr>p_killed := 1\<rparr>))
         (kthen (kwhen (p_state P = SLEEPING) (upd_proc i (\<lambda>P. P\<lparr>p_state := RUNNABLE\<rparr>)))
         (kthen (release (Lproc i))
         (kret (Some 0))))
       else kthen (release (Lproc i)) (kret None)))))
     (\<lambda>r. kret (case r of Some v \<Rightarrow> v | None \<Rightarrow> -1))"

definition setkilled :: "nat \<Rightarrow> ('a proc_st_scheme, unit) km" where
  "setkilled i =
     kthen (acquire (Lproc i))
     (kthen (upd_proc i (\<lambda>P. P\<lparr>p_killed := 1\<rparr>))
     (release (Lproc i)))"

definition killed :: "nat \<Rightarrow> ('a proc_st_scheme, int) km" where
  "killed i =
     kthen (acquire (Lproc i))
     (kbind (proc_at i) (\<lambda>P.
     kthen (release (Lproc i))
     (kret (p_killed P))))"

definition setpriority :: "int \<Rightarrow> int \<Rightarrow> ('a proc_st_scheme, int) km" where
  "setpriority pid priority =
     (if priority < 0 then kret (-1) else
     kbind (kfind allprocs (\<lambda>i.
       kthen (acquire (Lproc i))
       (kbind (proc_at i) (\<lambda>P.
       if p_pid P = pid \<and> p_state P \<noteq> UNUSED then
         kthen (upd_proc i (\<lambda>P. P\<lparr>p_priority := priority\<rparr>))
         (kthen (release (Lproc i))
         (kret (Some 0)))
       else kthen (release (Lproc i)) (kret None)))))
     (\<lambda>r. kret (case r of Some v \<Rightarrow> v | None \<Rightarrow> -1)))"

section \<open>The scheduler\<close>

text \<open>One pass of the loop of \<^verbatim>\<open>scheduler()\<close>: the scan for the best process, the switch to it, and
  what the scheduler does when the process gives the processor up.\<close>

definition sched_scan :: "nat \<Rightarrow> nat option \<Rightarrow> ('a proc_st_scheme, nat option) km" where
  "sched_scan i best =
     kthen (acquire (Lproc i))
     (kbind (proc_at i) (\<lambda>P.
     if p_state P = RUNNABLE then
       (case best of
          None \<Rightarrow> kret (Some i)
        | Some b \<Rightarrow>
            kbind (proc_at b) (\<lambda>B.
            if p_priority P > p_priority B then kthen (release (Lproc b)) (kret (Some i))
            else kthen (release (Lproc i)) (kret best)))
     else kthen (release (Lproc i)) (kret best)))"

definition sched_pick :: "('a proc_st_scheme, nat option) km" where
  "sched_pick = kfold allprocs sched_scan None"

definition sched_switch :: "nat \<Rightarrow> ('a proc_st_scheme, unit) km" where
  "sched_switch b =
     kthen (upd_proc b (\<lambda>P. P\<lparr>p_state := RUNNING\<rparr>))
     (kmod (\<lambda>s. s\<lparr>cproc := Some b\<rparr>))"

definition sched_return :: "nat \<Rightarrow> ('a proc_st_scheme, unit) km" where
  "sched_return b = kthen (kmod (\<lambda>s. s\<lparr>cproc := None\<rparr>)) (release (Lproc b))"

definition scheduler :: "('a proc_st_scheme, nat option) km" where
  "scheduler =
     kbind sched_pick (\<lambda>best.
     case best of
       None \<Rightarrow> kret None
     | Some b \<Rightarrow> kthen (sched_switch b) (kret (Some b)))"

section \<open>Scanning the table\<close>

lemma kfind_first:
  assumes "\<And>i. i \<in> set is \<Longrightarrow> body i s = (if P i then Ret (Some (v i)) (t i) else Ret None s)"
  shows "kfind is body s = (case find P is of None \<Rightarrow> Ret None s | Some i \<Rightarrow> Ret (Some (v i)) (t i))"
  using assms by (induction "is") (auto simp: kmonad)

lemma kfor_procs:
  assumes body: "\<And>i s. i \<in> set is \<Longrightarrow> ok i (held s) (cproc s) \<Longrightarrow>
      body i s = Ret () (s\<lparr>procs := (procs s)(i := f i (cproc s) (procs s i))\<rparr>)"
    and "distinct is" and "\<And>i. i \<in> set is \<Longrightarrow> ok i (held s) (cproc s)"
  shows "kfor is body s =
    Ret () (s\<lparr>procs := \<lambda>i. if i \<in> set is then f i (cproc s) (procs s i) else procs s i\<rparr>)"
  using assms
proof (induction "is" arbitrary: s)
  case Nil
  then show ?case by (simp add: kmonad)
next
  case (Cons j js)
  let ?t = "s\<lparr>procs := (procs s)(j := f j (cproc s) (procs s j))\<rparr>"
  have "kfor js body ?t = Ret () (?t\<lparr>procs := \<lambda>i. if i \<in> set js then f i (cproc ?t) (procs ?t i) else procs ?t i\<rparr>)"
    using Cons.prems by (intro Cons.IH) auto
  moreover have "body j s = Ret () ?t" by (rule Cons.prems(1)) (use Cons.prems(3) in auto)
  moreover have "(\<lambda>i. if i \<in> set js then f i (cproc ?t) (procs ?t i) else procs ?t i) =
      (\<lambda>i. if i \<in> set (j # js) then f i (cproc s) (procs s i) else procs s i)"
    using Cons.prems(2) by (auto simp: fun_eq_iff)
  ultimately show ?case by (simp add: kmonad cong: if_cong)
qed

lemma in_allprocs [simp]: "i \<in> set allprocs \<longleftrightarrow> i < NPROC"
  by (simp add: allprocs_def)

lemma distinct_allprocs [simp]: "distinct allprocs"
  by (simp add: allprocs_def)

text \<open>The first process of the table with a property.\<close>

definition first_proc :: "(proc \<Rightarrow> bool) \<Rightarrow> 'a proc_st_scheme \<Rightarrow> nat option" where
  "first_proc P s = find (\<lambda>i. P (procs s i)) allprocs"

lemma first_proc_Some:
  "first_proc P s = Some i \<longleftrightarrow> i < NPROC \<and> P (procs s i) \<and> (\<forall>j<i. \<not> P (procs s j))"
  unfolding first_proc_def find_Some_iff allprocs_def by auto

lemma first_proc_None: "first_proc P s = None \<longleftrightarrow> (\<forall>i<NPROC. \<not> P (procs s i))"
  by (auto simp: first_proc_def find_None_iff)

definition no_plock :: "'a kbase_scheme \<Rightarrow> bool" where
  "no_plock s \<longleftrightarrow> (\<forall>i. Lproc i \<notin> held s)"

lemma wakeup_eval:
  assumes "\<And>i. i < NPROC \<Longrightarrow> Lproc i \<in> held s \<Longrightarrow> cproc s = Some i"
  shows "wakeup ch s = Ret () (s\<lparr>procs := \<lambda>i.
    if i < NPROC \<and> Some i \<noteq> cproc s \<and> p_state (procs s i) = SLEEPING \<and> p_chan (procs s i) = ch
    then (procs s i)\<lparr>p_state := RUNNABLE\<rparr> else procs s i\<rparr>)"
proof -
  define f where "f i me P = (if Some i \<noteq> me \<and> p_state P = SLEEPING \<and> p_chan P = ch
      then P\<lparr>p_state := RUNNABLE\<rparr> else P)" for i :: nat and me and P :: proc
  have "wakeup ch s =
    Ret () (s\<lparr>procs := \<lambda>i. if i \<in> set allprocs then f i (cproc s) (procs s i) else procs s i\<rparr>)"
    unfolding wakeup_def
    by (rule kfor_procs [where ok = "\<lambda>i h me. Lproc i \<in> h \<longrightarrow> me = Some i"])
      (use assms in \<open>auto simp: kmonad f_def\<close>)
  also have "(\<lambda>i. if i \<in> set allprocs then f i (cproc s) (procs s i) else procs s i) =
    (\<lambda>i. if i < NPROC \<and> Some i \<noteq> cproc s \<and> p_state (procs s i) = SLEEPING \<and> p_chan (procs s i) = ch
      then (procs s i)\<lparr>p_state := RUNNABLE\<rparr> else procs s i)"
    by (auto simp: fun_eq_iff f_def)
  finally show ?thesis .
qed

lemma kkill_eval:
  assumes "no_plock s"
  shows "kkill pid s = (case first_proc (\<lambda>P. p_pid P = pid) s of
      None \<Rightarrow> Ret (-1) s
    | Some i \<Rightarrow> Ret 0 (s\<lparr>procs := (procs s)(i := (procs s i)\<lparr>p_killed := 1,
        p_state := if p_state (procs s i) = SLEEPING then RUNNABLE else p_state (procs s i)\<rparr>)\<rparr>))"
proof -
  let ?t = "\<lambda>i. s\<lparr>procs := (procs s)(i := (procs s i)\<lparr>p_killed := 1,
        p_state := if p_state (procs s i) = SLEEPING then RUNNABLE else p_state (procs s i)\<rparr>)\<rparr>"
  show ?thesis unfolding kkill_def first_proc_def kbind_def
    by (subst kfind_first [where P = "\<lambda>i. p_pid (procs s i) = pid" and v = "\<lambda>_. 0" and t = ?t])
      (use assms in \<open>auto simp: kmonad no_plock_def split: option.split\<close>)
qed

lemma setpriority_eval:
  assumes "no_plock s"
  shows "setpriority pid pr s = (if pr < 0 then Ret (-1) s else
    case first_proc (\<lambda>P. p_pid P = pid \<and> p_state P \<noteq> UNUSED) s of
      None \<Rightarrow> Ret (-1) s
    | Some i \<Rightarrow> Ret 0 (s\<lparr>procs := (procs s)(i := (procs s i)\<lparr>p_priority := pr\<rparr>)\<rparr>))"
proof (cases "pr < 0")
  case False
  let ?t = "\<lambda>i. s\<lparr>procs := (procs s)(i := (procs s i)\<lparr>p_priority := pr\<rparr>)\<rparr>"
  let ?P = "\<lambda>i. p_pid (procs s i) = pid \<and> p_state (procs s i) \<noteq> UNUSED"
  show ?thesis unfolding setpriority_def if_not_P [OF False] first_proc_def kbind_def
    by (subst kfind_first [where P = ?P and v = "\<lambda>_. 0" and t = ?t])
      (use assms in \<open>auto simp: kmonad no_plock_def split: option.split\<close>)
qed (simp add: setpriority_def kmonad)

section \<open>The scheduler picks the first process of highest priority\<close>

text \<open>Among the first \<open>n\<close> processes, \<open>b\<close> is runnable, none has a higher priority, and those before it
  have a lower one.\<close>

definition best_of :: "nat \<Rightarrow> (nat \<Rightarrow> proc) \<Rightarrow> nat \<Rightarrow> bool" where
  "best_of n ps b \<longleftrightarrow> b < n \<and> p_state (ps b) = RUNNABLE \<and>
     (\<forall>j<n. p_state (ps j) = RUNNABLE \<longrightarrow>
        p_priority (ps j) \<le> p_priority (ps b) \<and> (j < b \<longrightarrow> p_priority (ps j) < p_priority (ps b)))"

definition best_opt :: "nat \<Rightarrow> (nat \<Rightarrow> proc) \<Rightarrow> nat option \<Rightarrow> bool" where
  "best_opt n ps r \<longleftrightarrow>
     (case r of None \<Rightarrow> \<forall>j<n. p_state (ps j) \<noteq> RUNNABLE | Some b \<Rightarrow> best_of n ps b)"

definition olock :: "nat option \<Rightarrow> lock set" where
  "olock r = (case r of None \<Rightarrow> {} | Some b \<Rightarrow> {Lproc b})"

lemma sched_scan_step:
  assumes "best_opt n (procs s) r" "no_plock s"
  shows "\<exists>r'. best_opt (Suc n) (procs s) r' \<and>
    sched_scan n r (s\<lparr>held := held s \<union> olock r\<rparr>) = Ret r' (s\<lparr>held := held s \<union> olock r'\<rparr>)"
proof (cases "p_state (procs s n) = RUNNABLE")
  case False
  then have "best_opt (Suc n) (procs s) r"
    using assms(1) by (auto simp: best_opt_def best_of_def less_Suc_eq split: option.splits)
  moreover have "Lproc n \<notin> held s \<union> olock r"
    using assms by (auto simp: no_plock_def olock_def best_opt_def best_of_def split: option.splits)
  ultimately show ?thesis using False by (intro exI [of _ r]) (simp add: sched_scan_def kmonad)
next
  case run: True
  show ?thesis
  proof (cases r)
    case None
    then have "best_opt (Suc n) (procs s) (Some n)"
      using run assms(1) by (auto simp: best_opt_def best_of_def less_Suc_eq)
    then show ?thesis using run None assms(2)
      by (intro exI [of _ "Some n"]) (simp add: sched_scan_def kmonad olock_def no_plock_def)
  next
    case (Some b)
    then have b: "best_of n (procs s) b" using assms(1) by (simp add: best_opt_def)
    then have "b \<noteq> n" by (simp add: best_of_def)
    show ?thesis
    proof (cases "p_priority (procs s n) > p_priority (procs s b)")
      case True
      then have "best_opt (Suc n) (procs s) (Some n)"
        using run b by (fastforce simp: best_opt_def best_of_def less_Suc_eq)
      moreover have "insert (Lproc n) (insert (Lproc b) (held s)) - {Lproc b} = insert (Lproc n) (held s)"
        using assms(2) \<open>b \<noteq> n\<close> by (auto simp: no_plock_def)
      ultimately show ?thesis using run True Some \<open>b \<noteq> n\<close> assms(2)
        by (intro exI [of _ "Some n"]) (simp add: sched_scan_def kmonad olock_def no_plock_def)
    next
      case False
      then have "best_opt (Suc n) (procs s) (Some b)"
        using run b by (auto simp: best_opt_def best_of_def less_Suc_eq not_less)
      then show ?thesis using run False Some \<open>b \<noteq> n\<close> assms(2)
        by (intro exI [of _ "Some b"]) (simp add: sched_scan_def kmonad olock_def no_plock_def)
    qed
  qed
qed

lemma kfold_append: "kfold (xs @ ys) body a s = kbind (kfold xs body a) (kfold ys body) s"
  by (induction xs arbitrary: a s) (auto simp: kmonad split: out.split)

lemma sched_scan_all:
  assumes "no_plock s"
  shows "\<exists>r. best_opt n (procs s) r \<and>
    kfold [0..<n] sched_scan None s = Ret r (s\<lparr>held := held s \<union> olock r\<rparr>)"
proof (induction n)
  case 0
  then show ?case by (simp add: kmonad best_opt_def olock_def)
next
  case (Suc n)
  then obtain r where r: "best_opt n (procs s) r"
    "kfold [0..<n] sched_scan None s = Ret r (s\<lparr>held := held s \<union> olock r\<rparr>)" by blast
  from sched_scan_step [OF r(1) assms] obtain r' where r': "best_opt (Suc n) (procs s) r'"
    "sched_scan n r (s\<lparr>held := held s \<union> olock r\<rparr>) = Ret r' (s\<lparr>held := held s \<union> olock r'\<rparr>)" by blast
  then show ?case using r(2) by (auto simp: kfold_append kmonad)
qed

text \<open>C19: one pass of the scheduler loop runs the runnable process of highest priority, the first in
  the table among equals; it changes the state of that process only, and goes on holding its lock
  and no other process lock.  With nothing runnable it changes nothing.\<close>

theorem scheduler_highest_priority:
  assumes "no_plock s"
  shows "(\<exists>b. best_of NPROC (procs s) b \<and>
      scheduler s = Ret (Some b) (s\<lparr>held := insert (Lproc b) (held s),
        procs := (procs s)(b := (procs s b)\<lparr>p_state := RUNNING\<rparr>), cproc := Some b\<rparr>)) \<or>
    (\<forall>i<NPROC. p_state (procs s i) \<noteq> RUNNABLE) \<and> scheduler s = Ret None s"
proof -
  from sched_scan_all [OF assms, of NPROC] obtain r where r: "best_opt NPROC (procs s) r"
    "sched_pick s = Ret r (s\<lparr>held := held s \<union> olock r\<rparr>)" by (auto simp: sched_pick_def allprocs_def)
  then show ?thesis
    by (cases r) (auto simp: scheduler_def sched_switch_def kmonad best_opt_def olock_def)
qed

definition table_of :: "(nat \<Rightarrow> proc) \<Rightarrow> proc_st" where
  "table_of ps = \<lparr>held = {}, cproc = None, klog = [], phys = \<lambda>_. 0, freelist = 0, kend = 0x80100000,
     procs = ps, initproc = None, nextpid = 1, shmtable = \<lambda>_. \<lparr>shm_pa = 0, shm_refcnt = 0\<rparr>, ticks = 0,
     forkret_va = 0, trampoline_va = 0\<rparr>"

theorem scheduler_highest_priority_witness:
  "\<exists>t. scheduler (table_of (\<lambda>i. idle_proc\<lparr>p_state := if i < 3 then RUNNABLE else UNUSED,
     p_priority := if i = 0 then 5 else 10\<rparr>)) = Ret (Some 1) t"
proof -
  let ?ps = "\<lambda>i::nat. idle_proc\<lparr>p_state := if i < 3 then RUNNABLE else UNUSED,
     p_priority := if i = 0 then 5 else 10\<rparr>"
  have "no_plock (table_of ?ps)" by (simp add: no_plock_def table_of_def)
  from scheduler_highest_priority [OF this] 
  consider b where "best_of NPROC ?ps b" "\<exists>t. scheduler (table_of ?ps) = Ret (Some b) t"
    | "\<forall>i<NPROC. p_state (?ps i) \<noteq> RUNNABLE" by (force simp: table_of_def)
  then show ?thesis
  proof cases
    case (1 b)
    then have "b < 3" by (auto simp: best_of_def split: if_splits)
    moreover have pr: "10 \<le> p_priority (?ps b)" "1 < b \<longrightarrow> 10 < p_priority (?ps b)"
      using 1(1) [unfolded best_of_def, THEN conjunct2, THEN conjunct2, rule_format, of 1] by simp_all
    have "b \<noteq> 0" using pr(1) by (cases "b = 0") simp_all
    moreover have "\<not> 1 < b" using pr(2) by auto
    ultimately have "b = 1" by arith
    then show ?thesis using 1(2) by simp
  next
    case 2
    then show ?thesis by (auto dest: spec [of _ 0])
  qed
qed

section \<open>Giving the processor up\<close>

lemma sched_eval [kmonad]:
  "cproc s = Some p \<Longrightarrow> held s = {Lproc p} \<Longrightarrow> p_state (procs s p) \<noteq> RUNNING \<Longrightarrow> sched s = Sched s"
  by (simp add: sched_def kmonad)

lemma sched_never_returns: "sched s \<noteq> Ret r t"
  by (cases "cproc s") (auto simp: sched_def kmonad)

text \<open>\<^verbatim>\<open>sleep\<close> needs the condition lock, and only it: with another lock held \<^verbatim>\<open>sched\<close> panics.\<close>

lemma sleep_eval:
  assumes "cproc s = Some p" "held s = {lk}" "lk \<noteq> Lproc p"
  shows "sleep ch lk s = Sched (s\<lparr>held := {Lproc p},
    procs := (procs s)(p := (procs s p)\<lparr>p_chan := Some ch, p_state := SLEEPING\<rparr>)\<rparr>)"
proof -
  have "insert (Lproc p) {lk} - {lk} = {Lproc p}" using assms(3) by auto
  then show ?thesis using assms by (simp add: sleep_def kmonad)
qed

lemma sleep_other_lock:
  assumes "cproc s = Some p" "lk \<in> held s" "l \<in> held s" "l \<noteq> lk" "lk \<noteq> Lproc p" "Lproc p \<notin> held s"
  shows "sleep ch lk s = Panic ''sched locks''"
proof -
  have "l \<in> insert (Lproc p) (held s) - {lk}" "l \<noteq> Lproc p" using assms by auto
  then have "insert (Lproc p) (held s) - {lk} \<noteq> {Lproc p}" by blast
  then show ?thesis using assms(1,2,5,6) by (simp add: sleep_def sched_def kmonad del: insert_Diff_if)
qed

lemma sleep_resume_eval:
  assumes "cproc s = Some p" "held s = {Lproc p}"
  shows "sleep_resume lk s = Ret () (s\<lparr>procs := (procs s)(p := (procs s p)\<lparr>p_chan := None\<rparr>), held := {lk}\<rparr>)"
  using assms by (simp add: sleep_resume_def kmonad)

lemma yield_eval:
  assumes "cproc s = Some p" "held s = {}"
  shows "yield s = Sched (s\<lparr>held := {Lproc p}, procs := (procs s)(p := (procs s p)\<lparr>p_state := RUNNABLE\<rparr>)\<rparr>)"
  using assms by (simp add: yield_def kmonad)

lemma killed_eval [kmonad]:
  "Lproc i \<notin> held s \<Longrightarrow> killed i s = Ret (p_killed (procs s i)) s"
  by (simp add: killed_def kmonad)

lemma setkilled_eval [kmonad]:
  "Lproc i \<notin> held s \<Longrightarrow> setkilled i s = Ret () (s\<lparr>procs := (procs s)(i := (procs s i)\<lparr>p_killed := 1\<rparr>)\<rparr>)"
  by (simp add: setkilled_def kmonad)

lemma allocpid_eval [kmonad]:
  "Lpid \<notin> held s \<Longrightarrow> allocpid s = Ret (nextpid s) (s\<lparr>nextpid := int32 (nextpid s + 1)\<rparr>)"
  by (simp add: allocpid_def kmonad)

section \<open>Waiting for a condition\<close>

text \<open>The kernel waits in one way only: with the condition lock held it tests the condition, sleeps
  when it does not hold, and tests again when woken.  \<open>asleep p ch s\<close> is the state in which process
  \<open>p\<close> has gone to sleep on \<open>ch\<close>.\<close>

definition asleep :: "nat \<Rightarrow> chan \<Rightarrow> 'a proc_st_scheme \<Rightarrow> 'a proc_st_scheme" where
  "asleep p ch s = s\<lparr>held := {Lproc p},
     procs := (procs s)(p := (procs s p)\<lparr>p_chan := Some ch, p_state := SLEEPING\<rparr>)\<rparr>"

lemma sleep_asleep:
  "cproc s = Some p \<Longrightarrow> held s = {lk} \<Longrightarrow> lk \<noteq> Lproc p \<Longrightarrow> sleep ch lk s = Sched (asleep p ch s)"
  unfolding asleep_def by (rule sleep_eval)

text \<open>The state in which a process that was woken on \<open>lk\<close>'s condition has the lock again.\<close>

definition woken :: "nat \<Rightarrow> lock \<Rightarrow> 'a proc_st_scheme \<Rightarrow> 'a proc_st_scheme" where
  "woken p lk s = s\<lparr>procs := (procs s)(p := (procs s p)\<lparr>p_chan := None\<rparr>), held := {lk}\<rparr>"

locale cond_wait =
  fixes loop :: "('a proc_st_scheme, 'r) km" and lk :: lock and ch :: chan
    and ready :: "'a proc_st_scheme \<Rightarrow> bool" and stop :: "'a proc_st_scheme \<Rightarrow> bool"
  assumes blocks: "cproc s = Some p \<Longrightarrow> held s = {lk} \<Longrightarrow> \<not> ready s \<Longrightarrow> \<not> stop s \<Longrightarrow>
      loop s = Sched (asleep p ch s)"
    and goes_on: "cproc s = Some p \<Longrightarrow> held s = {lk} \<Longrightarrow> ready s \<Longrightarrow> \<exists>r t. loop s = Ret r t"
begin

text \<open>A wakeup without the condition is harmless: the process is back asleep on the same channel.\<close>

lemma spurious_wakeup:
  assumes "cproc s = Some p" "held s = {Lproc p}" "\<not> ready (woken p lk s)" "\<not> stop (woken p lk s)"
  shows "kthen (sleep_resume lk) loop s = Sched (asleep p ch (woken p lk s))"
  using assms blocks [of "woken p lk s" p]
  by (simp add: kthen_eval sleep_resume_eval woken_def)

text \<open>A wakeup with the condition true ends the wait.\<close>

lemma real_wakeup:
  assumes "cproc s = Some p" "held s = {Lproc p}" "ready (woken p lk s)"
  shows "\<exists>r t. kthen (sleep_resume lk) loop s = Ret r t"
  using assms goes_on [of "woken p lk s" p]
  by (simp add: kthen_eval sleep_resume_eval woken_def)

end

text \<open>Whoever makes the condition true calls \<^verbatim>\<open>wakeup\<close> on the channel while holding the lock; every
  sleeper on it becomes runnable.\<close>

definition wake_all :: "chan \<Rightarrow> 'a proc_st_scheme \<Rightarrow> 'a proc_st_scheme" where
  "wake_all ch s = s\<lparr>procs := \<lambda>i.
    if i < NPROC \<and> Some i \<noteq> cproc s \<and> p_state (procs s i) = SLEEPING \<and> p_chan (procs s i) = Some ch
    then (procs s i)\<lparr>p_state := RUNNABLE\<rparr> else procs s i\<rparr>"

lemma wakeup_all: "no_plock s \<Longrightarrow> wakeup (Some ch) s = Ret () (wake_all ch s)"
  unfolding wake_all_def by (rule wakeup_eval) (simp add: no_plock_def)

lemma wake_all_runs:
  "i < NPROC \<Longrightarrow> Some i \<noteq> cproc s \<Longrightarrow> p_state (procs s i) = SLEEPING \<Longrightarrow> p_chan (procs s i) = Some ch \<Longrightarrow>
    p_state (procs (wake_all ch s) i) = RUNNABLE"
  by (simp add: wake_all_def)

lemma wake_all_fields [simp]:
  "held (wake_all ch s) = held s" "cproc (wake_all ch s) = cproc s"
  by (simp_all add: wake_all_def)

lemma held_same: "held s = h \<Longrightarrow> s\<lparr>held := h\<rparr> = s"
  by (cases s) simp

lemma wake_all_held: "wake_all ch (s\<lparr>held := h\<rparr>) = (wake_all ch s)\<lparr>held := h\<rparr>"
  by (simp add: wake_all_def cong: if_cong)

section \<open>What sleeping, waking and killing can touch\<close>

definition ps_eq :: "'a proc_st_scheme \<Rightarrow> 'a proc_st_scheme \<Rightarrow> bool" where
  "ps_eq s t \<longleftrightarrow> t = s\<lparr>held := held t, procs := procs t\<rparr>"

lemma ps_eq_upd: "ps_eq s t \<longleftrightarrow> (\<exists>h p. t = s\<lparr>held := h, procs := p\<rparr>)"
  by (auto simp: ps_eq_def)

interpretation psf: frame_rel ps_eq
proof
  fix s t u :: "'a proc_st_scheme"
  show "ps_eq s s" by (simp add: ps_eq_def)
  show "ps_eq s t \<Longrightarrow> ps_eq t u \<Longrightarrow> ps_eq s u" by (auto simp: ps_eq_upd) blast
qed

lemma ps_acquire: "kkeeps ps_eq (acquire l)"
  unfolding kkeeps_def acquire_def by (auto simp: ps_eq_def)

lemma ps_release: "kkeeps ps_eq (release l)"
  unfolding kkeeps_def release_def by (auto simp: ps_eq_def)

lemma ps_curproc: "kkeeps ps_eq curproc" "kkeeps ps_eq myproc"
  unfolding curproc_def myproc_def by (intro psf.keeps_rules)+

lemma ps_proc: "kkeeps ps_eq (proc_at i)" "kkeeps ps_eq (upd_proc i f)"
  unfolding proc_at_def upd_proc_def by (intro psf.keeps_rules psf.keeps_mod; simp add: ps_eq_def)+

lemma ps_sched: "kkeeps ps_eq sched"
proof -
  have "kkeeps ps_eq (\<lambda>s. Sched s)" by (simp add: kkeeps_def ps_eq_def)
  then show ?thesis unfolding sched_def by (intro psf.keeps_rules ps_curproc ps_proc)
qed

lemmas ps_keeps = psf.keeps_rules ps_acquire ps_release ps_curproc ps_proc ps_sched

lemma ps_sleep: "kkeeps ps_eq (sleep ch lk)" "kkeeps ps_eq (sleep_resume lk)"
  unfolding sleep_def sleep_resume_def by (intro ps_keeps)+

lemma ps_yield: "kkeeps ps_eq yield" "kkeeps ps_eq yield_resume"
  unfolding yield_def yield_resume_def by (intro ps_keeps)+

lemma ps_wakeup: "kkeeps ps_eq (wakeup ch)"
  unfolding wakeup_def by (intro ps_keeps)

lemma ps_killed: "kkeeps ps_eq (killed p)" "kkeeps ps_eq (setkilled p)"
  unfolding killed_def setkilled_def by (intro ps_keeps)+

lemma ps_kkill: "kkeeps ps_eq (kkill pid)"
  unfolding kkill_def by (intro ps_keeps)

lemmas ps_frame = ps_keeps ps_sleep ps_yield ps_wakeup ps_killed ps_kkill

lemma kkeeps_Sched: "kkeeps R m \<Longrightarrow> m s = Sched t \<Longrightarrow> R s t"
  unfolding kkeeps_def by (metis out.simps(12))

end
