(* ===== verification/Pagetable.thy ===== *)
theory Pagetable
  imports Kalloc
begin

unbundle bit_operations_syntax

text \<open>
  Sv39 page tables as they sit in memory: the index and entry macros of \<^verbatim>\<open>kernel/riscv.h\<close>, and the
  three-level tree a root page spans.  A path is the list of indices taken from the root; \<open>node\<close>
  follows it.  The tree is well formed when no two paths meet in a page, and the lemmas say what a
  store into a leaf table, a new table page and a write elsewhere do to the translation.
\<close>

section \<open>Macros of riscv.h\<close>

abbreviation (input) PTE_V :: u64 where "PTE_V \<equiv> 1"
abbreviation (input) PTE_R :: u64 where "PTE_R \<equiv> 2"
abbreviation (input) PTE_W :: u64 where "PTE_W \<equiv> 4"
abbreviation (input) PTE_X :: u64 where "PTE_X \<equiv> 8"
abbreviation (input) PTE_U :: u64 where "PTE_U \<equiv> 16"

definition PA2PTE :: "u64 \<Rightarrow> u64" where
  "PA2PTE pa = push_bit 10 (drop_bit 12 pa)"

definition PTE2PA :: "u64 \<Rightarrow> u64" where
  "PTE2PA pte = push_bit 12 (drop_bit 10 pte)"

definition PTE_FLAGS :: "u64 \<Rightarrow> u64" where
  "PTE_FLAGS pte = pte AND 0x3FF"

definition PX :: "nat \<Rightarrow> u64 \<Rightarrow> u64" where
  "PX level va = drop_bit (12 + 9 * level) va AND 0x1FF"

definition MAKE_SATP :: "u64 \<Rightarrow> u64" where
  "MAKE_SATP pagetable = push_bit 60 8 OR drop_bit 12 pagetable"

section \<open>Entries\<close>

lemma and_mask_u64: "(a :: u64) AND 0x1FF = take_bit 9 a" "(a :: u64) AND 0x3FF = take_bit 10 a"
  by (simp_all add: take_bit_eq_mask mask_eq_exp_minus_1)

lemma valid_bit: "(v :: u64) AND PTE_V \<noteq> 0 \<longleftrightarrow> bit v 0"
  by (simp add: and_one_eq bit_0 mod_2_eq_odd)

lemma bit_u64_less: "unat (a :: u64) < 2 ^ k \<Longrightarrow> k \<le> n \<Longrightarrow> \<not> bit a n"
proof
  assume a: "unat a < 2 ^ k" "k \<le> n" "bit a n"
  then have "bit (unat a) n" by (simp add: bit_unsigned_iff bit_imp_le_length)
  then have "odd (unat a div 2 ^ n)" by (simp add: bit_iff_odd)
  moreover have "unat a < 2 ^ n" using a(1,2) by (meson less_le_trans one_le_numeral power_increasing)
  ultimately show False by simp
qed

lemma aligned_bit: "aligned k a \<Longrightarrow> n < k \<Longrightarrow> \<not> bit a n"
  unfolding aligned_def by (metis bit_0_eq bit_take_bit_iff bot_apply bot_bool_def)

lemma PTE_roundtrip:
  assumes "aligned 12 pa" "unat pa < 2 ^ 56" "unat flags < 2 ^ 10"
  shows "PTE2PA (PA2PTE pa OR flags) = pa" and "PTE_FLAGS (PA2PTE pa OR flags) = flags"
proof -
  have pa: "\<not> bit pa n" if "n < 12 \<or> 56 \<le> n" for n
    using that aligned_bit [OF assms(1)] bit_u64_less [OF assms(2)] by auto
  have fl: "\<not> bit flags n" if "10 \<le> n" for n
    using that bit_u64_less [OF assms(3)] by auto
  show "PTE2PA (PA2PTE pa OR flags) = pa"
  proof (rule bit_word_eqI)
    fix n assume "n < LENGTH(64)"
    then show "bit (PTE2PA (PA2PTE pa OR flags)) n = bit pa n"
      using pa [of n] fl [of "n - 2"]
      by (cases "n < 12"; cases "56 \<le> n") (auto simp: PTE2PA_def PA2PTE_def bit_simps not_less)
  qed
  show "PTE_FLAGS (PA2PTE pa OR flags) = flags"
    unfolding PTE_FLAGS_def and_mask_u64
  proof (rule bit_word_eqI)
    fix n assume "n < LENGTH(64)"
    then show "bit (take_bit 10 (PA2PTE pa OR flags)) n = bit flags n"
      using fl [of n] by (cases "n < 10") (auto simp: PA2PTE_def bit_simps)
  qed
qed

section \<open>The tree\<close>

definition ent :: "mem \<Rightarrow> u64 \<Rightarrow> nat \<Rightarrow> u64" where
  "ent m p i = load64 m (p + 8 * of_nat i)"

definition sub_table :: "mem \<Rightarrow> u64 \<Rightarrow> nat \<Rightarrow> u64 option" where
  "sub_table m p i = (if bit (ent m p i) 0 then Some (PTE2PA (ent m p i)) else None)"

fun node :: "mem \<Rightarrow> u64 \<Rightarrow> nat list \<Rightarrow> u64 option" where
  "node m p [] = Some p"
| "node m p (i # is) = (case sub_table m p i of None \<Rightarrow> None | Some q \<Rightarrow> node m q is)"

definition is_path :: "nat list \<Rightarrow> bool" where
  "is_path xs \<longleftrightarrow> length xs \<le> 2 \<and> (\<forall>i \<in> set xs. i < 512)"

definition pt_pages :: "mem \<Rightarrow> u64 \<Rightarrow> u64 set" where
  "pt_pages m pt = {p. \<exists>xs. is_path xs \<and> node m pt xs = Some p}"

definition pt_tree :: "mem \<Rightarrow> u64 \<Rightarrow> bool" where
  "pt_tree m pt \<longleftrightarrow> (\<forall>p \<in> pt_pages m pt. aligned 12 p) \<and>
     (\<forall>xs ys p. is_path xs \<longrightarrow> is_path ys \<longrightarrow> node m pt xs = Some p \<longrightarrow> node m pt ys = Some p \<longrightarrow> xs = ys)"

definition pte_at :: "mem \<Rightarrow> u64 \<Rightarrow> nat \<Rightarrow> nat \<Rightarrow> nat \<Rightarrow> u64" where
  "pte_at m pt i j k = (case node m pt [i, j] of None \<Rightarrow> 0 | Some p \<Rightarrow> ent m p k)"

lemma node_append:
  "node m p (xs @ ys) = (case node m p xs of None \<Rightarrow> None | Some q \<Rightarrow> node m q ys)"
  by (induction m p xs rule: node.induct) (auto split: option.split)

lemma slot_aligned: "aligned 12 p \<Longrightarrow> aligned 3 (p + 8 * of_nat i)"
proof -
  assume "aligned 12 p"
  then have "aligned 3 p" by (rule aligned_weaken) simp
  moreover have "aligned 3 (8 * of_nat i)" by (simp add: aligned_def take_bit_eq_0_iff)
  ultimately show ?thesis by (rule aligned_add)
qed

lemma unat_slot: "i < 512 \<Longrightarrow> unat (8 * of_nat i :: u64) = 8 * i"
  by (simp add: unat_word_ariths unat_of_nat)

lemma slot_eq_iff:
  assumes "aligned 12 p" "aligned 12 q" "i < 512" "j < 512"
  shows "p + 8 * of_nat i = q + 8 * of_nat j \<longleftrightarrow> p = q \<and> i = j"
proof
  assume eq: "p + 8 * of_nat i = q + 8 * of_nat j"
  have "p = q"
  proof (rule ccontr)
    assume "p \<noteq> q"
    then have "4096 \<le> unat ((q + of_nat (8 * j)) - p)"
      using aligned_apart [of 12 p q "8 * j"] assms by simp
    moreover have "(q + of_nat (8 * j)) - p = 8 * of_nat i" using eq by (simp add: algebra_simps)
    ultimately show False using unat_slot [OF assms(3)] assms(3) by simp
  qed
  then have "unat (8 * of_nat i :: u64) = unat (8 * of_nat j :: u64)" using eq by simp
  then show "p = q \<and> i = j" using \<open>p = q\<close> unat_slot assms(3,4) by simp
qed simp

lemma ent_store:
  assumes "aligned 12 p" "aligned 12 q" "i < 512" "j < 512"
  shows "ent (store64 m (p + 8 * of_nat i) v) q j = (if q = p \<and> j = i then v else ent m q j)"
  using assms slot_eq_iff [OF assms(2,1,4,3)]
  by (auto simp: ent_def intro!: load_store_other slot_aligned)

lemma ent_other_page:
  assumes "aligned 12 p" "aligned 12 q" "p \<noteq> q" "i < 512" "\<And>x. 4096 \<le> unat (x - p) \<Longrightarrow> m' x = m x"
  shows "ent m' q i = ent m q i"
  unfolding ent_def
proof (rule load64_eqI)
  fix j :: nat assume "j < 8"
  then have "4096 \<le> unat ((q + of_nat (8 * i + j)) - p)"
    using aligned_apart [of 12 p q "8 * i + j"] assms by simp
  then show "m' (q + 8 * of_nat i + of_nat j) = m (q + 8 * of_nat i + of_nat j)"
    using assms(5) by (simp add: algebra_simps)
qed

lemma ent_memset:
  assumes "aligned 12 p" "aligned 12 q" "i < 512"
  shows "ent (memset m p 0 4096) q i = (if q = p then 0 else ent m q i)"
proof (cases "q = p")
  case True
  have "load64 (memset m p 0 4096) (p + 8 * of_nat i) = load64 (\<lambda>_. 0) 0"
  proof (rule load64_eqI)
    fix j :: nat assume "j < 8"
    then have "unat (of_nat (8 * i + j) :: u64) < 4096"
      unfolding unat_of_nat using assms(3) by simp
    then show "memset m p 0 4096 (p + 8 * of_nat i + of_nat j) = 0"
      by (simp add: memset_apply algebra_simps)
  qed
  also have "\<dots> = 0" by (simp add: load64_def)
  finally show ?thesis using True by (simp add: ent_def)
next
  case False
  then show ?thesis using assms
    by (simp add: ent_other_page [of p q i "memset m p 0 4096" m] memset_apply)
qed

section \<open>Updates of the tree\<close>

declare node.simps(2) [simp del]

lemma path_cases:
  assumes "is_path xs"
  obtains "xs = []" | i where "xs = [i]" "i < 512" | i j where "xs = [i, j]" "i < 512" "j < 512"
  using assms by (cases xs rule: remdups_adj.cases) (auto simp: is_path_def)

lemma is_path_simps [simp]: "is_path []" "is_path [i] \<longleftrightarrow> i < 512" "is_path [i, j] \<longleftrightarrow> i < 512 \<and> j < 512"
  by (auto simp: is_path_def)

lemma pt_tree_aligned: "pt_tree m pt \<Longrightarrow> is_path xs \<Longrightarrow> node m pt xs = Some p \<Longrightarrow> aligned 12 p"
  by (auto simp: pt_tree_def pt_pages_def)

lemma pt_tree_inj:
  "pt_tree m pt \<Longrightarrow> is_path xs \<Longrightarrow> is_path ys \<Longrightarrow> node m pt xs = Some p \<Longrightarrow> node m pt ys = Some p \<Longrightarrow> xs = ys"
  by (auto simp: pt_tree_def)

lemma node_in_pages: "is_path xs \<Longrightarrow> node m pt xs = Some p \<Longrightarrow> p \<in> pt_pages m pt"
  by (auto simp: pt_pages_def)

lemma node_single: "node m pt [i] = sub_table m pt i"
  by (simp add: node.simps split: option.split)

lemma node_pair: "node m pt [i, j] = (case sub_table m pt i of None \<Rightarrow> None | Some p \<Rightarrow> sub_table m p j)"
  by (simp add: node.simps split: option.split)

text \<open>Only the entries of the two upper levels matter to the shape of the tree.\<close>

lemma node_cong:
  assumes "\<And>xs p i. is_path xs \<Longrightarrow> length xs < 2 \<Longrightarrow> node m pt xs = Some p \<Longrightarrow> i < 512 \<Longrightarrow> ent m' p i = ent m p i"
    and "is_path ys"
  shows "node m' pt ys = node m pt ys"
  using assms(2)
proof (cases rule: path_cases)
  case (2 i)
  then show ?thesis using assms(1) [of "[]" pt i] by (simp add: node_single sub_table_def)
next
  case (3 i j)
  have "sub_table m' pt i = sub_table m pt i"
    using assms(1) [of "[]" pt i] 3 by (simp add: sub_table_def)
  moreover have "sub_table m' p j = sub_table m p j" if "sub_table m pt i = Some p" for p
    using assms(1) [of "[i]" p j] 3 that by (simp add: node_single sub_table_def [of _ p])
  ultimately show ?thesis using 3 by (simp add: node_pair split: option.split)
qed simp

lemma pt_same:
  assumes "\<And>xs. is_path xs \<Longrightarrow> node m' pt xs = node m pt xs"
  shows "pt_pages m' pt = pt_pages m pt" and "pt_tree m' pt = pt_tree m pt"
proof -
  show eq: "pt_pages m' pt = pt_pages m pt" using assms by (auto simp: pt_pages_def)
  show "pt_tree m' pt = pt_tree m pt" unfolding pt_tree_def eq using assms by (auto simp: assms)
qed

text \<open>A write that stays outside the table pages changes nothing.\<close>

lemma pt_frame:
  assumes "\<And>p i. p \<in> pt_pages m pt \<Longrightarrow> i < 512 \<Longrightarrow> ent m' p i = ent m p i"
  shows "\<And>xs. is_path xs \<Longrightarrow> node m' pt xs = node m pt xs"
    and "pt_pages m' pt = pt_pages m pt" and "pt_tree m' pt = pt_tree m pt"
    and "\<And>i j k. i < 512 \<Longrightarrow> j < 512 \<Longrightarrow> k < 512 \<Longrightarrow> pte_at m' pt i j k = pte_at m pt i j k"
proof -
  show nd: "node m' pt xs = node m pt xs" if "is_path xs" for xs
    by (rule node_cong) (use assms that in \<open>auto intro: node_in_pages\<close>)
  show "pt_pages m' pt = pt_pages m pt" "pt_tree m' pt = pt_tree m pt"
    using pt_same [of m' pt m] nd by auto
  show "pte_at m' pt i j k = pte_at m pt i j k" if "i < 512" "j < 512" "k < 512" for i j k
  proof -
    have "node m' pt [i, j] = node m pt [i, j]" using nd that by simp
    moreover have "ent m' p k = ent m p k" if "node m pt [i, j] = Some p" for p
      using assms node_in_pages [OF _ that] \<open>i < 512\<close> \<open>j < 512\<close> \<open>k < 512\<close> by simp
    ultimately show ?thesis by (simp add: pte_at_def split: option.split)
  qed
qed

text \<open>A store into a table of the last level.\<close>

lemma pt_store_leaf:
  fixes v :: u64
  assumes tree: "pt_tree m pt" and p: "node m pt [i, j] = Some p" "i < 512" "j < 512" and k: "k < 512"
  defines "m' \<equiv> store64 m (p + 8 * of_nat k) v"
  shows "\<And>xs. is_path xs \<Longrightarrow> node m' pt xs = node m pt xs"
    and "pt_tree m' pt" and "pt_pages m' pt = pt_pages m pt"
    and "\<And>i' j' k'. i' < 512 \<Longrightarrow> j' < 512 \<Longrightarrow> k' < 512 \<Longrightarrow>
      pte_at m' pt i' j' k' = (if (i', j', k') = (i, j, k) then v else pte_at m pt i' j' k')"
proof -
  have al: "aligned 12 p" using pt_tree_aligned [OF tree _ p(1)] p by simp
  have other: "ent m' q l = ent m q l"
    if "is_path xs" "node m pt xs = Some q" "l < 512" "xs \<noteq> [i, j]" for xs q l
  proof -
    have "q \<noteq> p" using pt_tree_inj [OF tree that(1) _ that(2), of "[i, j]"] p that(4) by auto
    then show ?thesis using ent_store [OF al _ k that(3), of q m v] pt_tree_aligned [OF tree that(1,2)]
      by (simp add: m'_def)
  qed
  show nd: "node m' pt xs = node m pt xs" if "is_path xs" for xs
    by (rule node_cong [OF _ that]) (auto intro!: other)
  show "pt_tree m' pt" "pt_pages m' pt = pt_pages m pt" using pt_same [of m' pt m] nd tree by auto
  show "pte_at m' pt i' j' k' = (if (i', j', k') = (i, j, k) then v else pte_at m pt i' j' k')"
    if b: "i' < 512" "j' < 512" "k' < 512" for i' j' k'
  proof (cases "(i', j') = (i, j)")
    case True
    then show ?thesis using nd [of "[i, j]"] p ent_store [OF al al k b(3), of m v]
      by (auto simp: pte_at_def m'_def)
  next
    case False
    then have "ent m' q k' = ent m q k'" if "node m pt [i', j'] = Some q" for q
      using other [of "[i', j']" q k'] that b by auto
    then show ?thesis using nd [of "[i', j']"] b False by (auto simp: pte_at_def split: option.split)
  qed
qed

text \<open>A fresh zeroed page hung into a free entry of an upper table.\<close>

lemma sub_table_new:
  assumes "aligned 12 p" "aligned 12 q" "aligned 12 r" "p \<noteq> q" "unat q < 2 ^ 56" "k < 512" "i < 512"
  shows "sub_table (store64 (memset m q 0 4096) (p + 8 * of_nat k) (PA2PTE q OR PTE_V)) r i =
    (if r = p \<and> i = k then Some q else if r = q then None else sub_table m r i)"
proof -
  have "ent (store64 (memset m q 0 4096) (p + 8 * of_nat k) (PA2PTE q OR PTE_V)) r i =
    (if r = p \<and> i = k then PA2PTE q OR PTE_V else if r = q then 0 else ent m r i)"
    using assms by (simp add: ent_store ent_memset)
  moreover have "PTE2PA (PA2PTE q OR PTE_V) = q" using assms by (simp add: PTE_roundtrip)
  moreover have "bit (PA2PTE q OR PTE_V) 0" by (simp add: bit_or_iff)
  ultimately show ?thesis using assms(4) by (auto simp: sub_table_def)
qed

lemma pt_new_table_node:
  fixes q :: u64
  assumes tree: "pt_tree m pt" and p: "node m pt xs = Some p" "is_path (xs @ [k])"
    and free: "sub_table m p k = None" and q: "aligned 12 q" "q \<notin> pt_pages m pt" "unat q < 2 ^ 56"
  defines "m' \<equiv> store64 (memset m q 0 4096) (p + 8 * of_nat k) (PA2PTE q OR PTE_V)"
  shows "is_path ys \<Longrightarrow> node m' pt ys = (if ys = xs @ [k] then Some q else node m pt ys)"
proof -
  assume ys: "is_path ys"
  have xs: "is_path xs" "length xs < 2" "k < 512" using p(2) by (auto simp: is_path_def)
  have al: "aligned 12 p" by (rule pt_tree_aligned [OF tree xs(1) p(1)])
  have pq: "p \<noteq> q" using q(2) node_in_pages [OF xs(1) p(1)] by auto
  have sub: "sub_table m' r i = (if ys = xs \<and> i = k then Some q else sub_table m r i)"
    if "is_path ys" "node m pt ys = Some r" "i < 512" for ys r i
  proof -
    have "aligned 12 r" "r \<noteq> q" using pt_tree_aligned [OF tree that(1,2)] node_in_pages [OF that(1,2)] q(2) by auto
    moreover have "r = p \<longleftrightarrow> ys = xs" using pt_tree_inj [OF tree that(1) xs(1) that(2)] p(1) that(2) by auto
    ultimately show ?thesis
      unfolding m'_def using sub_table_new [OF al q(1) _ pq q(3) xs(3) that(3)] by simp
  qed
  have new: "sub_table m' q i = None" if "i < 512" for i
    unfolding m'_def using sub_table_new [OF al q(1) q(1) pq q(3) xs(3) that] pq by simp
  have ext: "node m pt (xs @ k # zs) = None" for zs
    using p(1) free by (simp add: node_append node.simps)
  from ys show "node m' pt ys = (if ys = xs @ [k] then Some q else node m pt ys)"
  proof (cases rule: path_cases)
    case (2 i)
    then show ?thesis using sub [of "[]" pt i] by (cases xs) (auto simp: node_single)
  next
    case (3 i j)
    show ?thesis
    proof (cases "xs = [] \<and> i = k")
      case True
      then have "sub_table m' pt i = Some q" using sub [of "[]" pt i] 3 by simp
      moreover have "node m pt [i, j] = None" using ext [of "[j]"] True by simp
      ultimately show ?thesis using 3 True new [of j] by (simp add: node_pair)
    next
      case False
      then have a: "sub_table m' pt i = sub_table m pt i" using sub [of "[]" pt i] 3 by auto
      show ?thesis
      proof (cases "sub_table m pt i")
        case None
        then have "xs \<noteq> [i]" using p(1) by (auto simp: node_single)
        then show ?thesis using a None 3 False by (auto simp: node_pair Cons_eq_append_conv)
      next
        case (Some r)
        then have "sub_table m' r j = (if [i] = xs \<and> j = k then Some q else sub_table m r j)"
          using sub [of "[i]" r j] 3 by (simp add: node_single)
        then show ?thesis using a Some 3 False by (auto simp: node_pair Cons_eq_append_conv)
      qed
    qed
  qed (use xs in auto)
qed

lemma pt_new_table:
  fixes q :: u64
  assumes tree: "pt_tree m pt" and p: "node m pt xs = Some p" "is_path (xs @ [k])"
    and free: "sub_table m p k = None" and q: "aligned 12 q" "q \<notin> pt_pages m pt" "unat q < 2 ^ 56"
  defines "m' \<equiv> store64 (memset m q 0 4096) (p + 8 * of_nat k) (PA2PTE q OR PTE_V)"
  shows "\<And>ys. is_path ys \<Longrightarrow> node m' pt ys = (if ys = xs @ [k] then Some q else node m pt ys)"
    and "pt_tree m' pt" and "pt_pages m' pt = insert q (pt_pages m pt)"
    and "\<And>i' j' k'. i' < 512 \<Longrightarrow> j' < 512 \<Longrightarrow> k' < 512 \<Longrightarrow> pte_at m' pt i' j' k' = pte_at m pt i' j' k'"
proof -
  have xs: "is_path xs" "length xs < 2" "k < 512" using p(2) by (auto simp: is_path_def)
  have al: "aligned 12 p" by (rule pt_tree_aligned [OF tree xs(1) p(1)])
  have pq: "p \<noteq> q" using q(2) node_in_pages [OF xs(1) p(1)] by auto
  show nd: "node m' pt ys = (if ys = xs @ [k] then Some q else node m pt ys)" if "is_path ys" for ys
    unfolding m'_def by (rule pt_new_table_node [OF tree p free q that])
  have old: "node m pt (xs @ [k]) = None" using p(1) free by (simp add: node_append node.simps)
  show pages: "pt_pages m' pt = insert q (pt_pages m pt)"
  proof (intro set_eqI iffI)
    fix r assume "r \<in> pt_pages m' pt"
    then show "r \<in> insert q (pt_pages m pt)" by (auto simp: pt_pages_def nd split: if_splits)
  next
    fix r assume "r \<in> insert q (pt_pages m pt)"
    then consider "r = q" | ys where "is_path ys" "node m pt ys = Some r" by (auto simp: pt_pages_def)
    then show "r \<in> pt_pages m' pt"
    proof cases
      case 1
      then show ?thesis using nd [OF p(2)] by (auto intro: node_in_pages [OF p(2)])
    next
      case 2
      then show ?thesis using nd [of ys] old by (intro node_in_pages [of ys]) auto
    qed
  qed
  have "xs' = ys'" if "is_path xs'" "is_path ys'" "node m' pt xs' = Some r" "node m' pt ys' = Some r" for xs' ys' r
    using that q(2) pt_tree_inj [OF tree that(1,2)] node_in_pages [OF that(1)] node_in_pages [OF that(2)]
    by (auto simp: nd split: if_splits)
  then show "pt_tree m' pt" using tree q(1) unfolding pt_tree_def pages by blast
  show "pte_at m' pt i' j' k' = pte_at m pt i' j' k'" if b: "i' < 512" "j' < 512" "k' < 512" for i' j' k'
  proof (cases "[i', j'] = xs @ [k]")
    case True
    have "ent m' q k' = 0"
      unfolding m'_def using al q(1) pq xs(3) b(3) by (simp add: ent_store ent_memset)
    then show ?thesis unfolding pte_at_def True using nd [OF p(2)] old by simp
  next
    case False
    have n: "node m' pt [i', j'] = node m pt [i', j']" 
      by (rule trans [OF nd if_not_P [OF False]]) (use b in simp)
    moreover have "ent m' r k' = ent m r k'" if r: "node m pt [i', j'] = Some r" for r
    proof -
      have "aligned 12 r" "r \<noteq> q" "r \<noteq> p"
        using pt_tree_aligned [OF tree _ r] node_in_pages [OF _ r] q(2) b p(1) xs
          pt_tree_inj [OF tree _ xs(1) r] by auto
      then show ?thesis unfolding m'_def using al q(1) xs(3) b(3) by (simp add: ent_store ent_memset)
    qed
    ultimately show ?thesis by (simp add: pte_at_def split: option.split)
  qed
qed

section \<open>Virtual addresses\<close>

definition px :: "nat \<Rightarrow> u64 \<Rightarrow> nat" where
  "px level va = unat (PX level va)"

lemma px_less [simp]: "px level va < 512"
proof -
  have "take_bit 9 (drop_bit (12 + 9 * level) va) = drop_bit (12 + 9 * level) va mod 512"
    by (simp add: take_bit_eq_mod)
  then show ?thesis by (simp add: px_def PX_def and_mask_u64 unat_mod)
qed

lemma PX_px: "PX level va = of_nat (px level va)"
  by (simp add: px_def)

text \<open>The page table entry of an address, 0 when there is no table for it.\<close>

definition pte_of :: "mem \<Rightarrow> u64 \<Rightarrow> u64 \<Rightarrow> u64" where
  "pte_of m pt va = pte_at m pt (px 2 va) (px 1 va) (px 0 va)"

lemma bit_PX: "bit (PX level va) n \<longleftrightarrow> n < 9 \<and> bit va (12 + 9 * level + n)"
  unfolding PX_def and_mask_u64 by (auto simp: bit_simps ac_simps)

lemma px_eq_iff:
  assumes "aligned 12 a" "aligned 12 b" "unat a < 2 ^ 39" "unat b < 2 ^ 39"
  shows "px 2 a = px 2 b \<and> px 1 a = px 1 b \<and> px 0 a = px 0 b \<longleftrightarrow> a = b"
proof
  assume "px 2 a = px 2 b \<and> px 1 a = px 1 b \<and> px 0 a = px 0 b"
  then have eq: "PX l a = PX l b" if "l < 3" for l
    using that by (auto simp: PX_px numeral_3_eq_3 numeral_2_eq_2 less_Suc_eq)
  show "a = b"
  proof (rule bit_word_eqI)
    fix n assume "n < LENGTH(64)"
    consider "n < 12" | "39 \<le> n" | l k where "l < 3" "k < 9" "n = 12 + 9 * l + k"
    proof -
      have "n = 12 + 9 * ((n - 12) div 9) + (n - 12) mod 9" "(n - 12) div 9 < 3" if "12 \<le> n" "n < 39"
        using that by auto
      then show thesis using that(1,2) that(3) [of "(n - 12) div 9" "(n - 12) mod 9"] by fastforce
    qed
    then show "bit a n = bit b n"
    proof cases
      case 1
      then show ?thesis using aligned_bit assms(1,2) by blast
    next
      case 2
      then show ?thesis using bit_u64_less assms(3,4) by blast
    next
      case 3
      then show ?thesis using arg_cong [OF eq [OF 3(1)], of "\<lambda>w. bit w k"] by (simp add: bit_PX)
    qed
  qed
qed simp

section \<open>The empty table\<close>

lemma pt_empty:
  assumes "aligned 12 q"
  shows "pt_pages (memset m q 0 4096) q = {q}" and "pt_tree (memset m q 0 4096) q"
    and "pte_of (memset m q 0 4096) q va = 0"
proof -
  have sub: "sub_table (memset m q 0 4096) q i = None" if "i < 512" for i
    using that assms by (simp add: sub_table_def ent_memset)
  have nd: "node (memset m q 0 4096) q xs = (if xs = [] then Some q else None)" if "is_path xs" for xs
    using that by (cases rule: path_cases) (auto simp: node.simps sub)
  show "pt_pages (memset m q 0 4096) q = {q}"
    by (auto simp: pt_pages_def nd split: if_splits intro!: exI [of _ "[]"])
  then show "pt_tree (memset m q 0 4096) q"
    using assms by (auto simp: pt_tree_def nd split: if_splits)
  show "pte_of (memset m q 0 4096) q va = 0"
    by (simp add: pte_of_def pte_at_def nd)
qed

end
