(* ===== verification/Vm.thy ===== *)
theory Vm
  imports Proc_Table Pagetable
begin

unbundle bit_operations_syntax

text \<open>
  \<^verbatim>\<open>kernel/vm.c\<close>: page tables of the kernel and of user processes.  A page table is the address of
  its root page; entries are read and written in the flat physical memory, as the kernel does
  through its direct map.  A null pointer that is dereferenced is a kernel page fault, which is the
  panic of \<^verbatim>\<open>kerneltrap()\<close>.

  The kernel side of a copy is a list of bytes: what \<^verbatim>\<open>copyout\<close> is given, and what \<^verbatim>\<open>copyin\<close> and
  \<^verbatim>\<open>copyinstr\<close> have stored at their destination when they return, which is a part of the request
  when they fail on a later page.
\<close>

record vm_st = proc_st +
  kernel_pagetable :: u64
  etext :: u64
  satp :: u64

definition blank_vm :: "(nat \<Rightarrow> proc) \<Rightarrow> 'a \<Rightarrow> 'a vm_st_scheme" where
  [blank]: "blank_vm ps x = blank_table ps (vm_st_ext 0 0 0 x)"

definition pte_get :: "u64 \<Rightarrow> ('a proc_st_scheme, u64) km" where
  "pte_get a = (if a = 0 then kpanic ''kerneltrap'' else kget (\<lambda>s. load64 (phys s) a))"

definition pte_set :: "u64 \<Rightarrow> u64 \<Rightarrow> ('a proc_st_scheme, unit) km" where
  "pte_set a v = (if a = 0 then kpanic ''kerneltrap'' else kmod (\<lambda>s. s\<lparr>phys := store64 (phys s) a v\<rparr>))"

definition kzero :: "u64 \<Rightarrow> ('a proc_st_scheme, unit) km" where
  "kzero p = kmod (\<lambda>s. s\<lparr>phys := memset (phys s) p 0 PGBYTES\<rparr>)"

text \<open>The addresses of \<^verbatim>\<open>for(a = lo; a < hi; a += PGSIZE)\<close>.\<close>

definition pages_upto :: "u64 \<Rightarrow> u64 \<Rightarrow> u64 list" where
  "pages_upto lo hi = map (\<lambda>i. lo + of_nat i * PGSIZE) [0..<(unat hi - unat lo + 4095) div PGBYTES]"

section \<open>walk and mappages\<close>

primrec walk_from :: "nat \<Rightarrow> u64 \<Rightarrow> u64 \<Rightarrow> bool \<Rightarrow> ('a proc_st_scheme, u64) km" where
  "walk_from 0 pagetable va alloc = kret (pagetable + 8 * PX 0 va)"
| "walk_from (Suc l) pagetable va alloc =
     (let pte = pagetable + 8 * PX (Suc l) va in
      kbind (kget (\<lambda>s. load64 (phys s) pte)) (\<lambda>v.
      if v AND PTE_V \<noteq> 0 then walk_from l (PTE2PA v) va alloc
      else if \<not> alloc then kret 0
      else
        kbind kalloc (\<lambda>pt.
        if pt = 0 then kret 0
        else
          kthen (kzero pt)
          (kthen (kmod (\<lambda>s. s\<lparr>phys := store64 (phys s) pte (PA2PTE pt OR PTE_V)\<rparr>))
          (walk_from l pt va alloc)))))"

definition walk :: "u64 \<Rightarrow> u64 \<Rightarrow> bool \<Rightarrow> ('a proc_st_scheme, u64) km" where
  "walk pagetable va alloc = (if va \<ge> MAXVA then kpanic ''walk'' else walk_from 2 pagetable va alloc)"

definition walkaddr :: "u64 \<Rightarrow> u64 \<Rightarrow> ('a proc_st_scheme, u64) km" where
  "walkaddr pagetable va =
     (if va \<ge> MAXVA then kret 0
      else
        kbind (walk pagetable va False) (\<lambda>pte.
        if pte = 0 then kret 0
        else
          kbind (pte_get pte) (\<lambda>v.
          if v AND PTE_V = 0 then kret 0
          else if v AND PTE_U = 0 then kret 0
          else kret (PTE2PA v))))"

text \<open>The loop of \<^verbatim>\<open>mappages\<close> ends when \<^verbatim>\<open>a == last\<close>, after \<^verbatim>\<open>size / PGSIZE\<close> pages.\<close>

definition mappage :: "u64 \<Rightarrow> u64 \<Rightarrow> u64 \<Rightarrow> u64 \<Rightarrow> ('a proc_st_scheme, int option) km" where
  "mappage pagetable a pa perm =
     kbind (walk pagetable a True) (\<lambda>pte.
     if pte = 0 then kret (Some (-1))
     else
       kbind (pte_get pte) (\<lambda>v.
       if v AND PTE_V \<noteq> 0 then kpanic ''mappages: remap''
       else kthen (pte_set pte (PA2PTE pa OR perm OR PTE_V)) (kret None)))"

definition mappages :: "u64 \<Rightarrow> u64 \<Rightarrow> u64 \<Rightarrow> u64 \<Rightarrow> u64 \<Rightarrow> ('a proc_st_scheme, int) km" where
  "mappages pagetable va sz pa perm =
     (if va mod PGSIZE \<noteq> 0 then kpanic ''mappages: va not aligned''
      else if sz mod PGSIZE \<noteq> 0 then kpanic ''mappages: size not aligned''
      else if sz = 0 then kpanic ''mappages: size''
      else
        kbind (kfind [0..<unat (sz div PGSIZE)] (\<lambda>i.
          mappage pagetable (va + of_nat i * PGSIZE) (pa + of_nat i * PGSIZE) perm))
        (\<lambda>r. kret (case r of Some e \<Rightarrow> e | None \<Rightarrow> 0)))"

section \<open>The kernel page table\<close>

definition kvmmap :: "u64 \<Rightarrow> u64 \<Rightarrow> u64 \<Rightarrow> u64 \<Rightarrow> u64 \<Rightarrow> ('a proc_st_scheme, unit) km" where
  "kvmmap kpgtbl va pa sz perm =
     kbind (mappages kpgtbl va sz pa perm) (\<lambda>r. kwhen (r \<noteq> 0) (kpanic ''kvmmap''))"

definition proc_mapstacks :: "u64 \<Rightarrow> ('a proc_st_scheme, unit) km" where
  "proc_mapstacks kpgtbl = kfor allprocs (\<lambda>i.
     kbind kalloc (\<lambda>pa.
     if pa = 0 then kpanic ''kalloc''
     else kvmmap kpgtbl (KSTACK i) pa PGSIZE (PTE_R OR PTE_W)))"

abbreviation UART0 :: u64 where "UART0 \<equiv> 0x10000000"
abbreviation VIRTIO0 :: u64 where "VIRTIO0 \<equiv> 0x10001000"
abbreviation PLIC :: u64 where "PLIC \<equiv> 0x0c000000"

definition kvmmake :: "('a vm_st_scheme, u64) km" where
  "kvmmake =
     kbind kalloc (\<lambda>kpgtbl.
     if kpgtbl = 0 then kpanic ''kerneltrap''
     else
     kbind (kget etext) (\<lambda>et.
     kbind (kget trampoline_va) (\<lambda>tr.
     kthen (kzero kpgtbl)
     (kthen (kvmmap kpgtbl UART0 UART0 PGSIZE (PTE_R OR PTE_W))
     (kthen (kvmmap kpgtbl VIRTIO0 VIRTIO0 PGSIZE (PTE_R OR PTE_W))
     (kthen (kvmmap kpgtbl PLIC PLIC 0x4000000 (PTE_R OR PTE_W))
     (kthen (kvmmap kpgtbl KERNBASE KERNBASE (et - KERNBASE) (PTE_R OR PTE_X))
     (kthen (kvmmap kpgtbl et et (PHYSTOP - et) (PTE_R OR PTE_W))
     (kthen (kvmmap kpgtbl TRAMPOLINE tr PGSIZE (PTE_R OR PTE_X))
     (kthen (proc_mapstacks kpgtbl)
     (kret kpgtbl)))))))))))"

definition kvminit :: "('a vm_st_scheme, unit) km" where
  "kvminit = kbind kvmmake (\<lambda>p. kmod (\<lambda>s. s\<lparr>kernel_pagetable := p\<rparr>))"

definition kvminithart :: "('a vm_st_scheme, unit) km" where
  "kvminithart = kmod (\<lambda>s. s\<lparr>satp := MAKE_SATP (kernel_pagetable s)\<rparr>)"

section \<open>User memory\<close>

definition uvmcreate :: "('a proc_st_scheme, u64) km" where
  "uvmcreate = kbind kalloc (\<lambda>pt. if pt = 0 then kret 0 else kthen (kzero pt) (kret pt))"

definition unmap1 :: "u64 \<Rightarrow> bool \<Rightarrow> u64 \<Rightarrow> ('a proc_st_scheme, unit) km" where
  "unmap1 pagetable do_free a =
     kbind (walk pagetable a False) (\<lambda>pte.
     if pte = 0 then kret ()
     else
       kbind (pte_get pte) (\<lambda>v.
       if v AND PTE_V = 0 then kret ()
       else kthen (kwhen do_free (kfree (PTE2PA v))) (pte_set pte 0)))"

definition uvmunmap :: "u64 \<Rightarrow> u64 \<Rightarrow> u64 \<Rightarrow> bool \<Rightarrow> ('a proc_st_scheme, unit) km" where
  "uvmunmap pagetable va npages do_free =
     (if va mod PGSIZE \<noteq> 0 then kpanic ''uvmunmap: not aligned''
      else kfor (pages_upto va (va + npages * PGSIZE)) (unmap1 pagetable do_free))"

definition uvmdealloc :: "u64 \<Rightarrow> u64 \<Rightarrow> u64 \<Rightarrow> ('a proc_st_scheme, u64) km" where
  "uvmdealloc pagetable oldsz newsz =
     (if newsz \<ge> oldsz then kret oldsz
      else
        kthen (kwhen (PGROUNDUP newsz < PGROUNDUP oldsz)
          (uvmunmap pagetable (PGROUNDUP newsz) (scast (ucast ((PGROUNDUP oldsz - PGROUNDUP newsz) div PGSIZE) :: u32)) True))
        (kret newsz))"

text \<open>One round of the loop of \<^verbatim>\<open>uvmalloc\<close>.\<close>

definition uvmalloc_page :: "u64 \<Rightarrow> u64 \<Rightarrow> u64 \<Rightarrow> u64 \<Rightarrow> ('a proc_st_scheme, u64 option) km" where
  "uvmalloc_page pagetable old perm a =
     kbind kalloc (\<lambda>mem.
     if mem = 0 then kthen (uvmdealloc pagetable a old) (kret (Some 0))
     else
       kthen (kzero mem)
       (kbind (mappages pagetable a PGSIZE mem perm) (\<lambda>r.
       if r \<noteq> 0 then
         kthen (kfree mem) (kthen (uvmdealloc pagetable a old) (kret (Some 0)))
       else kret None)))"

definition uvmalloc :: "u64 \<Rightarrow> u64 \<Rightarrow> u64 \<Rightarrow> u64 \<Rightarrow> ('a proc_st_scheme, u64) km" where
  "uvmalloc pagetable oldsz newsz xperm =
     (if newsz < oldsz then kret oldsz
      else
        let old = PGROUNDUP oldsz in
        kbind (kfind (pages_upto old newsz) (uvmalloc_page pagetable old (PTE_R OR PTE_U OR xperm)))
        (\<lambda>r. kret (case r of Some e \<Rightarrow> e | None \<Rightarrow> newsz)))"

text \<open>The recursion of \<^verbatim>\<open>freewalk\<close> follows the levels of the table: three.  A table that goes on
  below is a chain the kernel stack has no room for.\<close>

primrec freewalk_at :: "nat \<Rightarrow> u64 \<Rightarrow> ('a proc_st_scheme, unit) km" where
  "freewalk_at 0 pagetable = kpanic ''kerneltrap''"
| "freewalk_at (Suc n) pagetable =
     kthen (kfor [0..<512] (\<lambda>i.
       kbind (kget (\<lambda>s. load64 (phys s) (pagetable + 8 * of_nat i))) (\<lambda>pte.
       if pte AND PTE_V \<noteq> 0 \<and> pte AND (PTE_R OR PTE_W OR PTE_X) = 0 then
         kthen (freewalk_at n (PTE2PA pte))
         (kmod (\<lambda>s. s\<lparr>phys := store64 (phys s) (pagetable + 8 * of_nat i) 0\<rparr>))
       else if pte AND PTE_V \<noteq> 0 then kpanic ''freewalk: leaf''
       else kret ())))
     (kfree pagetable)"

definition freewalk :: "u64 \<Rightarrow> ('a proc_st_scheme, unit) km" where
  "freewalk pagetable = freewalk_at 3 pagetable"

definition uvmfree :: "u64 \<Rightarrow> u64 \<Rightarrow> ('a proc_st_scheme, unit) km" where
  "uvmfree pagetable sz =
     kthen (kwhen (sz > 0) (uvmunmap pagetable 0 (PGROUNDUP sz div PGSIZE) True))
     (freewalk pagetable)"

definition uvmcopy :: "u64 \<Rightarrow> u64 \<Rightarrow> u64 \<Rightarrow> ('a proc_st_scheme, int) km" where
  "uvmcopy old new sz =
     kbind (kfind (pages_upto 0 sz) (\<lambda>i.
       kbind (walk old i False) (\<lambda>pte.
       if pte = 0 then kret None
       else
         kbind (pte_get pte) (\<lambda>v.
         if v AND PTE_V = 0 then kret None
         else
           kbind kalloc (\<lambda>mem.
           if mem = 0 then kret (Some i)
           else
             kthen (kmod (\<lambda>s. s\<lparr>phys := memmove (phys s) mem (PTE2PA v) PGBYTES\<rparr>))
             (kbind (mappages new i PGSIZE mem (PTE_FLAGS v)) (\<lambda>r.
             if r \<noteq> 0 then kthen (kfree mem) (kret (Some i)) else kret None)))))))
     (\<lambda>r. case r of
        None \<Rightarrow> kret 0
      | Some i \<Rightarrow> kthen (uvmunmap new 0 (i div PGSIZE) True) (kret (-1)))"

definition uvmclear :: "u64 \<Rightarrow> u64 \<Rightarrow> ('a proc_st_scheme, unit) km" where
  "uvmclear pagetable va =
     kbind (walk pagetable va False) (\<lambda>pte.
     if pte = 0 then kpanic ''uvmclear''
     else kbind (pte_get pte) (\<lambda>v. pte_set pte (v AND NOT PTE_U)))"

definition uvmshare :: "u64 \<Rightarrow> u64 \<Rightarrow> u64 \<Rightarrow> ('a proc_st_scheme, int) km" where
  "uvmshare old new sz =
     kbind (kfind (pages_upto 0 sz) (\<lambda>i.
       kbind (walk old i False) (\<lambda>pte.
       if pte = 0 then kret None
       else
         kbind (pte_get pte) (\<lambda>v.
         if v AND PTE_V = 0 then kret None
         else
           kbind (mappages new i PGSIZE (PTE2PA v) (PTE_FLAGS v)) (\<lambda>r.
           if r \<noteq> 0 then
             kthen (kwhen (i > 0) (uvmunmap new 0 (i div PGSIZE) False)) (kret (Some (-1)))
           else kret None)))))
     (\<lambda>r. kret (case r of Some e \<Rightarrow> e | None \<Rightarrow> 0))"

definition thread_freepagetable :: "u64 \<Rightarrow> u64 \<Rightarrow> ('a proc_st_scheme, unit) km" where
  "thread_freepagetable pagetable sz =
     kthen (uvmunmap pagetable TRAMPOLINE 1 False)
     (kthen (uvmunmap pagetable TRAPFRAME 1 False)
     (kthen (kwhen (sz > 0) (uvmunmap pagetable 0 (PGROUNDUP sz div PGSIZE) False))
     (freewalk pagetable)))"

section \<open>Faults and copies\<close>

definition ismapped :: "u64 \<Rightarrow> u64 \<Rightarrow> ('a proc_st_scheme, bool) km" where
  "ismapped pagetable va =
     kbind (walk pagetable va False) (\<lambda>pte.
     if pte = 0 then kret False
     else kbind (pte_get pte) (\<lambda>v. kret (v AND PTE_V \<noteq> 0)))"

text \<open>The argument \<^verbatim>\<open>read\<close> of \<^verbatim>\<open>vmfault\<close> is not used.\<close>

definition vmfault :: "u64 \<Rightarrow> u64 \<Rightarrow> ('a proc_st_scheme, u64) km" where
  "vmfault pagetable va0 =
     kbind curproc (\<lambda>p.
     kbind (proc_at p) (\<lambda>P.
     if va0 \<ge> p_sz P then kret 0
     else
       let va = PGROUNDDOWN va0 in
       kbind (ismapped pagetable va) (\<lambda>m.
       if m then kret 0
       else
         kbind kalloc (\<lambda>mem.
         if mem = 0 then kret 0
         else
           kthen (kzero mem)
           (kbind (mappages (p_pagetable P) va PGSIZE mem (PTE_W OR PTE_U OR PTE_R)) (\<lambda>r.
           if r \<noteq> 0 then kthen (kfree mem) (kret 0) else kret mem))))))"

definition mem_bytes :: "mem \<Rightarrow> u64 \<Rightarrow> nat \<Rightarrow> u8 list" where
  "mem_bytes m a n = map (\<lambda>i. m (a + of_nat i)) [0..<n]"

definition put_bytes :: "mem \<Rightarrow> u64 \<Rightarrow> u8 list \<Rightarrow> mem" where
  "put_bytes m a bs = (\<lambda>x. if unat (x - a) < length bs then bs ! unat (x - a) else m x)"

text \<open>How many bytes of a request of \<open>len\<close> bytes at \<open>va\<close> lie in the page of \<open>va\<close>.\<close>

definition page_chunk :: "u64 \<Rightarrow> nat \<Rightarrow> nat" where
  "page_chunk va len = min (unat (PGSIZE - (va - PGROUNDDOWN va))) len"

lemma page_chunk_pos: "0 < len \<Longrightarrow> 0 < page_chunk va len"
proof -
  have "unat (va - PGROUNDDOWN va) < 4096"
    using unat_sub [OF PGROUNDDOWN_le [of va]] by (simp add: unat_PGROUNDDOWN)
  then have "va - PGROUNDDOWN va \<noteq> PGSIZE" by auto
  then have "PGSIZE - (va - PGROUNDDOWN va) \<noteq> 0" by simp
  then have "unat (PGSIZE - (va - PGROUNDDOWN va)) \<noteq> 0" unfolding unsigned_eq_0_iff .
  then show "0 < len \<Longrightarrow> 0 < page_chunk va len" by (simp add: page_chunk_def)
qed

function copyout :: "u64 \<Rightarrow> u64 \<Rightarrow> u8 list \<Rightarrow> ('a proc_st_scheme, int) km" where
  "copyout pagetable dstva src =
     (if src = [] then kret 0
      else
        let va0 = PGROUNDDOWN dstva; n = page_chunk dstva (length src) in
        if va0 \<ge> MAXVA then kret (-1)
        else
          kbind (walkaddr pagetable va0) (\<lambda>pa.
          kbind (if pa = 0 then vmfault pagetable va0 else kret pa) (\<lambda>pa0.
          if pa0 = 0 then kret (-1)
          else
            kbind (walk pagetable va0 False) (\<lambda>pte.
            kbind (pte_get pte) (\<lambda>v.
            if v AND PTE_W = 0 then kret (-1)
            else
              kthen (kmod (\<lambda>s. s\<lparr>phys := put_bytes (phys s) (pa0 + (dstva - va0)) (take n src)\<rparr>))
              (copyout pagetable (va0 + PGSIZE) (drop n src)))))))"
  by pat_completeness auto
termination copyout
  by (relation "measure (\<lambda>(pagetable, dstva, src). length src)") (auto simp: page_chunk_pos)

function copyin :: "u64 \<Rightarrow> u64 \<Rightarrow> nat \<Rightarrow> ('a proc_st_scheme, int \<times> u8 list) km" where
  "copyin pagetable srcva len =
     (if len = 0 then kret (0, [])
      else
        let va0 = PGROUNDDOWN srcva; n = page_chunk srcva len in
        kbind (walkaddr pagetable va0) (\<lambda>pa.
        kbind (if pa = 0 then vmfault pagetable va0 else kret pa) (\<lambda>pa0.
        if pa0 = 0 then kret (-1, [])
        else
          kbind (kget (\<lambda>s. mem_bytes (phys s) (pa0 + (srcva - va0)) n)) (\<lambda>bs.
          kbind (copyin pagetable (va0 + PGSIZE) (len - n)) (\<lambda>r.
          kret (fst r, bs @ snd r))))))"
  by pat_completeness auto
termination copyin
  by (relation "measure (\<lambda>(pagetable, srcva, len). len)") (auto simp: page_chunk_pos)

text \<open>The bytes up to and including the first null byte, if there is one.\<close>

fun upto_nul :: "u8 list \<Rightarrow> u8 list \<times> bool" where
  "upto_nul [] = ([], False)"
| "upto_nul (b # bs) = (if b = 0 then ([0], True) else (b # fst (upto_nul bs), snd (upto_nul bs)))"

function copyinstr :: "u64 \<Rightarrow> u64 \<Rightarrow> nat \<Rightarrow> ('a proc_st_scheme, int \<times> u8 list) km" where
  "copyinstr pagetable srcva maxn =
     (if maxn = 0 then kret (-1, [])
      else
        let va0 = PGROUNDDOWN srcva; n = page_chunk srcva maxn in
        kbind (walkaddr pagetable va0) (\<lambda>pa0.
        if pa0 = 0 then kret (-1, [])
        else
          kbind (kget (\<lambda>s. upto_nul (mem_bytes (phys s) (pa0 + (srcva - va0)) n))) (\<lambda>r.
          if snd r then kret (0, fst r)
          else
            kbind (copyinstr pagetable (va0 + PGSIZE) (maxn - n)) (\<lambda>q.
            kret (fst q, fst r @ snd q)))))"
  by pat_completeness auto
termination copyinstr
  by (relation "measure (\<lambda>(pagetable, srcva, maxn). maxn)") (auto simp: page_chunk_pos)

declare copyout.simps [simp del] copyin.simps [simp del] copyinstr.simps [simp del]

section \<open>What the functions of vm.c can touch\<close>

definition vm_eq :: "'a proc_st_scheme \<Rightarrow> 'a proc_st_scheme \<Rightarrow> bool" where
  "vm_eq s t \<longleftrightarrow> t = s\<lparr>phys := phys t, freelist := freelist t\<rparr>"

lemma vm_eq_upd: "vm_eq s t \<longleftrightarrow> (\<exists>m f. t = s\<lparr>phys := m, freelist := f\<rparr>)"
  by (auto simp: vm_eq_def)

interpretation vmf: frame_rel vm_eq
proof
  fix s t u :: "'a proc_st_scheme"
  show "vm_eq s s" by (simp add: vm_eq_def)
  show "vm_eq s t \<Longrightarrow> vm_eq t u \<Longrightarrow> vm_eq s u" by (auto simp: vm_eq_upd) blast
qed

lemma keeps_kalloc [keeps]: "kkeeps vm_eq kalloc"
  unfolding kkeeps_def
proof
  fix s :: "'a proc_st_scheme"
  show "case kalloc s of Ret a t \<Rightarrow> vm_eq s t | Panic e \<Rightarrow> True | Sched t \<Rightarrow> vm_eq s t"
    by (cases "Lkmem \<in> held s") (auto simp: kalloc_def kmonad vm_eq_def)
qed

lemma keeps_kfree [keeps]: "kkeeps vm_eq (kfree p)"
  unfolding kkeeps_def
proof
  fix s :: "'a proc_st_scheme"
  show "case kfree p s of Ret a t \<Rightarrow> vm_eq s t | Panic e \<Rightarrow> True | Sched t \<Rightarrow> vm_eq s t"
    by (cases "Lkmem \<in> held s") (auto simp: kfree_def kmonad vm_eq_def)
qed

lemma keeps_phys [keeps]: "kkeeps vm_eq (kmod (\<lambda>s. s\<lparr>phys := f s\<rparr>))"
  by (rule vmf.keeps_mod) (simp add: vm_eq_def)

lemma keeps_curproc [keeps]: "kkeeps vm_eq curproc"
  unfolding curproc_def myproc_def by (intro vmf.keeps_rules)

lemma keeps_proc_at [keeps]: "kkeeps vm_eq (proc_at i)"
  unfolding proc_at_def by (rule vmf.keeps_get)

lemma keeps_let: "(\<And>x. kkeeps R (f x)) \<Longrightarrow> kkeeps R (Let a f)"
  by (simp add: Let_def)

lemmas vm_keeps = keeps_let vmf.keeps_rules keeps_phys keeps_kalloc keeps_kfree keeps_curproc keeps_proc_at

lemma keeps_pte [keeps]: "kkeeps vm_eq (pte_get a)" "kkeeps vm_eq (pte_set a v)" "kkeeps vm_eq (kzero p)"
  unfolding pte_get_def pte_set_def kzero_def by (intro vm_keeps)+

lemma keeps_walk_from: "kkeeps vm_eq (walk_from l pt va al)"
  by (induction l arbitrary: pt) (auto intro!: vm_keeps keeps_pte)

lemma keeps_walk [keeps]: "kkeeps vm_eq (walk pt va al)"
  unfolding walk_def by (intro vm_keeps keeps_walk_from)

lemma keeps_mappages [keeps]: "kkeeps vm_eq (mappages pt va sz pa perm)"
  unfolding mappages_def mappage_def by (intro vm_keeps keeps_pte keeps_walk)

lemma keeps_walkaddr [keeps]: "kkeeps vm_eq (walkaddr pt va)"
  unfolding walkaddr_def by (intro vm_keeps keeps_pte keeps_walk)

lemma keeps_uvmunmap [keeps]: "kkeeps vm_eq (uvmunmap pt va n f)"
  unfolding uvmunmap_def unmap1_def by (intro vm_keeps keeps_pte keeps_walk)

lemma keeps_uvmdealloc [keeps]: "kkeeps vm_eq (uvmdealloc pt a b)"
  unfolding uvmdealloc_def by (intro vm_keeps keeps_uvmunmap)

lemma keeps_uvmalloc [keeps]: "kkeeps vm_eq (uvmalloc pt a b x)"
  unfolding uvmalloc_def uvmalloc_page_def by (intro vm_keeps keeps_pte keeps_mappages keeps_uvmdealloc)

lemma keeps_freewalk [keeps]: "kkeeps vm_eq (freewalk pt)"
proof -
  have "kkeeps vm_eq (freewalk_at n pt)" for n
    by (induction n arbitrary: pt) (auto intro!: vm_keeps)
  then show ?thesis by (simp add: freewalk_def)
qed

lemma keeps_vmfault [keeps]: "kkeeps vm_eq (vmfault pt va)"
  unfolding vmfault_def ismapped_def by (intro vm_keeps keeps_pte keeps_walk keeps_mappages)

lemma keeps_uvmcopy [keeps]: "kkeeps vm_eq (uvmcopy old new sz)"
  unfolding uvmcopy_def by (intro vm_keeps keeps_pte keeps_walk keeps_mappages keeps_uvmunmap)

lemma keeps_uvmshare [keeps]: "kkeeps vm_eq (uvmshare old new sz)"
  unfolding uvmshare_def by (intro vm_keeps keeps_pte keeps_walk keeps_mappages keeps_uvmunmap)

lemma keeps_copyout [keeps]: "kkeeps vm_eq (copyout pt va bs)"
proof (induction pt va bs rule: copyout.induct)
  case (1 pt va bs)
  show ?case
    by (subst copyout.simps, unfold Let_def) (intro vm_keeps keeps_pte keeps_walk keeps_walkaddr keeps_vmfault 1; simp)
qed

lemma keeps_copyin [keeps]: "kkeeps vm_eq (copyin pt va n)"
proof (induction pt va n rule: copyin.induct)
  case (1 pt va n)
  show ?case
    by (subst copyin.simps, unfold Let_def) (intro vm_keeps keeps_walkaddr keeps_vmfault 1; simp)
qed

lemma keeps_copyinstr [keeps]: "kkeeps vm_eq (copyinstr pt va n)"
proof (induction pt va n rule: copyinstr.induct)
  case (1 pt va n)
  show ?case
    by (subst copyinstr.simps, unfold Let_def) (intro vm_keeps keeps_walkaddr 1; simp)
qed

end
