(* ===== verification/Sleeplock.thy ===== *)
theory Sleeplock
  imports Vm
begin

text \<open>
  \<^verbatim>\<open>kernel/sleeplock.c\<close>: locks a process may hold while it waits for the disk.  The wait loop of
  \<^verbatim>\<open>acquiresleep\<close> is a definition of its own, so that what happens when the sleeper is scheduled
  again is the same loop entered once more (\<open>acquiresleep_resume\<close>).
\<close>

record sleeplock =
  sl_locked :: bool
  sl_pid :: int

record slp_st = vm_st +
  slocks :: "slock \<Rightarrow> sleeplock"

definition blank_slp :: "(nat \<Rightarrow> proc) \<Rightarrow> 'a \<Rightarrow> 'a slp_st_scheme" where
  [blank]: "blank_slp ps x = blank_vm ps (slp_st_ext (\<lambda>_. \<lparr>sl_locked = False, sl_pid = 0\<rparr>) x)"

definition upd_slock :: "slock \<Rightarrow> (sleeplock \<Rightarrow> sleeplock) \<Rightarrow> ('a slp_st_scheme, unit) km" where
  "upd_slock l f = kmod (\<lambda>s. s\<lparr>slocks := (slocks s)(l := f (slocks s l))\<rparr>)"

lemma upd_slock_eval [kmonad]:
  "upd_slock l f s = Ret () (s\<lparr>slocks := (slocks s)(l := f (slocks s l))\<rparr>)"
  by (simp add: upd_slock_def kmonad)

definition initsleeplock :: "slock \<Rightarrow> ('a slp_st_scheme, unit) km" where
  "initsleeplock l = upd_slock l (\<lambda>k. k\<lparr>sl_locked := False, sl_pid := 0\<rparr>)"

definition acquiresleep_loop :: "slock \<Rightarrow> ('a slp_st_scheme, unit) km" where
  "acquiresleep_loop l =
     kbind (kget (\<lambda>s. slocks s l)) (\<lambda>k.
     if sl_locked k then sleep (Chan_slock l) (Lsleep l)
     else
       kbind curproc (\<lambda>p.
       kbind (proc_at p) (\<lambda>P.
       kthen (upd_slock l (\<lambda>k. k\<lparr>sl_locked := True, sl_pid := p_pid P\<rparr>))
       (release (Lsleep l)))))"

definition acquiresleep :: "slock \<Rightarrow> ('a slp_st_scheme, unit) km" where
  "acquiresleep l = kthen (acquire (Lsleep l)) (acquiresleep_loop l)"

definition acquiresleep_resume :: "slock \<Rightarrow> ('a slp_st_scheme, unit) km" where
  "acquiresleep_resume l = kthen (sleep_resume (Lsleep l)) (acquiresleep_loop l)"

definition releasesleep :: "slock \<Rightarrow> ('a slp_st_scheme, unit) km" where
  "releasesleep l =
     kthen (acquire (Lsleep l))
     (kthen (upd_slock l (\<lambda>k. k\<lparr>sl_locked := False, sl_pid := 0\<rparr>))
     (kthen (wakeup (Some (Chan_slock l)))
     (release (Lsleep l))))"

definition holdingsleep :: "slock \<Rightarrow> ('a slp_st_scheme, bool) km" where
  "holdingsleep l =
     kthen (acquire (Lsleep l))
     (kbind (kget (\<lambda>s. slocks s l)) (\<lambda>k.
     kbind curproc (\<lambda>p.
     kbind (proc_at p) (\<lambda>P.
     kthen (release (Lsleep l))
     (kret (sl_locked k \<and> sl_pid k = p_pid P))))))"

end
