(* ===== verification/Bio.thy ===== *)
theory Bio
  imports Sleeplock
begin

unbundle bit_operations_syntax

text \<open>
  \<^verbatim>\<open>kernel/bio.c\<close>: the buffer cache.  A buffer is an index below \<^verbatim>\<open>NBUF\<close>; index \<^verbatim>\<open>NBUF\<close> is the list
  head \<^verbatim>\<open>bcache.head\<close>.  The least-recently-used list is the real one, threaded through \<^verbatim>\<open>prev\<close> and
  \<^verbatim>\<open>next\<close>.

  \<^verbatim>\<open>virtio_disk_rw\<close> appears here as the transfer it performs once the device has answered
  (\<open>disk_transfer\<close>); the theory Virtio models the driver and shows that it brings this about.  \<open>dtrace\<close> records the contents of the disk
  after each write, newest first: these are the disks a crash can leave behind.
\<close>

section \<open>Blocks\<close>

type_synonym block = "nat \<Rightarrow> u8"

abbreviation (input) BSIZE :: nat where "BSIZE \<equiv> 1024"

definition get16 :: "block \<Rightarrow> nat \<Rightarrow> u16" where
  "get16 b off = ucast (b off) OR push_bit 8 (ucast (b (off + 1)))"

definition put16 :: "block \<Rightarrow> nat \<Rightarrow> u16 \<Rightarrow> block" where
  "put16 b off v = b(off := ucast v, off + 1 := ucast (drop_bit 8 v))"

definition get32 :: "block \<Rightarrow> nat \<Rightarrow> u32" where
  "get32 b off = ucast (b off) OR push_bit 8 (ucast (b (off + 1))) OR push_bit 16 (ucast (b (off + 2))) OR
     push_bit 24 (ucast (b (off + 3)))"

definition put32 :: "block \<Rightarrow> nat \<Rightarrow> u32 \<Rightarrow> block" where
  "put32 b off v = b(off := ucast v, off + 1 := ucast (drop_bit 8 v), off + 2 := ucast (drop_bit 16 v),
     off + 3 := ucast (drop_bit 24 v))"

definition blit :: "block \<Rightarrow> nat \<Rightarrow> u8 list \<Rightarrow> block" where
  "blit b off bs = (\<lambda>i. if off \<le> i \<and> i < off + length bs then bs ! (i - off) else b i)"

definition slice :: "block \<Rightarrow> nat \<Rightarrow> nat \<Rightarrow> u8 list" where
  "slice b off n = map (\<lambda>i. b (off + i)) [0..<n]"

section \<open>Buffers\<close>

record buf =
  b_valid :: bool
  b_dev :: u32
  b_blockno :: u32
  b_refcnt :: u32
  b_prev :: nat
  b_next :: nat
  b_data :: block

record bio_st = slp_st +
  bufs :: "nat \<Rightarrow> buf"
  disk :: "u32 \<Rightarrow> block"
  dtrace :: "(u32 \<Rightarrow> block) list"

text \<open>The buffers as \<^verbatim>\<open>binit\<close> links them.\<close>

definition blank_buf :: "nat \<Rightarrow> buf" where
  [blank]: "blank_buf b = \<lparr>b_valid = False, b_dev = 0, b_blockno = 0, b_refcnt = 0,
     b_prev = (if b = NBUF then 0 else b + 1), b_next = (if b = 0 then NBUF else b - 1), b_data = \<lambda>_. 0\<rparr>"

definition blank_bio :: "(nat \<Rightarrow> proc) \<Rightarrow> 'a \<Rightarrow> 'a bio_st_scheme" where
  [blank]: "blank_bio ps x = blank_slp ps (bio_st_ext blank_buf (\<lambda>_ _. 0) [] x)"

abbreviation (input) bhead :: nat where "bhead \<equiv> NBUF"

definition buf_at :: "nat \<Rightarrow> ('a bio_st_scheme, buf) km" where
  "buf_at b = kget (\<lambda>s. bufs s b)"

definition upd_buf :: "nat \<Rightarrow> (buf \<Rightarrow> buf) \<Rightarrow> ('a bio_st_scheme, unit) km" where
  "upd_buf b f = kmod (\<lambda>s. s\<lparr>bufs := (bufs s)(b := f (bufs s b))\<rparr>)"

lemma buf_at_eval [kmonad]: "buf_at b s = Ret (bufs s b) s"
  by (simp add: buf_at_def kmonad)

lemma upd_buf_eval [kmonad]: "upd_buf b f s = Ret () (s\<lparr>bufs := (bufs s)(b := f (bufs s b))\<rparr>)"
  by (simp add: upd_buf_def kmonad)

text \<open>The four pointer assignments that put \<open>b\<close> in front of the list.\<close>

definition blink_front :: "nat \<Rightarrow> ('a bio_st_scheme, unit) km" where
  "blink_front b =
     kbind (buf_at bhead) (\<lambda>H.
     kthen (upd_buf b (\<lambda>B. B\<lparr>b_next := b_next H\<rparr>))
     (kthen (upd_buf b (\<lambda>B. B\<lparr>b_prev := bhead\<rparr>))
     (kthen (upd_buf (b_next H) (\<lambda>B. B\<lparr>b_prev := b\<rparr>))
     (upd_buf bhead (\<lambda>B. B\<lparr>b_next := b\<rparr>)))))"

definition bunlink :: "nat \<Rightarrow> ('a bio_st_scheme, unit) km" where
  "bunlink b =
     kbind (buf_at b) (\<lambda>B.
     kthen (upd_buf (b_next B) (\<lambda>C. C\<lparr>b_prev := b_prev B\<rparr>))
     (upd_buf (b_prev B) (\<lambda>C. C\<lparr>b_next := b_next B\<rparr>)))"

definition binit :: "('a bio_st_scheme, unit) km" where
  "binit =
     kthen (upd_buf bhead (\<lambda>B. B\<lparr>b_prev := bhead, b_next := bhead\<rparr>))
     (kfor [0..<NBUF] (\<lambda>b. kthen (initsleeplock (Slock_buf b)) (blink_front b)))"

text \<open>The buffers met from \<open>b\<close> along a pointer until the head; the list has \<^verbatim>\<open>NBUF\<close> members.\<close>

primrec follow :: "nat \<Rightarrow> (nat \<Rightarrow> nat) \<Rightarrow> nat \<Rightarrow> nat list" where
  "follow 0 nx b = []"
| "follow (Suc n) nx b = (if b = bhead then [] else b # follow n nx (nx b))"

definition mru_list :: "'a bio_st_scheme \<Rightarrow> nat list" where
  "mru_list s = follow NBUF (\<lambda>b. b_next (bufs s b)) (b_next (bufs s bhead))"

definition lru_list :: "'a bio_st_scheme \<Rightarrow> nat list" where
  "lru_list s = follow NBUF (\<lambda>b. b_prev (bufs s b)) (b_prev (bufs s bhead))"

definition bget :: "u32 \<Rightarrow> u32 \<Rightarrow> ('a bio_st_scheme, nat) km" where
  "bget dev blockno =
     kthen (acquire Lbcache)
     (kbind (kget mru_list) (\<lambda>l1.
     kbind (kfind l1 (\<lambda>b.
       kbind (buf_at b) (\<lambda>B.
       if b_dev B = dev \<and> b_blockno B = blockno then
         kthen (upd_buf b (\<lambda>B. B\<lparr>b_refcnt := b_refcnt B + 1\<rparr>))
         (kthen (release Lbcache)
         (kthen (acquiresleep (Slock_buf b))
         (kret (Some b))))
       else kret None))) (\<lambda>r.
     case r of
       Some b \<Rightarrow> kret b
     | None \<Rightarrow>
         kbind (kget lru_list) (\<lambda>l2.
         kbind (kfind l2 (\<lambda>b.
           kbind (buf_at b) (\<lambda>B.
           if b_refcnt B = 0 then
             kthen (upd_buf b (\<lambda>B. B\<lparr>b_dev := dev, b_blockno := blockno, b_valid := False, b_refcnt := 1\<rparr>))
             (kthen (release Lbcache)
             (kthen (acquiresleep (Slock_buf b))
             (kret (Some b))))
           else kret None))) (\<lambda>r.
         case r of
           Some b \<Rightarrow> kret b
         | None \<Rightarrow> kpanic ''bget: no buffers'')))))"

text \<open>After a wait for the sleep lock of the buffer.\<close>

definition bget_resume :: "nat \<Rightarrow> ('a bio_st_scheme, nat) km" where
  "bget_resume b = kthen (acquiresleep_resume (Slock_buf b)) (kret b)"

definition disk_transfer :: "nat \<Rightarrow> bool \<Rightarrow> ('a bio_st_scheme, unit) km" where
  "disk_transfer b wr =
     (if wr then
        kmod (\<lambda>s. let d = (disk s)(b_blockno (bufs s b) := b_data (bufs s b)) in s\<lparr>disk := d, dtrace := d # dtrace s\<rparr>)
      else
        kmod (\<lambda>s. s\<lparr>bufs := (bufs s)(b := (bufs s b)\<lparr>b_data := disk s (b_blockno (bufs s b))\<rparr>)\<rparr>))"

definition bread :: "u32 \<Rightarrow> u32 \<Rightarrow> ('a bio_st_scheme, nat) km" where
  "bread dev blockno =
     kbind (bget dev blockno) (\<lambda>b.
     kbind (buf_at b) (\<lambda>B.
     kthen (kwhen (\<not> b_valid B)
       (kthen (disk_transfer b False) (upd_buf b (\<lambda>B. B\<lparr>b_valid := True\<rparr>))))
     (kret b)))"

definition bwrite :: "nat \<Rightarrow> ('a bio_st_scheme, unit) km" where
  "bwrite b =
     kbind (holdingsleep (Slock_buf b)) (\<lambda>h.
     if \<not> h then kpanic ''bwrite'' else disk_transfer b True)"

definition brelse :: "nat \<Rightarrow> ('a bio_st_scheme, unit) km" where
  "brelse b =
     kbind (holdingsleep (Slock_buf b)) (\<lambda>h.
     if \<not> h then kpanic ''brelse''
     else
       kthen (releasesleep (Slock_buf b))
       (kthen (acquire Lbcache)
       (kthen (upd_buf b (\<lambda>B. B\<lparr>b_refcnt := b_refcnt B - 1\<rparr>))
       (kbind (buf_at b) (\<lambda>B.
       kthen (kwhen (b_refcnt B = 0) (kthen (bunlink b) (blink_front b)))
       (release Lbcache))))))"

definition bpin :: "nat \<Rightarrow> ('a bio_st_scheme, unit) km" where
  "bpin b =
     kthen (acquire Lbcache)
     (kthen (upd_buf b (\<lambda>B. B\<lparr>b_refcnt := b_refcnt B + 1\<rparr>))
     (release Lbcache))"

definition bunpin :: "nat \<Rightarrow> ('a bio_st_scheme, unit) km" where
  "bunpin b =
     kthen (acquire Lbcache)
     (kthen (upd_buf b (\<lambda>B. B\<lparr>b_refcnt := b_refcnt B - 1\<rparr>))
     (release Lbcache))"

definition bdata :: "nat \<Rightarrow> ('a bio_st_scheme, block) km" where
  "bdata b = kget (\<lambda>s. b_data (bufs s b))"

definition bset :: "nat \<Rightarrow> (block \<Rightarrow> block) \<Rightarrow> ('a bio_st_scheme, unit) km" where
  "bset b f = upd_buf b (\<lambda>B. B\<lparr>b_data := f (b_data B)\<rparr>)"

end
