(* ===== verification/Log.thy ===== *)
theory Log
  imports Bio
begin

text \<open>
  \<^verbatim>\<open>kernel/log.c\<close>: the write-ahead log that makes the disk updates of a file system call atomic.
  \<^verbatim>\<open>int\<close> fields of the header that hold block numbers are 32-bit words, as they are on the disk.
\<close>

record log_st = bio_st +
  log_start :: u32
  log_outstanding :: int
  log_committing :: bool
  log_dev :: u32
  lh_n :: int
  lh_block :: "nat \<Rightarrow> u32"

definition blank_log :: "(nat \<Rightarrow> proc) \<Rightarrow> 'a \<Rightarrow> 'a log_st_scheme" where
  [blank]: "blank_log ps x = blank_bio ps (log_st_ext 2 0 False 1 0 (\<lambda>_. 0) x)"

definition install_trans :: "bool \<Rightarrow> ('a log_st_scheme, unit) km" where
  "install_trans recovering =
     kbind (kget lh_n) (\<lambda>n.
     kfor [0..<nat n] (\<lambda>tail.
       kbind (kget log_dev) (\<lambda>dev.
       kbind (kget log_start) (\<lambda>start.
       kbind (kget (\<lambda>s. lh_block s tail)) (\<lambda>dst.
       kthen (kwhen recovering
         (kprintf ''recovering tail %d dst %d\<newline>'' [Vint (of_nat tail), Vint (ucast dst)]))
       (kbind (bread dev (start + of_nat tail + 1)) (\<lambda>lbuf.
       kbind (bread dev dst) (\<lambda>dbuf.
       kbind (bdata lbuf) (\<lambda>d.
       kthen (bset dbuf (\<lambda>_. d))
       (kthen (bwrite dbuf)
       (kthen (kwhen (\<not> recovering) (bunpin dbuf))
       (kthen (brelse lbuf)
       (brelse dbuf)))))))))))))"

text \<open>C would copy a header of more than \<^verbatim>\<open>LOGBLOCKS\<close> entries past the end of \<^verbatim>\<open>log.lh.block\<close>; the array here has no
  end, and the theorems are about headers of at most \<^verbatim>\<open>LOGBLOCKS\<close> entries.\<close>

definition read_head :: "('a log_st_scheme, unit) km" where
  "read_head =
     kbind (kget log_dev) (\<lambda>dev.
     kbind (kget log_start) (\<lambda>start.
     kbind (bread dev start) (\<lambda>b.
     kbind (bdata b) (\<lambda>d.
     kthen (kmod (\<lambda>s. s\<lparr>lh_n := sint (get32 d 0)\<rparr>))
     (kthen (kfor [0..<nat (sint (get32 d 0))] (\<lambda>i.
        kmod (\<lambda>s. s\<lparr>lh_block := (lh_block s)(i := get32 d (4 + 4 * i))\<rparr>)))
     (brelse b))))))"

definition write_head :: "('a log_st_scheme, unit) km" where
  "write_head =
     kbind (kget log_dev) (\<lambda>dev.
     kbind (kget log_start) (\<lambda>start.
     kbind (bread dev start) (\<lambda>b.
     kbind (kget lh_n) (\<lambda>n.
     kthen (bset b (\<lambda>d. put32 d 0 (word_of_int n)))
     (kthen (kfor [0..<nat n] (\<lambda>i.
        kbind (kget (\<lambda>s. lh_block s i)) (\<lambda>v. bset b (\<lambda>d. put32 d (4 + 4 * i) v))))
     (kthen (bwrite b)
     (brelse b)))))))"

definition recover_from_log :: "('a log_st_scheme, unit) km" where
  "recover_from_log =
     kthen read_head
     (kthen (install_trans True)
     (kthen (kmod (\<lambda>s. s\<lparr>lh_n := 0\<rparr>))
     write_head))"

text \<open>\<^verbatim>\<open>sizeof(struct logheader)\<close> is 4 + 4 * LOGBLOCKS = 124 bytes, below \<^verbatim>\<open>BSIZE\<close>.\<close>

definition initlog :: "u32 \<Rightarrow> u32 \<Rightarrow> ('a log_st_scheme, unit) km" where
  "initlog dev logstart =
     (if 4 + 4 * LOGBLOCKS \<ge> BSIZE then kpanic ''initlog: too big logheader''
      else
        kthen (kmod (\<lambda>s. s\<lparr>log_start := logstart\<rparr>))
        (kthen (kmod (\<lambda>s. s\<lparr>log_dev := dev\<rparr>))
        recover_from_log))"

definition begin_op_loop :: "('a log_st_scheme, unit) km" where
  "begin_op_loop =
     kbind (kget log_committing) (\<lambda>c.
     kbind (kget lh_n) (\<lambda>n.
     kbind (kget log_outstanding) (\<lambda>out.
     if c then sleep Chan_log Llog
     else if n + (out + 1) * int MAXOPBLOCKS > int LOGBLOCKS then sleep Chan_log Llog
     else
       kthen (kmod (\<lambda>s. s\<lparr>log_outstanding := log_outstanding s + 1\<rparr>))
       (release Llog))))"

definition begin_op :: "('a log_st_scheme, unit) km" where
  "begin_op = kthen (acquire Llog) begin_op_loop"

definition begin_op_resume :: "('a log_st_scheme, unit) km" where
  "begin_op_resume = kthen (sleep_resume Llog) begin_op_loop"

definition write_log :: "('a log_st_scheme, unit) km" where
  "write_log =
     kbind (kget lh_n) (\<lambda>n.
     kfor [0..<nat n] (\<lambda>tail.
       kbind (kget log_dev) (\<lambda>dev.
       kbind (kget log_start) (\<lambda>start.
       kbind (kget (\<lambda>s. lh_block s tail)) (\<lambda>src.
       kbind (bread dev (start + of_nat tail + 1)) (\<lambda>to.
       kbind (bread dev src) (\<lambda>from.
       kbind (bdata from) (\<lambda>d.
       kthen (bset to (\<lambda>_. d))
       (kthen (bwrite to)
       (kthen (brelse from)
       (brelse to)))))))))))"

definition commit :: "('a log_st_scheme, unit) km" where
  "commit =
     kbind (kget lh_n) (\<lambda>n.
     kwhen (n > 0)
       (kthen write_log
       (kthen write_head
       (kthen (install_trans False)
       (kthen (kmod (\<lambda>s. s\<lparr>lh_n := 0\<rparr>))
       write_head)))))"

definition end_op :: "('a log_st_scheme, unit) km" where
  "end_op =
     kthen (acquire Llog)
     (kthen (kmod (\<lambda>s. s\<lparr>log_outstanding := log_outstanding s - 1\<rparr>))
     (kbind (kget log_committing) (\<lambda>c.
     if c then kpanic ''log.committing''
     else
       kbind (kget log_outstanding) (\<lambda>out.
       kthen (if out = 0 then kmod (\<lambda>s. s\<lparr>log_committing := True\<rparr>) else wakeup (Some Chan_log))
       (kthen (release Llog)
       (kwhen (out = 0)
         (kthen commit
         (kthen (acquire Llog)
         (kthen (kmod (\<lambda>s. s\<lparr>log_committing := False\<rparr>))
         (kthen (wakeup (Some Chan_log))
         (release Llog)))))))))))"

text \<open>The slot \<^verbatim>\<open>log_write\<close> uses: the first that already names the block, or the one past the end.\<close>

definition log_slot :: "'a log_st_scheme \<Rightarrow> u32 \<Rightarrow> nat" where
  "log_slot s blockno =
     (case find (\<lambda>i. lh_block s i = blockno) [0..<nat (lh_n s)] of Some i \<Rightarrow> i | None \<Rightarrow> nat (lh_n s))"

definition log_write :: "nat \<Rightarrow> ('a log_st_scheme, unit) km" where
  "log_write b =
     kthen (acquire Llog)
     (kbind (kget lh_n) (\<lambda>n.
     if n \<ge> int LOGBLOCKS then kpanic ''too big a transaction''
     else
       kbind (kget log_outstanding) (\<lambda>out.
       if out < 1 then kpanic ''log_write outside of trans''
       else
         kbind (buf_at b) (\<lambda>B.
         kbind (kget (\<lambda>s. log_slot s (b_blockno B))) (\<lambda>i.
         kthen (kmod (\<lambda>s. s\<lparr>lh_block := (lh_block s)(i := b_blockno B)\<rparr>))
         (kthen (kwhen (int i = n) (kthen (bpin b) (kmod (\<lambda>s. s\<lparr>lh_n := lh_n s + 1\<rparr>))))
         (release Llog)))))))"

end
