(* ===== verification/Fs.thy ===== *)
theory Fs
  imports Log
begin

unbundle bit_operations_syntax

text \<open>
  \<^verbatim>\<open>kernel/fs.c\<close>: blocks, inodes, directories and path names, on the buffer cache and the log.  The
  on-disk structures (\<^verbatim>\<open>struct superblock\<close>, \<^verbatim>\<open>struct dinode\<close>, \<^verbatim>\<open>struct dirent\<close>) are read and written byte
  by byte at their offsets in a block.

  An in-memory inode is an index into \<^verbatim>\<open>itable.inode\<close>.  The other end of a copy is a user address, a
  physical address, or a local variable of the caller, whose bytes are returned.
  \<^verbatim>\<open>either_copyout\<close> and \<^verbatim>\<open>either_copyin\<close> of \<^verbatim>\<open>kernel/proc.c\<close> are here, next to their callers.
\<close>

section \<open>On-disk structures\<close>

record superblock =
  sb_magic :: u32
  sb_size :: u32
  sb_nblocks :: u32
  sb_ninodes :: u32
  sb_nlog :: u32
  sb_logstart :: u32
  sb_inodestart :: u32
  sb_bmapstart :: u32

abbreviation (input) FSMAGIC :: u32 where "FSMAGIC \<equiv> 0x10203040"
abbreviation (input) NDIRECT :: nat where "NDIRECT \<equiv> 12"
abbreviation (input) NINDIRECT :: nat where "NINDIRECT \<equiv> 256"
abbreviation (input) MAXFILE :: nat where "MAXFILE \<equiv> NDIRECT + NINDIRECT"
abbreviation (input) IPB :: nat where "IPB \<equiv> 16"
abbreviation (input) BPB :: nat where "BPB \<equiv> 8192"
abbreviation (input) DIRSIZ :: nat where "DIRSIZ \<equiv> 14"
abbreviation (input) ROOTINO :: u32 where "ROOTINO \<equiv> 1"
abbreviation (input) T_DIR :: u16 where "T_DIR \<equiv> 1"
abbreviation (input) T_FILE :: u16 where "T_FILE \<equiv> 2"
abbreviation (input) T_DEVICE :: u16 where "T_DEVICE \<equiv> 3"

record inode =
  i_dev :: u32
  i_inum :: u32
  i_ref :: int
  i_valid :: bool
  i_type :: u16
  i_major :: u16
  i_minor :: u16
  i_nlink :: u16
  i_size :: u32
  i_addrs :: "nat \<Rightarrow> u32"

record fs_st = log_st +
  sb :: superblock
  inodes :: "nat \<Rightarrow> inode"

definition blank_inode :: inode where
  [blank]: "blank_inode = \<lparr>i_dev = 0, i_inum = 0, i_ref = 0, i_valid = False, i_type = 0, i_major = 0, i_minor = 0,
     i_nlink = 0, i_size = 0, i_addrs = \<lambda>_. 0\<rparr>"

definition blank_fs :: "(nat \<Rightarrow> proc) \<Rightarrow> 'a \<Rightarrow> 'a fs_st_scheme" where
  [blank]: "blank_fs ps x = blank_log ps (fs_st_ext
     \<lparr>sb_magic = FSMAGIC, sb_size = 2000, sb_nblocks = 1953, sb_ninodes = 200, sb_nlog = 31, sb_logstart = 2,
      sb_inodestart = 33, sb_bmapstart = 46\<rparr> (\<lambda>_. blank_inode) x)"

definition inode_at :: "nat \<Rightarrow> ('a fs_st_scheme, inode) km" where
  "inode_at i = kget (\<lambda>s. inodes s i)"

definition upd_inode :: "nat \<Rightarrow> (inode \<Rightarrow> inode) \<Rightarrow> ('a fs_st_scheme, unit) km" where
  "upd_inode i f = kmod (\<lambda>s. s\<lparr>inodes := (inodes s)(i := f (inodes s i))\<rparr>)"

lemma inode_at_eval [kmonad]: "inode_at i s = Ret (inodes s i) s"
  by (simp add: inode_at_def kmonad)

lemma upd_inode_eval [kmonad]:
  "upd_inode i f s = Ret () (s\<lparr>inodes := (inodes s)(i := f (inodes s i))\<rparr>)"
  by (simp add: upd_inode_def kmonad)

definition IBLOCK :: "u32 \<Rightarrow> superblock \<Rightarrow> u32" where
  "IBLOCK i b = i div 16 + sb_inodestart b"

definition BBLOCK :: "u32 \<Rightarrow> superblock \<Rightarrow> u32" where
  "BBLOCK b q = b div 8192 + sb_bmapstart q"

text \<open>Offset of inode \<open>i\<close> in its block, and the fields of a \<^verbatim>\<open>struct dinode\<close> (64 bytes) at an offset.\<close>

definition dino_off :: "u32 \<Rightarrow> nat" where
  "dino_off i = 64 * (unat i mod IPB)"

definition dinode_load :: "block \<Rightarrow> nat \<Rightarrow> inode \<Rightarrow> inode" where
  "dinode_load d o1 I = I\<lparr>i_type := get16 d o1, i_major := get16 d (o1 + 2), i_minor := get16 d (o1 + 4),
     i_nlink := get16 d (o1 + 6), i_size := get32 d (o1 + 8),
     i_addrs := (\<lambda>k. if k \<le> NDIRECT then get32 d (o1 + 12 + 4 * k) else i_addrs I k)\<rparr>"

definition dinode_store :: "inode \<Rightarrow> nat \<Rightarrow> block \<Rightarrow> block" where
  "dinode_store I o1 d =
     fold (\<lambda>k d. put32 d (o1 + 12 + 4 * k) (i_addrs I k)) [0..<NDIRECT + 1]
       (put32 (put16 (put16 (put16 (put16 d o1 (i_type I)) (o1 + 2) (i_major I)) (o1 + 4) (i_minor I))
          (o1 + 6) (i_nlink I)) (o1 + 8) (i_size I))"

definition readsb :: "u32 \<Rightarrow> ('a fs_st_scheme, unit) km" where
  "readsb dev =
     kbind (bread dev 1) (\<lambda>bp.
     kbind (bdata bp) (\<lambda>d.
     kthen (kmod (\<lambda>s. s\<lparr>sb := \<lparr>sb_magic = get32 d 0, sb_size = get32 d 4, sb_nblocks = get32 d 8,
       sb_ninodes = get32 d 12, sb_nlog = get32 d 16, sb_logstart = get32 d 20,
       sb_inodestart = get32 d 24, sb_bmapstart = get32 d 28\<rparr>\<rparr>))
     (brelse bp)))"

section \<open>Blocks\<close>

definition bzero :: "u32 \<Rightarrow> u32 \<Rightarrow> ('a fs_st_scheme, unit) km" where
  "bzero dev bno =
     kbind (bread dev bno) (\<lambda>bp.
     kthen (bset bp (\<lambda>d i. if i < BSIZE then 0 else d i))
     (kthen (log_write bp)
     (brelse bp)))"

definition bit_mask :: "nat \<Rightarrow> u8" where
  "bit_mask bi = push_bit (bi mod 8) 1"

definition balloc :: "u32 \<Rightarrow> ('a fs_st_scheme, u32) km" where
  "balloc dev =
     kbind (kget sb) (\<lambda>q.
     kbind (kfind (map ((*) BPB) [0..<(unat (sb_size q) + BPB - 1) div BPB]) (\<lambda>b.
       kbind (bread dev (BBLOCK (of_nat b) q)) (\<lambda>bp.
       kbind (kfind [0..<min BPB (unat (sb_size q) - b)] (\<lambda>bi.
         kbind (bdata bp) (\<lambda>d.
         if d (bi div 8) AND bit_mask bi = 0 then
           kthen (bset bp (\<lambda>d. d(bi div 8 := d (bi div 8) OR bit_mask bi)))
           (kthen (log_write bp)
           (kthen (brelse bp)
           (kthen (bzero dev (of_nat (b + bi)))
           (kret (Some (of_nat (b + bi)))))))
         else kret None))) (\<lambda>r.
       case r of Some x \<Rightarrow> kret (Some x) | None \<Rightarrow> kthen (brelse bp) (kret None))))) (\<lambda>r.
     case r of
       Some x \<Rightarrow> kret x
     | None \<Rightarrow> kthen (kprintf ''balloc: out of blocks\<newline>'' []) (kret 0)))"

definition bfree :: "u32 \<Rightarrow> u32 \<Rightarrow> ('a fs_st_scheme, unit) km" where
  "bfree dev b =
     kbind (kget sb) (\<lambda>q.
     kbind (bread dev (BBLOCK b q)) (\<lambda>bp.
     let bi = unat b mod BPB in
     kbind (bdata bp) (\<lambda>d.
     if d (bi div 8) AND bit_mask bi = 0 then kpanic ''freeing free block''
     else
       kthen (bset bp (\<lambda>d. d(bi div 8 := d (bi div 8) AND NOT (bit_mask bi))))
       (kthen (log_write bp)
       (brelse bp)))))"

section \<open>Inodes\<close>

definition iinit :: "('a fs_st_scheme, unit) km" where
  "iinit = kfor [0..<NINODE] (\<lambda>i. initsleeplock (Slock_inode i))"

definition iget_scan :: "u32 \<Rightarrow> u32 \<Rightarrow> 'a fs_st_scheme \<Rightarrow> nat option \<times> nat option" where
  "iget_scan dev inum s =
     (find (\<lambda>i. i_ref (inodes s i) > 0 \<and> i_dev (inodes s i) = dev \<and> i_inum (inodes s i) = inum) [0..<NINODE],
      find (\<lambda>i. i_ref (inodes s i) = 0) [0..<NINODE])"

definition iget :: "u32 \<Rightarrow> u32 \<Rightarrow> ('a fs_st_scheme, nat) km" where
  "iget dev inum =
     kthen (acquire Litable)
     (kbind (kget (iget_scan dev inum)) (\<lambda>r.
     case r of
       (Some i, e) \<Rightarrow>
         kthen (upd_inode i (\<lambda>I. I\<lparr>i_ref := i_ref I + 1\<rparr>))
         (kthen (release Litable) (kret i))
     | (None, None) \<Rightarrow> kpanic ''iget: no inodes''
     | (None, Some i) \<Rightarrow>
         kthen (upd_inode i (\<lambda>I. I\<lparr>i_dev := dev, i_inum := inum, i_ref := 1, i_valid := False\<rparr>))
         (kthen (release Litable) (kret i))))"

definition ialloc :: "u32 \<Rightarrow> u16 \<Rightarrow> ('a fs_st_scheme, nat option) km" where
  "ialloc dev ty =
     kbind (kget sb) (\<lambda>q.
     kbind (kfind (map of_nat [1..<unat (sb_ninodes q)]) (\<lambda>inum.
       kbind (bread dev (IBLOCK inum q)) (\<lambda>bp.
       kbind (bdata bp) (\<lambda>d.
       if get16 d (dino_off inum) = 0 then
         kthen (bset bp (\<lambda>d. put16 (\<lambda>i. if dino_off inum \<le> i \<and> i < dino_off inum + 64 then 0 else d i)
                               (dino_off inum) ty))
         (kthen (log_write bp)
         (kthen (brelse bp)
         (kbind (iget dev inum) (\<lambda>ip. kret (Some ip)))))
       else kthen (brelse bp) (kret None))))) (\<lambda>r.
     case r of
       Some ip \<Rightarrow> kret (Some ip)
     | None \<Rightarrow> kthen (kprintf ''ialloc: no inodes\<newline>'' []) (kret None)))"

definition iupdate :: "nat \<Rightarrow> ('a fs_st_scheme, unit) km" where
  "iupdate ip =
     kbind (kget sb) (\<lambda>q.
     kbind (inode_at ip) (\<lambda>I.
     kbind (bread (i_dev I) (IBLOCK (i_inum I) q)) (\<lambda>bp.
     kthen (bset bp (dinode_store I (dino_off (i_inum I))))
     (kthen (log_write bp)
     (brelse bp)))))"

definition idup :: "nat \<Rightarrow> ('a fs_st_scheme, nat) km" where
  "idup ip =
     kthen (acquire Litable)
     (kthen (upd_inode ip (\<lambda>I. I\<lparr>i_ref := i_ref I + 1\<rparr>))
     (kthen (release Litable)
     (kret ip)))"

definition ilock :: "nat \<Rightarrow> ('a fs_st_scheme, unit) km" where
  "ilock ip =
     kbind (inode_at ip) (\<lambda>I0.
     if i_ref I0 < 1 then kpanic ''ilock''
     else
       kthen (acquiresleep (Slock_inode ip))
       (kbind (inode_at ip) (\<lambda>I.
       if i_valid I then kret ()
       else
         kbind (kget sb) (\<lambda>q.
         kbind (bread (i_dev I) (IBLOCK (i_inum I) q)) (\<lambda>bp.
         kbind (bdata bp) (\<lambda>d.
         kthen (upd_inode ip (dinode_load d (dino_off (i_inum I))))
         (kthen (brelse bp)
         (kthen (upd_inode ip (\<lambda>I. I\<lparr>i_valid := True\<rparr>))
         (kbind (inode_at ip) (\<lambda>I.
         kwhen (i_type I = 0) (kpanic ''ilock: no type'')))))))))))"

definition iunlock :: "nat \<Rightarrow> ('a fs_st_scheme, unit) km" where
  "iunlock ip =
     kbind (holdingsleep (Slock_inode ip)) (\<lambda>h.
     kbind (inode_at ip) (\<lambda>I.
     if \<not> h \<or> i_ref I < 1 then kpanic ''iunlock''
     else releasesleep (Slock_inode ip)))"

definition bmap :: "nat \<Rightarrow> u32 \<Rightarrow> ('a fs_st_scheme, u32) km" where
  "bmap ip bn =
     kbind (inode_at ip) (\<lambda>I.
     if bn < 12 then
       (let addr = i_addrs I (unat bn) in
        if addr \<noteq> 0 then kret addr
        else
          kbind (balloc (i_dev I)) (\<lambda>addr.
          if addr = 0 then kret 0
          else
            kthen (upd_inode ip (\<lambda>I. I\<lparr>i_addrs := (i_addrs I)(unat bn := addr)\<rparr>))
            (kret addr)))
     else if bn - 12 < 256 then
       kbind (if i_addrs I NDIRECT \<noteq> 0 then kret (i_addrs I NDIRECT)
              else
                kbind (balloc (i_dev I)) (\<lambda>addr.
                if addr = 0 then kret 0
                else
                  kthen (upd_inode ip (\<lambda>I. I\<lparr>i_addrs := (i_addrs I)(NDIRECT := addr)\<rparr>))
                  (kret addr))) (\<lambda>ind.
       if ind = 0 then kret 0
       else
         kbind (bread (i_dev I) ind) (\<lambda>bp.
         kbind (bdata bp) (\<lambda>d.
         let k = unat (bn - 12); addr = get32 d (4 * k) in
         if addr \<noteq> 0 then kthen (brelse bp) (kret addr)
         else
           kbind (balloc (i_dev I)) (\<lambda>addr.
           kthen (kwhen (addr \<noteq> 0) (kthen (bset bp (\<lambda>d. put32 d (4 * k) addr)) (log_write bp)))
           (kthen (brelse bp)
           (kret addr))))))
     else kpanic ''bmap: out of range'')"

definition itrunc :: "nat \<Rightarrow> ('a fs_st_scheme, unit) km" where
  "itrunc ip =
     kthen (kfor [0..<NDIRECT] (\<lambda>i.
       kbind (inode_at ip) (\<lambda>I.
       kwhen (i_addrs I i \<noteq> 0)
         (kthen (bfree (i_dev I) (i_addrs I i))
         (upd_inode ip (\<lambda>I. I\<lparr>i_addrs := (i_addrs I)(i := 0)\<rparr>))))))
     (kthen (kbind (inode_at ip) (\<lambda>I.
       kwhen (i_addrs I NDIRECT \<noteq> 0)
         (kbind (bread (i_dev I) (i_addrs I NDIRECT)) (\<lambda>bp.
         kthen (kfor [0..<NINDIRECT] (\<lambda>j.
           kbind (bdata bp) (\<lambda>d.
           kwhen (get32 d (4 * j) \<noteq> 0) (bfree (i_dev I) (get32 d (4 * j))))))
         (kthen (brelse bp)
         (kthen (bfree (i_dev I) (i_addrs I NDIRECT))
         (upd_inode ip (\<lambda>I. I\<lparr>i_addrs := (i_addrs I)(NDIRECT := 0)\<rparr>))))))))
     (kthen (upd_inode ip (\<lambda>I. I\<lparr>i_size := 0\<rparr>))
     (iupdate ip)))"

definition iput :: "nat \<Rightarrow> ('a fs_st_scheme, unit) km" where
  "iput ip =
     kthen (acquire Litable)
     (kbind (inode_at ip) (\<lambda>I.
     kthen (kwhen (i_ref I = 1 \<and> i_valid I \<and> i_nlink I = 0)
       (kthen (acquiresleep (Slock_inode ip))
       (kthen (release Litable)
       (kthen (itrunc ip)
       (kthen (upd_inode ip (\<lambda>I. I\<lparr>i_type := 0\<rparr>))
       (kthen (iupdate ip)
       (kthen (upd_inode ip (\<lambda>I. I\<lparr>i_valid := False\<rparr>))
       (kthen (releasesleep (Slock_inode ip))
       (acquire Litable)))))))))
     (kthen (upd_inode ip (\<lambda>I. I\<lparr>i_ref := i_ref I - 1\<rparr>))
     (release Litable))))"

definition iunlockput :: "nat \<Rightarrow> ('a fs_st_scheme, unit) km" where
  "iunlockput ip = kthen (iunlock ip) (iput ip)"

definition ireclaim :: "u32 \<Rightarrow> ('a fs_st_scheme, unit) km" where
  "ireclaim dev =
     kbind (kget sb) (\<lambda>q.
     kfor (map of_nat [1..<unat (sb_ninodes q)]) (\<lambda>inum.
       kbind (bread dev (IBLOCK inum q)) (\<lambda>bp.
       kbind (bdata bp) (\<lambda>d.
       kbind (if get16 d (dino_off inum) \<noteq> 0 \<and> get16 d (dino_off inum + 6) = 0 then
                kthen (kprintf ''ireclaim: orphaned inode %d\<newline>'' [Vint (ucast inum)])
                (kbind (iget dev inum) (\<lambda>ip. kret (Some ip)))
              else kret None) (\<lambda>r.
       kthen (brelse bp)
       (case r of
          None \<Rightarrow> kret ()
        | Some ip \<Rightarrow>
            kthen begin_op (kthen (ilock ip) (kthen (iunlock ip) (kthen (iput ip) end_op)))))))))"

definition fsinit :: "u32 \<Rightarrow> ('a fs_st_scheme, unit) km" where
  "fsinit dev =
     kthen (readsb dev)
     (kbind (kget sb) (\<lambda>q.
     if sb_magic q \<noteq> FSMAGIC then kpanic ''invalid file system''
     else
       kthen (initlog dev (sb_logstart q))
       (ireclaim dev)))"

section \<open>Inode contents\<close>

datatype copydst = Dst_user u64 | Dst_phys u64 | Dst_local
datatype copysrc = Src_user u64 | Src_phys u64 | Src_local "u8 list"

fun dst_add :: "copydst \<Rightarrow> nat \<Rightarrow> copydst" where
  "dst_add (Dst_user a) m = Dst_user (a + of_nat m)"
| "dst_add (Dst_phys a) m = Dst_phys (a + of_nat m)"
| "dst_add Dst_local m = Dst_local"

fun src_add :: "copysrc \<Rightarrow> nat \<Rightarrow> copysrc" where
  "src_add (Src_user a) m = Src_user (a + of_nat m)"
| "src_add (Src_phys a) m = Src_phys (a + of_nat m)"
| "src_add (Src_local bs) m = Src_local (drop m bs)"

fun either_copyout :: "copydst \<Rightarrow> u8 list \<Rightarrow> ('a fs_st_scheme, int) km" where
  "either_copyout (Dst_user a) bs =
     kbind curproc (\<lambda>p. kbind (proc_at p) (\<lambda>P. copyout (p_pagetable P) a bs))"
| "either_copyout (Dst_phys a) bs =
     kthen (kmod (\<lambda>s. s\<lparr>phys := put_bytes (phys s) a bs\<rparr>)) (kret 0)"
| "either_copyout Dst_local bs = kret 0"

fun either_copyin :: "copysrc \<Rightarrow> nat \<Rightarrow> ('a fs_st_scheme, int \<times> u8 list) km" where
  "either_copyin (Src_user a) n =
     kbind curproc (\<lambda>p. kbind (proc_at p) (\<lambda>P. copyin (p_pagetable P) a n))"
| "either_copyin (Src_phys a) n = kbind (kget (\<lambda>s. mem_bytes (phys s) a n)) (\<lambda>bs. kret (0, bs))"
| "either_copyin (Src_local bs) n = kret (0, take n bs)"

record statbuf =
  st_dev :: u32
  st_ino :: u32
  st_type :: u16
  st_nlink :: u16
  st_size :: u64

definition stati :: "nat \<Rightarrow> ('a fs_st_scheme, statbuf) km" where
  "stati ip = kbind (inode_at ip) (\<lambda>I.
     kret \<lparr>st_dev = i_dev I, st_ino = i_inum I, st_type = i_type I, st_nlink = i_nlink I,
       st_size = ucast (i_size I)\<rparr>)"

text \<open>How much of a request of \<open>n\<close> bytes at file offset \<open>off\<close> lies in the block of \<open>off\<close>.\<close>

definition block_chunk :: "nat \<Rightarrow> nat \<Rightarrow> nat" where
  "block_chunk off n = min n (BSIZE - off mod BSIZE)"

lemma block_chunk_pos: "0 < n \<Longrightarrow> 0 < block_chunk off n"
  by (simp add: block_chunk_def)

function readi_loop :: "nat \<Rightarrow> copydst \<Rightarrow> nat \<Rightarrow> nat \<Rightarrow> int \<Rightarrow> ('a fs_st_scheme, int \<times> u8 list) km" where
  "readi_loop ip dst off n tot =
     (if n = 0 then kret (tot, [])
      else
        let m = block_chunk off n in
        kbind (bmap ip (of_nat (off div BSIZE))) (\<lambda>addr.
        if addr = 0 then kret (tot, [])
        else
          kbind (inode_at ip) (\<lambda>I.
          kbind (bread (i_dev I) addr) (\<lambda>bp.
          kbind (bdata bp) (\<lambda>d.
          kbind (either_copyout dst (slice d (off mod BSIZE) m)) (\<lambda>r.
          if r = -1 then kthen (brelse bp) (kret (-1, []))
          else
            kthen (brelse bp)
            (kbind (readi_loop ip (dst_add dst m) (off + m) (n - m) (tot + int m)) (\<lambda>q.
            kret (fst q, slice d (off mod BSIZE) m @ snd q)))))))))"
  by pat_completeness auto
termination readi_loop
  by (relation "measure (\<lambda>(ip, dst, off, n, tot). n)") (auto simp: block_chunk_pos)

declare readi_loop.simps [simp del]

definition readi :: "nat \<Rightarrow> copydst \<Rightarrow> u32 \<Rightarrow> u32 \<Rightarrow> ('a fs_st_scheme, int \<times> u8 list) km" where
  "readi ip dst off n =
     kbind (inode_at ip) (\<lambda>I.
     if off > i_size I \<or> off + n < off then kret (0, [])
     else
       let n' = (if off + n > i_size I then i_size I - off else n) in
       readi_loop ip dst (unat off) (unat n') 0)"

function writei_loop :: "nat \<Rightarrow> copysrc \<Rightarrow> nat \<Rightarrow> nat \<Rightarrow> nat \<Rightarrow> ('a fs_st_scheme, nat \<times> nat) km" where
  "writei_loop ip src off n tot =
     (if n = 0 then kret (tot, off)
      else
        let m = block_chunk off n in
        kbind (bmap ip (of_nat (off div BSIZE))) (\<lambda>addr.
        if addr = 0 then kret (tot, off)
        else
          kbind (inode_at ip) (\<lambda>I.
          kbind (bread (i_dev I) addr) (\<lambda>bp.
          kbind (either_copyin src m) (\<lambda>r.
          kthen (bset bp (\<lambda>d. blit d (off mod BSIZE) (snd r)))
          (if fst r = -1 then kthen (brelse bp) (kret (tot, off))
           else
             kthen (log_write bp)
             (kthen (brelse bp)
             (writei_loop ip (src_add src m) (off + m) (n - m) (tot + m)))))))))"
  by pat_completeness auto
termination writei_loop
  by (relation "measure (\<lambda>(ip, src, off, n, tot). n)") (auto simp: block_chunk_pos)

declare writei_loop.simps [simp del]

definition writei :: "nat \<Rightarrow> copysrc \<Rightarrow> u32 \<Rightarrow> u32 \<Rightarrow> ('a fs_st_scheme, int) km" where
  "writei ip src off n =
     kbind (inode_at ip) (\<lambda>I.
     if off > i_size I \<or> off + n < off then kret (-1)
     else if unat (off + n) > MAXFILE * BSIZE then kret (-1)
     else
       kbind (writei_loop ip src (unat off) (unat n) 0) (\<lambda>r.
       kbind (inode_at ip) (\<lambda>I.
       kthen (kwhen (snd r > unat (i_size I)) (upd_inode ip (\<lambda>I. I\<lparr>i_size := of_nat (snd r)\<rparr>)))
       (kthen (iupdate ip)
       (kret (int (fst r)))))))"

section \<open>Directories\<close>

text \<open>A name is the bytes before its null byte, at most \<^verbatim>\<open>DIRSIZ\<close> of them count.  A directory entry is
  sixteen bytes: the inode number and the name, padded with null bytes.\<close>

definition cstr :: "u8 list \<Rightarrow> cbuf" where
  "cstr bs = (\<lambda>i. if i < length bs then bs ! i else 0)"

definition namecmp :: "u8 list \<Rightarrow> u8 list \<Rightarrow> int" where
  "namecmp s t = strncmp (cstr s) (cstr t) DIRSIZ"

definition de_inum :: "u8 list \<Rightarrow> u16" where
  "de_inum de = get16 (cstr de) 0"

definition de_name :: "u8 list \<Rightarrow> u8 list" where
  "de_name de = take DIRSIZ (drop 2 de)"

definition mk_dirent :: "u16 \<Rightarrow> u8 list \<Rightarrow> u8 list" where
  "mk_dirent inum nm = [ucast inum, ucast (drop_bit 8 inum)] @ map (strncpy (\<lambda>_. 0) (cstr nm) DIRSIZ) [0..<DIRSIZ]"

definition dir_offsets :: "u32 \<Rightarrow> u32 list" where
  "dir_offsets sz = map (\<lambda>k. of_nat (16 * k)) [0..<(unat sz + 15) div 16]"

definition dirlookup :: "nat \<Rightarrow> u8 list \<Rightarrow> ('a fs_st_scheme, (nat \<times> u32) option) km" where
  "dirlookup dp nm =
     kbind (inode_at dp) (\<lambda>D.
     if i_type D \<noteq> T_DIR then kpanic ''dirlookup not DIR''
     else
       kfind (dir_offsets (i_size D)) (\<lambda>off.
         kbind (readi dp Dst_local off 16) (\<lambda>r.
         if fst r \<noteq> 16 then kpanic ''dirlookup read''
         else if de_inum (snd r) = 0 then kret None
         else if namecmp nm (de_name (snd r)) = 0 then
           kbind (iget (i_dev D) (ucast (de_inum (snd r)))) (\<lambda>ip. kret (Some (ip, off)))
         else kret None)))"

definition dirlink :: "nat \<Rightarrow> u8 list \<Rightarrow> u32 \<Rightarrow> ('a fs_st_scheme, int) km" where
  "dirlink dp nm inum =
     kbind (dirlookup dp nm) (\<lambda>r.
     case r of
       Some (ip, off) \<Rightarrow> kthen (iput ip) (kret (-1))
     | None \<Rightarrow>
         kbind (inode_at dp) (\<lambda>D.
         kbind (kfind (dir_offsets (i_size D)) (\<lambda>off.
           kbind (readi dp Dst_local off 16) (\<lambda>r.
           if fst r \<noteq> 16 then kpanic ''dirlink read''
           else kret (if de_inum (snd r) = 0 then Some off else None)))) (\<lambda>free.
         let off = (case free of Some o1 \<Rightarrow> o1 | None \<Rightarrow> of_nat (16 * ((unat (i_size D) + 15) div 16))) in
         kbind (writei dp (Src_local (mk_dirent (ucast inum) nm)) off 16) (\<lambda>w.
         kret (if w \<noteq> 16 then -1 else 0)))))"

section \<open>Paths\<close>

abbreviation (input) slash :: u8 where "slash \<equiv> 47"

definition skipelem :: "u8 list \<Rightarrow> (u8 list \<times> u8 list) option" where
  "skipelem path =
     (let p = dropWhile (\<lambda>c. c = slash) path in
      if p = [] then None
      else
        let elem = takeWhile (\<lambda>c. c \<noteq> slash) p; rest = dropWhile (\<lambda>c. c \<noteq> slash) p in
        Some (take DIRSIZ elem, dropWhile (\<lambda>c. c = slash) rest))"

lemma skipelem_shorter:
  assumes "skipelem path = Some (nm, rest)"
  shows "length rest < length path"
proof -
  define p where "p = dropWhile (\<lambda>c. c = slash) path"
  have p: "p \<noteq> []" "rest = dropWhile (\<lambda>c. c = slash) (dropWhile (\<lambda>c. c \<noteq> slash) p)"
    using assms by (auto simp: skipelem_def Let_def p_def split: if_splits)
  have "hd p \<noteq> slash" using p(1) hd_dropWhile [of "\<lambda>c. c = slash" path] by (simp add: p_def)
  then have "dropWhile (\<lambda>c. c \<noteq> slash) p = dropWhile (\<lambda>c. c \<noteq> slash) (tl p)" using p(1) by (cases p) auto
  then have "length rest \<le> length (tl p)"
    using p(2) by (metis length_dropWhile_le order_trans)
  also have "\<dots> < length p" using p(1) by simp
  also have "\<dots> \<le> length path" by (simp add: p_def length_dropWhile_le)
  finally show ?thesis .
qed

text \<open>The loop of \<^verbatim>\<open>namex\<close>.  The result carries the last name, which \<^verbatim>\<open>nameiparent\<close> hands out.\<close>

function namex_loop :: "nat \<Rightarrow> u8 list \<Rightarrow> bool \<Rightarrow> ('a fs_st_scheme, (nat \<times> u8 list) option) km" where
  "namex_loop ip path parent =
     (case skipelem path of
        None \<Rightarrow> if parent then kthen (iput ip) (kret None) else kret (Some (ip, []))
      | Some (nm, rest) \<Rightarrow>
          kthen (ilock ip)
          (kbind (inode_at ip) (\<lambda>I.
          if i_type I \<noteq> T_DIR then kthen (iunlockput ip) (kret None)
          else if parent \<and> rest = [] then kthen (iunlock ip) (kret (Some (ip, nm)))
          else
            kbind (dirlookup ip nm) (\<lambda>r.
            case r of
              None \<Rightarrow> kthen (iunlockput ip) (kret None)
            | Some (nxt, off) \<Rightarrow> kthen (iunlockput ip) (namex_loop nxt rest parent)))))"
  by pat_completeness auto
termination namex_loop
  by (relation "measure (\<lambda>(ip, path, parent). length path)") (auto dest: skipelem_shorter)

declare namex_loop.simps [simp del]

definition namex :: "u8 list \<Rightarrow> bool \<Rightarrow> ('a fs_st_scheme, (nat \<times> u8 list) option) km" where
  "namex path parent =
     kbind (if path \<noteq> [] \<and> hd path = slash then iget 1 ROOTINO
            else
              kbind curproc (\<lambda>p.
              kbind (proc_at p) (\<lambda>P.
              case p_cwd P of None \<Rightarrow> kpanic ''kerneltrap'' | Some c \<Rightarrow> idup c))) (\<lambda>ip.
     namex_loop ip path parent)"

definition namei :: "u8 list \<Rightarrow> ('a fs_st_scheme, nat option) km" where
  "namei path = kbind (namex path False) (\<lambda>r. kret (map_option fst r))"

definition nameiparent :: "u8 list \<Rightarrow> ('a fs_st_scheme, (nat \<times> u8 list) option) km" where
  "nameiparent path = namex path True"

section \<open>Names and directory entries\<close>

lemma cadv_cstr: "cadv (cstr bs) = cstr (tl bs)"
  by (cases bs) (auto simp: cadv_def cstr_def fun_eq_iff)

lemma cstr_0: "0 \<notin> set bs \<Longrightarrow> cstr bs 0 = 0 \<longleftrightarrow> bs = []"
  by (cases bs) (auto simp: cstr_def)

lemma set_tl: "x \<notin> set bs \<Longrightarrow> x \<notin> set (tl bs)"
  by (cases bs) auto

lemma strncmp_cstr:
  assumes "0 \<notin> set s" "0 \<notin> set t"
  shows "strncmp (cstr s) (cstr t) n = 0 \<longleftrightarrow> take n s = take n t"
  using assms
proof (induction n arbitrary: s t)
  case (Suc n)
  show ?case
  proof (cases "s = [] \<or> t = []")
    case True
    then show ?thesis using Suc.prems cstr_0 [of s] cstr_0 [of t]
      by (auto simp: unsigned_eq_0_iff cstr_def)
  next
    case False
    then obtain a s' b t' where "s = a # s'" "t = b # t'" by (auto simp: neq_Nil_conv)
    then show ?thesis using Suc.prems Suc.IH [of s' t']
      by (auto simp: cadv_cstr) (auto simp: cstr_def unsigned_word_eqI)
  qed
qed simp

text \<open>names are equal for \<^verbatim>\<open>namecmp\<close> exactly when their first \<^verbatim>\<open>DIRSIZ\<close> bytes are: longer names
  are silently truncated, and nothing shorter is ever confused.\<close>

lemma namecmp_spec:
  assumes "0 \<notin> set s" "0 \<notin> set t"
  shows "namecmp s t = 0 \<longleftrightarrow> take DIRSIZ s = take DIRSIZ t"
  unfolding namecmp_def by (rule strncmp_cstr [OF assms])

lemma strncpy_pad_zero: "strncpy_pad s i n = (\<lambda>k. if i \<le> k \<and> k < i + n then 0 else s k)"
  by (induction n arbitrary: s i) (auto simp: fun_eq_iff)

lemma strncpy_from_cstr:
  "0 \<notin> set nm \<Longrightarrow> strncpy_from s (cstr nm) i n = (\<lambda>k. if i \<le> k \<and> k < i + n then cstr nm k else s k)"
proof (induction n arbitrary: s i)
  case (Suc n)
  have z: "cstr nm i = 0 \<longleftrightarrow> length nm \<le> i" using Suc.prems by (auto simp: cstr_def in_set_conv_nth)
  show ?case
  proof (cases "cstr nm i = 0")
    case True
    then have "\<And>k. i \<le> k \<Longrightarrow> cstr nm k = 0" using z by (simp add: cstr_def)
    then show ?thesis using True by (auto simp: strncpy_pad_zero fun_eq_iff)
  next
    case False
    then show ?thesis using Suc by (auto simp: fun_eq_iff)
  qed
qed (auto simp: fun_eq_iff)

lemma mk_dirent_name:
  assumes "0 \<notin> set nm"
  shows "cstr (de_name (mk_dirent i nm)) = cstr (take DIRSIZ nm)"
proof -
  have "de_name (mk_dirent i nm) = map (cstr nm) [0..<DIRSIZ]"
    by (simp add: de_name_def mk_dirent_def strncpy_def strncpy_from_cstr [OF assms])
  then show ?thesis by (auto simp: cstr_def fun_eq_iff)
qed

lemma word16_bytes: "ucast (ucast v :: u8) OR push_bit 8 (ucast (ucast (drop_bit 8 v) :: u8)) = (v :: u16)"
  by (rule bit_word_eqI) (auto simp: bit_simps)

lemma get16_cstr: "get16 (cstr (a # b # bs)) 0 = ucast a OR push_bit 8 (ucast b)"
  by (simp add: get16_def cstr_def)

text \<open>C29: the directory entry \<^verbatim>\<open>dirlink\<close> writes is found again by the comparison of \<^verbatim>\<open>dirlookup\<close> under
  the same name and no other, as far as the first \<^verbatim>\<open>DIRSIZ\<close> bytes go, with the same inode number.\<close>

theorem dirent_roundtrip:
  assumes "0 \<notin> set nm" "0 \<notin> set nm'"
  shows "length (mk_dirent i nm) = 16 \<and> de_inum (mk_dirent i nm) = i \<and>
    (namecmp nm' (de_name (mk_dirent i nm)) = 0 \<longleftrightarrow> take DIRSIZ nm' = take DIRSIZ nm)"
proof -
  have "de_inum (mk_dirent i nm) = i"
    by (simp add: de_inum_def mk_dirent_def get16_cstr word16_bytes)
  moreover have "namecmp nm' (de_name (mk_dirent i nm)) = 0 \<longleftrightarrow> take DIRSIZ nm' = take DIRSIZ nm"
    unfolding namecmp_def mk_dirent_name [OF assms(1)]
    using strncmp_cstr [of nm' "take DIRSIZ nm" DIRSIZ] assms by (auto dest: in_set_takeD)
  ultimately show ?thesis by (simp add: mk_dirent_def)
qed

theorem dirent_roundtrip_witness:
  "(0 :: u8) \<notin> set [46] \<and> de_inum (mk_dirent 5 [46]) = 5 \<and> namecmp [46] (de_name (mk_dirent 5 [46])) = 0"
  using dirent_roundtrip [of "[46]" "[46]" 5] by simp

section \<open>Inodes on disk\<close>

lemma get16_put16: "get16 (put16 b off v) off = v"
  by (simp add: get16_def put16_def word16_bytes)

lemma get16_put16_other: "off + 2 \<le> o2 \<or> o2 + 2 \<le> off \<Longrightarrow> get16 (put16 b off v) o2 = get16 b o2"
  by (auto simp: get16_def put16_def)

lemma get16_put32_other: "off + 4 \<le> o2 \<or> o2 + 2 \<le> off \<Longrightarrow> get16 (put32 b off v) o2 = get16 b o2"
  by (auto simp: get16_def put32_def)

lemma get32_put32: "get32 (put32 b off v) off = v"
proof -
  have "ucast (ucast v :: u8) OR push_bit 8 (ucast (ucast (drop_bit 8 v) :: u8)) OR
    push_bit 16 (ucast (ucast (drop_bit 16 v) :: u8)) OR push_bit 24 (ucast (ucast (drop_bit 24 v) :: u8)) = v" (is "?w = v")
  proof (rule bit_word_eqI)
    fix n
    assume "n < LENGTH(32)"
    then consider "n < 8" | "8 \<le> n" "n < 16" | "16 \<le> n" "n < 24" | "24 \<le> n" "n < 32"
      by (cases "n < 8"; cases "n < 16"; cases "n < 24") simp_all
    then show "bit ?w n \<longleftrightarrow> bit v n" by cases (auto simp: bit_simps)
  qed
  then show ?thesis by (simp add: get32_def put32_def)
qed

lemma get32_put32_other: "off + 4 \<le> o2 \<or> o2 + 4 \<le> off \<Longrightarrow> get32 (put32 b off v) o2 = get32 b o2"
  by (auto simp: get32_def put32_def)

lemma get32_put16_other: "off + 2 \<le> o2 \<or> o2 + 4 \<le> off \<Longrightarrow> get32 (put16 b off v) o2 = get32 b o2"
  by (auto simp: get32_def put16_def)

lemma put32s_get32:
  "get32 (fold (\<lambda>k d. put32 d (base + 4 * k) (f k)) [0..<n] d) (base + 4 * j) =
    (if j < n then f j else get32 d (base + 4 * j))"
proof (induction n)
  case (Suc n)
  show ?case
  proof (cases "j = n")
    case False
    then have "base + 4 * n + 4 \<le> base + 4 * j \<or> base + 4 * j + 4 \<le> base + 4 * n" by linarith
    then show ?thesis using Suc False by (simp add: get32_put32_other)
  qed (simp add: get32_put32)
qed simp

lemma put32s_other:
  "x < base \<or> base + 4 * n \<le> x \<Longrightarrow> fold (\<lambda>k d. put32 d (base + 4 * k) (f k)) [0..<n] d x = d x"
  by (induction n) (auto simp: put32_def)

lemma put32_other: "x < off \<or> off + 4 \<le> x \<Longrightarrow> put32 b off v x = b x"
  by (auto simp: put32_def)

lemma put16_other: "x < off \<or> off + 2 \<le> x \<Longrightarrow> put16 b off v x = b x"
  by (auto simp: put16_def)

lemma put32s_get16:
  "o2 + 2 \<le> base \<Longrightarrow> get16 (fold (\<lambda>k d. put32 d (base + 4 * k) (f k)) [0..<n] d) o2 = get16 d o2"
  by (simp add: get16_def put32s_other)

lemma put32s_get32_before:
  "o2 + 4 \<le> base \<Longrightarrow> get32 (fold (\<lambda>k d. put32 d (base + 4 * k) (f k)) [0..<n] d) o2 = get32 d o2"
  by (simp add: get32_def put32s_other)

lemma dinode_store_outside: "x < off \<or> off + 64 \<le> x \<Longrightarrow> dinode_store I off d x = d x"
  unfolding dinode_store_def by (subst put32s_other) (auto simp: put32_other put16_other)

lemma dinode_load_other:
  assumes "dino_off i \<noteq> dino_off j"
  shows "dinode_load (dinode_store I (dino_off i) d) (dino_off j) K = dinode_load d (dino_off j) K"
proof -
  let ?a = "unat j mod IPB" and ?b = "unat i mod IPB"
  have "?a < ?b \<or> ?b < ?a" using assms by (auto simp: dino_off_def)
  then have "y < dino_off i \<or> dino_off i + 64 \<le> y" if "dino_off j \<le> y" "y < dino_off j + 64" for y
    using that unfolding dino_off_def by linarith
  then have e: "dinode_store I (dino_off i) d y = d y" if "dino_off j \<le> y" "y < dino_off j + 64" for y
    using dinode_store_outside that by blast
  then have "get32 (dinode_store I (dino_off i) d) y = get32 d y" if "dino_off j \<le> y" "y + 4 \<le> dino_off j + 64" for y
    using that by (simp add: get32_def)
  moreover have "get16 (dinode_store I (dino_off i) d) y = get16 d y" if "dino_off j \<le> y" "y + 2 \<le> dino_off j + 64" for y
    using that e by (simp add: get16_def)
  ultimately show ?thesis unfolding dinode_load_def by (auto intro!: inode.equality)
qed

text \<open>The fields of an inode that are on disk.\<close>

definition disk_part :: "inode \<Rightarrow> u16 \<times> u16 \<times> u16 \<times> u16 \<times> u32 \<times> u32 list" where
  "disk_part I = (i_type I, i_major I, i_minor I, i_nlink I, i_size I, map (i_addrs I) [0..<NDIRECT + 1])"

text \<open>C28: an inode written to its slot by \<^verbatim>\<open>iupdate\<close> is read back by \<^verbatim>\<open>ilock\<close> with every field the
  same, and the other inodes of the block keep their bytes.\<close>

theorem dinode_roundtrip:
  "disk_part (dinode_load (dinode_store I (dino_off i) d) (dino_off i) J) = disk_part I \<and>
   (\<forall>j x. dino_off j \<noteq> dino_off i \<longrightarrow> dino_off j \<le> x \<longrightarrow> x < dino_off j + 64 \<longrightarrow>
      dinode_store I (dino_off i) d x = d x)"
proof
  let ?o = "dino_off i"
  show "disk_part (dinode_load (dinode_store I ?o d) ?o J) = disk_part I"
    by (simp add: disk_part_def dinode_load_def dinode_store_def put32s_get16 put32s_get32_before put32s_get32
        get16_put32_other get16_put16_other get16_put16 get32_put32 del: fold_simps upt_Suc)
  have "dinode_store I ?o d x = d x" if "x < ?o \<or> ?o + 64 \<le> x" for x
    using that by (rule dinode_store_outside)
  moreover have "x < ?o \<or> ?o + 64 \<le> x"
    if "dino_off j \<noteq> ?o" "dino_off j \<le> x" "x < dino_off j + 64" for j x
  proof -
    let ?a = "unat j mod IPB" and ?b = "unat i mod IPB"
    have "?a < ?b \<or> ?b < ?a" using that(1) by (auto simp: dino_off_def)
    then show ?thesis using that(2, 3) unfolding dino_off_def by linarith
  qed
  ultimately show "\<forall>j x. dino_off j \<noteq> ?o \<longrightarrow> dino_off j \<le> x \<longrightarrow> x < dino_off j + 64 \<longrightarrow>
      dinode_store I ?o d x = d x" by blast
qed

theorem dinode_roundtrip_witness:
  "dinode_store \<lparr>i_dev = 1, i_inum = 1, i_ref = 1, i_valid = True, i_type = 1, i_major = 0, i_minor = 0,
    i_nlink = 1, i_size = 0, i_addrs = \<lambda>_. 9\<rparr> (dino_off 1) (\<lambda>_. 7) 0 = 7"
  by (rule dinode_roundtrip [THEN conjunct2, rule_format, where j = 0]) (simp_all add: dino_off_def)

section \<open>Path elements\<close>

text \<open>The names \<^verbatim>\<open>namex\<close> looks up one after the other, and the same thing without pointers: the
  non-empty parts between slashes.\<close>

function path_names :: "u8 list \<Rightarrow> u8 list list" where
  "path_names path = (case skipelem path of None \<Rightarrow> [] | Some (nm, rest) \<Rightarrow> nm # path_names rest)"
  by pat_completeness auto
termination path_names
  by (relation "measure length") (auto dest: skipelem_shorter)

declare path_names.simps [simp del]

fun split_slash :: "u8 list \<Rightarrow> u8 list list" where
  "split_slash [] = [[]]"
| "split_slash (c # cs) =
     (if c = slash then [] # split_slash cs
      else case split_slash cs of [] \<Rightarrow> [[c]] | e # es \<Rightarrow> (c # e) # es)"

definition nonempty :: "u8 list list \<Rightarrow> u8 list list" where
  "nonempty es = filter (\<lambda>e. e \<noteq> []) es"

lemma split_slash_not_Nil [simp]: "split_slash p \<noteq> []"
  by (induction p) (auto split: list.split)

lemma split_slash_skip: "nonempty (split_slash (dropWhile (\<lambda>c. c = slash) p)) = nonempty (split_slash p)"
  by (induction p) (auto simp: nonempty_def)

lemma split_slash_elem:
  "slash \<notin> set e \<Longrightarrow> split_slash (e @ r) = (e @ hd (split_slash r)) # tl (split_slash r)"
  by (induction e) (auto split: list.split)

lemma split_slash_first:
  assumes "p \<noteq> []" "hd p \<noteq> slash"
  shows "nonempty (split_slash p) =
    takeWhile (\<lambda>c. c \<noteq> slash) p # nonempty (split_slash (dropWhile (\<lambda>c. c \<noteq> slash) p))"
proof -
  define e r where "e = takeWhile (\<lambda>c. c \<noteq> slash) p" and "r = dropWhile (\<lambda>c. c \<noteq> slash) p"
  have p: "p = e @ r" by (simp add: e_def r_def)
  have e: "e \<noteq> []" using assms by (cases p) (auto simp: e_def)
  have ne: "slash \<notin> set e" unfolding e_def using set_takeWhileD by fastforce
  have r: "hd (split_slash r) = []"
  proof (cases r)
    case (Cons c cs)
    then have "c = slash" using hd_dropWhile [of "\<lambda>c. c \<noteq> slash" p] by (simp add: r_def)
    then show ?thesis using Cons by simp
  qed simp
  then have "nonempty (split_slash r) = nonempty (tl (split_slash r))"
    by (cases "split_slash r") (auto simp: nonempty_def)
  moreover have "nonempty (split_slash (e @ r)) = e # nonempty (tl (split_slash r))"
    using e ne r by (simp add: split_slash_elem nonempty_def)
  ultimately show ?thesis unfolding e_def [symmetric] r_def [symmetric] using p by simp
qed

lemma skipelem_split:
  "(case skipelem path of None \<Rightarrow> nonempty (split_slash path) = []
    | Some (nm, rest) \<Rightarrow> \<exists>e. nonempty (split_slash path) = e # nonempty (split_slash rest) \<and> nm = take DIRSIZ e)"
proof -
  define p where "p = dropWhile (\<lambda>c. c = slash) path"
  have s: "nonempty (split_slash path) = nonempty (split_slash p)" by (simp add: p_def split_slash_skip)
  show ?thesis
  proof (cases "p = []")
    case True
    then have "nonempty (split_slash path) = []" using s by (simp add: nonempty_def)
    moreover have "skipelem path = None" using True by (simp add: skipelem_def p_def [symmetric])
    ultimately show ?thesis by simp
  next
    case False
    then have "hd p \<noteq> slash" using hd_dropWhile [of "\<lambda>c. c = slash" path] by (simp add: p_def)
    from split_slash_first [OF False this] show ?thesis
      using s False by (simp add: skipelem_def p_def [symmetric] Let_def split_slash_skip)
  qed
qed

text \<open>C27: repeated \<^verbatim>\<open>skipelem\<close> yields exactly the non-empty parts of the path between slashes, each
  cut to \<^verbatim>\<open>DIRSIZ\<close> bytes; leading, trailing and doubled slashes make no difference, and the walk ends.\<close>

theorem skipelem_splits_path:
  "path_names path = map (take DIRSIZ) (nonempty (split_slash path))"
proof (induction path rule: path_names.induct)
  case (1 path)
  show ?case
  proof (cases "skipelem path")
    case None
    then show ?thesis using skipelem_split [of path] by (simp add: path_names.simps)
  next
    case (Some q)
    obtain nm rest where q: "q = (nm, rest)" by force
    then have "path_names rest = map (take DIRSIZ) (nonempty (split_slash rest))" using 1 Some by simp
    then show ?thesis using skipelem_split [of path] Some q by (auto simp: path_names.simps [of path])
  qed
qed

end
