(* ===== verification/Console.thy ===== *)
theory Console
  imports Fs
begin

unbundle bit_operations_syntax

text \<open>
  \<^verbatim>\<open>kernel/uart.c\<close> and \<^verbatim>\<open>kernel/console.c\<close>: the serial port and the line discipline on top of it.
  The device is three fields of the state: the bytes waiting in the receiver, whether the
  transmitter is idle, and the bytes sent so far (newest first).
\<close>

record cons_st = fs_st +
  cons_buf :: "nat \<Rightarrow> u8"
  cons_r :: u32
  cons_w :: u32
  cons_e :: u32
  tx_busy :: bool
  uart_out :: "u8 list"
  uart_rx :: "u8 list"
  uart_idle :: bool

definition blank_cons :: "(nat \<Rightarrow> proc) \<Rightarrow> 'a \<Rightarrow> 'a cons_st_scheme" where
  [blank]: "blank_cons ps x = blank_fs ps (cons_st_ext (\<lambda>_. 0) 0 0 0 False [] [] True x)"

abbreviation (input) INPUT_BUF_SIZE :: nat where "INPUT_BUF_SIZE \<equiv> 128"

section \<open>The serial port\<close>

definition uart_send :: "u8 \<Rightarrow> ('a cons_st_scheme, unit) km" where
  "uart_send c = kmod (\<lambda>s. s\<lparr>uart_out := c # uart_out s\<rparr>)"

primrec uartwrite_loop :: "u8 list \<Rightarrow> ('a cons_st_scheme, unit) km" where
  "uartwrite_loop [] = release Ltx"
| "uartwrite_loop (c # cs) =
     kbind (kget tx_busy) (\<lambda>busy.
     if busy then sleep Chan_tx Ltx
     else
       kthen (uart_send c)
       (kthen (kmod (\<lambda>s. s\<lparr>tx_busy := True\<rparr>))
       (uartwrite_loop cs)))"

definition uartwrite :: "u8 list \<Rightarrow> ('a cons_st_scheme, unit) km" where
  "uartwrite cs = kthen (acquire Ltx) (uartwrite_loop cs)"

definition uartwrite_resume :: "u8 list \<Rightarrow> ('a cons_st_scheme, unit) km" where
  "uartwrite_resume cs = kthen (sleep_resume Ltx) (uartwrite_loop cs)"

text \<open>The store to the transmit register.  What comes before it in \<^verbatim>\<open>uartputc_sync\<close> is not seen in this state:
  \<^verbatim>\<open>push_off\<close>, the endless loop of a system that has panicked, and the wait for the transmitter.\<close>

definition uartputc_sync :: "u8 \<Rightarrow> ('a cons_st_scheme, unit) km" where
  "uartputc_sync c = uart_send c"

definition uartgetc :: "('a cons_st_scheme, u8 option) km" where
  "uartgetc =
     kbind (kget uart_rx) (\<lambda>rx.
     case rx of
       [] \<Rightarrow> kret None
     | c # cs \<Rightarrow> kthen (kmod (\<lambda>s. s\<lparr>uart_rx := cs\<rparr>)) (kret (Some c)))"

section \<open>The console\<close>

definition consputc :: "u8 \<Rightarrow> ('a cons_st_scheme, unit) km" where
  "consputc c = uartputc_sync c"

text \<open>\<^verbatim>\<open>consputc(BACKSPACE)\<close>.\<close>

definition consputc_backspace :: "('a cons_st_scheme, unit) km" where
  "consputc_backspace = kthen (uartputc_sync 8) (kthen (uartputc_sync 32) (uartputc_sync 8))"

function consolewrite_loop :: "copysrc \<Rightarrow> nat \<Rightarrow> int \<Rightarrow> ('a cons_st_scheme, int) km" where
  "consolewrite_loop src n i =
     (if n = 0 then kret i
      else
        let nn = min 32 n in
        kbind (either_copyin src nn) (\<lambda>r.
        if fst r = -1 then kret i
        else
          kthen (uartwrite (snd r))
          (consolewrite_loop (src_add src nn) (n - nn) (i + int nn))))"
  by pat_completeness auto
termination consolewrite_loop
  by (relation "measure (\<lambda>(src, n, i). n)") auto

declare consolewrite_loop.simps [simp del]

definition consolewrite :: "copysrc \<Rightarrow> int \<Rightarrow> ('a cons_st_scheme, int) km" where
  "consolewrite src n = consolewrite_loop src (nat n) 0"

text \<open>\<^verbatim>\<open>c = cons.buf[cons.r++ % INPUT_BUF_SIZE]\<close> and \<^verbatim>\<open>cons.buf[cons.e++ % INPUT_BUF_SIZE] = c\<close>.\<close>

definition cons_take :: "'a cons_st_scheme \<Rightarrow> 'a cons_st_scheme" where
  "cons_take s = s\<lparr>cons_r := cons_r s + 1\<rparr>"

definition cons_put :: "u8 \<Rightarrow> 'a cons_st_scheme \<Rightarrow> 'a cons_st_scheme" where
  "cons_put c s = s\<lparr>cons_buf := (cons_buf s)(unat (cons_e s) mod INPUT_BUF_SIZE := c), cons_e := cons_e s + 1\<rparr>"

text \<open>The loop of \<^verbatim>\<open>consoleread\<close> with \<open>n\<close> of \<open>target\<close> bytes still wanted; it waits while no line is ready.\<close>

primrec consoleread_loop :: "copydst \<Rightarrow> nat \<Rightarrow> nat \<Rightarrow> ('a cons_st_scheme, int) km" where
  "consoleread_loop dst target 0 = kthen (release Lcons) (kret (int target))"
| "consoleread_loop dst target (Suc n) =
     kbind (kget (\<lambda>s. (cons_r s, cons_w s))) (\<lambda>rw.
     if fst rw = snd rw then
       kbind curproc (\<lambda>p.
       kbind (killed p) (\<lambda>k.
       if k \<noteq> 0 then kthen (release Lcons) (kret (-1))
       else sleep Chan_cons Lcons))
     else
       kbind (kget (\<lambda>s. cons_buf s (unat (cons_r s) mod INPUT_BUF_SIZE))) (\<lambda>c.
       kthen (kmod cons_take)
       (if c = 4 then
          kthen (kwhen (Suc n < target) (kmod (\<lambda>s. s\<lparr>cons_r := cons_r s - 1\<rparr>)))
          (kthen (release Lcons) (kret (int target - int (Suc n))))
        else
          kbind (either_copyout dst [c]) (\<lambda>r.
          if r = -1 then kthen (release Lcons) (kret (int target - int (Suc n)))
          else if c = 10 then kthen (release Lcons) (kret (int target - int n))
          else consoleread_loop (dst_add dst 1) target n))))"

definition consoleread :: "copydst \<Rightarrow> int \<Rightarrow> ('a cons_st_scheme, int) km" where
  "consoleread dst n = kthen (acquire Lcons) (consoleread_loop dst (nat n) (nat n))"

definition consoleread_resume :: "copydst \<Rightarrow> nat \<Rightarrow> nat \<Rightarrow> ('a cons_st_scheme, int) km" where
  "consoleread_resume dst target n = kthen (sleep_resume Lcons) (consoleread_loop dst target n)"

text \<open>The process listing of \<^verbatim>\<open>kernel/proc.c\<close>.\<close>

primrec state_name :: "procstate \<Rightarrow> string" where
  "state_name UNUSED = ''unused''"
| "state_name USED = ''used''"
| "state_name SLEEPING = ''sleep ''"
| "state_name RUNNABLE = ''runble''"
| "state_name RUNNING = ''run   ''"
| "state_name ZOMBIE = ''zombie''"

definition name_string :: "cbuf \<Rightarrow> string" where
  "name_string nm = map (\<lambda>c. char_of (unat c)) (takeWhile (\<lambda>c. c \<noteq> 0) (map nm [0..<16]))"

definition procdump :: "('a cons_st_scheme, unit) km" where
  "procdump =
     kthen (kprintf ''\<newline>'' [])
     (kfor allprocs (\<lambda>i.
       kbind (proc_at i) (\<lambda>P.
       if p_state P = UNUSED then kret ()
       else
         kthen (kprintf ''%d %s %s'' [Vint (word_of_int (p_pid P)), Vstr (Some (state_name (p_state P))),
                  Vstr (Some (name_string (p_name P)))])
         (kprintf ''\<newline>'' []))))"

text \<open>Where the edit index is after control-U.\<close>

function kill_line :: "(nat \<Rightarrow> u8) \<Rightarrow> u32 \<Rightarrow> u32 \<Rightarrow> u32" where
  "kill_line bf w e =
     (if e \<noteq> w \<and> bf (unat (e - 1) mod INPUT_BUF_SIZE) \<noteq> 10 then kill_line bf w (e - 1) else e)"
  by pat_completeness auto
termination kill_line
proof (relation "measure (\<lambda>(bf, w, e). unat (e - w))")
  fix bf :: "nat \<Rightarrow> u8" and w e :: u32
  assume "e \<noteq> w \<and> bf (unat (e - 1) mod INPUT_BUF_SIZE) \<noteq> 10"
  then have "e - w \<noteq> 0" by simp
  then have "unat (e - w - 1) < unat (e - w)" by (simp add: measure_unat)
  then show "((bf, w, e - 1), bf, w, e) \<in> measure (\<lambda>(bf, w, e). unat (e - w))"
    by (simp add: algebra_simps)
qed simp

declare kill_line.simps [simp del]

definition consoleintr :: "u8 \<Rightarrow> ('a cons_st_scheme, unit) km" where
  "consoleintr c0 =
     kthen (acquire Lcons)
     (kthen
       (if c0 = 16 then procdump
        else if c0 = 21 then
          kbind (kget (\<lambda>s. kill_line (cons_buf s) (cons_w s) (cons_e s))) (\<lambda>e'.
          kbind (kget cons_e) (\<lambda>e.
          kthen (kmod (\<lambda>s. s\<lparr>cons_e := e'\<rparr>))
          (kfor [0..<unat (e - e')] (\<lambda>_. consputc_backspace))))
        else if c0 = 8 \<or> c0 = 127 then
          kbind (kget (\<lambda>s. cons_e s \<noteq> cons_w s)) (\<lambda>b.
          kwhen b (kthen (kmod (\<lambda>s. s\<lparr>cons_e := cons_e s - 1\<rparr>)) consputc_backspace))
        else
          kbind (kget (\<lambda>s. cons_e s - cons_r s < 128)) (\<lambda>room.
          kwhen (c0 \<noteq> 0 \<and> room)
            (let c = (if c0 = 13 then 10 else c0) in
             kthen (consputc c)
             (kthen (kmod (cons_put c))
             (kbind (kget (\<lambda>s. cons_e s - cons_r s = 128)) (\<lambda>full.
             kwhen (c = 10 \<or> c = 4 \<or> full)
               (kthen (kmod (\<lambda>s. s\<lparr>cons_w := cons_e s\<rparr>))
               (wakeup (Some Chan_cons)))))))))
     (release Lcons))"

text \<open>The receive loop of \<^verbatim>\<open>uartintr\<close> takes the bytes that are waiting.\<close>

definition uartintr :: "('a cons_st_scheme, unit) km" where
  "uartintr =
     kthen (acquire Ltx)
     (kbind (kget uart_idle) (\<lambda>idle.
     kthen (kwhen idle (kthen (kmod (\<lambda>s. s\<lparr>tx_busy := False\<rparr>)) (wakeup (Some Chan_tx))))
     (kthen (release Ltx)
     (kbind (kget uart_rx) (\<lambda>rx.
     kfor rx (\<lambda>_. kbind uartgetc (\<lambda>c. case c of None \<Rightarrow> kret () | Some c \<Rightarrow> consoleintr c)))))))"

end
