(* ===== verification/File.thy ===== *)
theory File
  imports Console
begin

unbundle bit_operations_syntax

text \<open>
  \<^verbatim>\<open>kernel/pipe.c\<close> and \<^verbatim>\<open>kernel/file.c\<close>: pipes and open files.  A pipe is known by the address of the
  page that holds it; an open file is an index into \<^verbatim>\<open>ftable.file\<close>.  The console is the only device
  \<^verbatim>\<open>devsw\<close> has.
\<close>

datatype ftype = FD_NONE | FD_PIPE | FD_INODE | FD_DEVICE

record ofile =
  f_type :: ftype
  f_ref :: int
  f_readable :: bool
  f_writable :: bool
  f_pipe :: u64
  f_ip :: nat
  f_off :: u32
  f_major :: u16

record pipe =
  pi_data :: "nat \<Rightarrow> u8"
  pi_nread :: u32
  pi_nwrite :: u32
  pi_readopen :: bool
  pi_writeopen :: bool

record file_st = cons_st +
  files :: "nat \<Rightarrow> ofile"
  pipes :: "u64 \<Rightarrow> pipe"
  stat_pad :: "u8 list"     \<comment> \<open>the four bytes of padding of a \<^verbatim>\<open>struct stat\<close> on the kernel stack\<close>

definition blank_file :: ofile where
  [blank]: "blank_file = \<lparr>f_type = FD_NONE, f_ref = 0, f_readable = False, f_writable = False, f_pipe = 0, f_ip = 0,
     f_off = 0, f_major = 0\<rparr>"

definition blank_pipe :: pipe where
  [blank]: "blank_pipe = \<lparr>pi_data = \<lambda>_. 0, pi_nread = 0, pi_nwrite = 0, pi_readopen = True, pi_writeopen = True\<rparr>"

definition blank_files :: "(nat \<Rightarrow> proc) \<Rightarrow> 'a \<Rightarrow> 'a file_st_scheme" where
  [blank]: "blank_files ps x = blank_cons ps (file_st_ext (\<lambda>_. blank_file) (\<lambda>_. blank_pipe) [0, 0, 0, 0] x)"

abbreviation (input) PIPESIZE :: nat where "PIPESIZE \<equiv> 512"

definition file_at :: "nat \<Rightarrow> ('a file_st_scheme, ofile) km" where
  "file_at f = kget (\<lambda>s. files s f)"

definition upd_file :: "nat \<Rightarrow> (ofile \<Rightarrow> ofile) \<Rightarrow> ('a file_st_scheme, unit) km" where
  "upd_file f g = kmod (\<lambda>s. s\<lparr>files := (files s)(f := g (files s f))\<rparr>)"

definition pipe_at :: "u64 \<Rightarrow> ('a file_st_scheme, pipe) km" where
  "pipe_at p = kget (\<lambda>s. pipes s p)"

definition upd_pipe :: "u64 \<Rightarrow> (pipe \<Rightarrow> pipe) \<Rightarrow> ('a file_st_scheme, unit) km" where
  "upd_pipe p g = kmod (\<lambda>s. s\<lparr>pipes := (pipes s)(p := g (pipes s p))\<rparr>)"

lemma file_evals [kmonad]:
  "file_at f s = Ret (files s f) s"
  "upd_file f g s = Ret () (s\<lparr>files := (files s)(f := g (files s f))\<rparr>)"
  "pipe_at p s = Ret (pipes s p) s"
  "upd_pipe p h s = Ret () (s\<lparr>pipes := (pipes s)(p := h (pipes s p))\<rparr>)"
  by (simp_all add: file_at_def upd_file_def pipe_at_def upd_pipe_def kmonad)

section \<open>Pipes\<close>

definition pipeclose :: "u64 \<Rightarrow> bool \<Rightarrow> ('a file_st_scheme, unit) km" where
  "pipeclose p wr =
     kthen (acquire (Lpipe p))
     (kthen (if wr then kthen (upd_pipe p (\<lambda>P. P\<lparr>pi_writeopen := False\<rparr>)) (wakeup (Some (Chan_nread p)))
             else kthen (upd_pipe p (\<lambda>P. P\<lparr>pi_readopen := False\<rparr>)) (wakeup (Some (Chan_nwrite p))))
     (kbind (pipe_at p) (\<lambda>P.
     if \<not> pi_readopen P \<and> \<not> pi_writeopen P then kthen (release (Lpipe p)) (kfree p)
     else release (Lpipe p))))"

definition pipe_put :: "u8 \<Rightarrow> pipe \<Rightarrow> pipe" where
  "pipe_put ch P = P\<lparr>pi_data := (pi_data P)(unat (pi_nwrite P) mod PIPESIZE := ch), pi_nwrite := pi_nwrite P + 1\<rparr>"

definition pipe_peek :: "pipe \<Rightarrow> u8" where
  "pipe_peek P = pi_data P (unat (pi_nread P) mod PIPESIZE)"

definition pipe_take :: "pipe \<Rightarrow> pipe" where
  "pipe_take P = P\<lparr>pi_nread := pi_nread P + 1\<rparr>"

definition pipe_full :: "pipe \<Rightarrow> bool" where
  "pipe_full P \<longleftrightarrow> pi_nwrite P = pi_nread P + 512"

definition pipe_empty :: "pipe \<Rightarrow> bool" where
  "pipe_empty P \<longleftrightarrow> pi_nread P = pi_nwrite P"

text \<open>The loop of \<^verbatim>\<open>pipewrite\<close>, \<open>i\<close> bytes done and \<open>n\<close> to go.\<close>

primrec pipewrite_loop :: "u64 \<Rightarrow> nat \<Rightarrow> u64 \<Rightarrow> nat \<Rightarrow> nat \<Rightarrow> ('a file_st_scheme, int) km" where
  "pipewrite_loop p pr addr i 0 =
     kthen (wakeup (Some (Chan_nread p))) (kthen (release (Lpipe p)) (kret (int i)))"
| "pipewrite_loop p pr addr i (Suc n) =
     kbind (pipe_at p) (\<lambda>P.
     kbind (if \<not> pi_readopen P then kret 1 else killed pr) (\<lambda>k.
     if k \<noteq> 0 then kthen (release (Lpipe p)) (kret (-1))
     else if pipe_full P then
       kthen (wakeup (Some (Chan_nread p)))
       (sleep (Chan_nwrite p) (Lpipe p))
     else
       kbind (proc_at pr) (\<lambda>R.
       kbind (copyin (p_pagetable R) (addr + of_nat i) 1) (\<lambda>r.
       if fst r = -1 then
         kthen (wakeup (Some (Chan_nread p))) (kthen (release (Lpipe p)) (kret (int i)))
       else
         kthen (upd_pipe p (pipe_put (hd (snd r))))
         (pipewrite_loop p pr addr (Suc i) n)))))"

definition pipewrite :: "u64 \<Rightarrow> u64 \<Rightarrow> int \<Rightarrow> ('a file_st_scheme, int) km" where
  "pipewrite p addr n =
     kbind curproc (\<lambda>pr.
     kthen (acquire (Lpipe p))
     (pipewrite_loop p pr addr 0 (nat n)))"

definition pipewrite_resume :: "u64 \<Rightarrow> nat \<Rightarrow> u64 \<Rightarrow> nat \<Rightarrow> nat \<Rightarrow> ('a file_st_scheme, int) km" where
  "pipewrite_resume p pr addr i n = kthen (sleep_resume (Lpipe p)) (pipewrite_loop p pr addr i n)"

primrec piperead_copy :: "u64 \<Rightarrow> nat \<Rightarrow> u64 \<Rightarrow> nat \<Rightarrow> nat \<Rightarrow> ('a file_st_scheme, int) km" where
  "piperead_copy p pr addr i 0 = kret (int i)"
| "piperead_copy p pr addr i (Suc n) =
     kbind (pipe_at p) (\<lambda>P.
     if pipe_empty P then kret (int i)
     else
       kbind (proc_at pr) (\<lambda>R.
       kbind (copyout (p_pagetable R) (addr + of_nat i) [pipe_peek P]) (\<lambda>r.
       if r = -1 then kret (if i = 0 then -1 else int i)
       else
         kthen (upd_pipe p pipe_take)
         (piperead_copy p pr addr (Suc i) n))))"

definition piperead_loop :: "u64 \<Rightarrow> nat \<Rightarrow> u64 \<Rightarrow> int \<Rightarrow> ('a file_st_scheme, int) km" where
  "piperead_loop p pr addr n =
     kbind (pipe_at p) (\<lambda>P.
     if pipe_empty P \<and> pi_writeopen P then
       kbind (killed pr) (\<lambda>k.
       if k \<noteq> 0 then kthen (release (Lpipe p)) (kret (-1))
       else sleep (Chan_nread p) (Lpipe p))
     else
       kbind (piperead_copy p pr addr 0 (nat n)) (\<lambda>i.
       kthen (wakeup (Some (Chan_nwrite p)))
       (kthen (release (Lpipe p))
       (kret i))))"

definition piperead :: "u64 \<Rightarrow> u64 \<Rightarrow> int \<Rightarrow> ('a file_st_scheme, int) km" where
  "piperead p addr n =
     kbind curproc (\<lambda>pr.
     kthen (acquire (Lpipe p))
     (piperead_loop p pr addr n))"

definition piperead_resume :: "u64 \<Rightarrow> nat \<Rightarrow> u64 \<Rightarrow> int \<Rightarrow> ('a file_st_scheme, int) km" where
  "piperead_resume p pr addr n = kthen (sleep_resume (Lpipe p)) (piperead_loop p pr addr n)"

section \<open>Open files\<close>

definition filealloc :: "('a file_st_scheme, nat option) km" where
  "filealloc =
     kthen (acquire Lftable)
     (kbind (kfind [0..<NFILE] (\<lambda>f.
       kbind (file_at f) (\<lambda>F.
       if f_ref F = 0 then
         kthen (upd_file f (\<lambda>F. F\<lparr>f_ref := 1\<rparr>))
         (kthen (release Lftable) (kret (Some f)))
       else kret None))) (\<lambda>r.
     case r of
       Some f \<Rightarrow> kret (Some f)
     | None \<Rightarrow> kthen (release Lftable) (kret None)))"

definition filedup :: "nat \<Rightarrow> ('a file_st_scheme, nat) km" where
  "filedup f =
     kthen (acquire Lftable)
     (kbind (file_at f) (\<lambda>F.
     if f_ref F < 1 then kpanic ''filedup''
     else
       kthen (upd_file f (\<lambda>F. F\<lparr>f_ref := f_ref F + 1\<rparr>))
       (kthen (release Lftable)
       (kret f))))"

definition fileclose :: "nat \<Rightarrow> ('a file_st_scheme, unit) km" where
  "fileclose f =
     kthen (acquire Lftable)
     (kbind (file_at f) (\<lambda>F.
     if f_ref F < 1 then kpanic ''fileclose''
     else
       kthen (upd_file f (\<lambda>F. F\<lparr>f_ref := f_ref F - 1\<rparr>))
       (if f_ref F - 1 > 0 then release Lftable
        else
          kthen (upd_file f (\<lambda>F. F\<lparr>f_ref := 0, f_type := FD_NONE\<rparr>))
          (kthen (release Lftable)
          (if f_type F = FD_PIPE then pipeclose (f_pipe F) (f_writable F)
           else if f_type F = FD_INODE \<or> f_type F = FD_DEVICE then
             kthen begin_op (kthen (iput (f_ip F)) end_op)
           else kret ())))))"

definition bytes16 :: "u16 \<Rightarrow> u8 list" where
  "bytes16 v = [ucast v, ucast (drop_bit 8 v)]"

definition bytes32 :: "u32 \<Rightarrow> u8 list" where
  "bytes32 v = map (\<lambda>i. ucast (drop_bit (8 * i) v)) [0..<4]"

definition bytes64 :: "u64 \<Rightarrow> u8 list" where
  "bytes64 v = map (\<lambda>i. ucast (drop_bit (8 * i) v)) [0..<8]"

definition stat_bytes :: "u8 list \<Rightarrow> statbuf \<Rightarrow> u8 list" where
  "stat_bytes pad st = bytes32 (st_dev st) @ bytes32 (st_ino st) @ bytes16 (st_type st) @ bytes16 (st_nlink st) @
     pad @ bytes64 (st_size st)"

definition filestat :: "nat \<Rightarrow> u64 \<Rightarrow> ('a file_st_scheme, int) km" where
  "filestat f addr =
     kbind curproc (\<lambda>p.
     kbind (file_at f) (\<lambda>F.
     if f_type F = FD_INODE \<or> f_type F = FD_DEVICE then
       kthen (ilock (f_ip F))
       (kbind (stati (f_ip F)) (\<lambda>st.
       kthen (iunlock (f_ip F))
       (kbind (kget stat_pad) (\<lambda>pad.
       kbind (proc_at p) (\<lambda>P.
       kbind (copyout (p_pagetable P) addr (stat_bytes pad st)) (\<lambda>r.
       kret (if r < 0 then -1 else 0)))))))
     else kret (-1)))"

definition fileread :: "nat \<Rightarrow> u64 \<Rightarrow> int \<Rightarrow> ('a file_st_scheme, int) km" where
  "fileread f addr n =
     kbind (file_at f) (\<lambda>F.
     if \<not> f_readable F then kret (-1)
     else if f_type F = FD_PIPE then piperead (f_pipe F) addr n
     else if f_type F = FD_DEVICE then
       (if f_major F = 1 then consoleread (Dst_user addr) n else kret (-1))
     else if f_type F = FD_INODE then
       kthen (ilock (f_ip F))
       (kbind (readi (f_ip F) (Dst_user addr) (f_off F) (word_of_int n)) (\<lambda>r.
       kthen (kwhen (fst r > 0) (upd_file f (\<lambda>F. F\<lparr>f_off := f_off F + word_of_int (fst r)\<rparr>)))
       (kthen (iunlock (f_ip F))
       (kret (fst r)))))
     else kpanic ''fileread'')"

text \<open>\<^verbatim>\<open>((MAXOPBLOCKS-1-1-2) / 2) * BSIZE\<close>: what one transaction can take.\<close>

abbreviation (input) write_max :: nat where "write_max \<equiv> 3072"

function filewrite_loop :: "nat \<Rightarrow> u64 \<Rightarrow> nat \<Rightarrow> nat \<Rightarrow> ('a file_st_scheme, bool) km" where
  "filewrite_loop f addr i n =
     (if n = 0 then kret True
      else
        let n1 = min n write_max in
        kthen begin_op
        (kbind (file_at f) (\<lambda>F.
        kthen (ilock (f_ip F))
        (kbind (writei (f_ip F) (Src_user (addr + of_nat i)) (f_off F) (of_nat n1)) (\<lambda>r.
        kthen (kwhen (r > 0) (upd_file f (\<lambda>F. F\<lparr>f_off := f_off F + word_of_int r\<rparr>)))
        (kthen (iunlock (f_ip F))
        (kthen end_op
        (if r \<noteq> int n1 then kret False
         else filewrite_loop f addr (i + n1) (n - n1)))))))))"
  by pat_completeness auto
termination filewrite_loop
  by (relation "measure (\<lambda>(f, addr, i, n). n)") auto

declare filewrite_loop.simps [simp del]

text \<open>The loop stops early only after a short write, so that \<^verbatim>\<open>i == n\<close> means it ran to the end;
  for a negative \<open>n\<close> it does not run and \<^verbatim>\<open>i\<close> differs from \<^verbatim>\<open>n\<close>.\<close>

definition filewrite :: "nat \<Rightarrow> u64 \<Rightarrow> int \<Rightarrow> ('a file_st_scheme, int) km" where
  "filewrite f addr n =
     kbind (file_at f) (\<lambda>F.
     if \<not> f_writable F then kret (-1)
     else if f_type F = FD_PIPE then pipewrite (f_pipe F) addr n
     else if f_type F = FD_DEVICE then
       (if f_major F = 1 then consolewrite (Src_user addr) n else kret (-1))
     else if f_type F = FD_INODE then
       (if n < 0 then kret (-1)
        else kbind (filewrite_loop f addr 0 (nat n)) (\<lambda>ok. kret (if ok then n else -1)))
     else kpanic ''filewrite'')"

definition pipealloc :: "('a file_st_scheme, (nat \<times> nat) option) km" where
  "pipealloc =
     kbind filealloc (\<lambda>f0.
     kbind (case f0 of None \<Rightarrow> kret None | Some _ \<Rightarrow> filealloc) (\<lambda>f1.
     kbind (case f1 of None \<Rightarrow> kret 0 | Some _ \<Rightarrow> kalloc) (\<lambda>p.
     case (f0, f1) of
       (Some r, Some w) \<Rightarrow>
         if p = 0 then kthen (fileclose r) (kthen (fileclose w) (kret None))
         else
           kthen (upd_pipe p (\<lambda>P. P\<lparr>pi_readopen := True, pi_writeopen := True, pi_nwrite := 0, pi_nread := 0\<rparr>))
           (kthen (upd_file r (\<lambda>F. F\<lparr>f_type := FD_PIPE, f_readable := True, f_writable := False, f_pipe := p\<rparr>))
           (kthen (upd_file w (\<lambda>F. F\<lparr>f_type := FD_PIPE, f_readable := False, f_writable := True, f_pipe := p\<rparr>))
           (kret (Some (r, w)))))
     | (Some r, None) \<Rightarrow> kthen (fileclose r) (kret None)
     | (None, _) \<Rightarrow> kret None)))"

end
