(* ===== verification/Proc.thy ===== *)
theory Proc
  imports File
begin

unbundle bit_operations_syntax

text \<open>
  The rest of \<^verbatim>\<open>kernel/proc.c\<close>: shared memory segments, creating and destroying processes and
  threads, fork, exit and the three ways to wait for a child.  A trap frame is 36 registers in a
  physical page.
\<close>

section \<open>Shared memory\<close>

definition shm_bit :: "nat \<Rightarrow> u32" where
  "shm_bit key = push_bit key 1"

definition shm_va :: "nat \<Rightarrow> u64" where
  "shm_va key = SHMBASE + of_nat key * PGSIZE"

definition shm_at :: "nat \<Rightarrow> ('a proc_st_scheme, shmseg) km" where
  "shm_at key = kget (\<lambda>s. shmtable s key)"

definition upd_shm :: "nat \<Rightarrow> (shmseg \<Rightarrow> shmseg) \<Rightarrow> ('a proc_st_scheme, unit) km" where
  "upd_shm key f = kmod (\<lambda>s. s\<lparr>shmtable := (shmtable s)(key := f (shmtable s key))\<rparr>)"

lemma shm_evals [kmonad]:
  "shm_at k s = Ret (shmtable s k) s"
  "upd_shm k f s = Ret () (s\<lparr>shmtable := (shmtable s)(k := f (shmtable s k))\<rparr>)"
  by (simp_all add: shm_at_def upd_shm_def kmonad)

text \<open>Dropping one attachment, as \<^verbatim>\<open>shmcleanup\<close> and \<^verbatim>\<open>kshmdt\<close> both do it.\<close>

definition shm_drop :: "nat \<Rightarrow> ('a proc_st_scheme, unit) km" where
  "shm_drop key =
     kthen (acquire (Lshm key))
     (kthen (upd_shm key (\<lambda>g. g\<lparr>shm_refcnt := shm_refcnt g - 1\<rparr>))
     (kbind (shm_at key) (\<lambda>g.
     kthen (kwhen (shm_refcnt g = 0)
       (kthen (kfree (shm_pa g)) (upd_shm key (\<lambda>g. g\<lparr>shm_pa := 0\<rparr>))))
     (release (Lshm key)))))"

definition shmcleanup :: "nat \<Rightarrow> ('a proc_st_scheme, unit) km" where
  "shmcleanup p =
     kthen (kfor [0..<SHM_PAGES] (\<lambda>key.
       kbind (proc_at p) (\<lambda>P.
       kwhen (p_shm_mask P AND shm_bit key \<noteq> 0)
         (kthen (kwhen (p_pagetable P \<noteq> 0) (uvmunmap (p_pagetable P) (shm_va key) 1 False))
         (shm_drop key)))))
     (upd_proc p (\<lambda>P. P\<lparr>p_shm_mask := 0\<rparr>))"

definition kshmget :: "int \<Rightarrow> ('a proc_st_scheme, u64) km" where
  "kshmget k =
     kbind curproc (\<lambda>p.
     if k < 0 \<or> k \<ge> int SHM_PAGES then kret 0
     else
       let key = nat k; va = shm_va key in
       kbind (proc_at p) (\<lambda>P.
       if p_shm_mask P AND shm_bit key \<noteq> 0 then kret va
       else
         kthen (acquire (Lshm key))
         (kbind (shm_at key) (\<lambda>g.
         kbind (if shm_pa g = 0 then
                  kbind kalloc (\<lambda>pa.
                  kthen (upd_shm key (\<lambda>g. g\<lparr>shm_pa := pa\<rparr>))
                  (kthen (kwhen (pa \<noteq> 0) (kzero pa)) (kret (pa, True))))
                else kret (shm_pa g, False)) (\<lambda>r.
         let pa = fst r; newpage = snd r in
         if pa = 0 then kthen (release (Lshm key)) (kret 0)
         else
           kbind (mappages (p_pagetable P) va PGSIZE pa (PTE_R OR PTE_W OR PTE_U)) (\<lambda>e.
           if e < 0 then
             kthen (kwhen newpage (kthen (kfree pa) (upd_shm key (\<lambda>g. g\<lparr>shm_pa := 0\<rparr>))))
             (kthen (release (Lshm key)) (kret 0))
           else
             kthen (upd_shm key (\<lambda>g. g\<lparr>shm_refcnt := shm_refcnt g + 1\<rparr>))
             (kthen (upd_proc p (\<lambda>P. P\<lparr>p_shm_mask := p_shm_mask P OR shm_bit key\<rparr>))
             (kthen (release (Lshm key))
             (kret va)))))))))"

definition kshmdt :: "int \<Rightarrow> ('a proc_st_scheme, int) km" where
  "kshmdt k =
     kbind curproc (\<lambda>p.
     if k < 0 \<or> k \<ge> int SHM_PAGES then kret (-1)
     else
       let key = nat k in
       kbind (proc_at p) (\<lambda>P.
       if p_shm_mask P AND shm_bit key = 0 then kret (-1)
       else
         kthen (uvmunmap (p_pagetable P) (shm_va key) 1 False)
         (kthen (upd_proc p (\<lambda>P. P\<lparr>p_shm_mask := p_shm_mask P AND NOT (shm_bit key)\<rparr>))
         (kthen (shm_drop key)
         (kret 0)))))"

section \<open>Creating and destroying processes\<close>

definition proc_pagetable :: "nat \<Rightarrow> ('a proc_st_scheme, u64) km" where
  "proc_pagetable p =
     kbind uvmcreate (\<lambda>pagetable.
     if pagetable = 0 then kret 0
     else
       kbind (kget trampoline_va) (\<lambda>tr.
       kbind (mappages pagetable TRAMPOLINE PGSIZE tr (PTE_R OR PTE_X)) (\<lambda>r.
       if r < 0 then kthen (uvmfree pagetable 0) (kret 0)
       else
         kbind (proc_at p) (\<lambda>P.
         kbind (mappages pagetable TRAPFRAME PGSIZE (p_trapframe P) (PTE_R OR PTE_W)) (\<lambda>r.
         if r < 0 then
           kthen (uvmunmap pagetable TRAMPOLINE 1 False)
           (kthen (uvmfree pagetable 0)
           (kret 0))
         else kret pagetable)))))"

definition proc_freepagetable :: "u64 \<Rightarrow> u64 \<Rightarrow> ('a proc_st_scheme, unit) km" where
  "proc_freepagetable pagetable sz =
     kthen (uvmunmap pagetable TRAMPOLINE 1 False)
     (kthen (uvmunmap pagetable TRAPFRAME 1 False)
     (uvmfree pagetable sz))"

definition cleared_proc :: "proc \<Rightarrow> proc" where
  "cleared_proc P = P\<lparr>p_pagetable := 0, p_sz := 0, p_pid := 0, p_parent := None,
     p_name := (p_name P)(0 := 0), p_chan := None, p_killed := 0, p_xstate := 0, p_priority := 0,
     p_state := UNUSED, p_is_thread := 0, p_tgid := 0\<rparr>"

definition freeproc :: "nat \<Rightarrow> ('a proc_st_scheme, unit) km" where
  "freeproc p =
     kbind (proc_at p) (\<lambda>P.
     kthen (kwhen (p_trapframe P \<noteq> 0) (kfree (p_trapframe P)))
     (kthen (upd_proc p (\<lambda>P. P\<lparr>p_trapframe := 0\<rparr>))
     (kthen (kwhen (p_pagetable P \<noteq> 0)
       (kthen (shmcleanup p)
       (if p_is_thread P \<noteq> 0 then thread_freepagetable (p_pagetable P) (p_sz P)
        else proc_freepagetable (p_pagetable P) (p_sz P))))
     (upd_proc p cleared_proc))))"

definition find_unused :: "('a proc_st_scheme, nat option) km" where
  "find_unused =
     kfind allprocs (\<lambda>i.
       kthen (acquire (Lproc i))
       (kbind (proc_at i) (\<lambda>P.
       if p_state P = UNUSED then kret (Some i)
       else kthen (release (Lproc i)) (kret None))))"

definition allocproc :: "('a proc_st_scheme, nat option) km" where
  "allocproc =
     kbind find_unused (\<lambda>f.
     case f of
       None \<Rightarrow> kret None
     | Some p \<Rightarrow>
         kbind allocpid (\<lambda>pid.
         kthen (upd_proc p (\<lambda>P. P\<lparr>p_pid := pid, p_state := USED, p_shm_mask := 0, p_priority := 10,
           p_is_thread := 0, p_tgid := 0\<rparr>))
         (kbind kalloc (\<lambda>tf.
         kthen (upd_proc p (\<lambda>P. P\<lparr>p_trapframe := tf\<rparr>))
         (if tf = 0 then kthen (freeproc p) (kthen (release (Lproc p)) (kret None))
          else
            kbind (proc_pagetable p) (\<lambda>pt.
            kthen (upd_proc p (\<lambda>P. P\<lparr>p_pagetable := pt\<rparr>))
            (if pt = 0 then kthen (freeproc p) (kthen (release (Lproc p)) (kret None))
             else
               kbind (kget forkret_va) (\<lambda>ra.
               kthen (upd_proc p (\<lambda>P. P\<lparr>p_context :=
                 \<lparr>ctx_ra = ra, ctx_sp = p_kstack P + PGSIZE, ctx_s = \<lambda>_. 0\<rparr>\<rparr>))
               (kret (Some p))))))))))"

definition userinit :: "('a file_st_scheme, unit) km" where
  "userinit =
     kbind allocproc (\<lambda>r.
     kthen (kmod (\<lambda>s. s\<lparr>initproc := r\<rparr>))
     (kbind (namei [slash]) (\<lambda>ip.
     case r of
       None \<Rightarrow> kpanic ''kerneltrap''
     | Some p \<Rightarrow>
         kthen (upd_proc p (\<lambda>P. P\<lparr>p_cwd := ip\<rparr>))
         (kthen (upd_proc p (\<lambda>P. P\<lparr>p_state := RUNNABLE\<rparr>))
         (release (Lproc p))))))"

definition growproc :: "int \<Rightarrow> ('a proc_st_scheme, int) km" where
  "growproc n =
     kbind curproc (\<lambda>p.
     kbind (proc_at p) (\<lambda>P.
     let sz = p_sz P; sz' = sz + word_of_int n in
     if n > 0 then
       (if sz' > TRAPFRAME then kret (-1)
        else
          kbind (uvmalloc (p_pagetable P) sz sz' PTE_W) (\<lambda>r.
          if r = 0 then kret (-1)
          else kthen (upd_proc p (\<lambda>P. P\<lparr>p_sz := r\<rparr>)) (kret 0)))
     else if n < 0 then
       kbind (uvmdealloc (p_pagetable P) sz sz') (\<lambda>r.
       kthen (upd_proc p (\<lambda>P. P\<lparr>p_sz := r\<rparr>)) (kret 0))
     else kthen (upd_proc p (\<lambda>P. P\<lparr>p_sz := sz\<rparr>)) (kret 0)))"

text \<open>The loops of \<^verbatim>\<open>kfork\<close> and \<^verbatim>\<open>kthread_create\<close> over the open files, and the tail they share.\<close>

definition dup_files :: "nat \<Rightarrow> nat \<Rightarrow> ('a file_st_scheme, unit) km" where
  "dup_files p np =
     kthen (kfor [0..<NOFILE] (\<lambda>i.
       kbind (proc_at p) (\<lambda>P.
       case p_ofile P i of
         None \<Rightarrow> kret ()
       | Some f \<Rightarrow>
           kbind (filedup f) (\<lambda>f.
           upd_proc np (\<lambda>N. N\<lparr>p_ofile := (p_ofile N)(i := Some f)\<rparr>)))))
     (kbind (proc_at p) (\<lambda>P.
     case p_cwd P of
       None \<Rightarrow> kpanic ''kerneltrap''
     | Some ip \<Rightarrow> kbind (idup ip) (\<lambda>ip. upd_proc np (\<lambda>N. N\<lparr>p_cwd := Some ip\<rparr>))))"

definition start_child :: "nat \<Rightarrow> nat \<Rightarrow> ('a file_st_scheme, int) km" where
  "start_child p np =
     kbind (proc_at p) (\<lambda>P.
     kthen (upd_proc np (\<lambda>N. N\<lparr>p_name := safestrcpy (p_name N) (p_name P) 16\<rparr>))
     (kbind (proc_at np) (\<lambda>N.
     kthen (release (Lproc np))
     (kthen (acquire Lwait)
     (kthen (upd_proc np (\<lambda>N. N\<lparr>p_parent := Some p\<rparr>))
     (kthen (release Lwait)
     (kthen (acquire (Lproc np))
     (kthen (upd_proc np (\<lambda>N. N\<lparr>p_state := RUNNABLE\<rparr>))
     (kthen (release (Lproc np))
     (kret (p_pid N)))))))))))"

abbreviation (input) TF_BYTES :: nat where "TF_BYTES \<equiv> 288"
abbreviation (input) TF_epc :: u64 where "TF_epc \<equiv> 24"
abbreviation (input) TF_sp :: u64 where "TF_sp \<equiv> 48"
abbreviation (input) TF_a0 :: u64 where "TF_a0 \<equiv> 112"

definition tf_set :: "u64 \<Rightarrow> u64 \<Rightarrow> u64 \<Rightarrow> ('a proc_st_scheme, unit) km" where
  "tf_set tf r v = kmod (\<lambda>s. s\<lparr>phys := store64 (phys s) (tf + r) v\<rparr>)"

definition tf_copy :: "nat \<Rightarrow> nat \<Rightarrow> ('a proc_st_scheme, unit) km" where
  "tf_copy np p =
     kmod (\<lambda>s. s\<lparr>phys := memmove (phys s) (p_trapframe (procs s np)) (p_trapframe (procs s p)) TF_BYTES\<rparr>)"

definition kfork :: "('a file_st_scheme, int) km" where
  "kfork =
     kbind curproc (\<lambda>p.
     kbind allocproc (\<lambda>r.
     case r of
       None \<Rightarrow> kret (-1)
     | Some np \<Rightarrow>
         kbind (proc_at p) (\<lambda>P.
         kbind (proc_at np) (\<lambda>N.
         kbind (uvmcopy (p_pagetable P) (p_pagetable N) (p_sz P)) (\<lambda>e.
         if e < 0 then kthen (freeproc np) (kthen (release (Lproc np)) (kret (-1)))
         else
           kthen (upd_proc np (\<lambda>N. N\<lparr>p_sz := p_sz P\<rparr>))
           (kthen (tf_copy np p)
           (kthen (tf_set (p_trapframe N) TF_a0 0)
           (kthen (dup_files p np)
           (start_child p np)))))))))"

section \<open>Exit\<close>

definition reparent :: "nat \<Rightarrow> ('a proc_st_scheme, unit) km" where
  "reparent p = kfor allprocs (\<lambda>i.
     kbind (proc_at i) (\<lambda>P.
     kwhen (p_parent P = Some p)
       (kbind (kget initproc) (\<lambda>ini.
       kthen (upd_proc i (\<lambda>P. P\<lparr>p_parent := ini\<rparr>))
       (wakeup (map_option Chan_proc ini))))))"

text \<open>What \<^verbatim>\<open>kexit\<close> and \<^verbatim>\<open>kthread_exit\<close> do once the files are closed.\<close>

definition exit_zombie :: "nat \<Rightarrow> int \<Rightarrow> ('a proc_st_scheme, 'r) km" where
  "exit_zombie p status =
     kthen (acquire Lwait)
     (kthen (reparent p)
     (kbind (proc_at p) (\<lambda>P.
     kthen (wakeup (map_option Chan_proc (p_parent P)))
     (kthen (acquire (Lproc p))
     (kthen (upd_proc p (\<lambda>P. P\<lparr>p_xstate := status, p_state := ZOMBIE\<rparr>))
     (kthen (release Lwait)
     sched))))))"

definition exit_tail :: "nat \<Rightarrow> int \<Rightarrow> ('a file_st_scheme, 'r) km" where
  "exit_tail p status =
     kthen begin_op
     (kbind (proc_at p) (\<lambda>P.
     kthen (case p_cwd P of None \<Rightarrow> kpanic ''kerneltrap'' | Some ip \<Rightarrow> iput ip)
     (kthen end_op
     (kthen (upd_proc p (\<lambda>P. P\<lparr>p_cwd := None\<rparr>))
     (exit_zombie p status)))))"

definition kexit :: "int \<Rightarrow> ('a file_st_scheme, 'r) km" where
  "kexit status =
     kbind curproc (\<lambda>p.
     kbind (kget initproc) (\<lambda>ini.
     if Some p = ini then kpanic ''init exiting''
     else
       kthen (kfor [0..<NOFILE] (\<lambda>fd.
         kbind (proc_at p) (\<lambda>P.
         case p_ofile P fd of
           None \<Rightarrow> kret ()
         | Some f \<Rightarrow>
             kthen (fileclose f)
             (upd_proc p (\<lambda>P. P\<lparr>p_ofile := (p_ofile P)(fd := None)\<rparr>)))))
       (exit_tail p status)))"

section \<open>Waiting for a child\<close>

definition bytes_int :: "int \<Rightarrow> u8 list" where
  "bytes_int v = bytes32 (word_of_int v)"

definition copy_xstate :: "nat \<Rightarrow> u64 \<Rightarrow> nat \<Rightarrow> ('a file_st_scheme, int) km" where
  "copy_xstate p addr i =
     (if addr = 0 then kret 0
      else kbind (proc_at p) (\<lambda>P. kbind (proc_at i) (\<lambda>C.
        copyout (p_pagetable P) addr (bytes_int (p_xstate C)))))"

text \<open>Reaping the zombie \<open>i\<close>, with its lock and \<^verbatim>\<open>wait_lock\<close> held.\<close>

definition reap :: "nat \<Rightarrow> u64 \<Rightarrow> nat \<Rightarrow> ('a file_st_scheme, int) km" where
  "reap p addr i =
     kbind (proc_at i) (\<lambda>C.
     kbind (copy_xstate p addr i) (\<lambda>e.
     if e < 0 then kthen (release (Lproc i)) (kthen (release Lwait) (kret (-1)))
     else
       kthen (freeproc i)
       (kthen (release (Lproc i))
       (kthen (release Lwait)
       (kret (p_pid C))))))"

text \<open>One round of a wait loop: \<open>match\<close> is the test on a child, \<open>fin\<close> what is done with the first
  matching zombie; the round ends asleep on the waiting process when a match is still alive.\<close>

definition wait_scan ::
    "(proc \<Rightarrow> bool) \<Rightarrow> (nat \<Rightarrow> ('a file_st_scheme, int) km) \<Rightarrow> ('a file_st_scheme, int option) km" where
  "wait_scan match fin =
     kfind allprocs (\<lambda>i.
       kbind (proc_at i) (\<lambda>C.
       if match C then
         kthen (acquire (Lproc i))
         (kbind (proc_at i) (\<lambda>C.
         if p_state C = ZOMBIE then kbind (fin i) (\<lambda>v. kret (Some v))
         else kthen (release (Lproc i)) (kret None)))
       else kret None))"

definition wait_round ::
    "nat \<Rightarrow> (proc \<Rightarrow> bool) \<Rightarrow> (nat \<Rightarrow> ('a file_st_scheme, int) km) \<Rightarrow> ('a file_st_scheme, int) km" where
  "wait_round p match fin =
     kbind (wait_scan match fin) (\<lambda>r.
     case r of
       Some v \<Rightarrow> kret v
     | None \<Rightarrow>
         kbind (kget (\<lambda>s. list_ex (\<lambda>i. match (procs s i)) allprocs)) (\<lambda>found.
         kbind (if \<not> found then kret 1 else killed p) (\<lambda>stop.
         if stop \<noteq> 0 then kthen (release Lwait) (kret (-1))
         else sleep (Chan_proc p) Lwait)))"

definition kwait_loop :: "nat \<Rightarrow> u64 \<Rightarrow> ('a file_st_scheme, int) km" where
  "kwait_loop p addr = wait_round p (\<lambda>C. p_parent C = Some p) (reap p addr)"

definition kwait :: "u64 \<Rightarrow> ('a file_st_scheme, int) km" where
  "kwait addr = kbind curproc (\<lambda>p. kthen (acquire Lwait) (kwait_loop p addr))"

definition kwait_resume :: "nat \<Rightarrow> u64 \<Rightarrow> ('a file_st_scheme, int) km" where
  "kwait_resume p addr = kthen (sleep_resume Lwait) (kwait_loop p addr)"

definition kwaitpid_loop :: "nat \<Rightarrow> int \<Rightarrow> u64 \<Rightarrow> ('a file_st_scheme, int) km" where
  "kwaitpid_loop p wanted addr =
     wait_round p (\<lambda>C. p_parent C = Some p \<and> p_pid C = wanted) (reap p addr)"

definition kwaitpid :: "int \<Rightarrow> u64 \<Rightarrow> ('a file_st_scheme, int) km" where
  "kwaitpid wanted addr = kbind curproc (\<lambda>p. kthen (acquire Lwait) (kwaitpid_loop p wanted addr))"

definition kwaitpid_resume :: "nat \<Rightarrow> int \<Rightarrow> u64 \<Rightarrow> ('a file_st_scheme, int) km" where
  "kwaitpid_resume p wanted addr = kthen (sleep_resume Lwait) (kwaitpid_loop p wanted addr)"

section \<open>Threads\<close>

definition share_shm :: "nat \<Rightarrow> nat \<Rightarrow> ('a file_st_scheme, int option) km" where
  "share_shm p np = kfind [0..<SHM_PAGES] (\<lambda>key.
     kbind (proc_at p) (\<lambda>P.
     kbind (proc_at np) (\<lambda>N.
     if p_shm_mask P AND shm_bit key = 0 then kret None
     else
       kthen (acquire (Lshm key))
       (kbind (shm_at key) (\<lambda>g.
       if shm_pa g = 0 then
         kthen (kprintf ''kthread_create: shm key %d has null pa\<newline>'' [Vint (of_nat key)])
         (kthen (release (Lshm key))
         (kthen (freeproc np)
         (kthen (release (Lproc np))
         (kret (Some (-1))))))
       else
         kbind (mappages (p_pagetable N) (shm_va key) PGSIZE (shm_pa g) (PTE_R OR PTE_W OR PTE_U)) (\<lambda>e.
         if e \<noteq> 0 then
           kthen (kprintf ''kthread_create: shm remap failed for key %d\<newline>'' [Vint (of_nat key)])
           (kthen (release (Lshm key))
           (kthen (freeproc np)
           (kthen (release (Lproc np))
           (kret (Some (-1))))))
         else
           kthen (upd_shm key (\<lambda>g. g\<lparr>shm_refcnt := shm_refcnt g + 1\<rparr>))
           (kthen (upd_proc np (\<lambda>N. N\<lparr>p_shm_mask := p_shm_mask N OR shm_bit key\<rparr>))
           (kthen (release (Lshm key))
           (kret None)))))))))"

definition kthread_create :: "u64 \<Rightarrow> u64 \<Rightarrow> u64 \<Rightarrow> ('a file_st_scheme, int) km" where
  "kthread_create fcn arg stack =
     kbind curproc (\<lambda>p.
     if stack = 0 then kthen (kprintf ''kthread_create: null stack\<newline>'' []) (kret (-1))
     else
       kbind allocproc (\<lambda>r.
       case r of
         None \<Rightarrow> kthen (kprintf ''kthread_create: allocproc failed\<newline>'' []) (kret (-1))
       | Some np \<Rightarrow>
           kbind (proc_at p) (\<lambda>P.
           kbind (proc_at np) (\<lambda>N.
           kbind (uvmshare (p_pagetable P) (p_pagetable N) (p_sz P)) (\<lambda>e.
           if e < 0 then
             kthen (kprintf ''kthread_create: uvmshare failed\<newline>'' [])
             (kthen (freeproc np) (kthen (release (Lproc np)) (kret (-1))))
           else
             kthen (upd_proc np (\<lambda>N. N\<lparr>p_sz := p_sz P\<rparr>))
             (kbind (share_shm p np) (\<lambda>e.
             case e of
               Some v \<Rightarrow> kret v
             | None \<Rightarrow>
                 kthen (tf_copy np p)
                 (kthen (tf_set (p_trapframe N) TF_epc fcn)
                 (kthen (tf_set (p_trapframe N) TF_a0 arg)
                 (kthen (tf_set (p_trapframe N) TF_sp (stack + 4096))
                 (kthen (upd_proc np (\<lambda>N. N\<lparr>p_is_thread := 1,
                    p_tgid := if p_is_thread P \<noteq> 0 then p_tgid P else p_pid P, p_priority := p_priority P\<rparr>))
                 (kthen (dup_files p np)
                 (kbind (start_child p np) (\<lambda>pid.
                 kthen (kprintf ''kthread_create: success tid=%d\<newline>'' [Vint (word_of_int pid)])
                 (kret pid)))))))))))))))"

definition kthread_join_loop :: "nat \<Rightarrow> int \<Rightarrow> ('a file_st_scheme, int) km" where
  "kthread_join_loop p tid =
     wait_round p (\<lambda>C. p_parent C = Some p \<and> p_pid C = tid \<and> p_is_thread C \<noteq> 0) (\<lambda>i.
       kbind (proc_at i) (\<lambda>C.
       kthen (freeproc i)
       (kthen (release (Lproc i))
       (kthen (release Lwait)
       (kret (p_xstate C))))))"

definition kthread_join :: "int \<Rightarrow> ('a file_st_scheme, int) km" where
  "kthread_join tid = kbind curproc (\<lambda>p. kthen (acquire Lwait) (kthread_join_loop p tid))"

definition kthread_join_resume :: "nat \<Rightarrow> int \<Rightarrow> ('a file_st_scheme, int) km" where
  "kthread_join_resume p tid = kthen (sleep_resume Lwait) (kthread_join_loop p tid)"

definition kthread_exit :: "int \<Rightarrow> ('a file_st_scheme, 'r) km" where
  "kthread_exit status =
     kbind curproc (\<lambda>p.
     kbind (proc_at p) (\<lambda>P.
     if p_is_thread P = 0 then kexit status
     else
       kthen (kfor [0..<NOFILE] (\<lambda>fd.
         kbind (proc_at p) (\<lambda>P.
         case p_ofile P fd of
           None \<Rightarrow> kret ()
         | Some f \<Rightarrow>
             kthen (upd_proc p (\<lambda>P. P\<lparr>p_ofile := (p_ofile P)(fd := None)\<rparr>))
             (fileclose f))))
       (exit_tail p status)))"

definition kthread_id :: "('a proc_st_scheme, int) km" where
  "kthread_id = kbind curproc (\<lambda>p. kbind (proc_at p) (\<lambda>P. kret (p_pid P)))"

end
