(* ===== verification/Syscall_Args.thy ===== *)
theory Syscall_Args
  imports Proc
begin

unbundle bit_operations_syntax

text \<open>
  The first half of \<^verbatim>\<open>kernel/syscall.c\<close>: how a handler gets at its arguments, which are in the
  registers saved in the trap frame and in user memory.
\<close>

definition le64 :: "u8 list \<Rightarrow> u64" where
  "le64 bs = of_nat (horner_sum unat 256 bs)"

definition le32 :: "u8 list \<Rightarrow> u32" where
  "le32 bs = of_nat (horner_sum unat 256 bs)"

definition le16 :: "u8 list \<Rightarrow> u16" where
  "le16 bs = of_nat (horner_sum unat 256 bs)"

definition tf_get :: "u64 \<Rightarrow> u64 \<Rightarrow> ('a proc_st_scheme, u64) km" where
  "tf_get tf r = kget (\<lambda>s. load64 (phys s) (tf + r))"

text \<open>The value of an \<^verbatim>\<open>int\<close> that a 64-bit register is assigned to, and the register a returned
  \<^verbatim>\<open>int\<close> becomes.\<close>

definition to_int :: "u64 \<Rightarrow> int" where
  "to_int v = sint (ucast v :: u32)"

definition of_cint :: "int \<Rightarrow> u64" where
  "of_cint v = word_of_int v"

definition fetchaddr :: "u64 \<Rightarrow> ('a proc_st_scheme, u64 option) km" where
  "fetchaddr addr =
     kbind curproc (\<lambda>p.
     kbind (proc_at p) (\<lambda>P.
     if addr \<ge> p_sz P \<or> addr + 8 > p_sz P then kret None
     else
       kbind (copyin (p_pagetable P) addr 8) (\<lambda>r.
       kret (if fst r \<noteq> 0 then None else Some (le64 (snd r))))))"

definition fetchstr :: "u64 \<Rightarrow> nat \<Rightarrow> ('a proc_st_scheme, u8 list option) km" where
  "fetchstr addr m =
     kbind curproc (\<lambda>p.
     kbind (proc_at p) (\<lambda>P.
     kbind (copyinstr (p_pagetable P) addr m) (\<lambda>r.
     kret (if fst r < 0 then None else Some (snd r)))))"

definition argraw :: "nat \<Rightarrow> ('a proc_st_scheme, u64) km" where
  "argraw n =
     kbind curproc (\<lambda>p.
     kbind (proc_at p) (\<lambda>P.
     if n < 6 then tf_get (p_trapframe P) (TF_a0 + 8 * of_nat n) else kpanic ''argraw''))"

definition argint :: "nat \<Rightarrow> ('a proc_st_scheme, int) km" where
  "argint n = kbind (argraw n) (\<lambda>v. kret (to_int v))"

definition argaddr :: "nat \<Rightarrow> ('a proc_st_scheme, u64) km" where
  "argaddr n = argraw n"

text \<open>The string is returned without its null byte; its length is what the C function returns.\<close>

definition argstr :: "nat \<Rightarrow> nat \<Rightarrow> ('a proc_st_scheme, u8 list option) km" where
  "argstr n m = kbind (argaddr n) (\<lambda>addr. fetchstr addr m)"

end
