(* ===== verification/Sysproc.thy ===== *)
theory Sysproc
  imports Syscall_Args
begin

unbundle bit_operations_syntax

text \<open>
  \<^verbatim>\<open>kernel/sysproc.c\<close>: the system calls on processes, memory and time, and the kernel mutexes and
  semaphores.  A handler that sleeps ends its run; the definition with the suffix \<open>loop\<close> is where it
  goes on, with the lock held, after \<open>sleep_resume\<close>.
\<close>

record kmutex =
  km_used :: bool
  km_locked :: bool

record ksem =
  ks_used :: bool
  ks_count :: int

record sync_st = file_st +
  kmutexes :: "nat \<Rightarrow> kmutex"
  ksems :: "nat \<Rightarrow> ksem"

definition blank_sync :: "(nat \<Rightarrow> proc) \<Rightarrow> 'a \<Rightarrow> 'a sync_st_scheme" where
  [blank]: "blank_sync ps x = blank_files ps (sync_st_ext
     (\<lambda>_. \<lparr>km_used = True, km_locked = False\<rparr>) (\<lambda>_. \<lparr>ks_used = True, ks_count = 0\<rparr>) x)"

abbreviation (input) NKMUTEX :: nat where "NKMUTEX \<equiv> 16"
abbreviation (input) NKSEM :: nat where "NKSEM \<equiv> 16"

definition kmutex_at :: "nat \<Rightarrow> ('a sync_st_scheme, kmutex) km" where
  "kmutex_at i = kget (\<lambda>s. kmutexes s i)"

definition upd_kmutex :: "nat \<Rightarrow> (kmutex \<Rightarrow> kmutex) \<Rightarrow> ('a sync_st_scheme, unit) km" where
  "upd_kmutex i f = kmod (\<lambda>s. s\<lparr>kmutexes := (kmutexes s)(i := f (kmutexes s i))\<rparr>)"

definition ksem_at :: "nat \<Rightarrow> ('a sync_st_scheme, ksem) km" where
  "ksem_at i = kget (\<lambda>s. ksems s i)"

definition upd_ksem :: "nat \<Rightarrow> (ksem \<Rightarrow> ksem) \<Rightarrow> ('a sync_st_scheme, unit) km" where
  "upd_ksem i f = kmod (\<lambda>s. s\<lparr>ksems := (ksems s)(i := f (ksems s i))\<rparr>)"

lemma sync_evals [kmonad]:
  "kmutex_at i s = Ret (kmutexes s i) s"
  "upd_kmutex i f s = Ret () (s\<lparr>kmutexes := (kmutexes s)(i := f (kmutexes s i))\<rparr>)"
  "ksem_at i s = Ret (ksems s i) s"
  "upd_ksem i g s = Ret () (s\<lparr>ksems := (ksems s)(i := g (ksems s i))\<rparr>)"
  by (simp_all add: kmutex_at_def upd_kmutex_def ksem_at_def upd_ksem_def kmonad)

section \<open>Processes and memory\<close>

definition sys_exit :: "('a file_st_scheme, u64) km" where
  "sys_exit = kbind (argint 0) (\<lambda>n. kexit n)"

definition sys_getpid :: "('a file_st_scheme, u64) km" where
  "sys_getpid = kbind curproc (\<lambda>p. kbind (proc_at p) (\<lambda>P. kret (of_cint (p_pid P))))"

definition sys_fork :: "('a file_st_scheme, u64) km" where
  "sys_fork = kbind kfork (\<lambda>r. kret (of_cint r))"

definition sys_wait :: "('a file_st_scheme, u64) km" where
  "sys_wait = kbind (argaddr 0) (\<lambda>p. kbind (kwait p) (\<lambda>r. kret (of_cint r)))"

definition sys_waitpid :: "('a file_st_scheme, u64) km" where
  "sys_waitpid =
     kbind (argint 0) (\<lambda>pid.
     kbind (argaddr 1) (\<lambda>addr.
     kbind (kwaitpid pid addr) (\<lambda>r.
     kret (of_cint r))))"

definition sys_sbrk :: "('a file_st_scheme, u64) km" where
  "sys_sbrk =
     kbind (argint 0) (\<lambda>n.
     kbind (argint 1) (\<lambda>t.
     kbind curproc (\<lambda>p.
     kbind (proc_at p) (\<lambda>P.
     let addr = p_sz P in
     if t = 1 \<or> n < 0 then
       kbind (growproc n) (\<lambda>r. kret (if r < 0 then -1 else addr))
     else if addr + of_cint n < addr then kret (-1)
     else if addr + of_cint n > TRAPFRAME then kret (-1)
     else kthen (upd_proc p (\<lambda>P. P\<lparr>p_sz := p_sz P + of_cint n\<rparr>)) (kret addr)))))"

text \<open>\<^verbatim>\<open>ticks - ticks0 < n\<close> compares as unsigned.\<close>

definition sys_pause_loop :: "u32 \<Rightarrow> int \<Rightarrow> ('a file_st_scheme, u64) km" where
  "sys_pause_loop ticks0 n =
     kbind (kget ticks) (\<lambda>t.
     if t - ticks0 < word_of_int n then
       kbind curproc (\<lambda>p.
       kbind (killed p) (\<lambda>k.
       if k \<noteq> 0 then kthen (release Lticks) (kret (-1))
       else sleep Chan_ticks Lticks))
     else kthen (release Lticks) (kret 0))"

definition sys_pause :: "('a file_st_scheme, u64) km" where
  "sys_pause =
     kbind (argint 0) (\<lambda>n0.
     let n = (if n0 < 0 then 0 else n0) in
     kthen (acquire Lticks)
     (kbind (kget ticks) (\<lambda>ticks0.
     sys_pause_loop ticks0 n)))"

definition sys_pause_resume :: "u32 \<Rightarrow> int \<Rightarrow> ('a file_st_scheme, u64) km" where
  "sys_pause_resume ticks0 n = kthen (sleep_resume Lticks) (sys_pause_loop ticks0 n)"

definition sys_kill :: "('a file_st_scheme, u64) km" where
  "sys_kill = kbind (argint 0) (\<lambda>pid. kbind (kkill pid) (\<lambda>r. kret (of_cint r)))"

definition sys_uptime :: "('a file_st_scheme, u64) km" where
  "sys_uptime =
     kthen (acquire Lticks)
     (kbind (kget ticks) (\<lambda>t.
     kthen (release Lticks)
     (kret (ucast t))))"

definition sys_shmget :: "('a file_st_scheme, u64) km" where
  "sys_shmget = kbind (argint 0) (\<lambda>key. kshmget key)"

definition sys_shmdt :: "('a file_st_scheme, u64) km" where
  "sys_shmdt = kbind (argint 0) (\<lambda>key. kbind (kshmdt key) (\<lambda>r. kret (of_cint r)))"

definition sys_setp :: "('a file_st_scheme, u64) km" where
  "sys_setp =
     kbind (argint 0) (\<lambda>pid.
     kbind (argint 1) (\<lambda>priority.
     kbind (setpriority pid priority) (\<lambda>r.
     kret (of_cint r))))"

definition sys_ismyear :: "('a file_st_scheme, u64) km" where
  "sys_ismyear = kret 1926"

section \<open>Mutexes\<close>

definition mutex_init :: "int \<Rightarrow> ('a sync_st_scheme, int) km" where
  "mutex_init k =
     (if k < 0 \<or> k \<ge> int NKMUTEX then kret (-1)
      else
        let i = nat k in
        kbind (kmutex_at i) (\<lambda>M.
        kthen (kwhen (\<not> km_used M) (upd_kmutex i (\<lambda>M. M\<lparr>km_used := True\<rparr>)))
        (kthen (acquire (Lkmutex i))
        (kthen (upd_kmutex i (\<lambda>M. M\<lparr>km_locked := False\<rparr>))
        (kthen (release (Lkmutex i))
        (kret 0))))))"

definition mutex_acquire_loop :: "nat \<Rightarrow> ('a sync_st_scheme, int) km" where
  "mutex_acquire_loop i =
     kbind (kmutex_at i) (\<lambda>M.
     if km_locked M then
       kbind curproc (\<lambda>p.
       kbind (killed p) (\<lambda>k.
       if k \<noteq> 0 then kthen (release (Lkmutex i)) (kret (-1))
       else sleep (Chan_kmutex i) (Lkmutex i)))
     else
       kthen (upd_kmutex i (\<lambda>M. M\<lparr>km_locked := True\<rparr>))
       (kthen (release (Lkmutex i))
       (kret 0)))"

definition mutex_acquire :: "int \<Rightarrow> ('a sync_st_scheme, int) km" where
  "mutex_acquire k =
     (if k < 0 \<or> k \<ge> int NKMUTEX then kret (-1)
      else
        let i = nat k in
        kbind (kmutex_at i) (\<lambda>M.
        if \<not> km_used M then kret (-1)
        else kthen (acquire (Lkmutex i)) (mutex_acquire_loop i)))"

definition mutex_acquire_resume :: "nat \<Rightarrow> ('a sync_st_scheme, int) km" where
  "mutex_acquire_resume i = kthen (sleep_resume (Lkmutex i)) (mutex_acquire_loop i)"

definition mutex_release :: "int \<Rightarrow> ('a sync_st_scheme, int) km" where
  "mutex_release k =
     (if k < 0 \<or> k \<ge> int NKMUTEX then kret (-1)
      else
        let i = nat k in
        kbind (kmutex_at i) (\<lambda>M.
        if \<not> km_used M then kret (-1)
        else
          kthen (acquire (Lkmutex i))
          (kbind (kmutex_at i) (\<lambda>M.
          if \<not> km_locked M then kthen (release (Lkmutex i)) (kret (-1))
          else
            kthen (upd_kmutex i (\<lambda>M. M\<lparr>km_locked := False\<rparr>))
            (kthen (wakeup (Some (Chan_kmutex i)))
            (kthen (release (Lkmutex i))
            (kret 0)))))))"

definition sys_mutex_init :: "('a sync_st_scheme, u64) km" where
  "sys_mutex_init = kbind (argint 0) (\<lambda>k. kbind (mutex_init k) (\<lambda>r. kret (of_cint r)))"

definition sys_mutex_acquire :: "('a sync_st_scheme, u64) km" where
  "sys_mutex_acquire = kbind (argint 0) (\<lambda>k. kbind (mutex_acquire k) (\<lambda>r. kret (of_cint r)))"

definition sys_mutex_release :: "('a sync_st_scheme, u64) km" where
  "sys_mutex_release = kbind (argint 0) (\<lambda>k. kbind (mutex_release k) (\<lambda>r. kret (of_cint r)))"

section \<open>Semaphores\<close>

definition sem_init :: "int \<Rightarrow> int \<Rightarrow> ('a sync_st_scheme, int) km" where
  "sem_init k v =
     (if k < 0 \<or> k \<ge> int NKSEM \<or> v < 0 then kret (-1)
      else
        let i = nat k in
        kbind (ksem_at i) (\<lambda>S.
        kthen (kwhen (\<not> ks_used S) (upd_ksem i (\<lambda>S. S\<lparr>ks_used := True\<rparr>)))
        (kthen (acquire (Lksem i))
        (kthen (upd_ksem i (\<lambda>S. S\<lparr>ks_count := v\<rparr>))
        (kthen (release (Lksem i))
        (kret 0))))))"

definition sem_wait_loop :: "nat \<Rightarrow> ('a sync_st_scheme, int) km" where
  "sem_wait_loop i =
     kbind (ksem_at i) (\<lambda>S.
     if ks_count S = 0 then
       kbind curproc (\<lambda>p.
       kbind (killed p) (\<lambda>k.
       if k \<noteq> 0 then kthen (release (Lksem i)) (kret (-1))
       else sleep (Chan_ksem i) (Lksem i)))
     else
       kthen (upd_ksem i (\<lambda>S. S\<lparr>ks_count := int32 (ks_count S - 1)\<rparr>))
       (kthen (release (Lksem i))
       (kret 0)))"

definition sem_wait :: "int \<Rightarrow> ('a sync_st_scheme, int) km" where
  "sem_wait k =
     (if k < 0 \<or> k \<ge> int NKSEM then kret (-1)
      else
        let i = nat k in
        kbind (ksem_at i) (\<lambda>S.
        if \<not> ks_used S then kret (-1)
        else kthen (acquire (Lksem i)) (sem_wait_loop i)))"

definition sem_wait_resume :: "nat \<Rightarrow> ('a sync_st_scheme, int) km" where
  "sem_wait_resume i = kthen (sleep_resume (Lksem i)) (sem_wait_loop i)"

definition sem_post :: "int \<Rightarrow> ('a sync_st_scheme, int) km" where
  "sem_post k =
     (if k < 0 \<or> k \<ge> int NKSEM then kret (-1)
      else
        let i = nat k in
        kbind (ksem_at i) (\<lambda>S.
        if \<not> ks_used S then kret (-1)
        else
          kthen (acquire (Lksem i))
          (kthen (upd_ksem i (\<lambda>S. S\<lparr>ks_count := int32 (ks_count S + 1)\<rparr>))
          (kthen (wakeup (Some (Chan_ksem i)))
          (kthen (release (Lksem i))
          (kret 0))))))"

definition sys_sem_init :: "('a sync_st_scheme, u64) km" where
  "sys_sem_init =
     kbind (argint 0) (\<lambda>k. kbind (argint 1) (\<lambda>v. kbind (sem_init k v) (\<lambda>r. kret (of_cint r))))"

definition sys_sem_wait :: "('a sync_st_scheme, u64) km" where
  "sys_sem_wait = kbind (argint 0) (\<lambda>k. kbind (sem_wait k) (\<lambda>r. kret (of_cint r)))"

definition sys_sem_post :: "('a sync_st_scheme, u64) km" where
  "sys_sem_post = kbind (argint 0) (\<lambda>k. kbind (sem_post k) (\<lambda>r. kret (of_cint r)))"

section \<open>Threads\<close>

definition sys_thread_create :: "('a file_st_scheme, u64) km" where
  "sys_thread_create =
     kbind (argaddr 0) (\<lambda>fcn.
     kbind (argaddr 1) (\<lambda>arg.
     kbind (argaddr 2) (\<lambda>stack.
     kthen (kprintf ''sys_thread_create: fcn=%lx arg=%lx stack=%lx\<newline>'' [Vint fcn, Vint arg, Vint stack])
     (kbind (kthread_create fcn arg stack) (\<lambda>r.
     kret (of_cint r))))))"

definition sys_thread_join :: "('a file_st_scheme, u64) km" where
  "sys_thread_join = kbind (argint 0) (\<lambda>tid. kbind (kthread_join tid) (\<lambda>r. kret (of_cint r)))"

definition sys_thread_exit :: "('a file_st_scheme, u64) km" where
  "sys_thread_exit = kbind (argint 0) (\<lambda>status. kthread_exit status)"

definition sys_thread_id :: "('a file_st_scheme, u64) km" where
  "sys_thread_id = kbind kthread_id (\<lambda>r. kret (of_cint r))"

section \<open>Waiting on mutexes and semaphores\<close>

definition is_killed :: "'a proc_st_scheme \<Rightarrow> bool" where
  "is_killed s \<longleftrightarrow> (\<exists>p. cproc s = Some p \<and> p_killed (procs s p) \<noteq> 0)"

interpretation mutex_wait: cond_wait "mutex_acquire_loop i" "Lkmutex i" "Chan_kmutex i"
  "\<lambda>s. \<not> km_locked (kmutexes s i)" is_killed
proof
  fix s :: "'a sync_st_scheme" and p
  assume s: "cproc s = Some p" "held s = {Lkmutex i}"
  show "mutex_acquire_loop i s = Sched (asleep p (Chan_kmutex i) s)"
    if "\<not> \<not> km_locked (kmutexes s i)" "\<not> is_killed s"
    using that s by (simp add: mutex_acquire_loop_def kmonad is_killed_def sleep_asleep)
  show "\<exists>r t. mutex_acquire_loop i s = Ret r t" if "\<not> km_locked (kmutexes s i)"
    using that s by (simp add: mutex_acquire_loop_def kmonad)
qed

interpretation sem_block: cond_wait "sem_wait_loop i" "Lksem i" "Chan_ksem i"
  "\<lambda>s. ks_count (ksems s i) \<noteq> 0" is_killed
proof
  fix s :: "'a sync_st_scheme" and p
  assume s: "cproc s = Some p" "held s = {Lksem i}"
  show "sem_wait_loop i s = Sched (asleep p (Chan_ksem i) s)"
    if "\<not> ks_count (ksems s i) \<noteq> 0" "\<not> is_killed s"
    using that s by (simp add: sem_wait_loop_def kmonad is_killed_def sleep_asleep)
  show "\<exists>r t. sem_wait_loop i s = Ret r t" if "ks_count (ksems s i) \<noteq> 0"
    using that s by (simp add: sem_wait_loop_def kmonad)
qed

section \<open>Mutual exclusion of the user-level mutexes\<close>

text \<open>A history of mutex \<open>i\<close>, newest event first: which process's \<^verbatim>\<open>mutex_acquire\<close> returned 0, which
  process's \<^verbatim>\<open>mutex_release\<close> returned 0, and the calls of \<^verbatim>\<open>mutex_init\<close>.  A step is a run of one handler
  by the current process, first or resumed, whoever that process is, or any other run that leaves
  mutex \<open>i\<close> alone.\<close>

datatype mutex_event = Acquired nat | Released nat | Reinitialised

inductive mutex_step :: "nat \<Rightarrow> 'a sync_st_scheme \<times> mutex_event list \<Rightarrow> 'a sync_st_scheme \<times> mutex_event list \<Rightarrow> bool" for i where
  acq: "cproc s = Some p \<Longrightarrow> mutex_acquire (int i) s = Ret 0 t \<Longrightarrow> mutex_step i (s, es) (t, Acquired p # es)"
| acq_fail: "mutex_acquire (int i) s = Ret (-1) t \<Longrightarrow> mutex_step i (s, es) (t, es)"
| acq_sleep: "mutex_acquire (int i) s = Sched t \<Longrightarrow> mutex_step i (s, es) (t, es)"
| res: "cproc s = Some p \<Longrightarrow> mutex_acquire_resume i s = Ret 0 t \<Longrightarrow> mutex_step i (s, es) (t, Acquired p # es)"
| res_fail: "mutex_acquire_resume i s = Ret (-1) t \<Longrightarrow> mutex_step i (s, es) (t, es)"
| res_sleep: "mutex_acquire_resume i s = Sched t \<Longrightarrow> mutex_step i (s, es) (t, es)"
| rel: "cproc s = Some p \<Longrightarrow> mutex_release (int i) s = Ret 0 t \<Longrightarrow> mutex_step i (s, es) (t, Released p # es)"
| rel_fail: "mutex_release (int i) s = Ret (-1) t \<Longrightarrow> mutex_step i (s, es) (t, es)"
| init: "mutex_init (int i) s = Ret 0 t \<Longrightarrow> mutex_step i (s, es) (t, Reinitialised # es)"
| other: "kmutexes t i = kmutexes s i \<Longrightarrow> mutex_step i (s, es) (t, es)"

text \<open>The processes between a successful acquire and their release, and the histories in which only a
  process that holds the mutex releases it and none initialises it again.\<close>

primrec holders :: "mutex_event list \<Rightarrow> nat set" where
  "holders [] = {}"
| "holders (e # es) = (case e of Acquired p \<Rightarrow> insert p (holders es)
    | Released p \<Rightarrow> holders es - {p} | Reinitialised \<Rightarrow> holders es)"

primrec disciplined :: "mutex_event list \<Rightarrow> bool" where
  "disciplined [] = True"
| "disciplined (e # es) = (disciplined es \<and> (case e of Acquired p \<Rightarrow> True
    | Released p \<Rightarrow> p \<in> holders es | Reinitialised \<Rightarrow> False))"

definition mutex_start :: "nat \<Rightarrow> 'a sync_st_scheme \<times> mutex_event list \<Rightarrow> bool" where
  "mutex_start i = (\<lambda>(s, es). es = [] \<and> \<not> km_locked (kmutexes s i))"

definition mutex_inv :: "nat \<Rightarrow> 'a sync_st_scheme \<times> mutex_event list \<Rightarrow> bool" where
  "mutex_inv i = (\<lambda>(s, es). disciplined es \<longrightarrow>
     (if km_locked (kmutexes s i) then \<exists>p. holders es = {p} else holders es = {}))"

lemma sleep_no_return: "sleep ch lk s \<noteq> Ret r t"
  by (auto simp: sleep_def kbind_Ret_iff kthen_Ret_iff sched_never_returns)

lemma ps_eq_sync: "ps_eq s t \<Longrightarrow> kmutexes t = kmutexes s \<and> ksems t = ksems s"
  by (auto simp: ps_eq_upd)

definition mutex_outcome :: "nat \<Rightarrow> 'a sync_st_scheme \<Rightarrow> (int, 'a sync_st_scheme) out \<Rightarrow> bool" where
  "mutex_outcome i s out = (case out of
      Ret r t \<Rightarrow> (if r = 0 then \<not> km_locked (kmutexes s i) \<and> km_locked (kmutexes t i) else kmutexes t = kmutexes s)
    | Sched t \<Rightarrow> kmutexes t = kmutexes s
    | Panic e \<Rightarrow> True)"

lemma mutex_loop_outcome: "mutex_outcome i s (mutex_acquire_loop i s)"
proof (cases "km_locked (kmutexes s i)")
  case True
  let ?m = "kbind curproc (\<lambda>p. kbind (killed p) (\<lambda>k.
       if k \<noteq> 0 then kthen (release (Lkmutex i)) (kret (-1 :: int)) else sleep (Chan_kmutex i) (Lkmutex i)))"
  have m: "mutex_acquire_loop i s = ?m s" using True by (simp add: mutex_acquire_loop_def kmonad)
  have k: "kkeeps ps_eq ?m" by (intro ps_frame)
  show ?thesis
  proof (cases "?m s")
    case (Ret r t)
    then have "r \<noteq> 0" by (auto simp: kbind_Ret_iff kthen_Ret_iff kret_def sleep_no_return split: if_splits)
    then show ?thesis unfolding m using Ret kkeeps_Ret [OF k Ret] by (simp add: mutex_outcome_def ps_eq_sync)
  next
    case (Sched t)
    then show ?thesis unfolding m using kkeeps_Sched [OF k Sched] by (simp add: mutex_outcome_def ps_eq_sync)
  qed (simp add: m mutex_outcome_def)
next
  case False
  then show ?thesis by (auto simp: mutex_acquire_loop_def kmonad release_def mutex_outcome_def)
qed

lemma mutex_outcome_cong: "kmutexes s' = kmutexes s \<Longrightarrow> mutex_outcome i s' r = mutex_outcome i s r"
  by (cases r) (simp_all add: mutex_outcome_def)

lemma mutex_acquire_outcome: "mutex_outcome i s (mutex_acquire (int i) s)"
proof (cases "\<not> i < NKMUTEX \<or> \<not> km_used (kmutexes s i) \<or> Lkmutex i \<in> held s")
  case True
  then show ?thesis by (auto simp: mutex_acquire_def kmonad Let_def mutex_outcome_def)
next
  case False
  let ?s = "s\<lparr>held := insert (Lkmutex i) (held s)\<rparr>"
  have "mutex_acquire (int i) s = mutex_acquire_loop i ?s"
    using False by (simp add: mutex_acquire_def kmonad Let_def)
  then show ?thesis using mutex_loop_outcome [of i ?s] mutex_outcome_cong [of ?s s] by simp
qed

lemma mutex_resume_outcome: "mutex_outcome i s (mutex_acquire_resume i s)"
proof (cases "sleep_resume (Lkmutex i) s")
  case (Ret u v)
  have "kmutexes v = kmutexes s" using kkeeps_Ret [OF ps_sleep(2) Ret] by (simp add: ps_eq_sync)
  moreover have "mutex_acquire_resume i s = mutex_acquire_loop i v"
    using Ret by (simp add: mutex_acquire_resume_def kmonad)
  ultimately show ?thesis using mutex_loop_outcome [of i v] mutex_outcome_cong [of v s] by simp
next
  case (Sched v)
  have "kmutexes v = kmutexes s" using kkeeps_Sched [OF ps_sleep(2) Sched] by (simp add: ps_eq_sync)
  then show ?thesis using Sched by (simp add: mutex_acquire_resume_def kmonad mutex_outcome_def)
qed (simp add: mutex_acquire_resume_def kmonad mutex_outcome_def)

lemma mutex_release_outcome:
  assumes "mutex_release (int i) s = Ret r t"
  shows "if r = 0 then \<not> km_locked (kmutexes t i) else kmutexes t = kmutexes s"
proof (cases "\<not> i < NKMUTEX \<or> \<not> km_used (kmutexes s i) \<or> Lkmutex i \<in> held s \<or> \<not> km_locked (kmutexes s i)")
  case True
  then show ?thesis using assms
    by (cases "Lkmutex i \<in> held s") (auto simp: mutex_release_def kmonad Let_def split: if_splits)
next
  case False
  define v where "v = s\<lparr>held := insert (Lkmutex i) (held s), kmutexes := (kmutexes s)(i := (kmutexes s i)\<lparr>km_locked := False\<rparr>)\<rparr>"
  have "kthen (wakeup (Some (Chan_kmutex i))) (kthen (release (Lkmutex i)) (kret 0)) v = Ret r t"
    using assms False by (simp add: mutex_release_def kmonad Let_def v_def)
  moreover from this have "r = 0" by (auto simp: kthen_Ret_iff kret_def)
  moreover have "kkeeps ps_eq (kthen (wakeup (Some (Chan_kmutex i))) (kthen (release (Lkmutex i)) (kret 0)))"
    by (intro ps_frame)
  ultimately have "ps_eq v t" by (metis kkeeps_Ret)
  then show ?thesis using ps_eq_sync [of v t] \<open>r = 0\<close> by (simp add: v_def)
qed

interpretation kmx: inv_system "mutex_start i" "mutex_step i" "mutex_inv i"
proof
  fix s :: "'a sync_st_scheme \<times> mutex_event list"
  show "mutex_start i s \<Longrightarrow> mutex_inv i s" by (auto simp: mutex_start_def mutex_inv_def)
next
  fix x y :: "'a sync_st_scheme \<times> mutex_event list"
  assume inv: "mutex_inv i x" and "mutex_step i x y"
  from this(2) show "mutex_inv i y"
  proof cases
    case (acq s p t es)
    then show ?thesis using inv mutex_acquire_outcome [of i s] by (simp add: mutex_inv_def mutex_outcome_def)
  next
    case (acq_fail s t es)
    then show ?thesis using inv mutex_acquire_outcome [of i s] by (simp add: mutex_inv_def mutex_outcome_def)
  next
    case (acq_sleep s t es)
    then show ?thesis using inv mutex_acquire_outcome [of i s] by (simp add: mutex_inv_def mutex_outcome_def)
  next
    case (res s p t es)
    then show ?thesis using inv mutex_resume_outcome [of i s] by (simp add: mutex_inv_def mutex_outcome_def)
  next
    case (res_fail s t es)
    then show ?thesis using inv mutex_resume_outcome [of i s] by (simp add: mutex_inv_def mutex_outcome_def)
  next
    case (res_sleep s t es)
    then show ?thesis using inv mutex_resume_outcome [of i s] by (simp add: mutex_inv_def mutex_outcome_def)
  next
    case (rel s p t es)
    have "holders es = {p}" if "disciplined es" "p \<in> holders es"
      using inv rel(1) that by (auto simp: mutex_inv_def split: if_splits)
    then show ?thesis using mutex_release_outcome [OF rel(4)] rel(2) by (auto simp: mutex_inv_def)
  next
    case (rel_fail s t es)
    then show ?thesis using mutex_release_outcome [OF rel_fail(3)] inv by (simp add: mutex_inv_def)
  next
    case (init s t es)
    then show ?thesis by (simp add: mutex_inv_def)
  next
    case (other t s es)
    then show ?thesis using inv by (simp add: mutex_inv_def)
  qed
qed

lemma sync_held:
  "s\<lparr>held := h, kmutexes := k\<rparr> = s\<lparr>kmutexes := k, held := h\<rparr>" "s\<lparr>held := h, ksems := q\<rparr> = s\<lparr>ksems := q, held := h\<rparr>"
  by (cases s; simp)+

text \<open>C10: however the runs of \<^verbatim>\<open>mutex_acquire\<close>, \<^verbatim>\<open>mutex_release\<close> and \<^verbatim>\<open>mutex_init\<close> by any processes are
  interleaved, woken and resumed, as long as a process releases the mutex only while it holds it and
  nobody initialises it again, at most one process is between a successful \<^verbatim>\<open>mutex_acquire\<close> and its
  \<^verbatim>\<open>mutex_release\<close>, and the mutex is marked locked exactly while there is one.  The kernel checks
  neither condition.\<close>

theorem kmutex_mutual_exclusion:
  assumes "reach (mutex_start i) (mutex_step i) (s, es)" "disciplined es"
  shows "card (holders es) \<le> 1 \<and> (km_locked (kmutexes s i) \<longleftrightarrow> holders es \<noteq> {})"
  using kmx.reach_inv [OF assms(1)] assms(2) by (auto simp: mutex_inv_def split: if_splits)

theorem kmutex_mutual_exclusion_witness:
  "\<exists>t :: sync_st. reach (mutex_start 3) (mutex_step 3) (t, [Acquired 0]) \<and> disciplined [Acquired 0] \<and>
     card (holders [Acquired 0]) \<le> 1 \<and> km_locked (kmutexes t 3)"
proof -
  let ?s = "blank_sync (\<lambda>_. idle_proc) () :: sync_st"
  let ?t = "?s\<lparr>kmutexes := (kmutexes ?s)(3 := (kmutexes ?s 3)\<lparr>km_locked := True\<rparr>)\<rparr>"
  have "mutex_start 3 (?s, [])" by (simp add: mutex_start_def blank)
  then have "reach (mutex_start 3) (mutex_step 3) (?s, [])" by (rule reach_init)
  moreover have "mutex_step 3 (?s, []) (?t, [Acquired 0])"
    by (rule mutex_step.acq) (simp_all add: mutex_acquire_def mutex_acquire_loop_def kmonad blank)
  ultimately have r: "reach (mutex_start 3) (mutex_step 3) (?t, [Acquired 0])" by (rule reach_step)
  from kmutex_mutual_exclusion [OF r] r show ?thesis by (intro exI [of _ ?t]) simp
qed

text \<open>\<^verbatim>\<open>mutex_release\<close> of a locked mutex unlocks it and makes every process waiting for it
  runnable, whichever process calls it: there is no owner check.\<close>

lemma mutex_release_wakes:
  assumes "i < NKMUTEX" "km_used (kmutexes s i)" "km_locked (kmutexes s i)" "held s = {}"
  shows "mutex_release (int i) s =
      Ret 0 (wake_all (Chan_kmutex i) (s\<lparr>kmutexes := (kmutexes s)(i := (kmutexes s i)\<lparr>km_locked := False\<rparr>)\<rparr>))"
proof -
  let ?u = "s\<lparr>kmutexes := (kmutexes s)(i := (kmutexes s i)\<lparr>km_locked := False\<rparr>)\<rparr>"
  have "wakeup (Some (Chan_kmutex i)) (?u\<lparr>held := {Lkmutex i}\<rparr>) = Ret () ((wake_all (Chan_kmutex i) ?u)\<lparr>held := {Lkmutex i}\<rparr>)"
    unfolding wake_all_held [symmetric] by (rule wakeup_all) (simp add: no_plock_def)
  moreover have "(wake_all (Chan_kmutex i) ?u)\<lparr>held := {}\<rparr> = wake_all (Chan_kmutex i) ?u"
    by (rule held_same) (simp add: assms)
  ultimately show ?thesis using assms by (simp add: mutex_release_def kmonad Let_def sync_held)
qed

lemma mutex_acquire_free:
  assumes "i < NKMUTEX" "km_used (kmutexes s i)" "\<not> km_locked (kmutexes s i)" "held s = {}"
  shows "mutex_acquire (int i) s = Ret 0 (s\<lparr>kmutexes := (kmutexes s)(i := (kmutexes s i)\<lparr>km_locked := True\<rparr>)\<rparr>)"
  using assms by (simp add: mutex_acquire_def mutex_acquire_loop_def kmonad Let_def sync_held held_same)

lemma mutex_init_used:
  assumes "i < NKMUTEX" "km_used (kmutexes s i)" "held s = {}"
  shows "mutex_init (int i) s = Ret 0 (s\<lparr>kmutexes := (kmutexes s)(i := (kmutexes s i)\<lparr>km_locked := False\<rparr>)\<rparr>)"
  using assms by (simp add: mutex_init_def kmonad Let_def)

text \<open>Once the mutex is free again, whichever process unlocked it, another process acquires it.\<close>

lemma reach_reacquire:
  fixes s :: "'a sync_st_scheme"
  assumes "reach (mutex_start i) (mutex_step i) (s, es)" "cproc s = Some q"
    and "i < NKMUTEX" "km_used (kmutexes s i)" "\<not> km_locked (kmutexes s i)" "held s = {}"
  shows "\<exists>t :: 'a sync_st_scheme. reach (mutex_start i) (mutex_step i) (t, Acquired q # es)"
  by (rule exI, rule reach_step [OF assms(1) mutex_step.acq [OF assms(2) mutex_acquire_free [OF assms(3-6)]]])

text \<open>C39: mutual exclusion needs its two conditions.  From a free mutex, a process \<open>q\<close> that never acquired
  it can release it while \<open>p\<close> holds it, or initialise it again, and then acquire it: \<open>p\<close> and \<open>q\<close> are
  both inside.\<close>

theorem mutex_release_unchecked:
  fixes s :: "'a sync_st_scheme"
  assumes "i < NKMUTEX" "km_used (kmutexes s i)" "\<not> km_locked (kmutexes s i)" "held s = {}"
    and "cproc s = Some p" "e \<in> {Released q, Reinitialised}" "q \<noteq> p"
  shows "\<exists>t :: 'a sync_st_scheme. reach (mutex_start i) (mutex_step i) (t, [Acquired q, e, Acquired p]) \<and>
    holders [Acquired q, e, Acquired p] = {p, q}"
proof -
  let ?l = "\<lambda>b. (kmutexes s)(i := (kmutexes s i)\<lparr>km_locked := b\<rparr>)"
  let ?s1 = "s\<lparr>kmutexes := ?l True\<rparr>"
  let ?s2 = "?s1\<lparr>cproc := Some q\<rparr>"
  have "mutex_start i (s, [])" using assms(3) by (simp add: mutex_start_def)
  then have "reach (mutex_start i) (mutex_step i) (s, [])" by (rule reach_init)
  then have "reach (mutex_start i) (mutex_step i) (?s1, [Acquired p])"
    by (rule reach_step) (rule mutex_step.acq [OF assms(5) mutex_acquire_free [OF assms(1-4)]])
  then have r: "reach (mutex_start i) (mutex_step i) (?s2, [Acquired p])"
    by (rule reach_step) (rule mutex_step.other, simp)
  let ?free = "?s2\<lparr>kmutexes := ?l False\<rparr>"
  have "mutex_step i (?s2, [Acquired p]) (wake_all (Chan_kmutex i) ?free, Released q # [Acquired p])"
    using mutex_release_wakes [of i ?s2] assms by (intro mutex_step.rel) simp_all
  moreover have "mutex_step i (?s2, [Acquired p]) (?free, Reinitialised # [Acquired p])"
    using mutex_init_used [of i ?s2] assms by (intro mutex_step.init) simp
  ultimately have "\<exists>v. reach (mutex_start i) (mutex_step i) (v, [e, Acquired p]) \<and>
      (v = ?free \<or> v = wake_all (Chan_kmutex i) ?free)"
    using r assms(6) by (blast intro: reach_step)
  then obtain v where v: "reach (mutex_start i) (mutex_step i) (v, [e, Acquired p])"
    and "v = ?free \<or> v = wake_all (Chan_kmutex i) ?free" by blast
  then have "\<exists>t :: 'a sync_st_scheme. reach (mutex_start i) (mutex_step i) (t, [Acquired q, e, Acquired p])"
    using assms by (intro reach_reacquire [OF v]) (auto simp: wake_all_def)
  moreover have "holders [Acquired q, e, Acquired p] = {p, q}" using assms(6, 7) by auto
  ultimately show ?thesis by blast
qed

theorem mutex_release_unchecked_witness:
  "\<exists>t :: sync_st. reach (mutex_start 3) (mutex_step 3) (t, [Acquired 1, Released 1, Acquired 0]) \<and>
    holders [Acquired 1, Released 1, Acquired 0] = {0, 1}"
  using mutex_release_unchecked [of 3 "blank_sync (\<lambda>_. idle_proc) () :: sync_st" 0 "Released 1" 1]
  by (simp add: blank)

section \<open>Semaphores\<close>

lemma sem_wait_eval:
  assumes "i < NKSEM" "ks_used (ksems s i)" "held s = {}" "cproc s = Some p"
  shows "sem_wait (int i) s =
    (if ks_count (ksems s i) \<noteq> 0
     then Ret 0 (s\<lparr>ksems := (ksems s)(i := (ksems s i)\<lparr>ks_count := int32 (ks_count (ksems s i) - 1)\<rparr>)\<rparr>)
     else if p_killed (procs s p) \<noteq> 0 then Ret (-1) s
     else Sched (asleep p (Chan_ksem i) s))"
proof -
  let ?v = "s\<lparr>held := {Lksem i}\<rparr>"
  have w: "sem_wait (int i) s = sem_wait_loop i ?v" using assms by (simp add: sem_wait_def kmonad Let_def)
  have s: "s\<lparr>held := {}\<rparr> = s" using assms(3) by (cases s) simp
  show ?thesis
  proof (cases "ks_count (ksems s i) = 0 \<and> p_killed (procs s p) = 0")
    case True
    then have "sem_wait_loop i ?v = Sched (asleep p (Chan_ksem i) ?v)"
      using assms by (intro sem_block.blocks) (auto simp: is_killed_def)
    then show ?thesis using True w by (simp add: asleep_def)
  next
    case False
    then show ?thesis using assms w s by (auto simp: sem_wait_loop_def kmonad)
  qed
qed

lemma sem_post_eval:
  assumes "i < NKSEM" "ks_used (ksems s i)" "held s = {}"
  shows "sem_post (int i) s = Ret 0 (wake_all (Chan_ksem i)
    (s\<lparr>ksems := (ksems s)(i := (ksems s i)\<lparr>ks_count := int32 (ks_count (ksems s i) + 1)\<rparr>)\<rparr>))"
proof -
  let ?u = "s\<lparr>ksems := (ksems s)(i := (ksems s i)\<lparr>ks_count := int32 (ks_count (ksems s i) + 1)\<rparr>)\<rparr>"
  have "wakeup (Some (Chan_ksem i)) (?u\<lparr>held := {Lksem i}\<rparr>) = Ret () ((wake_all (Chan_ksem i) ?u)\<lparr>held := {Lksem i}\<rparr>)"
    unfolding wake_all_held [symmetric] by (rule wakeup_all) (simp add: no_plock_def)
  moreover have "(wake_all (Chan_ksem i) ?u)\<lparr>held := {}\<rparr> = wake_all (Chan_ksem i) ?u"
    by (rule held_same) (simp add: assms)
  ultimately show ?thesis using assms by (simp add: sem_post_def kmonad Let_def sync_held)
qed

text \<open>C40: a post on a semaphore at the largest \<^verbatim>\<open>int\<close> makes its count negative, after which \<^verbatim>\<open>sem_wait\<close>,
  which only stops at zero, no longer blocks.\<close>

theorem sem_post_overflows:
  assumes "i < NKSEM" "ks_used (ksems s i)" "held s = {}" "ks_count (ksems s i) = 2 ^ 31 - 1" "cproc s = Some p"
  shows "\<exists>t u. sem_post (int i) s = Ret 0 t \<and> ks_count (ksems t i) = - (2 ^ 31) \<and> sem_wait (int i) t = Ret 0 u"
proof -
  have w: "int32 (2 ^ 31) = - (2 ^ 31)" by code_simp
  let ?t = "wake_all (Chan_ksem i) (s\<lparr>ksems := (ksems s)(i := (ksems s i)\<lparr>ks_count := - (2 ^ 31)\<rparr>)\<rparr>)"
  have p: "sem_post (int i) s = Ret 0 ?t" using sem_post_eval [OF assms(1-3)] w assms(4) by simp
  have "ksems ?t = (ksems s)(i := (ksems s i)\<lparr>ks_count := - (2 ^ 31)\<rparr>)" by (simp add: wake_all_def)
  moreover from this have "\<exists>u. sem_wait (int i) ?t = Ret 0 u" using sem_wait_eval [of i ?t p] assms by simp
  ultimately show ?thesis using p by (simp add: exI [of _ ?t])
qed

theorem sem_post_overflows_witness:
  "\<exists>t u. sem_post 2 ((blank_sync (\<lambda>_. idle_proc) () :: sync_st)\<lparr>ksems := \<lambda>_. \<lparr>ks_used = True, ks_count = 2 ^ 31 - 1\<rparr>\<rparr>) =
     Ret 0 t \<and> ks_count (ksems t 2) = - (2 ^ 31) \<and> sem_wait 2 t = Ret 0 u"
  using sem_post_overflows [of 2 "(blank_sync (\<lambda>_. idle_proc) () :: sync_st)\<lparr>ksems := \<lambda>_. \<lparr>ks_used = True, ks_count = 2 ^ 31 - 1\<rparr>\<rparr>" 0]
  by (simp add: blank)

end
