(* ===== verification/Semaphore.thy ===== *)
theory Semaphore
  imports Sysproc
begin

text \<open>
  The semaphores of \<^verbatim>\<open>src/kernel/sysproc.c\<close> (\<^verbatim>\<open>sys_sem_init\<close>, \<^verbatim>\<open>sys_sem_wait\<close>, \<^verbatim>\<open>sys_sem_post\<close>) as a
  transition system: any process runs any of the handlers, or is resumed inside \<^verbatim>\<open>sem_wait\<close>, in any
  order.  A handler holds the lock of the semaphore from its first to its last access, so a run of a
  handler is one step.  Any other run of the kernel may come in between; it leaves the semaphore alone
  and puts nobody to sleep on it, since no other code knows its address.  The two invariants are the conservation of units and that no unit lies
  unclaimed while a process sleeps.
\<close>

section \<open>Runs of the handlers\<close>

text \<open>\<open>p\<close> runs on the CPU with the locks \<open>L\<close> held: none when a handler starts, its own when \<^verbatim>\<open>sched\<close>
  returns in it.\<close>

definition runs :: "nat \<Rightarrow> lock set \<Rightarrow> 'a proc_st_scheme \<Rightarrow> bool" where
  "runs p L s \<longleftrightarrow> p < NPROC \<and> cproc s = Some p \<and> p_state (procs s p) = RUNNING \<and> held s = L"

definition sleepers :: "nat \<Rightarrow> 'a proc_st_scheme \<Rightarrow> nat set" where
  "sleepers i s = {j. j < NPROC \<and> p_state (procs s j) = SLEEPING \<and> p_chan (procs s j) = Some (Chan_ksem i)}"

text \<open>The events of semaphore \<open>i\<close>, newest first: a \<^verbatim>\<open>sem_post\<close> that returned 0, a \<^verbatim>\<open>sem_wait\<close> that returned
  0 at once or after sleeping, a \<^verbatim>\<open>sem_init\<close> that returned 0.\<close>

datatype sem_event = Posted | Waited | Sem_set int

inductive sem_step :: "nat \<Rightarrow> 'a sync_st_scheme \<times> sem_event list \<Rightarrow> 'a sync_st_scheme \<times> sem_event list \<Rightarrow> bool" for i where
  wait: "runs p {} s \<Longrightarrow> sem_wait (int i) s = Ret 0 t \<Longrightarrow> sem_step i (s, es) (t, Waited # es)"
| wait_fail: "runs p {} s \<Longrightarrow> sem_wait (int i) s = Ret (-1) t \<Longrightarrow> sem_step i (s, es) (t, es)"
| wait_sleep: "runs p {} s \<Longrightarrow> sem_wait (int i) s = Sched t \<Longrightarrow> sem_step i (s, es) (t, es)"
| resume: "runs p {Lproc p} s \<Longrightarrow> sem_wait_resume i s = Ret 0 t \<Longrightarrow> sem_step i (s, es) (t, Waited # es)"
| resume_fail: "runs p {Lproc p} s \<Longrightarrow> sem_wait_resume i s = Ret (-1) t \<Longrightarrow> sem_step i (s, es) (t, es)"
| resume_sleep: "runs p {Lproc p} s \<Longrightarrow> sem_wait_resume i s = Sched t \<Longrightarrow> sem_step i (s, es) (t, es)"
| post: "runs p {} s \<Longrightarrow> sem_post (int i) s = Ret 0 t \<Longrightarrow> sem_step i (s, es) (t, Posted # es)"
| post_fail: "runs p {} s \<Longrightarrow> sem_post (int i) s = Ret (-1) t \<Longrightarrow> sem_step i (s, es) (t, es)"
| init: "runs p {} s \<Longrightarrow> v < 2 ^ 31 \<Longrightarrow> sem_init (int i) v s = Ret 0 t \<Longrightarrow> sem_step i (s, es) (t, Sem_set v # es)"
| init_fail: "runs p {} s \<Longrightarrow> sem_init (int i) v s = Ret (-1) t \<Longrightarrow> sem_step i (s, es) (t, es)"
| other: "ksems t i = ksems s i \<Longrightarrow> sleepers i t \<subseteq> sleepers i s \<Longrightarrow> sem_step i (s, es) (t, es)"

text \<open>The units there should be: the initial value, one more for each post, one less for each completed
  wait; and the histories in which they never exceed the largest \<^verbatim>\<open>int\<close>.\<close>

primrec balance :: "int \<Rightarrow> sem_event list \<Rightarrow> int" where
  "balance v [] = v"
| "balance v (e # es) = (case e of Posted \<Rightarrow> balance v es + 1 | Waited \<Rightarrow> balance v es - 1 | Sem_set w \<Rightarrow> w)"

primrec no_overflow :: "int \<Rightarrow> sem_event list \<Rightarrow> bool" where
  "no_overflow v [] = True"
| "no_overflow v (e # es) = (balance v (e # es) < 2 ^ 31 \<and> no_overflow v es)"

definition sem_start :: "nat \<Rightarrow> int \<Rightarrow> 'a sync_st_scheme \<times> sem_event list \<Rightarrow> bool" where
  "sem_start i v = (\<lambda>(s, es). es = [] \<and> 0 \<le> v \<and> v < 2 ^ 31 \<and> ks_count (ksems s i) = v \<and> sleepers i s = {})"

section \<open>What each run does\<close>

lemma sem_loop_eval:
  assumes "cproc s = Some p" "held s = {Lksem i}"
  shows "sem_wait_loop i s =
    (if ks_count (ksems s i) \<noteq> 0
     then Ret 0 (s\<lparr>ksems := (ksems s)(i := (ksems s i)\<lparr>ks_count := int32 (ks_count (ksems s i) - 1)\<rparr>), held := {}\<rparr>)
     else if p_killed (procs s p) \<noteq> 0 then Ret (-1) (s\<lparr>held := {}\<rparr>)
     else Sched (asleep p (Chan_ksem i) s))"
  using assms sem_block.blocks [of s p i]
  by (auto simp: sem_wait_loop_def kmonad is_killed_def sync_held)

text \<open>The outcome of a first or resumed \<^verbatim>\<open>sem_wait\<close>: a unit taken from a count that is not 0, nothing
  taken, or asleep because the count is 0.\<close>

definition wait_outcome :: "nat \<Rightarrow> 'a sync_st_scheme \<Rightarrow> (int, 'a sync_st_scheme) out \<Rightarrow> bool" where
  "wait_outcome i s out = (case out of
      Ret r t \<Rightarrow> sleepers i t \<subseteq> sleepers i s \<and>
        (if r = 0 then ks_count (ksems s i) \<noteq> 0 \<and> ks_count (ksems t i) = int32 (ks_count (ksems s i) - 1)
         else ks_count (ksems t i) = ks_count (ksems s i))
    | Sched t \<Rightarrow> ks_count (ksems s i) = 0 \<and> ks_count (ksems t i) = 0
    | Panic e \<Rightarrow> True)"

lemma wait_outcome_loop:
  assumes "cproc s = Some p" "held s = {Lksem i}"
  shows "wait_outcome i s (sem_wait_loop i s)"
  by (simp add: sem_loop_eval [OF assms] wait_outcome_def sleepers_def asleep_def)

lemma wait_outcome_cong:
  "ksems s' = ksems s \<Longrightarrow> sleepers i s' = sleepers i s \<Longrightarrow> wait_outcome i s' r = wait_outcome i s r"
  by (cases r) (simp_all add: wait_outcome_def)

lemma wait_outcome_first:
  assumes "runs p {} s"
  shows "wait_outcome i s (sem_wait (int i) s)"
proof (cases "i < NKSEM \<and> ks_used (ksems s i)")
  case True
  let ?v = "s\<lparr>held := {Lksem i}\<rparr>"
  have "sem_wait (int i) s = sem_wait_loop i ?v"
    using True assms by (simp add: sem_wait_def kmonad Let_def runs_def)
  moreover have "wait_outcome i ?v (sem_wait_loop i ?v)"
    using assms by (intro wait_outcome_loop [of _ p]) (simp_all add: runs_def)
  ultimately show ?thesis using wait_outcome_cong [of ?v s i] by (simp add: sleepers_def)
next
  case False
  then show ?thesis by (auto simp: sem_wait_def kmonad Let_def wait_outcome_def)
qed

lemma wait_outcome_resumed:
  assumes "runs p {Lproc p} s"
  shows "wait_outcome i s (sem_wait_resume i s)"
proof -
  let ?v = "s\<lparr>procs := (procs s)(p := (procs s p)\<lparr>p_chan := None\<rparr>), held := {Lksem i}\<rparr>"
  have "sem_wait_resume i s = sem_wait_loop i ?v"
    using assms by (simp add: sem_wait_resume_def kmonad sleep_resume_eval [of s p] runs_def)
  moreover have "wait_outcome i ?v (sem_wait_loop i ?v)"
    using assms by (intro wait_outcome_loop [of _ p]) (simp_all add: runs_def)
  moreover have "j \<in> sleepers i ?v \<longleftrightarrow> j \<in> sleepers i s" for j
    using assms by (cases "j = p") (simp_all add: sleepers_def runs_def)
  ultimately show ?thesis using wait_outcome_cong [of ?v s i] by (simp add: set_eq_iff)
qed

lemma sleepers_wake_all: "runs p L s \<Longrightarrow> sleepers i (wake_all (Chan_ksem i) s) = {}"
  by (auto simp: sleepers_def wake_all_def runs_def split: if_splits)

lemma post_outcome:
  assumes "runs p {} s" "sem_post (int i) s = Ret r t"
  shows "if r = 0 then ks_count (ksems t i) = int32 (ks_count (ksems s i) + 1) \<and> sleepers i t = {} else t = s"
proof (cases "i < NKSEM \<and> ks_used (ksems s i)")
  case True
  let ?u = "s\<lparr>ksems := (ksems s)(i := (ksems s i)\<lparr>ks_count := int32 (ks_count (ksems s i) + 1)\<rparr>)\<rparr>"
  have "sem_post (int i) s = Ret 0 (wake_all (Chan_ksem i) ?u)"
    using True assms(1) by (simp add: sem_post_eval runs_def)
  then have "r = 0" "t = wake_all (Chan_ksem i) ?u" using assms(2) by simp_all
  moreover have "sleepers i (wake_all (Chan_ksem i) ?u) = {}"
    using assms(1) by (intro sleepers_wake_all [of p "{}"]) (simp add: runs_def)
  ultimately show ?thesis by (simp add: wake_all_def)
next
  case False
  then show ?thesis using assms(2) by (auto simp: sem_post_def kmonad Let_def split: if_splits)
qed

lemma init_outcome:
  assumes "runs p {} s" "sem_init (int i) v s = Ret r t"
  shows "if r = 0 then 0 \<le> v \<and> ks_count (ksems t i) = v else t = s"
  using assms by (auto simp: sem_init_def kmonad Let_def runs_def kwhen_def split: if_splits)

section \<open>The invariant\<close>

definition sem_inv :: "nat \<Rightarrow> int \<Rightarrow> 'a sync_st_scheme \<times> sem_event list \<Rightarrow> bool" where
  "sem_inv i v = (\<lambda>(s, es). ks_count (ksems s i) = int32 (balance v es) \<and>
     (no_overflow v es \<longrightarrow> 0 \<le> balance v es \<and> balance v es < 2 ^ 31) \<and>
     (range Sem_set \<inter> set es = {} \<longrightarrow> ks_count (ksems s i) \<noteq> 0 \<longrightarrow> sleepers i s = {}))"

lemma sem_inv_wait:
  assumes "sem_inv i v (s, es)" "wait_outcome i s out"
  shows "out = Ret 0 t \<Longrightarrow> sem_inv i v (t, Waited # es)"
    and "out = Ret (-1) t \<or> out = Sched t \<Longrightarrow> sem_inv i v (t, es)"
proof -
  show "sem_inv i v (t, es)" if "out = Ret (-1) t \<or> out = Sched t"
    using that assms by (auto simp: sem_inv_def wait_outcome_def)
  assume o: "out = Ret 0 t"
  have "0 < balance v es" if "no_overflow v es"
  proof -
    have "int32 (balance v es) = balance v es" "0 \<le> balance v es"
      using that assms(1) by (auto simp: sem_inv_def intro!: int32_id)
    then show ?thesis using o assms by (auto simp: sem_inv_def wait_outcome_def)
  qed
  moreover have "ks_count (ksems t i) = int32 (balance v es - 1)" "ks_count (ksems s i) \<noteq> 0"
      "sleepers i t \<subseteq> sleepers i s"
    using o assms by (auto simp: sem_inv_def wait_outcome_def int32_diff)
  ultimately show "sem_inv i v (t, Waited # es)" using assms(1) by (simp add: sem_inv_def) fastforce
qed

interpretation ksm: inv_system "sem_start i v" "sem_step i" "sem_inv i v"
proof
  fix s :: "'a sync_st_scheme \<times> sem_event list"
  show "sem_start i v s \<Longrightarrow> sem_inv i v s" by (auto simp: sem_start_def sem_inv_def int32_id)
next
  fix x y :: "'a sync_st_scheme \<times> sem_event list"
  assume inv: "sem_inv i v x" and "sem_step i x y"
  from this(2) show "sem_inv i v y"
  proof cases
    case (wait p s t es)
    show ?thesis unfolding wait(2)
      by (rule sem_inv_wait(1) [OF inv [unfolded wait(1)] wait_outcome_first [OF wait(3)] wait(4)])
  next
    case (wait_fail p s t es)
    show ?thesis unfolding wait_fail(2)
      by (rule sem_inv_wait(2) [OF inv [unfolded wait_fail(1)] wait_outcome_first [OF wait_fail(3)] disjI1 [OF wait_fail(4)]])
  next
    case (wait_sleep p s t es)
    show ?thesis unfolding wait_sleep(2)
      by (rule sem_inv_wait(2) [OF inv [unfolded wait_sleep(1)] wait_outcome_first [OF wait_sleep(3)] disjI2 [OF wait_sleep(4)]])
  next
    case (resume p s t es)
    show ?thesis unfolding resume(2)
      by (rule sem_inv_wait(1) [OF inv [unfolded resume(1)] wait_outcome_resumed [OF resume(3)] resume(4)])
  next
    case (resume_fail p s t es)
    show ?thesis unfolding resume_fail(2)
      by (rule sem_inv_wait(2) [OF inv [unfolded resume_fail(1)] wait_outcome_resumed [OF resume_fail(3)] disjI1 [OF resume_fail(4)]])
  next
    case (resume_sleep p s t es)
    show ?thesis unfolding resume_sleep(2)
      by (rule sem_inv_wait(2) [OF inv [unfolded resume_sleep(1)] wait_outcome_resumed [OF resume_sleep(3)] disjI2 [OF resume_sleep(4)]])
  next
    case (post p s t es)
    then show ?thesis using inv post_outcome [OF post(3, 4)] by (simp add: sem_inv_def int32_add)
  next
    case (post_fail p s t es)
    then show ?thesis using inv post_outcome [OF post_fail(3, 4)] by simp
  next
    case (init p s w t es)
    then show ?thesis using init_outcome [OF init(3, 5)] by (simp add: sem_inv_def int32_id)
  next
    case (init_fail p s w t es)
    then show ?thesis using inv init_outcome [OF init_fail(3, 4)] by simp
  next
    case (other t s es)
    then show ?thesis using inv by (auto simp: sem_inv_def)
  qed
qed

section \<open>Properties\<close>

text \<open>A state in which process 0 is running and nobody sleeps, the semaphores at 0.\<close>

abbreviation (input) quiet :: sync_st where
  "quiet \<equiv> blank_sync (\<lambda>_. idle_proc\<lparr>p_state := RUNNING\<rparr>) ()"

lemma quiet_start: "reach (sem_start i 0) (sem_step i) (quiet, [])" "runs 0 {} quiet"
  by (rule reach_init) (simp_all add: sem_start_def sleepers_def runs_def blank)

text \<open>C22: however the runs of the semaphore handlers are interleaved, woken and resumed, the count is the
  initial value plus the posts minus the completed waits, reduced to a 32-bit \<^verbatim>\<open>int\<close>; and as long as
  that number has not exceeded the largest \<^verbatim>\<open>int\<close> it is the count itself and never negative, so no
  wait completes without a unit.\<close>

theorem sem_conservation:
  assumes "reach (sem_start i v) (sem_step i) (s, es)"
  shows "ks_count (ksems s i) = int32 (balance v es) \<and>
    (no_overflow v es \<longrightarrow> 0 \<le> balance v es \<and> ks_count (ksems s i) = balance v es)"
  using ksm.reach_inv [OF assms] by (auto simp: sem_inv_def int32_id)

theorem sem_conservation_witness:
  "\<exists>t :: sync_st. reach (sem_start 2 0) (sem_step 2) (t, [Waited, Posted]) \<and> no_overflow 0 [Waited, Posted] \<and>
     ks_count (ksems t 2) = 0"
proof -
  let ?t = "wake_all (Chan_ksem 2) (quiet\<lparr>ksems := (ksems quiet)(2 := \<lparr>ks_used = True, ks_count = 1\<rparr>)\<rparr>)"
  let ?u = "?t\<lparr>ksems := (ksems quiet)(2 := \<lparr>ks_used = True, ks_count = 0\<rparr>)\<rparr>"
  have "sem_post (int 2) quiet = Ret 0 ?t" by (subst sem_post_eval) (simp_all add: blank int32_id)
  then have p: "sem_step 2 (quiet, []) (?t, [Posted])" by (rule sem_step.post [OF quiet_start(2)])
  have "runs 0 {} ?t" "sem_wait (int 2) ?t = Ret 0 ?u"
    by (simp add: runs_def wake_all_def blank, subst sem_wait_eval [of _ _ 0]) (simp_all add: wake_all_def blank int32_id)
  then have w: "sem_step 2 (?t, [Posted]) (?u, [Waited, Posted])" by (rule sem_step.wait)
  have r: "reach (sem_start 2 0) (sem_step 2) (?u, [Waited, Posted])"
    by (rule reach_step [OF reach_step [OF quiet_start(1) p] w])
  from sem_conservation [OF r] r show ?thesis by (intro exI [of _ ?u]) simp
qed

text \<open>C23: no wakeup is lost.  However the handlers are interleaved, and as long as the semaphore is not
  initialised again, no process is asleep on it while its count is not 0.\<close>

theorem sem_no_lost_wakeup:
  assumes "reach (sem_start i v) (sem_step i) (s, es)" "range Sem_set \<inter> set es = {}"
    and "j < NPROC" "p_state (procs s j) = SLEEPING" "p_chan (procs s j) = Some (Chan_ksem i)"
  shows "ks_count (ksems s i) = 0"
  using ksm.reach_inv [OF assms(1)] assms(2-5) by (auto simp: sem_inv_def sleepers_def)

theorem sem_no_lost_wakeup_witness:
  "\<exists>t :: sync_st. reach (sem_start 2 0) (sem_step 2) (t, []) \<and> p_state (procs t 0) = SLEEPING \<and>
     p_chan (procs t 0) = Some (Chan_ksem 2) \<and> ks_count (ksems t 2) = 0"
proof -
  let ?t = "asleep 0 (Chan_ksem 2) quiet"
  have "sem_wait (int 2) quiet = Sched ?t" by (subst sem_wait_eval [of _ _ 0]) (simp_all add: blank idle_proc_def)
  then have "sem_step 2 (quiet, []) (?t, [])" by (rule sem_step.wait_sleep [OF quiet_start(2)])
  with quiet_start(1) have r: "reach (sem_start 2 0) (sem_step 2) (?t, [])" by (rule reach_step)
  from sem_no_lost_wakeup [OF r, of 0] r show ?thesis by (intro exI [of _ ?t]) (simp add: asleep_def)
qed

end
