(* ===== verification/Vm_Map.thy ===== *)
theory Vm_Map
  imports Vm
begin

unbundle bit_operations_syntax

text \<open>
  What the functions of \<^verbatim>\<open>kernel/vm.c\<close> do to the translation of a page table.  \<open>vm_ok s pt F\<close> says
  that the allocator is in order with free pages \<open>F\<close>, that \<open>pt\<close> is the root of a well-formed tree, and
  that the pages of the tree are allocated.
\<close>

section \<open>Invariant\<close>

definition vm_ok :: "'a proc_st_scheme \<Rightarrow> u64 \<Rightarrow> u64 set \<Rightarrow> bool" where
  "vm_ok s pt F \<longleftrightarrow> kmem_free s F \<and> pt_tree (phys s) pt \<and> pt_pages (phys s) pt \<subseteq> kmem_pool s - F"

text \<open>Progress of a function that may turn free pages into table pages: the free pages go from \<open>F\<close>
  to \<open>G\<close>, those taken are tables now, and memory outside the free pages and the tables is as before.\<close>

definition vm_step :: "u64 \<Rightarrow> 'a proc_st_scheme \<Rightarrow> u64 set \<Rightarrow> 'a proc_st_scheme \<Rightarrow> u64 set \<Rightarrow> bool" where
  "vm_step pt s F t G \<longleftrightarrow> vm_ok t pt G \<and> G \<subseteq> F \<and> vm_eq s t \<and>
     pt_pages (phys t) pt = pt_pages (phys s) pt \<union> (F - G) \<and>
     (\<forall>x. PGROUNDDOWN x \<notin> F \<union> pt_pages (phys s) pt \<longrightarrow> phys t x = phys s x)"

definition same_ptes :: "u64 \<Rightarrow> 'a proc_st_scheme \<Rightarrow> 'a proc_st_scheme \<Rightarrow> bool" where
  "same_ptes pt s t \<longleftrightarrow> (\<forall>va. pte_of (phys t) pt va = pte_of (phys s) pt va)"

lemma vm_step_refl: "vm_ok s pt F \<Longrightarrow> vm_step pt s F s F"
  by (auto simp: vm_step_def vmf.refl)

lemma vm_step_trans:
  assumes "vm_step pt s F t G" "vm_step pt t G u H"
  shows "vm_step pt s F u H"
proof -
  have "vm_eq s u" using assms vmf.trans by (auto simp: vm_step_def)
  then show ?thesis using assms by (auto simp: vm_step_def)
qed

lemma same_ptes_refl [simp]: "same_ptes pt s s"
  by (simp add: same_ptes_def)

lemma same_ptes_trans: "same_ptes pt s t \<Longrightarrow> same_ptes pt t u \<Longrightarrow> same_ptes pt s u"
  by (simp add: same_ptes_def)

lemma kmem_pool_page: "p \<in> kmem_pool s \<Longrightarrow> aligned 12 p \<and> p \<noteq> 0 \<and> unat p < 0x88000000"
  by (auto simp: kmem_pool_def page_ok_def page_mod_aligned word_less_nat_alt)

lemma vm_eq_pool: "vm_eq s t \<Longrightarrow> kmem_pool t = kmem_pool s"
  unfolding vm_eq_upd by (elim exE) (simp add: kmem_pool_def page_ok_def)

lemma free_in_pool: "kmem_free s F \<Longrightarrow> F \<subseteq> kmem_pool s"
  by (auto simp: kmem_free_def kmem_ok_def kmem_pool_def)

lemma page_of_offset: "aligned 12 p \<Longrightarrow> unat (x - p) < 4096 \<longleftrightarrow> PGROUNDDOWN x = p"
proof
  assume al: "aligned 12 p" and lt: "unat (x - p) < 4096"
  show "PGROUNDDOWN x = p"
  proof (rule ccontr)
    define q where "q = PGROUNDDOWN x"
    assume "PGROUNDDOWN x \<noteq> p"
    then have ne: "p \<noteq> q" by (simp add: q_def)
    have off: "unat (x - q) < 4096"
      using unat_sub [OF PGROUNDDOWN_le [of x]] by (simp add: q_def unat_PGROUNDDOWN)
    have "4096 \<le> unat ((q + of_nat (unat (x - q))) - p)"
      using aligned_apart [of 12 p q "unat (x - q)"] al ne off by (simp add: q_def)
    then show False using lt by simp
  qed
next
  assume "PGROUNDDOWN x = p"
  then show "unat (x - p) < 4096"
    using unat_sub [OF PGROUNDDOWN_le [of x]] by (auto simp: unat_PGROUNDDOWN)
qed

lemma memset_twice: "memset (memset m p c 4096) p d 4096 = memset m p d 4096"
  by (simp add: fun_eq_iff memset_apply)

text \<open>Allocating and clearing a page.\<close>

lemma kalloc_zero:
  assumes "kmem_free s F"
  shows "(F = {} \<and> kalloc s = Ret 0 s) \<or>
    (\<exists>q t. q \<in> F \<and> kalloc s = Ret q t \<and> q \<noteq> 0 \<and> vm_eq s t \<and> phys t = memset (phys s) q 5 4096 \<and>
       kmem_free t (F - {q}))"
proof (cases "F = {}")
  case True
  then show ?thesis using assms kmem.alloc_none [of s] by simp
next
  case False
  with assms obtain x xs where ok: "kmem_ok s (x # xs)" and F: "F = set (x # xs)"
    unfolding kmem_free_def by (metis list.exhaust set_empty)
  let ?t = "s\<lparr>freelist := load64 (phys s) x, phys := memset (phys s) x 5 4096\<rparr>"
  have "F - {x} = set xs" "x \<noteq> 0" using ok F by (auto simp: kmem_ok_def page_ok_def)
  then show ?thesis using kalloc_cons [OF ok] kalloc_cons_ok [OF ok] F
    by (intro disjI2 exI [of _ x] exI [of _ ?t]) (auto simp: kmem_free_def vm_eq_def)
qed

lemma vm_eq_phys: "vm_eq s t \<Longrightarrow> vm_eq s (t\<lparr>phys := m\<rparr>)"
  by (erule vmf.trans) (simp add: vm_eq_def)

lemma kmem_free_frame:
  assumes "kmem_free s F" "held t = held s" "kend t = kend s" "freelist t = freelist s"
    "\<And>x. PGROUNDDOWN x \<in> F \<Longrightarrow> phys t x = phys s x"
  shows "kmem_free t F"
proof -
  from assms(1) obtain xs where ok: "kmem_ok s xs" and F: "F = set xs" by (auto simp: kmem_free_def)
  have "chain (phys t) (freelist s) xs = chain (phys s) (freelist s) xs"
  proof (rule chain_cong, rule load64_eqI)
    fix q i assume q: "q \<in> set xs" and "i < (8 :: nat)"
    then have "aligned 12 q" "unat (q + of_nat i - q) < 4096"
      using ok by (auto simp: kmem_ok_def page_ok_aligned unat_of_nat)
    then have "PGROUNDDOWN (q + of_nat i) = q" using page_of_offset by blast
    then show "phys t (q + of_nat i) = phys s (q + of_nat i)" using assms(5) q F by simp
  qed
  then have "kmem_ok t xs" using ok assms(2-4) by (simp add: kmem_ok_def page_ok_def)
  then show ?thesis using F by (auto simp: kmem_free_def)
qed

lemma store_slot_other:
  assumes "aligned 12 p" "k < 512" "\<not> unat (x - p) < 4096"
  shows "store64 m (p + 8 * of_nat k) v x = m x"
proof (rule store64_apply, rule ccontr)
  define y where "y = x - (p + 8 * of_nat k)"
  assume "\<not> 8 \<le> unat (x - (p + 8 * of_nat k))"
  then have y: "unat y < 8" by (simp add: y_def)
  then have "unat (y + of_nat (8 * k)) = unat y + 8 * k"
    using assms(2) by (intro unat_offset [of _ 4096]) auto
  moreover have "y + of_nat (8 * k) = x - p" by (simp add: y_def)
  ultimately show False using y assms(2,3) by simp
qed

text \<open>A table page hung into the tree.\<close>

lemma vm_new_table:
  assumes ok: "vm_ok s pt F" and p: "node (phys s) pt xs = Some p" "is_path (xs @ [k])"
    and free: "sub_table (phys s) p k = None"
    and q: "q \<in> F" and t: "vm_eq s t" "phys t = memset (phys s) q 5 4096" "kmem_free t (F - {q})"
  defines "u \<equiv> t\<lparr>phys := store64 (memset (phys t) q 0 4096) (p + 8 * of_nat k) (PA2PTE q OR PTE_V)\<rparr>"
  shows "vm_step pt s F u (F - {q})" and "same_ptes pt s u" and "node (phys u) pt (xs @ [k]) = Some q"
proof -
  have pool: "pt_pages (phys s) pt \<subseteq> kmem_pool s - F" and tree: "pt_tree (phys s) pt"
    and fr: "kmem_free s F" using ok by (auto simp: vm_ok_def)
  have qq: "aligned 12 q" "unat q < 2 ^ 56" "q \<notin> pt_pages (phys s) pt" "q \<in> kmem_pool s"
    using q free_in_pool [OF fr] kmem_pool_page [of q s] pool by auto
  have pp: "p \<in> pt_pages (phys s) pt" using p by (intro node_in_pages [of xs]) (auto simp: is_path_def)
  then have al: "aligned 12 p" using tree by (simp add: pt_tree_def)
  have k: "k < 512" using p(2) by (simp add: is_path_def)
  have m: "phys u = store64 (memset (phys s) q 0 4096) (p + 8 * of_nat k) (PA2PTE q OR PTE_V)"
    by (simp add: u_def t memset_twice)
  note new = pt_new_table [OF tree p free qq(1,3,2), folded m]
  have mem: "phys u x = phys s x" if "PGROUNDDOWN x \<noteq> q" "PGROUNDDOWN x \<noteq> p" for x
  proof -
    have "\<not> unat (x - q) < 4096" "\<not> unat (x - p) < 4096"
      using that page_of_offset [OF qq(1), of x] page_of_offset [OF al, of x] by auto
    then show ?thesis by (simp add: m store_slot_other [OF al k] memset_apply)
  qed
  have eq: "vm_eq s u" unfolding u_def by (rule vm_eq_phys [OF t(1)])
  have "kmem_free u (F - {q})"
  proof (rule kmem_free_frame [OF t(3)])
    show "held u = held t" "kend u = kend t" "freelist u = freelist t" by (simp_all add: u_def)
    fix x assume x: "PGROUNDDOWN x \<in> F - {q}"
    then have "\<not> unat (x - q) < 4096" using page_of_offset [OF qq(1), of x] by auto
    moreover have "PGROUNDDOWN x \<noteq> p" using x pp pool by auto
    ultimately show "phys u x = phys t x" using mem [of x] x t(2) by (simp add: memset_apply)
  qed
  moreover have "phys u x = phys s x" if "PGROUNDDOWN x \<notin> F \<union> pt_pages (phys s) pt" for x
    by (rule mem) (use that q pp in auto)
  ultimately show "vm_step pt s F u (F - {q})"
    using new(2,3) q eq qq(4) pool by (auto simp: vm_step_def vm_ok_def vm_eq_pool [OF eq])
  show "same_ptes pt s u" using new(4) by (simp add: same_ptes_def pte_of_def)
  show "node (phys u) pt (xs @ [k]) = Some q" using new(1) [OF p(2)] by simp
qed

section \<open>walk\<close>

lemma invalid_bit: "(v :: u64) AND PTE_V = 0 \<longleftrightarrow> \<not> bit v 0"
  using valid_bit [of v] by blast


lemma walk_noalloc:
  assumes "va < MAXVA"
  shows "walk pt va False s =
    Ret (case node (phys s) pt [px 2 va, px 1 va] of None \<Rightarrow> 0 | Some p \<Rightarrow> p + 8 * of_nat (px 0 va)) s"
  using assms
  by (auto simp: walk_def numeral_2_eq_2 kmonad valid_bit PX_px node_pair sub_table_def ent_def Let_def
      not_le split: option.split)

lemma walk_level:
  assumes ok: "vm_ok s pt F" and p: "node (phys s) pt xs = Some p" "is_path (xs @ [px (Suc l) va])"
  shows "(F = {} \<and> walk_from (Suc l) p va True s = Ret 0 s) \<or>
    (\<exists>q t G. walk_from (Suc l) p va True s = walk_from l q va True t \<and> vm_step pt s F t G \<and>
      same_ptes pt s t \<and> node (phys t) pt (xs @ [px (Suc l) va]) = Some q \<and> card (F - G) \<le> 1)"
proof (cases "sub_table (phys s) p (px (Suc l) va)")
  case (Some q)
  then have "walk_from (Suc l) p va True s = walk_from l q va True s"
    by (auto simp: kmonad valid_bit PX_px sub_table_def ent_def Let_def split: if_splits)
  moreover have "node (phys s) pt (xs @ [px (Suc l) va]) = Some q"
    using p(1) Some by (simp add: node_append node_single)
  ultimately show ?thesis using vm_step_refl [OF ok] by (intro disjI2 exI [of _ q] exI [of _ s]) auto
next
  case None
  then have inv: "load64 (phys s) (p + 8 * PX (Suc l) va) AND PTE_V = 0"
    by (auto simp: invalid_bit PX_px sub_table_def ent_def split: if_splits)
  have fr: "kmem_free s F" using ok by (simp add: vm_ok_def)
  from kalloc_zero [OF fr] show ?thesis
  proof (elim disjE exE conjE)
    assume "F = {}" "kalloc s = Ret 0 s"
    then show ?thesis using inv by (simp add: kmonad Let_def)
  next
    fix q t
    assume q: "q \<in> F" "kalloc s = Ret q t" "q \<noteq> 0" "vm_eq s t" "phys t = memset (phys s) q 5 4096"
      "kmem_free t (F - {q})"
    let ?u = "t\<lparr>phys := store64 (memset (phys t) q 0 4096) (p + 8 * of_nat (px (Suc l) va)) (PA2PTE q OR PTE_V)\<rparr>"
    have "walk_from (Suc l) p va True s = walk_from l q va True ?u"
      using inv q(2,3) by (simp add: kmonad Let_def kzero_def PX_px)
    moreover have "F - (F - {q}) = {q}" using q(1) by blast
    then have "card (F - (F - {q})) \<le> 1" by simp
    ultimately show ?thesis using vm_new_table [OF ok p None q(1,4,5,6)] by blast
  qed
qed

lemma slot_nonzero:
  assumes "vm_ok s pt F" "node (phys s) pt xs = Some p" "is_path xs" "k < 512"
  shows "p + 8 * of_nat k \<noteq> 0"
proof -
  have "p \<in> kmem_pool s" using assms node_in_pages [OF assms(3,2)] by (auto simp: vm_ok_def)
  then have "unat p < 0x88000000" "p \<noteq> 0" using kmem_pool_page by auto
  have "unat (p + of_nat (8 * k)) = unat p + 8 * k"
    by (rule unat_offset [of _ 4096]) (use assms(4) \<open>unat p < 0x88000000\<close> in auto)
  moreover have "unat p \<noteq> 0" using \<open>p \<noteq> 0\<close> by (simp add: unsigned_eq_0_iff)
  ultimately have "unat (p + of_nat (8 * k)) \<noteq> 0" by linarith
  then have "p + of_nat (8 * k) \<noteq> 0" by (metis unat_0)
  then show ?thesis by simp
qed

lemma walk_alloc:
  assumes ok: "vm_ok s pt F" and va: "va < MAXVA"
  shows "\<exists>r t G. walk pt va True s = Ret r t \<and> vm_step pt s F t G \<and> same_ptes pt s t \<and> card (F - G) \<le> 2 \<and>
    (r = 0 \<and> G = {} \<or>
     r \<noteq> 0 \<and> (\<exists>p. node (phys t) pt [px 2 va, px 1 va] = Some p \<and> r = p + 8 * of_nat (px 0 va)))"
proof -
  from va have nle: "\<not> MAXVA \<le> va" by (simp only: not_le)
  have w: "walk pt va True s = walk_from (Suc (Suc 0)) pt va True s"
    unfolding walk_def numeral_2_eq_2 if_not_P [OF nle] ..
  have "node (phys s) pt [] = Some pt" "is_path ([] @ [px (Suc (Suc 0)) va])" by simp_all
  from walk_level [OF ok this] show ?thesis
  proof (elim disjE exE conjE)
    assume "F = {}" "walk_from (Suc (Suc 0)) pt va True s = Ret 0 s"
    then show ?thesis using w vm_step_refl [OF ok] by auto
  next
    fix q t G
    assume 1: "walk_from (Suc (Suc 0)) pt va True s = walk_from (Suc 0) q va True t"
      "vm_step pt s F t G" "same_ptes pt s t" "node (phys t) pt ([] @ [px (Suc (Suc 0)) va]) = Some q"
      "card (F - G) \<le> 1"
    have ok1: "vm_ok t pt G" using 1(2) by (simp add: vm_step_def)
    have "is_path (([] @ [px (Suc (Suc 0)) va]) @ [px (Suc 0) va])" by simp
    from walk_level [OF ok1 1(4) this] show ?thesis
    proof (elim disjE exE conjE)
      assume "G = {}" "walk_from (Suc 0) q va True t = Ret 0 t"
      then show ?thesis using w 1 by auto
    next
      fix q' t' G'
      assume 2: "walk_from (Suc 0) q va True t = walk_from 0 q' va True t'" "vm_step pt t G t' G'"
        "same_ptes pt t t'" "node (phys t') pt (([] @ [px (Suc (Suc 0)) va]) @ [px (Suc 0) va]) = Some q'"
        "card (G - G') \<le> 1"
      have "F - G' = (F - G) \<union> (G - G')" using 1(2) 2(2) by (auto simp: vm_step_def)
      then have c: "card (F - G') \<le> 2" using card_Un_le [of "F - G" "G - G'"] 1(5) 2(5) by simp
      have ok2: "vm_ok t' pt G'" using 2(2) by (simp add: vm_step_def)
      have "q' + 8 * of_nat (px 0 va) \<noteq> 0" by (rule slot_nonzero [OF ok2 2(4)]) simp_all
      moreover have "walk pt va True s = Ret (q' + 8 * of_nat (px 0 va)) t'"
        using w 1(1) 2(1) by (simp add: kmonad PX_px)
      ultimately show ?thesis using vm_step_trans [OF 1(2) 2(2)] same_ptes_trans [OF 1(3) 2(3)] 2(4) c
        by (auto simp: numeral_2_eq_2)
    qed
  qed
qed

section \<open>Reading and writing entries\<close>

definition vpn :: "u64 \<Rightarrow> nat \<times> nat \<times> nat" where
  "vpn va = (px 2 va, px 1 va, px 0 va)"

lemma PX_PGROUNDDOWN: "PX l (PGROUNDDOWN va) = PX l va"
  proof (rule bit_word_eqI)
  fix n
  have "bit (PGROUNDDOWN va) (12 + 9 * l + n) = bit va (12 + 9 * l + n)"
    using bit_imp_le_length [of va "12 + 9 * l + n"] by (auto simp: PGROUNDDOWN_shift bit_simps ac_simps)
  then show "bit (PX l (PGROUNDDOWN va)) n = bit (PX l va) n" by (simp add: bit_PX)
qed

lemma vpn_PGROUNDDOWN [simp]: "vpn (PGROUNDDOWN va) = vpn va"
  by (simp add: vpn_def px_def PX_PGROUNDDOWN)

lemma vpn_eq_iff:
  assumes "a < MAXVA" "b < MAXVA"
  shows "vpn a = vpn b \<longleftrightarrow> PGROUNDDOWN a = PGROUNDDOWN b"
proof -
  have "unat (PGROUNDDOWN c) < 2 ^ 39" if "c < MAXVA" for c
    using that PGROUNDDOWN_le [of c] by (simp add: word_less_nat_alt word_le_nat_alt)
  then have "px 2 (PGROUNDDOWN a) = px 2 (PGROUNDDOWN b) \<and> px 1 (PGROUNDDOWN a) = px 1 (PGROUNDDOWN b) \<and>
    px 0 (PGROUNDDOWN a) = px 0 (PGROUNDDOWN b) \<longleftrightarrow> PGROUNDDOWN a = PGROUNDDOWN b"
    using assms by (intro px_eq_iff) simp_all
  then show ?thesis using vpn_PGROUNDDOWN [of a] vpn_PGROUNDDOWN [of b] by (auto simp: vpn_def)
qed

lemma pte_of_vpn: "vpn a = vpn b \<Longrightarrow> pte_of m pt a = pte_of m pt b"
  by (simp add: vpn_def pte_of_def)

lemma pte_of_node:
  "node m pt [px 2 va, px 1 va] = Some p \<Longrightarrow> pte_of m pt va = load64 m (p + 8 * of_nat (px 0 va))"
  "node m pt [px 2 va, px 1 va] = None \<Longrightarrow> pte_of m pt va = 0"
  by (simp_all add: pte_of_def pte_at_def ent_def)

text \<open>The walk without allocation, with what its callers do first: read the entry.\<close>

lemma walk_read:
  assumes "vm_ok s pt F" "va < MAXVA"
  obtains "walk pt va False s = Ret 0 s" "pte_of (phys s) pt va = 0"
  | a p where "walk pt va False s = Ret a s" "a \<noteq> 0" "pte_get a s = Ret (pte_of (phys s) pt va) s"
      "node (phys s) pt [px 2 va, px 1 va] = Some p" "a = p + 8 * of_nat (px 0 va)"
proof (cases "node (phys s) pt [px 2 va, px 1 va]")
  case None
  then show thesis using that(1) walk_noalloc [OF assms(2), of pt s] pte_of_node(2) by simp
next
  case (Some p)
  have "p + 8 * of_nat (px 0 va) \<noteq> 0" by (rule slot_nonzero [OF assms(1) Some]) simp_all
  then show thesis using that(2) [of "p + 8 * of_nat (px 0 va)" p] Some
    walk_noalloc [OF assms(2), of pt s] pte_of_node(1) [OF Some]
    by (simp add: pte_get_def kmonad)
qed

lemma vm_store_leaf:
  fixes v :: u64
  assumes ok: "vm_ok s pt F" and p: "node (phys s) pt [px 2 va, px 1 va] = Some p"
  defines "u \<equiv> s\<lparr>phys := store64 (phys s) (p + 8 * of_nat (px 0 va)) v\<rparr>"
  shows "vm_step pt s F u F"
    and "pte_of (phys u) pt vb = (if vpn vb = vpn va then v else pte_of (phys s) pt vb)"
proof -
  have tree: "pt_tree (phys s) pt" using ok by (simp add: vm_ok_def)
  note st = pt_store_leaf [OF tree p px_less px_less, where k = "px 0 va" and v = v, OF px_less]
  have pp: "p \<in> pt_pages (phys s) pt" by (rule node_in_pages [OF _ p]) simp
  then have al: "aligned 12 p" using tree by (simp add: pt_tree_def)
  have mem: "phys u x = phys s x" if "PGROUNDDOWN x \<noteq> p" for x
    using that page_of_offset [OF al, of x] by (simp add: u_def store_slot_other [OF al px_less])
  have "p \<notin> F" using ok pp by (auto simp: vm_ok_def)
  have "kmem_free u F"
  proof (rule kmem_free_frame [of s])
    show "kmem_free s F" using ok by (simp add: vm_ok_def)
    show "phys u x = phys s x" if "PGROUNDDOWN x \<in> F" for x
      by (rule mem) (use that \<open>p \<notin> F\<close> in blast)
  qed (simp_all add: u_def)
  moreover have "vm_eq s u" unfolding u_def by (rule vm_eq_phys [OF vmf.refl])
  moreover have "pt_tree (phys u) pt" "pt_pages (phys u) pt = pt_pages (phys s) pt"
    using st(2,3) by (simp_all add: u_def)
  moreover have "phys u x = phys s x" if "PGROUNDDOWN x \<notin> F \<union> pt_pages (phys s) pt" for x
    by (rule mem) (use that pp in blast)
  ultimately show "vm_step pt s F u F"
    using ok by (auto simp: vm_step_def vm_ok_def vm_eq_pool)
  show "pte_of (phys u) pt vb = (if vpn vb = vpn va then v else pte_of (phys s) pt vb)"
    using st(4) [OF px_less px_less px_less, of 2 vb 1 vb 0 vb]
    by (auto simp: u_def pte_of_def vpn_def)
qed

lemma walkaddr_eval:
  assumes "vm_ok s pt F"
  shows "walkaddr pt va s = Ret (if va < MAXVA \<and> bit (pte_of (phys s) pt va) 0 \<and>
    pte_of (phys s) pt va AND PTE_U \<noteq> 0 then PTE2PA (pte_of (phys s) pt va) else 0) s"
proof (cases "va < MAXVA")
  case True
  then have "\<not> MAXVA \<le> va" by (simp only: not_le)
  with walk_read [OF assms True] True show ?thesis
    by cases (auto simp: walkaddr_def kmonad invalid_bit)
next
  case False
  then have "MAXVA \<le> va" by (simp only: not_less)
  then show ?thesis using False by (simp add: walkaddr_def kmonad)
qed

section \<open>mappages\<close>

lemma mappage_spec:
  assumes ok: "vm_ok s pt F" and va: "va < MAXVA" and fresh: "\<not> bit (pte_of (phys s) pt va) 0"
  shows "\<exists>t G. vm_step pt s F t G \<and> card (F - G) \<le> 2 \<and>
    (mappage pt va pa perm s = Ret (Some (-1)) t \<and> G = {} \<and> same_ptes pt s t \<or>
     mappage pt va pa perm s = Ret None t \<and>
     (\<forall>vb. pte_of (phys t) pt vb =
        (if vpn vb = vpn va then PA2PTE pa OR perm OR PTE_V else pte_of (phys s) pt vb)))"
proof -
  from walk_alloc [OF ok va] obtain r t G where w: "walk pt va True s = Ret r t" "vm_step pt s F t G"
    "same_ptes pt s t" "card (F - G) \<le> 2" and cases: "r = 0 \<and> G = {} \<or>
     r \<noteq> 0 \<and> (\<exists>p. node (phys t) pt [px 2 va, px 1 va] = Some p \<and> r = p + 8 * of_nat (px 0 va))" by blast
  from cases show ?thesis
  proof (elim disjE conjE exE)
    assume "r = 0" "G = {}"
    then show ?thesis using w by (intro exI [of _ t] exI [of _ G]) (simp add: mappage_def kmonad)
  next
    fix p assume r: "r \<noteq> 0" and p: "node (phys t) pt [px 2 va, px 1 va] = Some p" "r = p + 8 * of_nat (px 0 va)"
    let ?v = "PA2PTE pa OR perm OR PTE_V"
    let ?u = "t\<lparr>phys := store64 (phys t) (p + 8 * of_nat (px 0 va)) ?v\<rparr>"
    have okt: "vm_ok t pt G" using w(2) by (simp add: vm_step_def)
    note st = vm_store_leaf [OF okt p(1), of ?v]
    have "load64 (phys t) r AND PTE_V = 0"
      using fresh w(3) pte_of_node(1) [OF p(1)] p(2) by (simp add: same_ptes_def invalid_bit)
    then have "mappage pt va pa perm s = Ret None ?u"
      using w(1) r p(2) by (simp add: mappage_def kmonad pte_get_def pte_set_def)
    moreover have "vm_step pt s F ?u G" by (rule vm_step_trans [OF w(2) st(1)])
    ultimately show ?thesis using st(2) w(3, 4) by (auto simp: same_ptes_def)
  qed
qed

lemma walk_present:
  assumes "node (phys s) pt [px 2 va, px 1 va] = Some p"
  shows "walk pt va True s = walk pt va False s"
proof -
  from assms obtain q where q: "sub_table (phys s) pt (px 2 va) = Some q" "sub_table (phys s) q (px 1 va) = Some p"
    by (auto simp: node_pair split: option.splits)
  then show ?thesis
    by (auto simp: walk_def numeral_2_eq_2 kmonad valid_bit PX_px sub_table_def ent_def Let_def
        split: if_splits)
qed

lemma mappage_remap:
  assumes ok: "vm_ok s pt F" and va: "va < MAXVA" and taken: "bit (pte_of (phys s) pt va) 0"
  shows "mappage pt va pa perm s = Panic ''mappages: remap''"
  using ok va
proof (cases rule: walk_read)
  case 1
  then show ?thesis using taken by simp
next
  case (2 a p)
  then show ?thesis using walk_present [OF 2(4)] taken by (simp add: mappage_def kmonad valid_bit)
qed

text \<open>The pages of a range of \<open>n\<close> pages that lies below \<^verbatim>\<open>MAXVA\<close>.\<close>

definition user_range :: "u64 \<Rightarrow> nat \<Rightarrow> bool" where
  "user_range va n \<longleftrightarrow> aligned 12 va \<and> unat va + n * 4096 \<le> 0x4000000000"

abbreviation nth_page :: "u64 \<Rightarrow> nat \<Rightarrow> u64" where
  "nth_page va i \<equiv> va + of_nat i * PGSIZE"

definition in_range :: "u64 \<Rightarrow> nat \<Rightarrow> u64 \<Rightarrow> bool" where
  "in_range va n vb \<longleftrightarrow> (\<exists>i<n. vpn vb = vpn (nth_page va i))"

lemma unat_nth_page:
  assumes "user_range va n" "i < n"
  shows "unat (nth_page va i) = unat va + i * 4096" and "nth_page va i < MAXVA"
    and "aligned 12 (nth_page va i)"
proof -
  have le: "unat va + i * 4096 + 4096 \<le> 0x4000000000"
    using assms mult_le_mono1 [of "Suc i" n 4096] by (simp add: user_range_def)
  have "unat (va + of_nat (i * 4096)) = unat va + i * 4096"
    by (rule unat_offset [of _ "i * 4096 + 1"]) (use le in simp_all)
  then show u: "unat (nth_page va i) = unat va + i * 4096" by simp
  then show "nth_page va i < MAXVA" using le by (simp add: word_less_nat_alt)
  have "4096 dvd unat va" using assms(1) by (simp add: user_range_def aligned_dvd)
  then show "aligned 12 (nth_page va i)" by (simp add: aligned_dvd u)
qed

lemma nth_page_inj:
  assumes "user_range va n" "i < n" "j < n"
  shows "vpn (nth_page va i) = vpn (nth_page va j) \<longleftrightarrow> i = j"
proof -
  note u = unat_nth_page [OF assms(1)]
  have "vpn (nth_page va i) = vpn (nth_page va j) \<longleftrightarrow> nth_page va i = nth_page va j"
    using vpn_eq_iff [OF u(2) u(2)] assms u(3) by (simp add: PGROUNDDOWN_aligned)
  also have "\<dots> \<longleftrightarrow> unat va + i * 4096 = unat va + j * 4096"
    using u(1) assms(2,3) by (metis word_unat_eq_iff)
  finally show ?thesis by simp
qed

lemma mappages_loop:
  assumes "vm_ok s pt F" "user_range va n" "k \<le> n"
    "\<And>i. k \<le> i \<Longrightarrow> i < n \<Longrightarrow> \<not> bit (pte_of (phys s) pt (nth_page va i)) 0"
  shows "\<exists>r t G. kfind [k..<n] (\<lambda>i. mappage pt (nth_page va i) (nth_page pa i) perm) s = Ret r t \<and>
    vm_step pt s F t G \<and>
    (\<forall>vb. \<not> in_range va n vb \<longrightarrow> pte_of (phys t) pt vb = pte_of (phys s) pt vb) \<and>
    (\<forall>i<k. pte_of (phys t) pt (nth_page va i) = pte_of (phys s) pt (nth_page va i)) \<and>
    (r = Some (-1) \<and> G = {} \<or>
     r = None \<and> (\<forall>i. k \<le> i \<longrightarrow> i < n \<longrightarrow> pte_of (phys t) pt (nth_page va i) = PA2PTE (nth_page pa i) OR perm OR PTE_V))"
  using assms
proof (induction "n - k" arbitrary: k s F)
  case 0
  then show ?case using vm_step_refl [OF 0(2)]
    by (intro exI [of _ None] exI [of _ s] exI [of _ F]) (auto simp: kmonad)
next
  case (Suc d)
  then have k: "k < n" by simp
  note va = unat_nth_page [OF Suc.prems(2) k]
  have fresh: "\<not> bit (pte_of (phys s) pt (nth_page va k)) 0" using Suc.prems(4) k by simp
  have range: "in_range va n vb" if "vpn vb = vpn (nth_page va k)" for vb
    using that k by (auto simp: in_range_def)
  from mappage_spec [OF Suc.prems(1) va(2) fresh, of "nth_page pa k" perm] obtain t G
    where t: "vm_step pt s F t G" and cases:
      "mappage pt (nth_page va k) (nth_page pa k) perm s = Ret (Some (-1)) t \<and> G = {} \<and> same_ptes pt s t \<or>
       mappage pt (nth_page va k) (nth_page pa k) perm s = Ret None t \<and>
       (\<forall>vb. pte_of (phys t) pt vb = (if vpn vb = vpn (nth_page va k)
          then PA2PTE (nth_page pa k) OR perm OR PTE_V else pte_of (phys s) pt vb))" by blast
  from cases show ?case
  proof (elim disjE conjE)
    assume "mappage pt (nth_page va k) (nth_page pa k) perm s = Ret (Some (-1)) t" "G = {}" "same_ptes pt s t"
    then show ?thesis using t k
      by (intro exI [of _ "Some (-1)"] exI [of _ t] exI [of _ G])
        (simp add: upt_conv_Cons kmonad same_ptes_def)
  next
    assume m: "mappage pt (nth_page va k) (nth_page pa k) perm s = Ret None t"
      and new: "\<forall>vb. pte_of (phys t) pt vb = (if vpn vb = vpn (nth_page va k)
          then PA2PTE (nth_page pa k) OR perm OR PTE_V else pte_of (phys s) pt vb)"
    have okt: "vm_ok t pt G" using t by (simp add: vm_step_def)
    have same: "pte_of (phys t) pt (nth_page va i) = pte_of (phys s) pt (nth_page va i)" if "i \<noteq> k" "i < n" for i
      using new nth_page_inj [OF Suc.prems(2) that(2) k] that(1) by simp
    have "d = n - Suc k" "Suc k \<le> n" using Suc.hyps(2) k by auto
    moreover have "\<not> bit (pte_of (phys t) pt (nth_page va i)) 0" if "Suc k \<le> i" "i < n" for i
      using same [of i] Suc.prems(4) that by simp
    ultimately obtain r u H where u: "kfind [Suc k..<n] (\<lambda>i. mappage pt (nth_page va i) (nth_page pa i) perm) t = Ret r u"
      "vm_step pt t G u H" "\<forall>vb. \<not> in_range va n vb \<longrightarrow> pte_of (phys u) pt vb = pte_of (phys t) pt vb"
      "\<forall>i<Suc k. pte_of (phys u) pt (nth_page va i) = pte_of (phys t) pt (nth_page va i)"
      "r = Some (-1) \<and> H = {} \<or> r = None \<and> (\<forall>i. Suc k \<le> i \<longrightarrow> i < n \<longrightarrow>
         pte_of (phys u) pt (nth_page va i) = PA2PTE (nth_page pa i) OR perm OR PTE_V)"
      using Suc.hyps(1) [OF _ okt Suc.prems(2)] by blast
    have "kfind [k..<n] (\<lambda>i. mappage pt (nth_page va i) (nth_page pa i) perm) s = Ret r u"
      using m u(1) k by (simp add: upt_conv_Cons kmonad)
    moreover have "\<forall>vb. \<not> in_range va n vb \<longrightarrow> pte_of (phys u) pt vb = pte_of (phys s) pt vb"
      using u(3) new range by auto
    moreover have "\<forall>i<k. pte_of (phys u) pt (nth_page va i) = pte_of (phys s) pt (nth_page va i)"
      using u(4) same k by simp
    moreover have "pte_of (phys u) pt (nth_page va i) = PA2PTE (nth_page pa i) OR perm OR PTE_V"
      if "r = None" "k \<le> i" "i < n" for i
      using u(4,5) new that by (cases "i = k") auto
    ultimately show ?thesis using vm_step_trans [OF t u(2)] u(5) by blast
  qed
qed

lemma mappages_eval:
  assumes "aligned 12 va" "0 < n" "n < 2 ^ 52"
  shows "mappages pt va (of_nat n * PGSIZE) pa perm s =
    (case kfind [0..<n] (\<lambda>i. mappage pt (nth_page va i) (nth_page pa i) perm) s of
       Ret r t \<Rightarrow> Ret (case r of Some e \<Rightarrow> e | None \<Rightarrow> 0) t
     | Panic e \<Rightarrow> Panic e | Sched t \<Rightarrow> Sched t)"
proof -
  have u: "unat (of_nat n * PGSIZE) = n * 4096" "unat ((of_nat n * PGSIZE) div PGSIZE) = n"
    using assms(3) by (simp_all add: unat_word_ariths unat_of_nat unat_div)
  have "aligned 12 (of_nat n * PGSIZE)" by (simp add: aligned_dvd u)
  then have "(of_nat n * PGSIZE) mod PGSIZE = 0" by (simp only: page_mod_aligned)
  moreover have "va mod PGSIZE = 0" using assms(1) by (simp only: page_mod_aligned)
  moreover have "of_nat n * PGSIZE \<noteq> 0" using u(1) assms(2) by (metis mult_eq_0_iff neq0_conv unat_0 zero_neq_numeral)
  ultimately show ?thesis unfolding mappages_def u by (simp add: kmonad split: out.split)
qed

lemma mappages_spec:
  assumes ok: "vm_ok s pt F" and rg: "user_range va n" and n: "0 < n"
    and fresh: "\<And>i. i < n \<Longrightarrow> \<not> bit (pte_of (phys s) pt (nth_page va i)) 0"
  shows "\<exists>r t G. mappages pt va (of_nat n * PGSIZE) pa perm s = Ret r t \<and> vm_step pt s F t G \<and>
    (\<forall>vb. \<not> in_range va n vb \<longrightarrow> pte_of (phys t) pt vb = pte_of (phys s) pt vb) \<and>
    (r = -1 \<and> G = {} \<or>
     r = 0 \<and> (\<forall>i<n. pte_of (phys t) pt (nth_page va i) = PA2PTE (nth_page pa i) OR perm OR PTE_V))"
proof -
  have "aligned 12 va" "n < 2 ^ 52" using rg by (auto simp: user_range_def)
  note ev = mappages_eval [OF this(1) n this(2), of pt pa perm s]
  from fresh have fr: "\<not> bit (pte_of (phys s) pt (nth_page va i)) 0" if "0 \<le> i" "i < n" for i using that by simp
  from mappages_loop [OF ok rg le0 fr, of pa perm] obtain r t G where
    l: "kfind [0..<n] (\<lambda>i. mappage pt (nth_page va i) (nth_page pa i) perm) s = Ret r t" "vm_step pt s F t G"
    "\<forall>vb. \<not> in_range va n vb \<longrightarrow> pte_of (phys t) pt vb = pte_of (phys s) pt vb"
    "r = Some (-1) \<and> G = {} \<or> r = None \<and> (\<forall>i. 0 \<le> i \<longrightarrow> i < n \<longrightarrow>
        pte_of (phys t) pt (nth_page va i) = PA2PTE (nth_page pa i) OR perm OR PTE_V)" by blast
  have "mappages pt va (of_nat n * PGSIZE) pa perm s = Ret (case r of Some e \<Rightarrow> e | None \<Rightarrow> 0) t"
    unfolding ev l(1) by simp
  then show ?thesis using l(2-4) by (intro exI [of _ "case r of Some e \<Rightarrow> e | None \<Rightarrow> 0"] exI [of _ t] exI [of _ G]) auto
qed

text \<open>The case every caller but the boot code uses: one page.\<close>

lemma mappages_one:
  assumes "vm_ok s pt F" "aligned 12 va" "va < MAXVA" "\<not> bit (pte_of (phys s) pt va) 0"
  shows "\<exists>r t G. mappages pt va PGSIZE pa perm s = Ret r t \<and> vm_step pt s F t G \<and> card (F - G) \<le> 2 \<and>
    (r = -1 \<and> G = {} \<and> same_ptes pt s t \<or>
     r = 0 \<and> (\<forall>vb. pte_of (phys t) pt vb =
        (if vpn vb = vpn va then PA2PTE pa OR perm OR PTE_V else pte_of (phys s) pt vb)))"
proof -
  have "mappages pt va PGSIZE pa perm s = (case mappage pt va pa perm s of
       Ret r t \<Rightarrow> Ret (case r of Some e \<Rightarrow> e | None \<Rightarrow> 0) t | Panic e \<Rightarrow> Panic e | Sched t \<Rightarrow> Sched t)"
    using mappages_eval [OF assms(2), of 1 pt pa perm s] by (simp add: kmonad split: out.split option.split)
  moreover from mappage_spec [OF assms(1,3,4), of pa perm] obtain t G where "vm_step pt s F t G" "card (F - G) \<le> 2"
    "mappage pt va pa perm s = Ret (Some (-1)) t \<and> G = {} \<and> same_ptes pt s t \<or>
     mappage pt va pa perm s = Ret None t \<and> (\<forall>vb. pte_of (phys t) pt vb =
        (if vpn vb = vpn va then PA2PTE pa OR perm OR PTE_V else pte_of (phys s) pt vb))" by blast
  ultimately show ?thesis by (elim disjE conjE) force+
qed

lemma mappages_one_remap:
  assumes "vm_ok s pt F" "aligned 12 va" "va < MAXVA" "bit (pte_of (phys s) pt va) 0"
  shows "mappages pt va PGSIZE pa perm s = Panic ''mappages: remap''"
  using mappages_eval [OF assms(2), of 1 pt pa perm s] mappage_remap [OF assms(1,3,4), of pa perm]
  by (simp add: kmonad)

section \<open>uvmunmap\<close>

lemma pages_upto_range:
  assumes "user_range va n"
  shows "pages_upto va (va + of_nat n * PGSIZE) = map (nth_page va) [0..<n]"
proof -
  have "unat (va + of_nat (n * 4096)) = unat va + n * 4096"
    by (rule unat_offset [of _ "n * 4096 + 1"]) (use assms in \<open>simp_all add: user_range_def\<close>)
  then have "unat (va + of_nat n * PGSIZE) = unat va + n * 4096" by simp
  then show ?thesis by (simp add: pages_upto_def)
qed

lemma uvmunmap_eval:
  assumes "user_range va n"
  shows "uvmunmap pt va (of_nat n) f = kfor (map (nth_page va) [0..<n]) (unmap1 pt f)"
proof -
  have "va mod PGSIZE = 0" using assms by (simp add: user_range_def page_mod_aligned)
  then show ?thesis unfolding uvmunmap_def pages_upto_range [OF assms] unmap1_def by simp
qed

lemma unmap1_keep:
  assumes ok: "vm_ok s pt F" and va: "va < MAXVA"
  shows "\<exists>t. unmap1 pt False va s = Ret () t \<and> vm_step pt s F t F \<and>
    (\<forall>vb. pte_of (phys t) pt vb = (if vpn vb = vpn va \<and> bit (pte_of (phys s) pt va) 0 then 0 else pte_of (phys s) pt vb))"
  using ok va
proof (cases rule: walk_read)
  case 1
  then show ?thesis using vm_step_refl [OF ok] by (auto simp: unmap1_def kmonad)
next
  case (2 a p)
  let ?u = "s\<lparr>phys := store64 (phys s) (p + 8 * of_nat (px 0 va)) 0\<rparr>"
  note st = vm_store_leaf [OF ok 2(4), of 0]
  show ?thesis
  proof (cases "bit (pte_of (phys s) pt va) 0")
    case True
    then have "unmap1 pt False va s = Ret () ?u"
      using 2 by (simp add: unmap1_def kmonad invalid_bit pte_set_def)
    then show ?thesis using st True by auto
  next
    case False
    then have "unmap1 pt False va s = Ret () s" using 2 by (simp add: unmap1_def kmonad invalid_bit)
    then show ?thesis using False vm_step_refl [OF ok] by auto
  qed
qed

text \<open>Progress of a function that gives pages back: the free pages grow from \<open>F\<close> to \<open>G\<close>.\<close>

definition vm_rel :: "u64 \<Rightarrow> 'a proc_st_scheme \<Rightarrow> u64 set \<Rightarrow> 'a proc_st_scheme \<Rightarrow> u64 set \<Rightarrow> bool" where
  "vm_rel pt s F t G \<longleftrightarrow> vm_ok t pt G \<and> F \<subseteq> G \<and> vm_eq s t \<and>
     pt_pages (phys t) pt = pt_pages (phys s) pt \<and>
     (\<forall>x. PGROUNDDOWN x \<notin> G \<union> pt_pages (phys s) pt \<longrightarrow> phys t x = phys s x)"

lemma vm_rel_refl: "vm_ok s pt F \<Longrightarrow> vm_rel pt s F s F"
  by (auto simp: vm_rel_def vmf.refl)

lemma vm_rel_trans:
  assumes "vm_rel pt s F t G" "vm_rel pt t G u H"
  shows "vm_rel pt s F u H"
proof -
  have "vm_eq s u" using assms vmf.trans by (auto simp: vm_rel_def)
  then show ?thesis using assms by (auto simp: vm_rel_def)
qed

lemma vm_step_rel: "vm_step pt s F t F \<Longrightarrow> vm_rel pt s F t F"
  by (auto simp: vm_step_def vm_rel_def)

lemma ent_page_eq:
  assumes "aligned 12 p" "i < 512" "\<And>x. PGROUNDDOWN x = p \<Longrightarrow> m' x = m x"
  shows "ent m' p i = ent m p i"
  unfolding ent_def
proof (rule load64_eqI)
  fix j :: nat assume "j < 8"
  then have "unat (of_nat (8 * i + j) :: u64) < 4096" unfolding unat_of_nat using assms(2) by simp
  then have "unat (p + of_nat (8 * i + j) - p) < 4096" by simp
  then have "PGROUNDDOWN (p + of_nat (8 * i + j)) = p" using page_of_offset [OF assms(1)] by blast
  then show "m' (p + 8 * of_nat i + of_nat j) = m (p + 8 * of_nat i + of_nat j)"
    using assms(3) by (simp add: algebra_simps)
qed

text \<open>A tree does not notice changes of memory outside its pages.\<close>

lemma tree_frame:
  assumes "pt_tree m pt" "\<And>x. PGROUNDDOWN x \<in> pt_pages m pt \<Longrightarrow> m' x = m x"
  shows "pt_tree m' pt" "pt_pages m' pt = pt_pages m pt" "pte_of m' pt va = pte_of m pt va"
    "is_path xs \<Longrightarrow> node m' pt xs = node m pt xs"
proof -
  have e: "ent m' p i = ent m p i" if "p \<in> pt_pages m pt" "i < 512" for p i
    by (rule ent_page_eq) (use assms that in \<open>auto simp: pt_tree_def\<close>)
  show "pt_tree m' pt" "pt_pages m' pt = pt_pages m pt" using pt_frame(2,3) [of m pt m', OF e] assms(1) by auto
  show "pte_of m' pt va = pte_of m pt va"
    unfolding pte_of_def by (rule pt_frame(4) [OF e]) simp_all
  show "is_path xs \<Longrightarrow> node m' pt xs = node m pt xs" by (rule pt_frame(1) [OF e])
qed

lemma vm_kfree:
  assumes ok: "vm_ok s pt F" and p: "p \<in> kmem_pool s - F - pt_pages (phys s) pt"
  shows "\<exists>t. kfree p s = Ret () t \<and> vm_rel pt s F t (insert p F) \<and> same_ptes pt s t \<and>
    (\<forall>xs. is_path xs \<longrightarrow> node (phys t) pt xs = node (phys s) pt xs)"
proof -
  have fr: "kmem_free s F" and tree: "pt_tree (phys s) pt" and pg: "page_ok s p"
    using ok p by (auto simp: vm_ok_def kmem_pool_def)
  then obtain xs where xs: "kmem_ok s xs" "F = set xs" by (auto simp: kmem_free_def)
  let ?t = "s\<lparr>phys := store64 (memset (phys s) p 1 4096) p (freelist s), freelist := p\<rparr>"
  have ev: "kfree p s = Ret () ?t" by (rule kfree_eval [OF pg]) (use xs(1) in \<open>simp add: kmem_ok_def\<close>)
  have "kmem_ok ?t (p # xs)" by (rule kfree_ok [OF xs(1) pg]) (use p xs in auto)
  then have fr': "kmem_free ?t (insert p F)" unfolding kmem_free_def xs(2) by (metis list.simps(15))
  have al: "aligned 12 p" using pg by (rule page_ok_aligned)
  have mem: "phys ?t x = phys s x" if "PGROUNDDOWN x \<noteq> p" for x
    using that page_of_offset [OF al, of x] store_slot_other [OF al, of 0 x]
    by (simp add: memset_apply)
  have "phys ?t x = phys s x" if "PGROUNDDOWN x \<in> pt_pages (phys s) pt" for x
    by (rule mem) (use that p in blast)
  note tr = tree_frame [OF tree this]
  have "vm_eq s ?t" by (simp add: vm_eq_def)
  moreover have "pt_pages (phys ?t) pt \<subseteq> kmem_pool ?t - insert p F"
    using ok p tr(2) vm_eq_pool [OF \<open>vm_eq s ?t\<close>] by (auto simp: vm_ok_def)
  ultimately have "vm_rel pt s F ?t (insert p F)"
    using fr' tr(1,2) mem by (auto simp: vm_rel_def vm_ok_def)
  then show ?thesis using ev tr(3,4) by (auto simp: same_ptes_def)
qed

lemma unmap1_free:
  assumes ok: "vm_ok s pt F" and va: "va < MAXVA"
    and pa: "bit (pte_of (phys s) pt va) 0 \<Longrightarrow> PTE2PA (pte_of (phys s) pt va) \<in> kmem_pool s - F - pt_pages (phys s) pt"
  shows "\<exists>t. unmap1 pt True va s = Ret () t \<and>
    vm_rel pt s F t (F \<union> (if bit (pte_of (phys s) pt va) 0 then {PTE2PA (pte_of (phys s) pt va)} else {})) \<and>
    (\<forall>vb. pte_of (phys t) pt vb = (if vpn vb = vpn va \<and> bit (pte_of (phys s) pt va) 0 then 0 else pte_of (phys s) pt vb))"
  using ok va
proof (cases rule: walk_read)
  case 1
  then show ?thesis using vm_rel_refl [OF ok] by (auto simp: unmap1_def kmonad)
next
  case (2 a p)
  show ?thesis
  proof (cases "bit (pte_of (phys s) pt va) 0")
    case True
    from vm_kfree [OF ok pa [OF True]] obtain t where t: "kfree (PTE2PA (pte_of (phys s) pt va)) s = Ret () t"
      "vm_rel pt s F t (insert (PTE2PA (pte_of (phys s) pt va)) F)" "same_ptes pt s t"
      "\<forall>xs. is_path xs \<longrightarrow> node (phys t) pt xs = node (phys s) pt xs" by blast
    have okt: "vm_ok t pt (insert (PTE2PA (pte_of (phys s) pt va)) F)" using t(2) by (simp add: vm_rel_def)
    have nd: "node (phys t) pt [px 2 va, px 1 va] = Some p" using t(4) 2(4) by simp
    note st = vm_store_leaf [OF okt nd, of 0]
    let ?u = "t\<lparr>phys := store64 (phys t) (p + 8 * of_nat (px 0 va)) 0\<rparr>"
    have "unmap1 pt True va s = Ret () ?u"
      using 2 t(1) True by (simp add: unmap1_def kmonad invalid_bit pte_set_def)
    moreover have "vm_rel pt s F ?u (insert (PTE2PA (pte_of (phys s) pt va)) F)"
      by (rule vm_rel_trans [OF t(2) vm_step_rel [OF st(1)]])
    ultimately show ?thesis using True st(2) t(3) by (auto simp: same_ptes_def)
  next
    case False
    then have "unmap1 pt True va s = Ret () s" using 2 by (simp add: unmap1_def kmonad invalid_bit)
    then show ?thesis using False vm_rel_refl [OF ok] by auto
  qed
qed

text \<open>The physical pages mapped in a range, and that they are the range's own: allocated, no table
  page, and no page mapped twice.\<close>

definition mapped :: "'a proc_st_scheme \<Rightarrow> u64 \<Rightarrow> u64 \<Rightarrow> bool" where
  "mapped s pt va \<longleftrightarrow> bit (pte_of (phys s) pt va) 0"

definition pa_of :: "'a proc_st_scheme \<Rightarrow> u64 \<Rightarrow> u64 \<Rightarrow> u64" where
  "pa_of s pt va = PTE2PA (pte_of (phys s) pt va)"

definition range_pas :: "'a proc_st_scheme \<Rightarrow> u64 \<Rightarrow> u64 \<Rightarrow> nat set \<Rightarrow> u64 set" where
  "range_pas s pt va A = {pa_of s pt (nth_page va i) |i. i \<in> A \<and> mapped s pt (nth_page va i)}"

definition range_own :: "'a proc_st_scheme \<Rightarrow> u64 \<Rightarrow> u64 set \<Rightarrow> u64 \<Rightarrow> nat set \<Rightarrow> bool" where
  "range_own s pt F va A \<longleftrightarrow> range_pas s pt va A \<subseteq> kmem_pool s - F - pt_pages (phys s) pt \<and>
     inj_on (\<lambda>i. pa_of s pt (nth_page va i)) {i \<in> A. mapped s pt (nth_page va i)}"

lemma unmap_ptes:
  assumes k: "k < n"
    and t: "\<forall>vb. pte_of (phys t) pt vb = (if vpn vb = vpn (nth_page va k) \<and> mapped s pt (nth_page va k) then 0 else pte_of (phys s) pt vb)"
    and u: "\<forall>vb. pte_of (phys u) pt vb = (if (\<exists>i. Suc k \<le> i \<and> i < n \<and> vpn vb = vpn (nth_page va i)) \<and> mapped t pt vb
       then 0 else pte_of (phys t) pt vb)"
  shows "\<forall>vb. pte_of (phys u) pt vb = (if (\<exists>i. k \<le> i \<and> i < n \<and> vpn vb = vpn (nth_page va i)) \<and> mapped s pt vb
       then 0 else pte_of (phys s) pt vb)"
proof
  fix vb
  show "pte_of (phys u) pt vb = (if (\<exists>i. k \<le> i \<and> i < n \<and> vpn vb = vpn (nth_page va i)) \<and> mapped s pt vb
       then 0 else pte_of (phys s) pt vb)"
  proof (cases "vpn vb = vpn (nth_page va k)")
    case True
    then have "mapped s pt vb = mapped s pt (nth_page va k)" using pte_of_vpn [OF True] by (simp add: mapped_def)
    then have "pte_of (phys t) pt vb = (if mapped s pt vb then 0 else pte_of (phys s) pt vb)" "\<not> mapped t pt vb"
      using t True by (auto simp: mapped_def)
    then show ?thesis using u True k by auto
  next
    case False
    then have "pte_of (phys t) pt vb = pte_of (phys s) pt vb" "mapped t pt vb = mapped s pt vb"
      using t by (simp_all add: mapped_def)
    moreover have "(\<exists>i. Suc k \<le> i \<and> i < n \<and> vpn vb = vpn (nth_page va i)) =
        (\<exists>i. k \<le> i \<and> i < n \<and> vpn vb = vpn (nth_page va i))"
      using False by (metis Suc_leD le_eq_less_or_eq less_eq_Suc_le)
    ultimately show ?thesis using u [rule_format, of vb] by metis
  qed
qed

lemma unmap_loop:
  assumes "vm_ok s pt F" "user_range va n" "k \<le> n" "range_own s pt F va {k..<n}"
  shows "\<exists>t. kfor (map (nth_page va) [k..<n]) (unmap1 pt True) s = Ret () t \<and>
    vm_rel pt s F t (F \<union> range_pas s pt va {k..<n}) \<and>
    (\<forall>vb. pte_of (phys t) pt vb = (if (\<exists>i. k \<le> i \<and> i < n \<and> vpn vb = vpn (nth_page va i)) \<and> mapped s pt vb
       then 0 else pte_of (phys s) pt vb))"
  using assms
proof (induction "n - k" arbitrary: k s F)
  case 0
  then have "{k..<n} = {}" by simp
  then have e: "range_pas s pt va {k..<n} = {}" "[k..<n] = []" using 0(1) by (auto simp: range_pas_def)
  show ?case unfolding e using vm_rel_refl [OF 0(2)] 0(1) by (auto simp: kmonad)
next
  case (Suc d)
  then have k: "k < n" by simp
  let ?a = "nth_page va k" and ?G = "F \<union> (if mapped s pt (nth_page va k) then {pa_of s pt (nth_page va k)} else {})"
  note va = unat_nth_page [OF Suc.prems(2) k]
  have own: "pa_of s pt (nth_page va i) \<in> kmem_pool s - F - pt_pages (phys s) pt"
    if "mapped s pt (nth_page va i)" "k \<le> i" "i < n" for i
    using Suc.prems(4) that by (auto simp: range_own_def range_pas_def)
  note u1 = unmap1_free [OF Suc.prems(1) va(2), folded mapped_def pa_of_def]
  from u1 [OF own [OF _ order_refl k]] obtain t where
    t: "unmap1 pt True ?a s = Ret () t" "vm_rel pt s F t ?G"
      "\<forall>vb. pte_of (phys t) pt vb = (if vpn vb = vpn ?a \<and> mapped s pt ?a then 0 else pte_of (phys s) pt vb)"
    by blast
  have okt: "vm_ok t pt ?G" and pp: "pt_pages (phys t) pt = pt_pages (phys s) pt" and pl: "kmem_pool t = kmem_pool s"
    using t(2) vm_eq_pool [of s t] by (simp_all add: vm_rel_def)
  have same: "pte_of (phys t) pt (nth_page va i) = pte_of (phys s) pt (nth_page va i)" if "k < i" "i < n" for i
    using t(3) nth_page_inj [OF Suc.prems(2) that(2) k] that(1) by simp
  then have same': "mapped t pt (nth_page va i) = mapped s pt (nth_page va i)"
    "pa_of t pt (nth_page va i) = pa_of s pt (nth_page va i)" if "k < i" "i < n" for i
    using that by (simp_all add: mapped_def pa_of_def)
  have pas: "range_pas t pt va {Suc k..<n} = range_pas s pt va {Suc k..<n}"
    unfolding range_pas_def by (intro Collect_cong ex_cong1) (auto simp: same' Suc_le_eq)
  have inj: "inj_on (\<lambda>i. pa_of s pt (nth_page va i)) {i \<in> {k..<n}. mapped s pt (nth_page va i)}"
    using Suc.prems(4) by (simp add: range_own_def)
  have own': "range_own t pt ?G va {Suc k..<n}"
    unfolding range_own_def pas pp pl
  proof
    show "range_pas s pt va {Suc k..<n} \<subseteq> kmem_pool s - ?G - pt_pages (phys s) pt"
    proof
      fix q assume "q \<in> range_pas s pt va {Suc k..<n}"
      then obtain i where i: "q = pa_of s pt (nth_page va i)" "k < i" "i < n" "mapped s pt (nth_page va i)"
        by (auto simp: range_pas_def)
      then have "mapped s pt ?a \<Longrightarrow> q \<noteq> pa_of s pt ?a"
        using inj_onD [OF inj, of i k] k by auto
      then show "q \<in> kmem_pool s - ?G - pt_pages (phys s) pt" using own [of i] i by simp
    qed
    show "inj_on (\<lambda>i. pa_of t pt (nth_page va i)) {i \<in> {Suc k..<n}. mapped t pt (nth_page va i)}"
      using inj by (auto simp: inj_on_def same')
  qed
  have d: "d = n - Suc k" "Suc k \<le> n" using Suc.hyps(2) k by auto
  from Suc.hyps(1) [OF d(1) okt Suc.prems(2) d(2) own'] obtain u where u: "kfor (map (nth_page va) [Suc k..<n]) (unmap1 pt True) t = Ret () u"
    "vm_rel pt t ?G u (?G \<union> range_pas t pt va {Suc k..<n})"
    "\<forall>vb. pte_of (phys u) pt vb = (if (\<exists>i. Suc k \<le> i \<and> i < n \<and> vpn vb = vpn (nth_page va i)) \<and> mapped t pt vb
       then 0 else pte_of (phys t) pt vb)"
    by blast
  have pas': "?G \<union> range_pas t pt va {Suc k..<n} = F \<union> range_pas s pt va {k..<n}"
    unfolding pas using k by (auto simp: range_pas_def le_eq_less_or_eq Suc_le_eq)
  have "kfor (map (nth_page va) [k..<n]) (unmap1 pt True) s = Ret () u"
    using t(1) u(1) k by (simp add: upt_conv_Cons kmonad)
  moreover have "vm_rel pt s F u (F \<union> range_pas s pt va {k..<n})"
    using vm_rel_trans [OF t(2) u(2)] unfolding pas' .
  ultimately show ?case using unmap_ptes [OF k t(3) u(3)] by blast
qed

lemma uvmunmap_free:
  assumes "vm_ok s pt F" "user_range va n" "range_own s pt F va {0..<n}"
  shows "\<exists>t. uvmunmap pt va (of_nat n) True s = Ret () t \<and>
    vm_rel pt s F t (F \<union> range_pas s pt va {0..<n}) \<and>
    (\<forall>vb. pte_of (phys t) pt vb = (if in_range va n vb \<and> mapped s pt vb then 0 else pte_of (phys s) pt vb))"
  unfolding uvmunmap_eval [OF assms(2)] in_range_def
  using unmap_loop [OF assms(1,2) le0 assms(3)] by simp

lemma unmap_keep_loop:
  assumes "vm_ok s pt F" "user_range va n" "k \<le> n"
  shows "\<exists>t. kfor (map (nth_page va) [k..<n]) (unmap1 pt False) s = Ret () t \<and> vm_step pt s F t F \<and>
    (\<forall>vb. pte_of (phys t) pt vb = (if (\<exists>i. k \<le> i \<and> i < n \<and> vpn vb = vpn (nth_page va i)) \<and> mapped s pt vb
       then 0 else pte_of (phys s) pt vb))"
  using assms
proof (induction "n - k" arbitrary: k s)
  case 0
  then show ?case using vm_step_refl [OF 0(2)] by (auto simp: kmonad)
next
  case (Suc d)
  then have k: "k < n" by simp
  let ?a = "nth_page va k"
  note va = unat_nth_page [OF Suc.prems(2) k]
  from unmap1_keep [OF Suc.prems(1) va(2), folded mapped_def] obtain t where
    t: "unmap1 pt False ?a s = Ret () t" "vm_step pt s F t F"
      "\<forall>vb. pte_of (phys t) pt vb = (if vpn vb = vpn ?a \<and> mapped s pt ?a then 0 else pte_of (phys s) pt vb)"
    by blast
  have okt: "vm_ok t pt F" using t(2) by (simp add: vm_step_def)
  have d: "d = n - Suc k" "Suc k \<le> n" using Suc.hyps(2) k by auto
  from Suc.hyps(1) [OF d(1) okt Suc.prems(2) d(2)] obtain u where
    u: "kfor (map (nth_page va) [Suc k..<n]) (unmap1 pt False) t = Ret () u" "vm_step pt t F u F"
    "\<forall>vb. pte_of (phys u) pt vb = (if (\<exists>i. Suc k \<le> i \<and> i < n \<and> vpn vb = vpn (nth_page va i)) \<and> mapped t pt vb
       then 0 else pte_of (phys t) pt vb)" by blast
  have "kfor (map (nth_page va) [k..<n]) (unmap1 pt False) s = Ret () u"
    using t(1) u(1) k by (simp add: upt_conv_Cons kmonad)
  then show ?case using vm_step_trans [OF t(2) u(2)] unmap_ptes [OF k t(3) u(3)] by blast
qed

lemma uvmunmap_keep:
  assumes "vm_ok s pt F" "user_range va n"
  shows "\<exists>t. uvmunmap pt va (of_nat n) False s = Ret () t \<and> vm_step pt s F t F \<and>
    (\<forall>vb. pte_of (phys t) pt vb = (if in_range va n vb \<and> mapped s pt vb then 0 else pte_of (phys s) pt vb))"
  unfolding uvmunmap_eval [OF assms(2)] in_range_def
  using unmap_keep_loop [OF assms(1,2) le0] by simp

section \<open>Properties of mappages and uvmunmap\<close>

lemma uvmcreate_ok:
  assumes "kmem_free s F"
  shows "(F = {} \<and> uvmcreate s = Ret 0 s) \<or>
    (\<exists>q t. q \<in> F \<and> uvmcreate s = Ret q t \<and> vm_eq s t \<and> vm_ok t q (F - {q}) \<and>
       pt_pages (phys t) q = {q} \<and> (\<forall>va. pte_of (phys t) q va = 0))"
  using kalloc_zero [OF assms]
proof (elim disjE exE conjE)
  assume "F = {}" "kalloc s = Ret 0 s"
  then show ?thesis by (simp add: uvmcreate_def kmonad)
next
  fix q t
  assume q: "q \<in> F" "kalloc s = Ret q t" "q \<noteq> 0" "vm_eq s t" "phys t = memset (phys s) q 5 4096"
    "kmem_free t (F - {q})"
  let ?u = "t\<lparr>phys := memset (phys t) q 0 4096\<rparr>"
  have qq: "q \<in> kmem_pool s" "aligned 12 q" using free_in_pool [OF assms] q(1) kmem_pool_page by auto
  have "kmem_free ?u (F - {q})"
  proof (rule kmem_free_frame [OF q(6)])
    show "phys ?u x = phys t x" if "PGROUNDDOWN x \<in> F - {q}" for x
      using that page_of_offset [OF qq(2), of x] by (simp add: memset_apply)
  qed simp_all
  moreover have "vm_eq s ?u" by (rule vm_eq_phys [OF q(4)])
  ultimately have "vm_ok ?u q (F - {q})"
    using pt_empty [OF qq(2)] qq(1) vm_eq_pool [of s ?u] by (simp add: vm_ok_def)
  moreover have "uvmcreate s = Ret q ?u" using q(2,3) by (simp add: uvmcreate_def kmonad kzero_def)
  ultimately show ?thesis using q(1) \<open>vm_eq s ?u\<close> pt_empty [OF qq(2)]
    by (intro disjI2 exI [of _ q] exI [of _ ?u]) simp
qed

text \<open>A machine that has just run \<^verbatim>\<open>kinit()\<close>, and one that then made an empty page table.\<close>

lemma vm_ok_example: "\<exists>s pt F. vm_ok (s :: proc_st) pt F \<and> (\<forall>va. pte_of (phys s) pt va = 0)"
proof -
  let ?s = "table_of (\<lambda>_. idle_proc)"
  have "freelist ?s = 0" "Lkmem \<notin> held ?s" "0 < kend ?s" "kend ?s \<le> PHYSTOP" by (simp_all add: table_of_def)
  from kinit_ok [OF this] obtain t :: proc_st and xs where t: "kmem_ok t xs" "set xs = ram_pages (kend ?s)" by blast
  have "0x87fff000 \<in> ram_pages (kend ?s)"
    by (subst ram_pages_iff) (simp_all add: table_of_def aligned_def take_bit_eq_mod)
  then have "kmem_free t (set xs)" "set xs \<noteq> {}" using t by (auto simp: kmem_free_def)
  from uvmcreate_ok [OF this(1)] this(2) show ?thesis by blast
qed

text \<open>C9: \<^verbatim>\<open>mappages\<close> on a page-aligned range below \<^verbatim>\<open>MAXVA\<close> none of whose pages is mapped never panics.
  It either returns 0, and then every page of the range is mapped to its physical page with the
  given permissions, or it returns -1 with the allocator out of pages.  Either way the translation
  outside the range is as before, the table stays a well-formed tree, the pages it took became
  table pages, and no memory but free pages and tables was written.\<close>

theorem mappages_maps_range:
  assumes "vm_ok s pt F" "user_range va n" "0 < n"
    and "\<And>i. i < n \<Longrightarrow> \<not> mapped s pt (nth_page va i)"
  shows "\<exists>r t G. mappages pt va (of_nat n * PGSIZE) pa perm s = Ret r t \<and> vm_step pt s F t G \<and>
    (\<forall>vb. \<not> in_range va n vb \<longrightarrow> pte_of (phys t) pt vb = pte_of (phys s) pt vb) \<and>
    (r = -1 \<and> G = {} \<or>
     r = 0 \<and> (\<forall>i<n. pte_of (phys t) pt (nth_page va i) = PA2PTE (nth_page pa i) OR perm OR PTE_V))"
  by (rule mappages_spec [OF assms(1-3)]) (use assms(4) in \<open>simp add: mapped_def\<close>)

theorem mappages_maps_range_witness:
  "\<exists>(s :: proc_st) pt F r t. vm_ok s pt F \<and> mappages pt 0x1000 (of_nat 2 * PGSIZE) 0x80200000 22 s = Ret r t"
proof -
  obtain s :: proc_st and pt F where s: "vm_ok s pt F" "\<forall>va. pte_of (phys s) pt va = 0"
    using vm_ok_example by blast
  have "user_range 0x1000 2" by (simp add: user_range_def aligned_def take_bit_eq_mod)
  from mappages_maps_range [OF s(1) this, of "0x80200000" 22] s(2)
  obtain r t where "mappages pt 0x1000 (of_nat 2 * PGSIZE) 0x80200000 22 s = Ret r t"
    by (force simp: mapped_def)
  then show ?thesis using s(1) by blast
qed

text \<open>C8: \<^verbatim>\<open>uvmunmap\<close> with \<^verbatim>\<open>do_free\<close> on a range whose mapped pages are the process's own gives
  exactly those physical pages back to the allocator, each once, and leaves the range unmapped, the
  rest of the translation and all other memory as before.  It never panics.\<close>

theorem uvmunmap_frees_range:
  assumes "vm_ok s pt F" "user_range va n" "range_own s pt F va {0..<n}"
  shows "\<exists>t. uvmunmap pt va (of_nat n) True s = Ret () t \<and>
    vm_rel pt s F t (F \<union> range_pas s pt va {0..<n}) \<and>
    (\<forall>vb. pte_of (phys t) pt vb = (if in_range va n vb \<and> mapped s pt vb then 0 else pte_of (phys s) pt vb))"
  by (rule uvmunmap_free [OF assms])

theorem uvmunmap_frees_range_witness:
  "\<exists>(s :: proc_st) pt F t. vm_ok s pt F \<and> uvmunmap pt 0x1000 (of_nat 2) True s = Ret () t"
proof -
  obtain s :: proc_st and pt F where s: "vm_ok s pt F" "\<forall>va. pte_of (phys s) pt va = 0"
    using vm_ok_example by blast
  have "user_range 0x1000 2" by (simp add: user_range_def aligned_def take_bit_eq_mod)
  moreover have "range_own s pt F 0x1000 {0..<2}"
    using s(2) by (simp add: range_own_def range_pas_def mapped_def)
  ultimately show ?thesis using uvmunmap_frees_range [OF s(1)] s(1) by blast
qed

end
