(* ===== verification/Process.thy ===== *)
theory Process
  imports Proc Vm_Map
begin

unbundle bit_operations_syntax

text \<open>
  Properties of the life of a process: allocation, exit, waiting for children.  The definitions are
  those of \<^verbatim>\<open>Proc\<close> and \<^verbatim>\<open>Proc_Table\<close>.
\<close>

section \<open>Exit never returns\<close>

lemma exit_tail_never_returns: "exit_tail p st s \<noteq> Ret r t"
  by (auto simp: exit_tail_def exit_zombie_def kbind_Ret_iff kthen_Ret_iff sched_never_returns)

lemma kexit_no_return: "kexit st s \<noteq> Ret r t"
  by (auto simp: kexit_def kbind_Ret_iff kthen_Ret_iff exit_tail_never_returns kpanic_def split: if_splits)

text \<open>Neither \<^verbatim>\<open>kexit\<close> nor \<^verbatim>\<open>kthread_exit\<close> ever returns to its caller.\<close>

lemma exit_never_returns: "kexit st s \<noteq> Ret r t \<and> kthread_exit st s \<noteq> Ret r' t"
  by (auto simp: kexit_no_return kthread_exit_def kbind_Ret_iff kthen_Ret_iff exit_tail_never_returns split: if_splits)

section \<open>Waiting with nothing to reap\<close>

lemma held_upd_id: "held s = h \<Longrightarrow> s\<lparr>held := h\<rparr> = s"
  by (cases s) simp

lemma wait_scan_none:
  assumes "\<forall>i<NPROC. match (procs s i) \<longrightarrow> p_state (procs s i) \<noteq> ZOMBIE" "no_plock s"
  shows "wait_scan match fin s = Ret None s"
proof -
  let ?b = "\<lambda>i. kbind (proc_at i) (\<lambda>C.
       if match C then
         kthen (acquire (Lproc i))
         (kbind (proc_at i) (\<lambda>C.
         if p_state C = ZOMBIE then kbind (fin i) (\<lambda>v. kret (Some v))
         else kthen (release (Lproc i)) (kret None)))
       else kret None)"
  have "kfind is ?b s = Ret None s" if "\<forall>i\<in>set is. match (procs s i) \<longrightarrow> p_state (procs s i) \<noteq> ZOMBIE" for "is"
    using that assms(2) by (induction "is") (auto simp: kmonad no_plock_def held_upd_id)
  then show ?thesis using assms(1) by (simp add: wait_scan_def)
qed

lemma wait_round_none:
  assumes "cproc s = Some p" "held s = {Lwait}"
    and "\<forall>i<NPROC. match (procs s i) \<longrightarrow> p_state (procs s i) \<noteq> ZOMBIE"
  shows "wait_round p match fin s =
    (if (\<forall>i<NPROC. \<not> match (procs s i)) \<or> p_killed (procs s p) \<noteq> 0 then Ret (-1) (s\<lparr>held := {}\<rparr>)
     else Sched (asleep p (Chan_proc p) s))"
proof -
  have n: "no_plock s" using assms(2) by (simp add: no_plock_def)
  have "list_ex (\<lambda>i. match (procs s i)) allprocs \<longleftrightarrow> \<not> (\<forall>i<NPROC. \<not> match (procs s i))"
    by (auto simp: list_ex_iff)
  then show ?thesis using assms(1, 2)
    by (auto simp: wait_round_def kmonad sleep_asleep wait_scan_none [OF assms(3) n])
qed

text \<open>C35: with no zombie among the processes it asks about, \<^verbatim>\<open>waitpid\<close> fails at once when there is no
  such child at all or the caller was killed, and otherwise sleeps until one of them exits.\<close>

theorem kwaitpid_no_zombie:
  assumes "cproc s = Some p" "held s = {}"
    and "\<forall>i<NPROC. p_parent (procs s i) = Some p \<and> p_pid (procs s i) = wanted \<longrightarrow> p_state (procs s i) \<noteq> ZOMBIE"
  shows "kwaitpid wanted addr s =
    (if (\<forall>i<NPROC. \<not> (p_parent (procs s i) = Some p \<and> p_pid (procs s i) = wanted)) \<or> p_killed (procs s p) \<noteq> 0
     then Ret (-1) s else Sched (asleep p (Chan_proc p) s))"
proof -
  let ?v = "s\<lparr>held := {Lwait}\<rparr>"
  have "kwaitpid wanted addr s = kwaitpid_loop p wanted addr ?v"
    using assms(1, 2) by (simp add: kwaitpid_def kmonad)
  also have "\<dots> = (if (\<forall>i<NPROC. \<not> (p_parent (procs ?v i) = Some p \<and> p_pid (procs ?v i) = wanted)) \<or> p_killed (procs ?v p) \<noteq> 0
     then Ret (-1) (?v\<lparr>held := {}\<rparr>) else Sched (asleep p (Chan_proc p) ?v))"
    unfolding kwaitpid_loop_def by (rule wait_round_none) (use assms in simp_all)
  finally show ?thesis using assms(2) by (simp add: held_upd_id asleep_def)
qed

theorem kwaitpid_no_zombie_witness:
  "kwaitpid 7 0 (blank_files (\<lambda>_. idle_proc) () :: file_st) = Ret (-1) (blank_files (\<lambda>_. idle_proc) ()) \<and>
   (\<exists>t. kwaitpid 7 0 (blank_files (\<lambda>_. idle_proc\<lparr>p_parent := Some 0, p_pid := 7, p_state := RUNNABLE\<rparr>) () :: file_st) = Sched t \<and>
     p_state (procs t 0) = SLEEPING)"
proof
  show "kwaitpid 7 0 (blank_files (\<lambda>_. idle_proc) () :: file_st) = Ret (-1) (blank_files (\<lambda>_. idle_proc) ())"
    using kwaitpid_no_zombie [of "blank_files (\<lambda>_. idle_proc) () :: file_st" 0 7 0] by (simp add: blank idle_proc_def)
  let ?s = "blank_files (\<lambda>_. idle_proc\<lparr>p_parent := Some 0, p_pid := 7, p_state := RUNNABLE\<rparr>) () :: file_st"
  have "\<not> (\<forall>i :: nat. \<not> i < NPROC)" by (simp add: exI [of _ 0])
  then have "kwaitpid 7 0 ?s = Sched (asleep 0 (Chan_proc 0) ?s)"
    by (subst kwaitpid_no_zombie [of _ 0]) (simp_all add: blank idle_proc_def)
  then show "\<exists>t. kwaitpid 7 0 ?s = Sched t \<and> p_state (procs t 0) = SLEEPING" by (simp add: asleep_def)
qed

section \<open>Allocating a process\<close>

lemma find_unused_eval:
  assumes "no_plock s"
  shows "find_unused s =
    (case first_proc (\<lambda>P. p_state P = UNUSED) s of
       None \<Rightarrow> Ret None s
     | Some i \<Rightarrow> Ret (Some i) (s\<lparr>held := insert (Lproc i) (held s)\<rparr>))"
  unfolding first_proc_def find_unused_def
  by (rule kfind_first) (use assms in \<open>auto simp: kmonad no_plock_def held_upd_id\<close>)

lemma keeps_uvmfree [keeps]: "kkeeps vm_eq (uvmfree pt sz)"
  unfolding uvmfree_def by (intro vm_keeps keeps_uvmunmap keeps_freewalk)

lemma keeps_uvmcreate [keeps]: "kkeeps vm_eq uvmcreate"
  unfolding uvmcreate_def by (intro vm_keeps keeps_pte)

lemma keeps_proc_pagetable [keeps]: "kkeeps vm_eq (proc_pagetable p)"
  unfolding proc_pagetable_def
  by (intro vm_keeps keeps_mappages keeps_uvmunmap keeps_uvmfree keeps_uvmcreate)

lemma vm_eq_fields:
  "vm_eq s t \<Longrightarrow> procs t = procs s \<and> held t = held s \<and> cproc t = cproc s \<and> nextpid t = nextpid s \<and>
    shmtable t = shmtable s \<and> trampoline_va t = trampoline_va s \<and> forkret_va t = forkret_va s"
  by (auto simp: vm_eq_upd)

lemma kmem_free_finite: "kmem_free s F \<Longrightarrow> finite F"
  by (auto simp: kmem_free_def)

lemma tramp_vpn: "vpn TRAPFRAME \<noteq> vpn TRAMPOLINE" "aligned 12 TRAMPOLINE" "aligned 12 TRAPFRAME" "TRAMPOLINE < MAXVA" "TRAPFRAME < MAXVA"
  by code_simp+

lemma proc_pagetable_total:
  assumes "kmem_free s F" "5 < card F"
  shows "\<exists>q t G. proc_pagetable p s = Ret q t \<and> q \<noteq> 0 \<and> vm_eq s t \<and> vm_ok t q G \<and> G \<subseteq> F \<and> card (F - G) \<le> 5 \<and>
    (\<forall>va. pte_of (phys t) q va =
       (if vpn va = vpn TRAPFRAME then PA2PTE (p_trapframe (procs s p)) OR (PTE_R OR PTE_W) OR PTE_V
        else if vpn va = vpn TRAMPOLINE then PA2PTE (trampoline_va s) OR (PTE_R OR PTE_X) OR PTE_V else 0))"
proof -
  have fin: "finite F" using assms(1) by (rule kmem_free_finite)
  then have "F \<noteq> {}" using assms(2) by auto
  then obtain q t where q: "q \<in> F" "uvmcreate s = Ret q t" "vm_eq s t" "vm_ok t q (F - {q})" "\<forall>va. pte_of (phys t) q va = 0"
    using uvmcreate_ok [OF assms(1)] by blast
  have c: "card (F - {q}) > 4" using q(1) fin assms(2) by simp
  have "q \<noteq> 0" using q(1) kmem.pool_null [of s] free_in_pool [OF assms(1)] by blast
  have "\<not> bit (pte_of (phys t) q TRAMPOLINE) 0" by (simp add: q(5))
  from mappages_one [OF q(4) tramp_vpn(2, 4) this] obtain r1 u G1 where u:
    "mappages q TRAMPOLINE PGSIZE (trampoline_va s) (PTE_R OR PTE_X) t = Ret r1 u" "vm_step q t (F - {q}) u G1"
    "card (F - {q} - G1) \<le> 2" and u': "r1 = -1 \<and> G1 = {} \<and> same_ptes q t u \<or> r1 = 0 \<and> (\<forall>vb. pte_of (phys u) q vb =
        (if vpn vb = vpn TRAMPOLINE then PA2PTE (trampoline_va s) OR (PTE_R OR PTE_X) OR PTE_V else pte_of (phys t) q vb))" by blast
  have "G1 \<noteq> {}" using u(3) c by auto
  then have r1: "r1 = 0" and pu: "\<forall>vb. pte_of (phys u) q vb =
        (if vpn vb = vpn TRAMPOLINE then PA2PTE (trampoline_va s) OR (PTE_R OR PTE_X) OR PTE_V else 0)" using u' q(5) by auto
  have oku: "vm_ok u q G1" and su: "G1 \<subseteq> F - {q}" and eu: "vm_eq t u" using u(2) by (auto simp: vm_step_def)
  have c1: "card G1 > 2"
  proof -
    have "F - {q} = G1 \<union> (F - {q} - G1)" using su by blast
    then have "card (F - {q}) \<le> card G1 + card (F - {q} - G1)" using card_Un_le [of G1 "F - {q} - G1"] by simp
    then show ?thesis using c u(3) by linarith
  qed
  let ?tf = "p_trapframe (procs s p)"
  have "\<not> bit (pte_of (phys u) q TRAPFRAME) 0" using pu tramp_vpn(1) by simp
  from mappages_one [OF oku tramp_vpn(3, 5) this] obtain r2 v G2 where v:
    "mappages q TRAPFRAME PGSIZE ?tf (PTE_R OR PTE_W) u = Ret r2 v" "vm_step q u G1 v G2" "card (G1 - G2) \<le> 2"
    and v': "r2 = -1 \<and> G2 = {} \<and> same_ptes q u v \<or> r2 = 0 \<and> (\<forall>vb. pte_of (phys v) q vb =
        (if vpn vb = vpn TRAPFRAME then PA2PTE ?tf OR (PTE_R OR PTE_W) OR PTE_V else pte_of (phys u) q vb))" by blast
  have "G2 \<noteq> {}" using v(3) c1 by auto
  then have r2: "r2 = 0" and pv: "\<forall>vb. pte_of (phys v) q vb =
        (if vpn vb = vpn TRAPFRAME then PA2PTE ?tf OR (PTE_R OR PTE_W) OR PTE_V else pte_of (phys u) q vb)" using v' by auto
  have okv: "vm_ok v q G2" and sv: "G2 \<subseteq> G1" and ev: "vm_eq u v" using v(2) by (auto simp: vm_step_def)
  have e: "vm_eq s u" "vm_eq s v" using q(3) eu ev vmf.trans by blast+
  have "proc_pagetable p s = Ret q v" using q(2) u(1) v(1) \<open>q \<noteq> 0\<close> r1 r2 vm_eq_fields [OF q(3)] vm_eq_fields [OF e(1)]
    by (simp add: proc_pagetable_def kmonad)
  moreover have "card (F - G2) \<le> 5"
  proof -
    have "F - G2 = {q} \<union> ((F - {q} - G1) \<union> (G1 - G2))" using su sv q(1) by auto
    then show ?thesis using card_Un_le [of "{q}" "(F - {q} - G1) \<union> (G1 - G2)"] card_Un_le [of "F - {q} - G1" "G1 - G2"] u(3) v(3) by simp
  qed
  ultimately show ?thesis using \<open>q \<noteq> 0\<close> e okv sv su pu pv
    by (intro exI [of _ q] exI [of _ v] exI [of _ G2]) auto
qed

lemma kmem_free_cong:
  assumes "kmem_free s F" "Lkmem \<notin> held t" "kend t = kend s" "freelist t = freelist s" "phys t = phys s"
  shows "kmem_free t F"
  using assms by (auto simp: kmem_free_def kmem_ok_def page_ok_def)

lemma vm_ok_cong:
  assumes "vm_ok s pt F" "Lkmem \<notin> held t" "kend t = kend s" "freelist t = freelist s" "phys t = phys s"
  shows "vm_ok t pt F"
  using assms kmem_free_cong [of s F t] by (auto simp: vm_ok_def kmem_pool_def page_ok_def)

lemma kmem_free_unlocked: "kmem_free s F \<Longrightarrow> Lkmem \<notin> held s"
  by (auto simp: kmem_free_def kmem_ok_def)

definition fresh_proc :: "nat \<Rightarrow> 'a proc_st_scheme \<Rightarrow> 'a proc_st_scheme \<Rightarrow> bool" where
  "fresh_proc p s t \<longleftrightarrow> nextpid t = int32 (nextpid s + 1) \<and> held t = insert (Lproc p) (held s) \<and>
     (\<forall>i. i \<noteq> p \<longrightarrow> procs t i = procs s i) \<and> p_state (procs t p) = USED \<and> p_pid (procs t p) = nextpid s \<and>
     p_priority (procs t p) = 10 \<and> p_is_thread (procs t p) = 0 \<and> p_shm_mask (procs t p) = 0 \<and>
     p_killed (procs t p) = p_killed (procs s p)"

lemma allocproc_total:
  assumes "no_plock s" "Lpid \<notin> held s" "kmem_free s F" "6 < card F" "first_proc (\<lambda>P. p_state P = UNUSED) s = Some p"
  shows "\<exists>t G. allocproc s = Ret (Some p) t \<and> fresh_proc p s t \<and> G \<subseteq> F \<and> vm_ok t (p_pagetable (procs t p)) G \<and>
    (\<forall>va. pte_of (phys t) (p_pagetable (procs t p)) va =
       (if vpn va = vpn TRAPFRAME then PA2PTE (p_trapframe (procs t p)) OR (PTE_R OR PTE_W) OR PTE_V
        else if vpn va = vpn TRAMPOLINE then PA2PTE (trampoline_va s) OR (PTE_R OR PTE_X) OR PTE_V else 0))"
proof -
  let ?s1 = "s\<lparr>held := insert (Lproc p) (held s), nextpid := int32 (nextpid s + 1),
          procs := (procs s)(p := (procs s p)\<lparr>p_pid := nextpid s, p_state := USED, p_shm_mask := 0,
            p_priority := 10, p_is_thread := 0, p_tgid := 0\<rparr>)\<rparr>"
  have F1: "kmem_free ?s1 F" by (rule kmem_free_cong [OF assms(3)]) (use kmem_free_unlocked [OF assms(3)] in simp_all)
  have fin: "finite F" using assms(3) by (rule kmem_free_finite)
  then have "F \<noteq> {}" using assms(4) by auto
  then obtain tf s2 where tf: "tf \<in> F" "kalloc ?s1 = Ret tf s2" "tf \<noteq> 0" "vm_eq ?s1 s2" "kmem_free s2 (F - {tf})"
    using kalloc_zero [OF F1] by blast
  let ?s3 = "s2\<lparr>procs := (procs s2)(p := (procs s2 p)\<lparr>p_trapframe := tf\<rparr>)\<rparr>"
  have F3: "kmem_free ?s3 (F - {tf})" by (rule kmem_free_cong [OF tf(5)]) (use kmem_free_unlocked [OF tf(5)] in simp_all)
  have "5 < card (F - {tf})" using tf(1) fin assms(4) by simp
  from proc_pagetable_total [OF F3 this, of p] obtain q s4 G where q: "proc_pagetable p ?s3 = Ret q s4" "q \<noteq> 0" "vm_eq ?s3 s4"
    "vm_ok s4 q G" "G \<subseteq> F - {tf}" "\<forall>va. pte_of (phys s4) q va =
       (if vpn va = vpn TRAPFRAME then PA2PTE tf OR (PTE_R OR PTE_W) OR PTE_V
        else if vpn va = vpn TRAMPOLINE then PA2PTE (trampoline_va s2) OR (PTE_R OR PTE_X) OR PTE_V else 0)" by auto
  note f2 = vm_eq_fields [OF tf(4)] and f4 = vm_eq_fields [OF q(3)]
  let ?t = "s4\<lparr>procs := (procs s4)(p := (procs s4 p)\<lparr>p_pagetable := q, p_context :=
          \<lparr>ctx_ra = forkret_va s4, ctx_sp = p_kstack (procs s4 p) + PGSIZE, ctx_s = \<lambda>_. 0\<rparr>\<rparr>)\<rparr>"
  have "allocproc s = Ret (Some p) ?t"
    using assms(1, 2, 5) tf(2, 3) q(1, 2) by (simp add: allocproc_def kmonad find_unused_eval)
  moreover have "fresh_proc p s ?t" using f2 f4 by (simp add: fresh_proc_def)
  moreover have "vm_ok ?t q G"
    by (rule vm_ok_cong [OF q(4)]) (use q(4) kmem_free_unlocked in \<open>auto simp: vm_ok_def\<close>)
  moreover have "trampoline_va s2 = trampoline_va s" "p_trapframe (procs ?t p) = tf" using f2 f4 by simp_all
  ultimately show ?thesis using q(5, 6) by (intro exI [of _ ?t] exI [of _ G]) auto
qed

text \<open>C21: with an unused slot and seven free pages \<^verbatim>\<open>allocproc\<close> succeeds.  It takes the first unused slot,
  gives it the next pid (the counter is an \<^verbatim>\<open>int\<close> and wraps around) and a page table that maps the trampoline and the trap frame and nothing else,
  and returns with the lock of the slot held; no other process changes.\<close>

theorem allocproc_spec:
  assumes "no_plock s" "Lpid \<notin> held s" "kmem_free s F" "6 < card F" "first_proc (\<lambda>P. p_state P = UNUSED) s = Some p"
  shows "\<exists>t G. allocproc s = Ret (Some p) t \<and> fresh_proc p s t \<and> G \<subseteq> F \<and> vm_ok t (p_pagetable (procs t p)) G \<and>
    (\<forall>va. pte_of (phys t) (p_pagetable (procs t p)) va =
       (if vpn va = vpn TRAPFRAME then PA2PTE (p_trapframe (procs t p)) OR (PTE_R OR PTE_W) OR PTE_V
        else if vpn va = vpn TRAMPOLINE then PA2PTE (trampoline_va s) OR (PTE_R OR PTE_X) OR PTE_V else 0))"
  using assms by (rule allocproc_total)

text \<open>A machine with all its memory free.\<close>

lemma booted_from:
  assumes "freelist s = 0" "held s = {}" "kend s = 0x80100000"
  shows "\<exists>t F. vm_eq s t \<and> kmem_free t F \<and> 6 < card F"
proof -
  have "Lkmem \<notin> held s" "0 < kend s" "kend s \<le> PHYSTOP" using assms by simp_all
  from kinit_ok [OF assms(1) this] obtain t xs where t: "kinit s = Ret () t" "kmem_ok t xs" "set xs = ram_pages (kend s)"
    by blast
  have "kkeeps vm_eq kinit" unfolding kinit_def freerange_def by (intro vm_keeps)
  from kkeeps_Ret [OF this t(1)] have eq: "vm_eq s t" .
  let ?A = "{0x87fff000, 0x87ffe000, 0x87ffd000, 0x87ffc000, 0x87ffb000, 0x87ffa000, 0x87ff9000 :: u64}"
  have "?A \<subseteq> ram_pages (kend s)"
    by (auto simp: ram_pages_iff assms(3) aligned_def take_bit_eq_mod)
  then have "card ?A \<le> card (set xs)" using t(3) by (metis List.finite_set card_mono)
  then show ?thesis using t(2) eq by (intro exI [of _ t] exI [of _ "set xs"]) (auto simp: kmem_free_def)
qed

lemma booted_example:
  "\<exists>(s :: proc_st) F. kmem_free s F \<and> 6 < card F \<and> held s = {} \<and> procs s = (\<lambda>_. idle_proc)"
proof -
  let ?s = "table_of (\<lambda>_. idle_proc)"
  obtain t F where t: "vm_eq ?s t" "kmem_free t F" "6 < card F"
    using booted_from [of ?s] by (auto simp: table_of_def)
  then show ?thesis using vm_eq_fields [OF t(1)] by (intro exI [of _ t] exI [of _ F]) (simp add: table_of_def)
qed

theorem allocproc_spec_witness:
  "\<exists>(s :: proc_st) t. procs s = (\<lambda>_. idle_proc) \<and> allocproc s = Ret (Some 0) t \<and> fresh_proc 0 s t"
proof -
  obtain s :: proc_st and F where s: "kmem_free s F" "6 < card F" "held s = {}" "procs s = (\<lambda>_. idle_proc)"
    using booted_example by blast
  have "first_proc (\<lambda>P. p_state P = UNUSED) s = Some 0"
    by (simp add: first_proc_Some s(4) idle_proc_def)
  from allocproc_spec [OF _ _ s(1, 2) this] s show ?thesis by (force simp: no_plock_def)
qed

text \<open>C38: \<^verbatim>\<open>kill(0)\<close> matches the pid 0 of a slot that is not in use and marks it killed; the process that
  next gets this slot is born killed.\<close>

theorem kill_zero_poisons_slot:
  assumes "no_plock s" "Lpid \<notin> held s" "kmem_free s F" "6 < card F"
    and "first_proc (\<lambda>P. p_state P = UNUSED) s = Some p" "first_proc (\<lambda>P. p_pid P = 0) s = Some p"
  shows "\<exists>u t. kkill 0 s = Ret 0 u \<and> allocproc u = Ret (Some p) t \<and> p_killed (procs t p) = 1"
proof -
  let ?u = "s\<lparr>procs := (procs s)(p := (procs s p)\<lparr>p_killed := 1, p_state := UNUSED\<rparr>)\<rparr>"
  have un: "p_state (procs s p) = UNUSED" using assms(5) by (simp add: first_proc_Some)
  have "kkill 0 s = Ret 0 ?u" using assms(1, 6) un by (simp add: kkill_eval)
  moreover have "kmem_free ?u F" by (rule kmem_free_cong [OF assms(3)]) (use kmem_free_unlocked [OF assms(3)] in simp_all)
  moreover have "first_proc (\<lambda>P. p_state P = UNUSED) ?u = Some p" using assms(5) by (auto simp: first_proc_Some)
  moreover have "no_plock ?u" "Lpid \<notin> held ?u" using assms(1, 2) by (simp_all add: no_plock_def)
  ultimately show ?thesis using allocproc_total [of ?u F p] assms(4) by (force simp: fresh_proc_def)
qed

theorem kill_zero_poisons_slot_witness:
  "\<exists>(s :: proc_st) u t. procs s = (\<lambda>_. idle_proc) \<and> kkill 0 s = Ret 0 u \<and> allocproc u = Ret (Some 0) t \<and> p_killed (procs t 0) = 1"
proof -
  obtain s :: proc_st and F where s: "kmem_free s F" "6 < card F" "held s = {}" "procs s = (\<lambda>_. idle_proc)"
    using booted_example by blast
  have "first_proc (\<lambda>P. p_state P = UNUSED) s = Some 0" "first_proc (\<lambda>P. p_pid P = 0) s = Some 0"
    by (simp_all add: first_proc_Some s(4) idle_proc_def)
  from kill_zero_poisons_slot [OF _ _ s(1, 2) this] s show ?thesis by (force simp: no_plock_def)
qed

section \<open>Exit\<close>

text \<open>What other processes see of an exit: they may be given to \<^verbatim>\<open>init\<close>, and a sleeper may be woken.\<close>

definition exit_seen :: "proc \<Rightarrow> proc \<Rightarrow> bool" where
  "exit_seen P Q \<longleftrightarrow> (\<exists>a. Q = P\<lparr>p_parent := a\<rparr> \<or> p_state P = SLEEPING \<and> Q = P\<lparr>p_parent := a, p_state := RUNNABLE\<rparr>)"

lemma exit_seen_refl: "exit_seen P P"
  unfolding exit_seen_def by (rule exI [of _ "p_parent P"]) simp

lemma exit_seen_intros:
  "exit_seen P (P\<lparr>p_parent := a\<rparr>)"
  "p_state P = SLEEPING \<Longrightarrow> exit_seen P (P\<lparr>p_parent := a, p_state := RUNNABLE\<rparr>)"
  "p_state P = SLEEPING \<Longrightarrow> exit_seen P (P\<lparr>p_state := RUNNABLE\<rparr>)"
proof -
  show "exit_seen P (P\<lparr>p_parent := a\<rparr>)" "p_state P = SLEEPING \<Longrightarrow> exit_seen P (P\<lparr>p_parent := a, p_state := RUNNABLE\<rparr>)" for a
    by (auto simp: exit_seen_def)
  from this(2) [of "p_parent P"] show "p_state P = SLEEPING \<Longrightarrow> exit_seen P (P\<lparr>p_state := RUNNABLE\<rparr>)" by simp
qed

lemma exit_seen_fields: "exit_seen P Q \<Longrightarrow> p_chan Q = p_chan P"
  by (auto simp: exit_seen_def)

lemma exit_seen_state: "exit_seen P Q \<Longrightarrow> p_state Q = p_state P \<or> p_state P = SLEEPING \<and> p_state Q = RUNNABLE"
  by (auto simp: exit_seen_def)

lemma exit_seen_trans: "exit_seen P Q \<Longrightarrow> exit_seen Q R \<Longrightarrow> exit_seen P R"
proof -
  have c: "P\<lparr>p_parent := a, p_state := r, p_parent := b\<rparr> = P\<lparr>p_parent := b, p_state := r\<rparr>" for P :: proc and a b r by simp
  assume "exit_seen P Q" "exit_seen Q R"
  then show ?thesis unfolding exit_seen_def by (elim exE disjE conjE) (auto simp: c)
qed

definition reparented :: "nat \<Rightarrow> nat option \<Rightarrow> nat set \<Rightarrow> (nat \<Rightarrow> proc) \<Rightarrow> (nat \<Rightarrow> proc) \<Rightarrow> bool" where
  "reparented p ini A ps qs \<longleftrightarrow> (\<forall>i. exit_seen (ps i) (qs i)) \<and>
     (\<forall>i. p_parent (qs i) = (if i \<in> A \<and> p_parent (ps i) = Some p then ini else p_parent (ps i))) \<and>
     p_state (qs p) = p_state (ps p)"

lemma reparent_loop:
  assumes body: "\<And>j s. body j s = (if p_parent (procs s j) = Some p
      then wakeup (map_option Chan_proc (initproc s)) (s\<lparr>procs := (procs s)(j := (procs s j)\<lparr>p_parent := initproc s\<rparr>)\<rparr>)
      else Ret () s)"
    and "cproc s = Some p" "no_plock s" "distinct is"
  shows "\<exists>qs. kfor is body s
     = Ret () (s\<lparr>procs := qs\<rparr>) \<and> reparented p (initproc s) (set is) (procs s) qs"
  using assms(2-)
proof (induction "is" arbitrary: s)
  case Nil
  then show ?case by (auto simp: kmonad reparented_def exit_seen_refl intro!: exI [of _ "procs s"])
next
  case (Cons j js)
  show ?case
  proof (cases "p_parent (procs s j) = Some p")
    case False
    from Cons.IH [OF Cons.prems(1, 2)] Cons.prems(3) obtain qs where
      q: "kfor js body s
        = Ret () (s\<lparr>procs := qs\<rparr>)" "reparented p (initproc s) (set js) (procs s) qs" by auto
    then show ?thesis using False by (intro exI [of _ qs]) (auto simp: kthen_eval body [of j s] reparented_def)
  next
    case True
    let ?u = "s\<lparr>procs := (procs s)(j := (procs s j)\<lparr>p_parent := initproc s\<rparr>)\<rparr>"
    define ps where "ps = (\<lambda>i. if i < NPROC \<and> Some i \<noteq> cproc ?u \<and> p_state (procs ?u i) = SLEEPING \<and>
        p_chan (procs ?u i) = map_option Chan_proc (initproc s) then (procs ?u i)\<lparr>p_state := RUNNABLE\<rparr> else procs ?u i)"
    have w: "wakeup (map_option Chan_proc (initproc s)) ?u = Ret () (s\<lparr>procs := ps\<rparr>)"
      unfolding ps_def by (subst wakeup_eval) (use Cons.prems(2) in \<open>simp_all add: no_plock_def\<close>)
    have r: "reparented p (initproc s) {j} (procs s) ps"
      using True Cons.prems(1) by (auto simp: reparented_def ps_def intro: exit_seen_refl exit_seen_intros)
    let ?t = "s\<lparr>procs := ps\<rparr>"
    from Cons.IH [of ?t] Cons.prems obtain qs where
      q: "kfor js body ?t
        = Ret () (?t\<lparr>procs := qs\<rparr>)" "reparented p (initproc s) (set js) ps qs" by (auto simp: no_plock_def)
    have "j \<notin> set js" using Cons.prems(3) by simp
    then have "reparented p (initproc s) (set (j # js)) (procs s) qs"
      using r q(2) unfolding reparented_def by (auto intro: exit_seen_trans)
    then show ?thesis using q(1) w True by (intro exI [of _ qs]) (simp add: kthen_eval body [of j s])
  qed
qed

lemma reparent_eval:
  assumes "cproc s = Some p" "no_plock s"
  shows "\<exists>qs. reparent p s = Ret () (s\<lparr>procs := qs\<rparr>) \<and> reparented p (initproc s) {..<NPROC} (procs s) qs"
proof -
  have "set allprocs = {..<NPROC}" by (auto simp: allprocs_def)
  moreover have "\<exists>qs. reparent p s = Ret () (s\<lparr>procs := qs\<rparr>) \<and> reparented p (initproc s) (set allprocs) (procs s) qs"
    unfolding reparent_def by (rule reparent_loop) (use assms in \<open>simp_all add: kmonad\<close>)
  ultimately show ?thesis by simp
qed

text \<open>C11: the end of an exit.  The process becomes a zombie with its status recorded, its children are
  given to \<^verbatim>\<open>init\<close>, a parent asleep in \<^verbatim>\<open>wait\<close> is runnable again, and the process gives the processor up
  for good holding only its own lock.\<close>

theorem exit_wakes_parent:
  assumes "cproc s = Some p" "held s = {}" "p < NPROC" "p_parent (procs s p) = Some q" "q < NPROC" "q \<noteq> p"
    and "p_state (procs s q) = SLEEPING" "p_chan (procs s q) = Some (Chan_proc q)"
  shows "\<exists>t. exit_zombie p status s = Sched t \<and> held t = {Lproc p} \<and>
    p_state (procs t p) = ZOMBIE \<and> p_xstate (procs t p) = status \<and> p_state (procs t q) = RUNNABLE \<and>
    (\<forall>i<NPROC. p_parent (procs t i) = (if p_parent (procs s i) = Some p then initproc s else p_parent (procs s i)))"
proof -
  let ?v = "s\<lparr>held := {Lwait}\<rparr>"
  have "no_plock ?v" by (simp add: no_plock_def)
  with reparent_eval [of ?v p] assms(1) obtain qs where r: "reparent p ?v = Ret () (?v\<lparr>procs := qs\<rparr>)"
    and rp: "reparented p (initproc s) {..<NPROC} (procs s) qs" by auto
  have par: "p_parent (qs i) = (if p_parent (procs s i) = Some p then initproc s else p_parent (procs s i))" if "i < NPROC" for i
    using rp that by (simp add: reparented_def)
  then have pq: "p_parent (qs p) = Some q" using assms(3, 4, 6) by simp
  have sq: "p_state (qs q) = SLEEPING \<or> p_state (qs q) = RUNNABLE" "p_chan (qs q) = Some (Chan_proc q)"
  proof -
    have es: "exit_seen (procs s q) (qs q)" using rp by (simp add: reparented_def)
    show "p_state (qs q) = SLEEPING \<or> p_state (qs q) = RUNNABLE" using exit_seen_state [OF es] assms(7) by auto
    show "p_chan (qs q) = Some (Chan_proc q)" using exit_seen_fields [OF es] assms(8) by simp
  qed
  let ?w = "wake_all (Chan_proc q) (?v\<lparr>procs := qs\<rparr>)"
  have "wakeup (Some (Chan_proc q)) (?v\<lparr>procs := qs\<rparr>) = Ret () ?w" by (rule wakeup_all) (simp add: no_plock_def)
  then have "exit_zombie p status s =
      Sched (?w\<lparr>procs := (procs ?w)(p := (procs ?w p)\<lparr>p_xstate := status, p_state := ZOMBIE\<rparr>), held := {Lproc p}\<rparr>)"
    (is "_ = Sched ?t")
    using assms(1, 2) r pq by (simp add: exit_zombie_def kmonad insert_Diff_if)
  moreover have "p_state (procs ?t q) = RUNNABLE" using sq assms(1, 5, 6) by (auto simp: wake_all_def)
  moreover have "p_parent (procs ?t i) = p_parent (qs i)" for i by (simp add: wake_all_def)
  ultimately show ?thesis using par by (intro exI [of _ ?t]) simp
qed

theorem exit_wakes_parent_witness:
  "\<exists>t. exit_zombie 0 3 (blank_table (\<lambda>i. if i = 0 then idle_proc\<lparr>p_state := RUNNING, p_parent := Some 1\<rparr>
      else idle_proc\<lparr>p_state := SLEEPING, p_chan := Some (Chan_proc 1)\<rparr>) () :: proc_st) = Sched t \<and>
    p_state (procs t 0) = ZOMBIE \<and> p_xstate (procs t 0) = 3 \<and> p_state (procs t 1) = RUNNABLE"
  using exit_wakes_parent [of "blank_table (\<lambda>i. if i = 0 then idle_proc\<lparr>p_state := RUNNING, p_parent := Some 1\<rparr>
      else idle_proc\<lparr>p_state := SLEEPING, p_chan := Some (Chan_proc 1)\<rparr>) () :: proc_st" 0 1 3]
  by (auto simp: blank)

end
