(* ===== verification/Exec.thy ===== *)
theory Exec
  imports Syscall_Args
begin

unbundle bit_operations_syntax

text \<open>
  \<^verbatim>\<open>kernel/exec.c\<close>: loading an ELF executable into a new page table, building the argument
  stack, and committing to the new image.  The headers are read at the byte offsets of
  \<^verbatim>\<open>struct elfhdr\<close> and \<^verbatim>\<open>struct proghdr\<close>.
\<close>

definition flags2perm :: "u32 \<Rightarrow> u64" where
  "flags2perm flags = (if flags AND 1 \<noteq> 0 then PTE_X else 0) OR (if flags AND 2 \<noteq> 0 then PTE_W else 0)"

record elfhdr =
  e_magic :: u32
  e_entry :: u64
  e_phoff :: u64
  e_phnum :: u16

record proghdr =
  ph_type :: u32
  ph_flags :: u32
  ph_off :: u64
  ph_vaddr :: u64
  ph_filesz :: u64
  ph_memsz :: u64

definition sub_bytes :: "u8 list \<Rightarrow> nat \<Rightarrow> nat \<Rightarrow> u8 list" where
  "sub_bytes bs i n = take n (drop i bs)"

definition elf_of :: "u8 list \<Rightarrow> elfhdr" where
  "elf_of bs = \<lparr>e_magic = le32 (sub_bytes bs 0 4), e_entry = le64 (sub_bytes bs 24 8),
     e_phoff = le64 (sub_bytes bs 32 8), e_phnum = le16 (sub_bytes bs 56 2)\<rparr>"

definition ph_of :: "u8 list \<Rightarrow> proghdr" where
  "ph_of bs = \<lparr>ph_type = le32 (sub_bytes bs 0 4), ph_flags = le32 (sub_bytes bs 4 4),
     ph_off = le64 (sub_bytes bs 8 8), ph_vaddr = le64 (sub_bytes bs 16 8),
     ph_filesz = le64 (sub_bytes bs 32 8), ph_memsz = le64 (sub_bytes bs 40 8)\<rparr>"

abbreviation (input) ELF_MAGIC :: u32 where "ELF_MAGIC \<equiv> 0x464C457F"

definition loadseg :: "u64 \<Rightarrow> u64 \<Rightarrow> nat \<Rightarrow> u32 \<Rightarrow> u32 \<Rightarrow> ('a fs_st_scheme, int) km" where
  "loadseg pagetable va ip offset sz =
     kbind (kfind [0..<(unat sz + 4095) div 4096] (\<lambda>k.
       let i = 4096 * k in
       kbind (walkaddr pagetable (va + of_nat i)) (\<lambda>pa.
       if pa = 0 then kpanic ''loadseg: address should exist''
       else
         let n = min (unat sz - i) 4096 in
         kbind (readi ip (Dst_phys pa) (offset + of_nat i) (of_nat n)) (\<lambda>r.
         kret (if fst r \<noteq> int n then Some (-1) else None)))))
     (\<lambda>r. kret (case r of Some e \<Rightarrow> e | None \<Rightarrow> 0))"

text \<open>The program headers one after the other.  The result is whether all went well, and the size
  the image has reached.\<close>

primrec exec_load :: "u64 \<Rightarrow> nat \<Rightarrow> nat \<Rightarrow> u32 \<Rightarrow> u64 \<Rightarrow> ('a fs_st_scheme, bool \<times> u64) km" where
  "exec_load pagetable ip 0 off sz = kret (True, sz)"
| "exec_load pagetable ip (Suc n) off sz =
     kbind (readi ip Dst_local off 56) (\<lambda>r.
     let ph = ph_of (snd r) in
     if fst r \<noteq> 56 then kret (False, sz)
     else if ph_type ph \<noteq> 1 then exec_load pagetable ip n (off + 56) sz
     else if ph_memsz ph < ph_filesz ph then kret (False, sz)
     else if ph_vaddr ph + ph_memsz ph < ph_vaddr ph then kret (False, sz)
     else if ph_vaddr ph mod PGSIZE \<noteq> 0 then kret (False, sz)
     else
       kbind (uvmalloc pagetable sz (ph_vaddr ph + ph_memsz ph) (flags2perm (ph_flags ph))) (\<lambda>sz1.
       if sz1 = 0 then kret (False, sz)
       else
         kbind (loadseg pagetable (ph_vaddr ph) ip (ucast (ph_off ph)) (ucast (ph_filesz ph))) (\<lambda>e.
         if e < 0 then kret (False, sz1)
         else exec_load pagetable ip n (off + 56) sz1)))"

text \<open>Pushing the argument strings; the result is the stack pointer and the addresses of the strings.\<close>

primrec exec_args :: "u64 \<Rightarrow> u64 \<Rightarrow> u8 list list \<Rightarrow> nat \<Rightarrow> u64 \<Rightarrow> ('a fs_st_scheme, (u64 \<times> u64 list) option) km" where
  "exec_args pagetable stackbase [] argc sp = kret (Some (sp, []))"
| "exec_args pagetable stackbase (a # argv) argc sp =
     (if argc \<ge> MAXARG then kret None
      else
        let sp1 = sp - of_nat (length a + 1); sp2 = sp1 - sp1 mod 16 in
        if sp2 < stackbase then kret None
        else
          kbind (copyout pagetable sp2 (a @ [0])) (\<lambda>e.
          if e < 0 then kret None
          else
            kbind (exec_args pagetable stackbase argv (Suc argc) sp2) (\<lambda>r.
            kret (map_option (\<lambda>(q, us). (q, sp2 # us)) r))))"

definition path_last :: "u8 list \<Rightarrow> u8 list" where
  "path_last path = rev (takeWhile (\<lambda>c. c \<noteq> slash) (rev path))"

definition exec_commit :: "nat \<Rightarrow> u8 list \<Rightarrow> u64 \<Rightarrow> u64 \<Rightarrow> u64 \<Rightarrow> u64 \<Rightarrow> u64 \<Rightarrow> nat \<Rightarrow> ('a fs_st_scheme, int) km" where
  "exec_commit p path pagetable oldsz sz entry sp argc =
     kbind (proc_at p) (\<lambda>P.
     kthen (tf_set (p_trapframe P) 120 sp)
     (kthen (upd_proc p (\<lambda>P. P\<lparr>p_name := safestrcpy (p_name P) (cstr (path_last path)) 16\<rparr>))
     (kthen (upd_proc p (\<lambda>P. P\<lparr>p_pagetable := pagetable\<rparr>))
     (kthen (upd_proc p (\<lambda>P. P\<lparr>p_sz := sz\<rparr>))
     (kthen (tf_set (p_trapframe P) TF_epc entry)
     (kthen (tf_set (p_trapframe P) TF_sp sp)
     (kthen (proc_freepagetable (p_pagetable P) oldsz)
     (kret (int argc)))))))))"

text \<open>From the closed executable on: the stack pages, the arguments, the commit.\<close>

definition exec_stack :: "nat \<Rightarrow> u8 list \<Rightarrow> u8 list list \<Rightarrow> u64 \<Rightarrow> u64 \<Rightarrow> u64 \<Rightarrow> ('a fs_st_scheme, int) km" where
  "exec_stack p path argv pagetable sz0 entry =
     kbind (proc_at p) (\<lambda>P.
     let oldsz = p_sz P; sz = PGROUNDUP sz0 in
     kbind (uvmalloc pagetable sz (sz + 2 * PGSIZE) PTE_W) (\<lambda>sz1.
     if sz1 = 0 then kthen (proc_freepagetable pagetable sz) (kret (-1))
     else
       kthen (uvmclear pagetable (sz1 - 2 * PGSIZE))
       (let stackbase = sz1 - PGSIZE in
        kbind (exec_args pagetable stackbase argv 0 sz1) (\<lambda>r.
        case r of
          None \<Rightarrow> kthen (proc_freepagetable pagetable sz1) (kret (-1))
        | Some (sp, us) \<Rightarrow>
            let argc = length us;
                sp1 = sp - of_nat ((argc + 1) * 8); sp2 = sp1 - sp1 mod 16 in
            if sp2 < stackbase then kthen (proc_freepagetable pagetable sz1) (kret (-1))
            else
              kbind (copyout pagetable sp2 (concat (map bytes64 (us @ [0])))) (\<lambda>e.
              if e < 0 then kthen (proc_freepagetable pagetable sz1) (kret (-1))
              else exec_commit p path pagetable oldsz sz1 entry sp2 argc)))))"

definition kexec :: "u8 list \<Rightarrow> u8 list list \<Rightarrow> ('a fs_st_scheme, int) km" where
  "kexec path argv =
     kbind curproc (\<lambda>p.
     kthen begin_op
     (kbind (namei path) (\<lambda>r.
     case r of
       None \<Rightarrow> kthen end_op (kret (-1))
     | Some ip \<Rightarrow>
         let bad = kthen (iunlockput ip) (kthen end_op (kret (-1))) in
         kthen (ilock ip)
         (kbind (readi ip Dst_local 0 64) (\<lambda>r.
         let elf = elf_of (snd r) in
         if fst r \<noteq> 64 then bad
         else if e_magic elf \<noteq> ELF_MAGIC then bad
         else
           kbind (proc_pagetable p) (\<lambda>pagetable.
           if pagetable = 0 then bad
           else
             kbind (exec_load pagetable ip (unat (e_phnum elf)) (ucast (e_phoff elf)) 0) (\<lambda>l.
             if \<not> fst l then kthen (proc_freepagetable pagetable (snd l)) bad
             else
               kthen (iunlockput ip)
               (kthen end_op
               (exec_stack p path argv pagetable (snd l) (e_entry elf))))))))))"

end
