(* ===== verification/Sysfile.thy ===== *)
theory Sysfile
  imports Exec
begin

unbundle bit_operations_syntax

text \<open>
  \<^verbatim>\<open>kernel/sysfile.c\<close>: the system calls on files and directories, with their argument checks and the
  order in which they give inodes, files and descriptors back when something fails.
\<close>

definition argfd :: "nat \<Rightarrow> ('a file_st_scheme, (nat \<times> nat) option) km" where
  "argfd n =
     kbind (argint n) (\<lambda>fd.
     if fd < 0 \<or> fd \<ge> int NOFILE then kret None
     else
       kbind curproc (\<lambda>p.
       kbind (proc_at p) (\<lambda>P.
       kret (case p_ofile P (nat fd) of None \<Rightarrow> None | Some f \<Rightarrow> Some (nat fd, f)))))"

definition fdalloc :: "nat \<Rightarrow> ('a file_st_scheme, nat option) km" where
  "fdalloc f =
     kbind curproc (\<lambda>p.
     kfind [0..<NOFILE] (\<lambda>fd.
       kbind (proc_at p) (\<lambda>P.
       if p_ofile P fd = None then
         kthen (upd_proc p (\<lambda>P. P\<lparr>p_ofile := (p_ofile P)(fd := Some f)\<rparr>))
         (kret (Some fd))
       else kret None)))"

definition sys_dup :: "('a file_st_scheme, u64) km" where
  "sys_dup =
     kbind (argfd 0) (\<lambda>r.
     case r of
       None \<Rightarrow> kret (-1)
     | Some (_, f) \<Rightarrow>
         kbind (fdalloc f) (\<lambda>q.
         case q of
           None \<Rightarrow> kret (-1)
         | Some fd \<Rightarrow> kthen (filedup f) (kret (of_nat fd))))"

definition sys_read :: "('a file_st_scheme, u64) km" where
  "sys_read =
     kbind (argaddr 1) (\<lambda>p.
     kbind (argint 2) (\<lambda>n.
     kbind (argfd 0) (\<lambda>r.
     case r of
       None \<Rightarrow> kret (-1)
     | Some (_, f) \<Rightarrow> kbind (fileread f p n) (\<lambda>v. kret (of_cint v)))))"

definition sys_write :: "('a file_st_scheme, u64) km" where
  "sys_write =
     kbind (argaddr 1) (\<lambda>p.
     kbind (argint 2) (\<lambda>n.
     kbind (argfd 0) (\<lambda>r.
     case r of
       None \<Rightarrow> kret (-1)
     | Some (_, f) \<Rightarrow> kbind (filewrite f p n) (\<lambda>v. kret (of_cint v)))))"

definition clear_fd :: "nat \<Rightarrow> nat \<Rightarrow> ('a file_st_scheme, unit) km" where
  "clear_fd p fd = upd_proc p (\<lambda>P. P\<lparr>p_ofile := (p_ofile P)(fd := None)\<rparr>)"

definition sys_close :: "('a file_st_scheme, u64) km" where
  "sys_close =
     kbind (argfd 0) (\<lambda>r.
     case r of
       None \<Rightarrow> kret (-1)
     | Some (fd, f) \<Rightarrow>
         kbind curproc (\<lambda>p.
         kthen (clear_fd p fd)
         (kthen (fileclose f)
         (kret 0))))"

definition sys_fstat :: "('a file_st_scheme, u64) km" where
  "sys_fstat =
     kbind (argaddr 1) (\<lambda>st.
     kbind (argfd 0) (\<lambda>r.
     case r of
       None \<Rightarrow> kret (-1)
     | Some (_, f) \<Rightarrow> kbind (filestat f st) (\<lambda>v. kret (of_cint v))))"

section \<open>Links\<close>

definition link_bad :: "nat \<Rightarrow> ('a fs_st_scheme, u64) km" where
  "link_bad ip =
     kthen (ilock ip)
     (kthen (upd_inode ip (\<lambda>I. I\<lparr>i_nlink := i_nlink I - 1\<rparr>))
     (kthen (iupdate ip)
     (kthen (iunlockput ip)
     (kthen end_op
     (kret (-1))))))"

definition do_link :: "u8 list \<Rightarrow> u8 list \<Rightarrow> ('a fs_st_scheme, u64) km" where
  "do_link old new =
     kthen begin_op
     (kbind (namei old) (\<lambda>r.
     case r of
       None \<Rightarrow> kthen end_op (kret (-1))
     | Some ip \<Rightarrow>
         kthen (ilock ip)
         (kbind (inode_at ip) (\<lambda>I.
         if i_type I = T_DIR then kthen (iunlockput ip) (kthen end_op (kret (-1)))
         else
           kthen (upd_inode ip (\<lambda>I. I\<lparr>i_nlink := i_nlink I + 1\<rparr>))
           (kthen (iupdate ip)
           (kthen (iunlock ip)
           (kbind (nameiparent new) (\<lambda>q.
           case q of
             None \<Rightarrow> link_bad ip
           | Some (dp, nm) \<Rightarrow>
               kthen (ilock dp)
               (kbind (inode_at dp) (\<lambda>D.
               kbind (if i_dev D \<noteq> i_dev I then kret (-1) else dirlink dp nm (i_inum I)) (\<lambda>e.
               if e < 0 then kthen (iunlockput dp) (link_bad ip)
               else
                 kthen (iunlockput dp)
                 (kthen (iput ip)
                 (kthen end_op
                 (kret 0))))))))))))))"

definition sys_link :: "('a file_st_scheme, u64) km" where
  "sys_link =
     kbind (argstr 0 MAXPATH) (\<lambda>a.
     case a of
       None \<Rightarrow> kret (-1)
     | Some old \<Rightarrow>
         kbind (argstr 1 MAXPATH) (\<lambda>b.
         case b of
           None \<Rightarrow> kret (-1)
         | Some new \<Rightarrow> do_link old new))"

definition isdirempty :: "nat \<Rightarrow> ('a fs_st_scheme, bool) km" where
  "isdirempty dp =
     kbind (inode_at dp) (\<lambda>D.
     kbind (kfind (drop 2 (dir_offsets (i_size D))) (\<lambda>off.
       kbind (readi dp Dst_local off 16) (\<lambda>r.
       if fst r \<noteq> 16 then kpanic ''isdirempty: readi''
       else kret (if de_inum (snd r) \<noteq> 0 then Some False else None)))) (\<lambda>r.
     kret (r = None)))"

definition dot :: "u8 list" where "dot = [46]"
definition dotdot :: "u8 list" where "dotdot = [46, 46]"

definition unlink_bad :: "nat \<Rightarrow> ('a fs_st_scheme, u64) km" where
  "unlink_bad dp = kthen (iunlockput dp) (kthen end_op (kret (-1)))"

definition do_unlink :: "u8 list \<Rightarrow> ('a fs_st_scheme, u64) km" where
  "do_unlink path =
     kthen begin_op
     (kbind (nameiparent path) (\<lambda>r.
     case r of
       None \<Rightarrow> kthen end_op (kret (-1))
     | Some (dp, nm) \<Rightarrow>
         kthen (ilock dp)
         (if namecmp nm dot = 0 \<or> namecmp nm dotdot = 0 then unlink_bad dp
          else
            kbind (dirlookup dp nm) (\<lambda>q.
            case q of
              None \<Rightarrow> unlink_bad dp
            | Some (ip, off) \<Rightarrow>
                kthen (ilock ip)
                (kbind (inode_at ip) (\<lambda>I.
                if sint (i_nlink I) < 1 then kpanic ''unlink: nlink < 1''
                else
                  kbind (if i_type I = T_DIR then isdirempty ip else kret True) (\<lambda>ok.
                  if \<not> ok then kthen (iunlockput ip) (unlink_bad dp)
                  else
                    kbind (writei dp (Src_local (replicate 16 0)) off 16) (\<lambda>w.
                    if w \<noteq> 16 then kpanic ''unlink: writei''
                    else
                      kthen (kwhen (i_type I = T_DIR)
                        (kthen (upd_inode dp (\<lambda>D. D\<lparr>i_nlink := i_nlink D - 1\<rparr>)) (iupdate dp)))
                      (kthen (iunlockput dp)
                      (kthen (upd_inode ip (\<lambda>I. I\<lparr>i_nlink := i_nlink I - 1\<rparr>))
                      (kthen (iupdate ip)
                      (kthen (iunlockput ip)
                      (kthen end_op
                      (kret 0))))))))))))))"

definition sys_unlink :: "('a file_st_scheme, u64) km" where
  "sys_unlink =
     kbind (argstr 0 MAXPATH) (\<lambda>a.
     case a of None \<Rightarrow> kret (-1) | Some path \<Rightarrow> do_unlink path)"

section \<open>Creating and opening\<close>

definition create_fail :: "nat \<Rightarrow> nat \<Rightarrow> ('a fs_st_scheme, nat option) km" where
  "create_fail ip dp =
     kthen (upd_inode ip (\<lambda>I. I\<lparr>i_nlink := 0\<rparr>))
     (kthen (iupdate ip)
     (kthen (iunlockput ip)
     (kthen (iunlockput dp)
     (kret None))))"

definition create :: "u8 list \<Rightarrow> u16 \<Rightarrow> u16 \<Rightarrow> u16 \<Rightarrow> ('a fs_st_scheme, nat option) km" where
  "create path ty major minor =
     kbind (nameiparent path) (\<lambda>r.
     case r of
       None \<Rightarrow> kret None
     | Some (dp, nm) \<Rightarrow>
         kthen (ilock dp)
         (kbind (dirlookup dp nm) (\<lambda>q.
         case q of
           Some (ip, _) \<Rightarrow>
             kthen (iunlockput dp)
             (kthen (ilock ip)
             (kbind (inode_at ip) (\<lambda>I.
             if ty = T_FILE \<and> (i_type I = T_FILE \<or> i_type I = T_DEVICE) then kret (Some ip)
             else kthen (iunlockput ip) (kret None))))
         | None \<Rightarrow>
             kbind (inode_at dp) (\<lambda>D.
             kbind (ialloc (i_dev D) ty) (\<lambda>a.
             case a of
               None \<Rightarrow> kthen (iunlockput dp) (kret None)
             | Some ip \<Rightarrow>
                 kthen (ilock ip)
                 (kthen (upd_inode ip (\<lambda>I. I\<lparr>i_major := major, i_minor := minor, i_nlink := 1\<rparr>))
                 (kthen (iupdate ip)
                 (kbind (inode_at ip) (\<lambda>I.
                 kbind (if ty = T_DIR then
                          kbind (dirlink ip dot (i_inum I)) (\<lambda>e.
                          if e < 0 then kret e else dirlink ip dotdot (i_inum D))
                        else kret 0) (\<lambda>e.
                 if e < 0 then create_fail ip dp
                 else
                   kbind (dirlink dp nm (i_inum I)) (\<lambda>e.
                   if e < 0 then create_fail ip dp
                   else
                     kthen (kwhen (ty = T_DIR)
                       (kthen (upd_inode dp (\<lambda>D. D\<lparr>i_nlink := i_nlink D + 1\<rparr>)) (iupdate dp)))
                     (kthen (iunlockput dp)
                     (kret (Some ip))))))))))))))"

definition open_inode :: "u8 list \<Rightarrow> u32 \<Rightarrow> ('a file_st_scheme, nat option) km" where
  "open_inode path omode =
     (if omode AND 0x200 \<noteq> 0 then create path T_FILE 0 0
      else
        kbind (namei path) (\<lambda>r.
        case r of
          None \<Rightarrow> kret None
        | Some ip \<Rightarrow>
            kthen (ilock ip)
            (kbind (inode_at ip) (\<lambda>I.
            if i_type I = T_DIR \<and> omode \<noteq> 0 then kthen (iunlockput ip) (kret None)
            else kret (Some ip)))))"

definition do_open :: "u8 list \<Rightarrow> u32 \<Rightarrow> ('a file_st_scheme, u64) km" where
  "do_open path omode =
     kthen begin_op
     (kbind (open_inode path omode) (\<lambda>r.
     case r of
       None \<Rightarrow> kthen end_op (kret (-1))
     | Some ip \<Rightarrow>
         kbind (inode_at ip) (\<lambda>I.
         if i_type I = T_DEVICE \<and> (sint (i_major I) < 0 \<or> sint (i_major I) \<ge> int NDEV) then
           kthen (iunlockput ip) (kthen end_op (kret (-1)))
         else
           kbind filealloc (\<lambda>fo.
           case fo of
             None \<Rightarrow> kthen (iunlockput ip) (kthen end_op (kret (-1)))
           | Some f \<Rightarrow>
               kbind (fdalloc f) (\<lambda>d.
               case d of
                 None \<Rightarrow> kthen (fileclose f) (kthen (iunlockput ip) (kthen end_op (kret (-1))))
               | Some fd \<Rightarrow>
                   kthen (if i_type I = T_DEVICE then upd_file f (\<lambda>F. F\<lparr>f_type := FD_DEVICE, f_major := i_major I\<rparr>)
                          else upd_file f (\<lambda>F. F\<lparr>f_type := FD_INODE, f_off := 0\<rparr>))
                   (kthen (upd_file f (\<lambda>F. F\<lparr>f_ip := ip, f_readable := (omode AND 1 = 0),
                            f_writable := (omode AND 1 \<noteq> 0 \<or> omode AND 2 \<noteq> 0)\<rparr>))
                   (kthen (kwhen (omode AND 0x400 \<noteq> 0 \<and> i_type I = T_FILE) (itrunc ip))
                   (kthen (iunlock ip)
                   (kthen end_op
                   (kret (of_nat fd)))))))))))"

definition sys_open :: "('a file_st_scheme, u64) km" where
  "sys_open =
     kbind (argint 1) (\<lambda>omode.
     kbind (argstr 0 MAXPATH) (\<lambda>a.
     case a of None \<Rightarrow> kret (-1) | Some path \<Rightarrow> do_open path (word_of_int omode)))"

definition sys_mkdir :: "('a file_st_scheme, u64) km" where
  "sys_mkdir =
     kthen begin_op
     (kbind (argstr 0 MAXPATH) (\<lambda>a.
     kbind (case a of None \<Rightarrow> kret None | Some path \<Rightarrow> create path T_DIR 0 0) (\<lambda>r.
     case r of
       None \<Rightarrow> kthen end_op (kret (-1))
     | Some ip \<Rightarrow> kthen (iunlockput ip) (kthen end_op (kret 0)))))"

definition sys_mknod :: "('a file_st_scheme, u64) km" where
  "sys_mknod =
     kthen begin_op
     (kbind (argint 1) (\<lambda>major.
     kbind (argint 2) (\<lambda>minor.
     kbind (argstr 0 MAXPATH) (\<lambda>a.
     kbind (case a of None \<Rightarrow> kret None
            | Some path \<Rightarrow> create path T_DEVICE (word_of_int major) (word_of_int minor)) (\<lambda>r.
     case r of
       None \<Rightarrow> kthen end_op (kret (-1))
     | Some ip \<Rightarrow> kthen (iunlockput ip) (kthen end_op (kret 0)))))))"

definition sys_chdir :: "('a file_st_scheme, u64) km" where
  "sys_chdir =
     kbind curproc (\<lambda>p.
     kthen begin_op
     (kbind (argstr 0 MAXPATH) (\<lambda>a.
     kbind (case a of None \<Rightarrow> kret None | Some path \<Rightarrow> namei path) (\<lambda>r.
     case r of
       None \<Rightarrow> kthen end_op (kret (-1))
     | Some ip \<Rightarrow>
         kthen (ilock ip)
         (kbind (inode_at ip) (\<lambda>I.
         if i_type I \<noteq> T_DIR then kthen (iunlockput ip) (kthen end_op (kret (-1)))
         else
           kthen (iunlock ip)
           (kbind (proc_at p) (\<lambda>P.
           kthen (case p_cwd P of None \<Rightarrow> kpanic ''kerneltrap'' | Some c \<Rightarrow> iput c)
           (kthen end_op
           (kthen (upd_proc p (\<lambda>P. P\<lparr>p_cwd := Some ip\<rparr>))
           (kret 0)))))))))))"

section \<open>exec and pipe\<close>

text \<open>The loop of \<^verbatim>\<open>sys_exec\<close>: each argument string goes to a page of its own.  The result is the
  pages taken, and the strings when all were fetched.\<close>

primrec exec_fetch :: "u64 \<Rightarrow> nat \<Rightarrow> nat \<Rightarrow> ('a file_st_scheme, u64 list \<times> u8 list list option) km" where
  "exec_fetch uargv i 0 = kret ([], None)"
| "exec_fetch uargv i (Suc n) =
     kbind (fetchaddr (uargv + 8 * of_nat i)) (\<lambda>u.
     case u of
       None \<Rightarrow> kret ([], None)
     | Some uarg \<Rightarrow>
         if uarg = 0 then kret ([], Some [])
         else
           kbind kalloc (\<lambda>pg.
           if pg = 0 then kret ([], None)
           else
             kbind (fetchstr uarg PGBYTES) (\<lambda>q.
             case q of
               None \<Rightarrow> kret ([pg], None)
             | Some a \<Rightarrow>
                 kthen (kmod (\<lambda>s. s\<lparr>phys := put_bytes (phys s) pg (a @ [0])\<rparr>))
                 (kbind (exec_fetch uargv (Suc i) n) (\<lambda>r.
                 kret (pg # fst r, map_option (Cons a) (snd r)))))))"

definition sys_exec :: "('a file_st_scheme, u64) km" where
  "sys_exec =
     kbind (argaddr 1) (\<lambda>uargv.
     kbind (argstr 0 MAXPATH) (\<lambda>q.
     case q of
       None \<Rightarrow> kret (-1)
     | Some path \<Rightarrow>
         kbind (exec_fetch uargv 0 MAXARG) (\<lambda>r.
         kbind (case snd r of None \<Rightarrow> kret (-1) | Some argv \<Rightarrow> kexec path argv) (\<lambda>ret.
         kthen (kfor (fst r) kfree)
         (kret (of_cint ret))))))"

definition sys_pipe :: "('a file_st_scheme, u64) km" where
  "sys_pipe =
     kbind curproc (\<lambda>p.
     kbind (argaddr 0) (\<lambda>fdarray.
     kbind pipealloc (\<lambda>r.
     case r of
       None \<Rightarrow> kret (-1)
     | Some (rfile, wfile) \<Rightarrow>
         kbind (fdalloc rfile) (\<lambda>d0.
         case d0 of
           None \<Rightarrow> kthen (fileclose rfile) (kthen (fileclose wfile) (kret (-1)))
         | Some fd0 \<Rightarrow>
             kbind (fdalloc wfile) (\<lambda>d1.
             case d1 of
               None \<Rightarrow> kthen (clear_fd p fd0) (kthen (fileclose rfile) (kthen (fileclose wfile) (kret (-1))))
             | Some fd1 \<Rightarrow>
                 kbind (proc_at p) (\<lambda>P.
                 kbind (copyout (p_pagetable P) fdarray (bytes_int (int fd0))) (\<lambda>e0.
                 kbind (if e0 < 0 then kret e0
                        else copyout (p_pagetable P) (fdarray + 4) (bytes_int (int fd1))) (\<lambda>e1.
                 if e1 < 0 then
                   kthen (clear_fd p fd0) (kthen (clear_fd p fd1)
                   (kthen (fileclose rfile) (kthen (fileclose wfile) (kret (-1)))))
                 else kret 0))))))))"

end
