(* ===== verification/Trap.thy ===== *)
theory Trap
  imports Sysproc Sysfile
begin

unbundle bit_operations_syntax

text \<open>
  The dispatch of \<^verbatim>\<open>kernel/syscall.c\<close>, \<^verbatim>\<open>kernel/trap.c\<close>, and the end of \<^verbatim>\<open>kernel/proc.c\<close> (\<^verbatim>\<open>forkret\<close>).
  The control registers are fields of the state; \<^verbatim>\<open>plic_claim\<close> reads the interrupt that is pending.
\<close>

record trap_st = sync_st +
  sepc :: u64
  scause :: u64
  stval :: u64
  sstatus :: u64
  stvec :: u64
  rtime :: u64
  stimecmp :: u64
  hartid :: u64
  irq_pending :: u32
  fs_first :: bool
  kernelvec_va :: u64
  uservec_va :: u64
  usertrap_va :: u64

definition blank_trap :: "(nat \<Rightarrow> proc) \<Rightarrow> trap_st" where
  [blank]: "blank_trap ps = blank_sync ps (trap_st_ext 0 0 0 0 0 0 0 0 0 False 0 0 0 ())"

section \<open>System call dispatch\<close>

definition syscalls :: "nat \<Rightarrow> ('a trap_st_scheme, u64) km option" where
  "syscalls num =
     (if num = 1 then Some sys_fork
      else if num = 2 then Some sys_exit
      else if num = 3 then Some sys_wait
      else if num = 4 then Some sys_pipe
      else if num = 5 then Some sys_read
      else if num = 6 then Some sys_kill
      else if num = 7 then Some sys_exec
      else if num = 8 then Some sys_fstat
      else if num = 9 then Some sys_chdir
      else if num = 10 then Some sys_dup
      else if num = 11 then Some sys_getpid
      else if num = 12 then Some sys_sbrk
      else if num = 13 then Some sys_pause
      else if num = 14 then Some sys_uptime
      else if num = 15 then Some sys_open
      else if num = 16 then Some sys_write
      else if num = 17 then Some sys_mknod
      else if num = 18 then Some sys_unlink
      else if num = 19 then Some sys_link
      else if num = 20 then Some sys_mkdir
      else if num = 21 then Some sys_close
      else if num = 22 then Some sys_waitpid
      else if num = 23 then Some sys_shmget
      else if num = 24 then Some sys_shmdt
      else if num = 25 then Some sys_mutex_init
      else if num = 26 then Some sys_mutex_acquire
      else if num = 27 then Some sys_mutex_release
      else if num = 28 then Some sys_sem_init
      else if num = 29 then Some sys_sem_wait
      else if num = 30 then Some sys_sem_post
      else if num = 31 then Some sys_setp
      else if num = 32 then Some sys_ismyear
      else if num = 33 then Some sys_thread_create
      else if num = 34 then Some sys_thread_join
      else if num = 35 then Some sys_thread_exit
      else if num = 36 then Some sys_thread_id
      else None)"

definition syscall_return :: "nat \<Rightarrow> u64 \<Rightarrow> ('a trap_st_scheme, unit) km" where
  "syscall_return p v = kbind (proc_at p) (\<lambda>P. tf_set (p_trapframe P) TF_a0 v)"

definition syscall :: "('a trap_st_scheme, unit) km" where
  "syscall =
     kbind curproc (\<lambda>p.
     kbind (proc_at p) (\<lambda>P.
     kbind (tf_get (p_trapframe P) 168) (\<lambda>a7.
     let num = to_int a7 in
     case (if num > 0 then syscalls (nat num) else None) of
       Some h \<Rightarrow> kbind h (syscall_return p)
     | None \<Rightarrow>
         kthen (kprintf ''%d %s: unknown sys call %d\<newline>''
           [Vint (word_of_int (p_pid P)), Vstr (Some (name_string (p_name P))), Vint (word_of_int num)])
         (syscall_return p (-1)))))"

section \<open>Interrupts\<close>

definition clockintr :: "('a trap_st_scheme, unit) km" where
  "clockintr =
     kbind (kget hartid) (\<lambda>hart.
     kthen (kwhen (hart = 0)
       (kthen (acquire Lticks)
       (kthen (kmod (\<lambda>s. s\<lparr>ticks := ticks s + 1\<rparr>))
       (kthen (wakeup (Some Chan_ticks))
       (release Lticks)))))
     (kmod (\<lambda>s. s\<lparr>stimecmp := rtime s + 1000000\<rparr>)))"

text \<open>\<open>disk_intr\<close> is the call of \<^verbatim>\<open>virtio_disk_intr\<close>, which the theory \<open>Virtio\<close> models on a state with the rings
  of the disk driver; the state here has the disk itself.\<close>

definition devintr :: "('a trap_st_scheme, unit) km \<Rightarrow> ('a trap_st_scheme, nat) km" where
  "devintr disk_intr =
     kbind (kget scause) (\<lambda>c.
     if c = 0x8000000000000009 then
       kbind (kget irq_pending) (\<lambda>irq.
       kthen (if irq = 10 then uartintr
              else if irq = 1 then disk_intr
              else if irq \<noteq> 0 then kprintf ''unexpected interrupt irq=%d\<newline>'' [Vint (ucast irq)]
              else kret ())
       (kthen (kwhen (irq \<noteq> 0) (kmod (\<lambda>s. s\<lparr>irq_pending := 0\<rparr>)))
       (kret 1)))
     else if c = 0x8000000000000005 then kthen clockintr (kret 2)
     else kret 0)"

section \<open>Traps from user space\<close>

abbreviation (input) SSTATUS_SPP :: u64 where "SSTATUS_SPP \<equiv> 0x100"
abbreviation (input) SSTATUS_SPIE :: u64 where "SSTATUS_SPIE \<equiv> 0x20"

definition trapinithart :: "('a trap_st_scheme, unit) km" where
  "trapinithart = kmod (\<lambda>s. s\<lparr>stvec := kernelvec_va s\<rparr>)"

definition prepare_return :: "('a trap_st_scheme, unit) km" where
  "prepare_return =
     kbind curproc (\<lambda>p.
     kbind (proc_at p) (\<lambda>P.
     kthen (kmod (\<lambda>s. s\<lparr>stvec := TRAMPOLINE + (uservec_va s - trampoline_va s)\<rparr>))
     (kbind (kget (\<lambda>s. (satp s, usertrap_va s, hartid s))) (\<lambda>v.
     kthen (tf_set (p_trapframe P) 0 (fst v))
     (kthen (tf_set (p_trapframe P) 8 (p_kstack P + PGSIZE))
     (kthen (tf_set (p_trapframe P) 16 (fst (snd v)))
     (kthen (tf_set (p_trapframe P) 32 (snd (snd v)))
     (kthen (kmod (\<lambda>s. s\<lparr>sstatus := (sstatus s AND NOT SSTATUS_SPP) OR SSTATUS_SPIE\<rparr>))
     (kbind (tf_get (p_trapframe P) TF_epc) (\<lambda>epc.
     kmod (\<lambda>s. s\<lparr>sepc := epc\<rparr>)))))))))))"

definition user_satp :: "('a trap_st_scheme, u64) km" where
  "user_satp = kbind curproc (\<lambda>p. kbind (proc_at p) (\<lambda>P. kret (MAKE_SATP (p_pagetable P))))"

text \<open>What follows the handling of the trap: a killed process exits, a timer interrupt yields.\<close>

definition usertrap_tail :: "nat \<Rightarrow> nat \<Rightarrow> ('a trap_st_scheme, u64) km" where
  "usertrap_tail p which_dev =
     kbind (killed p) (\<lambda>k.
     if k \<noteq> 0 then kexit (-1)
     else if which_dev = 2 then yield
     else kthen prepare_return user_satp)"

definition usertrap_handle :: "('a trap_st_scheme, unit) km \<Rightarrow> nat \<Rightarrow> ('a trap_st_scheme, u64) km" where
  "usertrap_handle disk_intr p =
     kbind (proc_at p) (\<lambda>P.
     kbind (kget (\<lambda>s. (sepc s, scause s, stval s))) (\<lambda>csr.
     let pc = fst csr; c = fst (snd csr); v = snd (snd csr) in
     kthen (tf_set (p_trapframe P) TF_epc pc)
     (if c = 8 then
        kbind (killed p) (\<lambda>k.
        if k \<noteq> 0 then kexit (-1)
        else
          kthen (tf_set (p_trapframe P) TF_epc (pc + 4))
          (kthen syscall
          (usertrap_tail p 0)))
      else
        kbind (devintr disk_intr) (\<lambda>which_dev.
        if which_dev \<noteq> 0 then usertrap_tail p which_dev
        else
          kbind (if c = 15 \<or> c = 13 then vmfault (p_pagetable P) v else kret 0) (\<lambda>pa.
          if pa \<noteq> 0 then usertrap_tail p 0
          else
            kthen (kprintf ''usertrap(): unexpected scause 0x%lx pid=%d\<newline>''
              [Vint c, Vint (word_of_int (p_pid P))])
            (kthen (kprintf ''            sepc=0x%lx stval=0x%lx\<newline>'' [Vint pc, Vint v])
            (kthen (setkilled p)
            (usertrap_tail p 0))))))))"

definition usertrap :: "('a trap_st_scheme, unit) km \<Rightarrow> ('a trap_st_scheme, u64) km" where
  "usertrap disk_intr =
     kbind (kget sstatus) (\<lambda>st.
     if st AND SSTATUS_SPP \<noteq> 0 then kpanic ''usertrap: not from user mode''
     else
       kthen (kmod (\<lambda>s. s\<lparr>stvec := kernelvec_va s\<rparr>))
       (kbind curproc (usertrap_handle disk_intr)))"

text \<open>After the process is scheduled again: at the end of a system call that slept and now returns
  \<open>v\<close>, and after the yield of a timer interrupt.\<close>

definition usertrap_syscall_resume :: "nat \<Rightarrow> ('a trap_st_scheme, u64) km \<Rightarrow> ('a trap_st_scheme, u64) km" where
  "usertrap_syscall_resume p rest = kbind rest (\<lambda>v. kthen (syscall_return p v) (usertrap_tail p 0))"

definition usertrap_yield_resume :: "('a trap_st_scheme, u64) km" where
  "usertrap_yield_resume = kthen yield_resume (kthen prepare_return user_satp)"

section \<open>Traps from the kernel\<close>

definition kerneltrap :: "('a trap_st_scheme, unit) km \<Rightarrow> ('a trap_st_scheme, unit) km" where
  "kerneltrap disk_intr =
     kbind (kget (\<lambda>s. (sepc s, sstatus s, scause s, stval s))) (\<lambda>csr.
     let pc = fst csr; st = fst (snd csr); c = fst (snd (snd csr)); v = snd (snd (snd csr)) in
     if st AND SSTATUS_SPP = 0 then kpanic ''kerneltrap: not from supervisor mode''
     else if st AND 2 \<noteq> 0 then kpanic ''kerneltrap: interrupts enabled''
     else
       kbind (devintr disk_intr) (\<lambda>which_dev.
       if which_dev = 0 then
         kthen (kprintf ''scause=0x%lx sepc=0x%lx stval=0x%lx\<newline>'' [Vint c, Vint pc, Vint v])
         (kpanic ''kerneltrap'')
       else
         kbind myproc (\<lambda>me.
         if which_dev = 2 \<and> me \<noteq> None then yield
         else kmod (\<lambda>s. s\<lparr>sepc := pc, sstatus := st\<rparr>))))"

definition kerneltrap_resume :: "u64 \<Rightarrow> u64 \<Rightarrow> ('a trap_st_scheme, unit) km" where
  "kerneltrap_resume pc st = kthen yield_resume (kmod (\<lambda>s. s\<lparr>sepc := pc, sstatus := st\<rparr>))"

section \<open>The first run of a process\<close>

definition init_path :: "u8 list" where
  "init_path = [47, 105, 110, 105, 116]"

definition forkret :: "('a trap_st_scheme, u64) km" where
  "forkret =
     kbind curproc (\<lambda>p.
     kthen (release (Lproc p))
     (kbind (kget fs_first) (\<lambda>first.
     kthen (kwhen first
       (kthen (fsinit 1)
       (kthen (kmod (\<lambda>s. s\<lparr>fs_first := False\<rparr>))
       (kbind (kexec init_path [init_path]) (\<lambda>argc.
       kbind (proc_at p) (\<lambda>P.
       kthen (tf_set (p_trapframe P) TF_a0 (of_cint argc))
       (kwhen (argc = -1) (kpanic ''exec''))))))))
     (kthen prepare_return user_satp))))"

end
