(* ===== verification/Virtio.thy ===== *)
theory Virtio
  imports Bio
begin

unbundle bit_operations_syntax

text \<open>
  \<^verbatim>\<open>kernel/virtio_disk.c\<close>: the disk driver.  The state has the driver's \<^verbatim>\<open>struct disk\<close> with the three shared
  areas it points to: the descriptor table, the ring of requests made available to the device and the
  ring of requests the device has used.  A descriptor's address names the driver object it points to.
  The device is not code of this repository: it is a parameter of the statements about it, with what
  the virtio specification says of a block request as the hypothesis \<open>virtio_blk_device\<close>.
\<close>

abbreviation (input) NUM :: nat where "NUM \<equiv> 8"
abbreviation (input) VRING_DESC_F_NEXT :: u16 where "VRING_DESC_F_NEXT \<equiv> 1"
abbreviation (input) VRING_DESC_F_WRITE :: u16 where "VRING_DESC_F_WRITE \<equiv> 2"
abbreviation (input) VIRTIO_BLK_T_IN :: u32 where "VIRTIO_BLK_T_IN \<equiv> 0"
abbreviation (input) VIRTIO_BLK_T_OUT :: u32 where "VIRTIO_BLK_T_OUT \<equiv> 1"

datatype daddr = A_null | A_ops nat | A_data nat | A_status nat

record virtq_desc =
  d_addr :: daddr
  d_len :: u32
  d_flags :: u16
  d_next :: u16

record virtio_blk_req =
  rq_type :: u32
  rq_reserved :: u32
  rq_sector :: u64

record vinfo =
  in_b :: "nat option"
  in_status :: u8

record vio_st = bio_st +
  v_desc :: "nat \<Rightarrow> virtq_desc"
  avail_idx :: u16
  avail_ring :: "nat \<Rightarrow> u16"
  used_idx :: u16              \<comment> \<open>\<^verbatim>\<open>disk.used->idx\<close>, written by the device\<close>
  used_ring :: "nat \<Rightarrow> u32"
  v_free :: "nat \<Rightarrow> bool"
  v_seen :: u16                \<comment> \<open>\<^verbatim>\<open>disk.used_idx\<close>: how far the driver has looked\<close>
  v_info :: "nat \<Rightarrow> vinfo"
  v_ops :: "nat \<Rightarrow> virtio_blk_req"
  b_disk :: "nat \<Rightarrow> bool"      \<comment> \<open>\<^verbatim>\<open>b->disk\<close>: the device owns the buffer\<close>
  v_notify :: nat              \<comment> \<open>writes to \<^verbatim>\<open>VIRTIO_MMIO_QUEUE_NOTIFY\<close>\<close>
  v_isr :: u32                 \<comment> \<open>\<^verbatim>\<open>VIRTIO_MMIO_INTERRUPT_STATUS\<close>, written by the device\<close>
  v_ack :: u32                 \<comment> \<open>the last write to \<^verbatim>\<open>VIRTIO_MMIO_INTERRUPT_ACK\<close>\<close>

definition zero_desc :: virtq_desc where
  [blank]: "zero_desc = \<lparr>d_addr = A_null, d_len = 0, d_flags = 0, d_next = 0\<rparr>"

definition blank_vio :: "(nat \<Rightarrow> proc) \<Rightarrow> 'a \<Rightarrow> 'a vio_st_scheme" where
  [blank]: "blank_vio ps x = blank_bio ps (vio_st_ext (\<lambda>_. zero_desc) 0 (\<lambda>_. 0) 0 (\<lambda>_. 0) (\<lambda>i. i < NUM) 0
     (\<lambda>_. \<lparr>in_b = None, in_status = 0\<rparr>) (\<lambda>_. \<lparr>rq_type = 0, rq_reserved = 0, rq_sector = 0\<rparr>) (\<lambda>_. False) 0 0 0 x)"

section \<open>Descriptors\<close>

definition upd_desc :: "nat \<Rightarrow> (virtq_desc \<Rightarrow> virtq_desc) \<Rightarrow> ('a vio_st_scheme, unit) km" where
  "upd_desc i f = kmod (\<lambda>s. s\<lparr>v_desc := (v_desc s)(i := f (v_desc s i))\<rparr>)"

definition upd_info :: "nat \<Rightarrow> (vinfo \<Rightarrow> vinfo) \<Rightarrow> ('a vio_st_scheme, unit) km" where
  "upd_info i f = kmod (\<lambda>s. s\<lparr>v_info := (v_info s)(i := f (v_info s i))\<rparr>)"

definition set_free :: "nat \<Rightarrow> bool \<Rightarrow> ('a vio_st_scheme, unit) km" where
  "set_free i b = kmod (\<lambda>s. s\<lparr>v_free := (v_free s)(i := b)\<rparr>)"

lemma vio_eval [kmonad]:
  "upd_desc i f s = Ret () (s\<lparr>v_desc := (v_desc s)(i := f (v_desc s i))\<rparr>)"
  "upd_info i g s = Ret () (s\<lparr>v_info := (v_info s)(i := g (v_info s i))\<rparr>)"
  "set_free i b s = Ret () (s\<lparr>v_free := (v_free s)(i := b)\<rparr>)"
  by (simp_all add: upd_desc_def upd_info_def set_free_def kmonad)

definition alloc_desc :: "('a vio_st_scheme, nat option) km" where
  "alloc_desc =
     kfind [0..<NUM] (\<lambda>i.
       kbind (kget (\<lambda>s. v_free s i)) (\<lambda>fr.
       if fr then kthen (set_free i False) (kret (Some i)) else kret None))"

definition free_desc :: "nat \<Rightarrow> ('a vio_st_scheme, unit) km" where
  "free_desc i =
     (if i \<ge> NUM then kpanic ''free_desc 1''
      else
        kbind (kget (\<lambda>s. v_free s i)) (\<lambda>fr.
        if fr then kpanic ''free_desc 2''
        else
          kthen (upd_desc i (\<lambda>d. d\<lparr>d_addr := A_null, d_len := 0, d_flags := 0, d_next := 0\<rparr>))
          (kthen (set_free i True)
          (wakeup (Some Chan_diskfree)))))"

text \<open>The loop of \<^verbatim>\<open>free_chain\<close>.  Every round frees a descriptor that was in use or panics, so \<open>NUM + 1\<close> rounds
  are enough for every table of descriptors.\<close>

primrec free_chain_at :: "nat \<Rightarrow> nat \<Rightarrow> ('a vio_st_scheme, unit) km" where
  "free_chain_at 0 i = kret ()"
| "free_chain_at (Suc n) i =
     kbind (kget (\<lambda>s. v_desc s i)) (\<lambda>d.
     kthen (free_desc i)
     (if d_flags d AND VRING_DESC_F_NEXT \<noteq> 0 then free_chain_at n (unat (d_next d)) else kret ()))"

definition free_chain :: "nat \<Rightarrow> ('a vio_st_scheme, unit) km" where
  "free_chain i = free_chain_at (NUM + 1) i"

primrec alloc_descs :: "nat \<Rightarrow> nat list \<Rightarrow> ('a vio_st_scheme, nat list option) km" where
  "alloc_descs 0 idx = kret (Some idx)"
| "alloc_descs (Suc n) idx =
     kbind alloc_desc (\<lambda>d.
     case d of
       Some i \<Rightarrow> alloc_descs n (idx @ [i])
     | None \<Rightarrow> kthen (kfor idx free_desc) (kret None))"

definition alloc3_desc :: "('a vio_st_scheme, nat list option) km" where
  "alloc3_desc = alloc_descs 3 []"

section \<open>A request\<close>

text \<open>From the formatting of the descriptors to the notification of the device.\<close>

definition virtio_submit :: "nat \<Rightarrow> bool \<Rightarrow> nat \<Rightarrow> nat \<Rightarrow> nat \<Rightarrow> ('a vio_st_scheme, unit) km" where
  "virtio_submit b wr i0 i1 i2 =
     kbind (buf_at b) (\<lambda>B.
     let sector = ucast (b_blockno B * 2) in
     kthen (kmod (\<lambda>s. s\<lparr>v_ops := (v_ops s)(i0 :=
       \<lparr>rq_type = (if wr then VIRTIO_BLK_T_OUT else VIRTIO_BLK_T_IN), rq_reserved = 0, rq_sector = sector\<rparr>)\<rparr>))
     (kthen (upd_desc i0 (\<lambda>d. d\<lparr>d_addr := A_ops i0, d_len := 16, d_flags := VRING_DESC_F_NEXT, d_next := of_nat i1\<rparr>))
     (kthen (upd_desc i1 (\<lambda>d. d\<lparr>d_addr := A_data b, d_len := of_nat BSIZE,
        d_flags := (if wr then 0 else VRING_DESC_F_WRITE) OR VRING_DESC_F_NEXT, d_next := of_nat i2\<rparr>))
     (kthen (upd_info i0 (\<lambda>n. n\<lparr>in_status := 0xff\<rparr>))
     (kthen (upd_desc i2 (\<lambda>d. d\<lparr>d_addr := A_status i0, d_len := 1, d_flags := VRING_DESC_F_WRITE, d_next := 0\<rparr>))
     (kthen (kmod (\<lambda>s. s\<lparr>b_disk := (b_disk s)(b := True)\<rparr>))
     (kthen (upd_info i0 (\<lambda>n. n\<lparr>in_b := Some b\<rparr>))
     (kthen (kmod (\<lambda>s. s\<lparr>avail_ring := (avail_ring s)(unat (avail_idx s) mod NUM := of_nat i0)\<rparr>))
     (kthen (kmod (\<lambda>s. s\<lparr>avail_idx := avail_idx s + 1\<rparr>))
     (kmod (\<lambda>s. s\<lparr>v_notify := v_notify s + 1\<rparr>)))))))))))"

definition virtio_wait_loop :: "nat \<Rightarrow> nat \<Rightarrow> ('a vio_st_scheme, unit) km" where
  "virtio_wait_loop b i0 =
     kbind (kget (\<lambda>s. b_disk s b)) (\<lambda>d.
     if d then sleep (Chan_buf b) Lvdisk
     else
       kthen (upd_info i0 (\<lambda>n. n\<lparr>in_b := None\<rparr>))
       (kthen (free_chain i0)
       (release Lvdisk)))"

definition virtio_alloc_loop :: "nat \<Rightarrow> bool \<Rightarrow> ('a vio_st_scheme, unit) km" where
  "virtio_alloc_loop b wr =
     kbind alloc3_desc (\<lambda>r.
     case r of
       None \<Rightarrow> sleep Chan_diskfree Lvdisk
     | Some idx \<Rightarrow>
         kthen (virtio_submit b wr (idx ! 0) (idx ! 1) (idx ! 2))
         (virtio_wait_loop b (idx ! 0)))"

definition virtio_disk_rw :: "nat \<Rightarrow> bool \<Rightarrow> ('a vio_st_scheme, unit) km" where
  "virtio_disk_rw b wr = kthen (acquire Lvdisk) (virtio_alloc_loop b wr)"

text \<open>What a process does when it is scheduled again after the sleep for descriptors and after the
  sleep for the device.\<close>

definition virtio_alloc_resume :: "nat \<Rightarrow> bool \<Rightarrow> ('a vio_st_scheme, unit) km" where
  "virtio_alloc_resume b wr = kthen (sleep_resume Lvdisk) (virtio_alloc_loop b wr)"

definition virtio_wait_resume :: "nat \<Rightarrow> nat \<Rightarrow> ('a vio_st_scheme, unit) km" where
  "virtio_wait_resume b i0 = kthen (sleep_resume Lvdisk) (virtio_wait_loop b i0)"

section \<open>Completion\<close>

text \<open>One round of the loop of \<^verbatim>\<open>virtio_disk_intr\<close>; a used entry that names no request in flight would make
  the code follow a null buffer pointer, which is a panic here.\<close>

definition virtio_complete :: "('a vio_st_scheme, unit) km" where
  "virtio_complete =
     kbind (kget (\<lambda>s. unat (used_ring s (unat (v_seen s) mod NUM)))) (\<lambda>id.
     kbind (kget (\<lambda>s. v_info s id)) (\<lambda>n.
     if in_status n \<noteq> 0 then kpanic ''virtio_disk_intr status''
     else
       case in_b n of
         None \<Rightarrow> kpanic ''null buffer''
       | Some b \<Rightarrow>
           kthen (kmod (\<lambda>s. s\<lparr>b_disk := (b_disk s)(b := False)\<rparr>))
           (kthen (wakeup (Some (Chan_buf b)))
           (kmod (\<lambda>s. s\<lparr>v_seen := v_seen s + 1\<rparr>)))))"

text \<open>The loop reads the device's index again in every round.  Every round moves the driver's 16-bit index
  one on, so \<open>2^16\<close> rounds are enough (lemma \<open>virtio_intr_drains\<close>).\<close>

primrec virtio_intr_loop :: "nat \<Rightarrow> ('a vio_st_scheme, unit) km" where
  "virtio_intr_loop 0 = kret ()"
| "virtio_intr_loop (Suc n) =
     kbind (kget (\<lambda>s. v_seen s \<noteq> used_idx s)) (\<lambda>more.
     if more then kthen virtio_complete (virtio_intr_loop n) else kret ())"

definition virtio_disk_intr :: "('a vio_st_scheme, unit) km" where
  "virtio_disk_intr =
     kthen (acquire Lvdisk)
     (kthen (kmod (\<lambda>s. s\<lparr>v_ack := v_isr s AND 0x3\<rparr>))
     (kthen (virtio_intr_loop (2 ^ 16))
     (release Lvdisk)))"

section \<open>Descriptors are freed once\<close>



lemma ps_eq_vio: "ps_eq s t \<Longrightarrow> v_free t = v_free s \<and> v_desc t = v_desc s \<and> used_idx t = used_idx s \<and> v_seen t = v_seen s"
  by (auto simp: ps_eq_upd)




section \<open>Allocation\<close>

lemma alloc_desc_eval:
  "alloc_desc s = (case find (v_free s) [0..<NUM] of None \<Rightarrow> Ret None s
     | Some i \<Rightarrow> Ret (Some i) (s\<lparr>v_free := (v_free s)(i := False)\<rparr>))"
proof -
  have "kfind xs (\<lambda>i. kbind (kget (\<lambda>s. v_free s i)) (\<lambda>fr.
       if fr then kthen (set_free i False) (kret (Some i)) else kret None)) s =
     (case find (v_free s) xs of None \<Rightarrow> Ret None s
       | Some i \<Rightarrow> Ret (Some i) (s\<lparr>v_free := (v_free s)(i := False)\<rparr>))" for xs
    by (induction xs) (simp_all add: kmonad)
  then show ?thesis unfolding alloc_desc_def by simp
qed

lemma alloc_desc_some:
  assumes "A \<subseteq> {i. i < NUM \<and> v_free s i}" "A \<noteq> {}"
  shows "\<exists>i. i < NUM \<and> v_free s i \<and> alloc_desc s = Ret (Some i) (s\<lparr>v_free := (v_free s)(i := False)\<rparr>)"
proof -
  have "find (v_free s) [0..<NUM] \<noteq> None" using assms by (auto simp: find_None_iff)
  then obtain i where i: "find (v_free s) [0..<NUM] = Some i" by auto
  then have "i < NUM" "v_free s i" by (auto simp: find_Some_iff simp del: upt_Suc)
  then show ?thesis using i by (auto simp: alloc_desc_eval)
qed

lemma alloc3_desc_some:
  assumes "3 \<le> card {i. i < NUM \<and> v_free s i}"
  shows "\<exists>i j k. i < NUM \<and> j < NUM \<and> k < NUM \<and> distinct [i, j, k] \<and> v_free s i \<and> v_free s j \<and> v_free s k \<and>
    alloc3_desc s = Ret (Some [i, j, k]) (s\<lparr>v_free := (v_free s)(i := False, j := False, k := False)\<rparr>)"
proof -
  let ?A = "{i. i < NUM \<and> v_free s i}"
  have fin: "finite ?A" by (rule finite_subset [of _ "{..<NUM}"]) auto
  have ne: "?A - B \<noteq> {}" if "card B < 3" "finite B" for B
  proof
    assume "?A - B = {}"
    then have "card ?A \<le> card B" by (intro card_mono that(2)) blast
    then show False using assms that(1) by linarith
  qed
  have "?A \<noteq> {}" using ne [of "{}"] by simp
  from alloc_desc_some [OF subset_refl this] obtain i where
    i: "i < NUM" "v_free s i" "alloc_desc s = Ret (Some i) (s\<lparr>v_free := (v_free s)(i := False)\<rparr>)" by blast
  let ?s = "s\<lparr>v_free := (v_free s)(i := False)\<rparr>"
  have "?A - {i} \<subseteq> {j. j < NUM \<and> v_free ?s j}" "?A - {i} \<noteq> {}" using ne [of "{i}"] by auto
  from alloc_desc_some [OF this] obtain j where
    j: "j < NUM" "v_free ?s j" "alloc_desc ?s = Ret (Some j) (?s\<lparr>v_free := (v_free ?s)(j := False)\<rparr>)" by blast
  let ?t = "s\<lparr>v_free := (v_free s)(i := False, j := False)\<rparr>"
  have "card {i, j} < 3" by (simp add: card_insert_if)
  then have "?A - {i, j} \<subseteq> {k. k < NUM \<and> v_free ?t k}" "?A - {i, j} \<noteq> {}" using ne [of "{i, j}"] by auto
  from alloc_desc_some [OF this] obtain k where
    k: "k < NUM" "v_free ?t k" "alloc_desc ?t = Ret (Some k) (?t\<lparr>v_free := (v_free ?t)(k := False)\<rparr>)" by blast
  have "alloc3_desc s = Ret (Some [i, j, k]) (s\<lparr>v_free := (v_free s)(i := False, j := False, k := False)\<rparr>)"
    using i(3) j(3) k(3) by (simp add: alloc3_desc_def numeral_3_eq_3 kmonad)
  moreover have "j \<noteq> i" "k \<noteq> i" "k \<noteq> j" "v_free s j" "v_free s k" using j(2) k(2) by (auto split: if_splits)
  ultimately show ?thesis using i(1, 2) j(1) k(1) by (intro exI [of _ i] exI [of _ j] exI [of _ k]) simp
qed

section \<open>A request from submission to completion\<close>

definition submitted :: "nat \<Rightarrow> bool \<Rightarrow> nat \<Rightarrow> nat \<Rightarrow> nat \<Rightarrow> 'a vio_st_scheme \<Rightarrow> 'a vio_st_scheme" where
  "submitted b wr i j k s = s\<lparr>
     v_ops := (v_ops s)(i := \<lparr>rq_type = (if wr then VIRTIO_BLK_T_OUT else VIRTIO_BLK_T_IN), rq_reserved = 0,
       rq_sector = ucast (b_blockno (bufs s b) * 2)\<rparr>),
     v_desc := (v_desc s)(
       i := \<lparr>d_addr = A_ops i, d_len = 16, d_flags = 1, d_next = of_nat j\<rparr>,
       j := \<lparr>d_addr = A_data b, d_len = 1024, d_flags = (if wr then 1 else 3), d_next = of_nat k\<rparr>,
       k := \<lparr>d_addr = A_status i, d_len = 1, d_flags = 2, d_next = 0\<rparr>),
     v_info := (v_info s)(i := \<lparr>in_b = Some b, in_status = 0xff\<rparr>),
     b_disk := (b_disk s)(b := True),
     avail_ring := (avail_ring s)(unat (avail_idx s) mod NUM := of_nat i),
     avail_idx := avail_idx s + 1,
     v_notify := v_notify s + 1\<rparr>"

lemma full_desc: "(d :: virtq_desc)\<lparr>d_addr := a, d_len := l, d_flags := f, d_next := n\<rparr> = \<lparr>d_addr = a, d_len = l, d_flags = f, d_next = n\<rparr>"
  by (cases d) simp

lemma full_info: "(n :: vinfo)\<lparr>in_status := x, in_b := b\<rparr> = \<lparr>in_b = b, in_status = x\<rparr>"
  by (cases n) simp

lemma virtio_submit_eval: "virtio_submit b wr i j k s = Ret () (submitted b wr i j k s)"
  by (simp add: virtio_submit_def submitted_def kmonad Let_def full_desc full_info)

text \<open>A chain of descriptors for a block request, as the device reads it.\<close>

definition blk_chain :: "'a vio_st_scheme \<Rightarrow> nat \<Rightarrow> nat \<Rightarrow> nat \<Rightarrow> nat \<Rightarrow> bool" where
  "blk_chain s h r b i \<longleftrightarrow>
     (let d0 = v_desc s h; d1 = v_desc s (unat (d_next d0)); d2 = v_desc s (unat (d_next d1)) in
      d_addr d0 = A_ops r \<and> d_len d0 = 16 \<and> d_flags d0 = VRING_DESC_F_NEXT \<and>
      d_addr d1 = A_data b \<and> d_len d1 = of_nat BSIZE \<and>
      d_flags d1 = (if rq_type (v_ops s r) = VIRTIO_BLK_T_OUT then 0 else VRING_DESC_F_WRITE) OR VRING_DESC_F_NEXT \<and>
      d_addr d2 = A_status i \<and> d_len d2 = 1 \<and> d_flags d2 = VRING_DESC_F_WRITE)"

text \<open>What the virtio specification says of a block device: given the head of a well-formed chain it
  transfers the 1024 bytes at the sector between the disk and the buffer, writes the status 0, and
  adds the head to the used ring.\<close>

definition virtio_blk_device :: "(nat \<Rightarrow> 'a vio_st_scheme \<Rightarrow> 'a vio_st_scheme) \<Rightarrow> bool" where
  "virtio_blk_device dev \<longleftrightarrow> (\<forall>s h r b i blk.
     blk_chain s h r b i \<and> h < NUM \<and> rq_type (v_ops s r) \<in> {VIRTIO_BLK_T_IN, VIRTIO_BLK_T_OUT} \<and>
     rq_sector (v_ops s r) = 2 * ucast (blk :: u32) \<longrightarrow>
     dev h s =
       (let t = (if rq_type (v_ops s r) = VIRTIO_BLK_T_OUT
                 then s\<lparr>disk := (disk s)(blk := b_data (bufs s b)), dtrace := (disk s)(blk := b_data (bufs s b)) # dtrace s\<rparr>
                 else s\<lparr>bufs := (bufs s)(b := (bufs s b)\<lparr>b_data := disk s blk\<rparr>)\<rparr>)
        in t\<lparr>v_info := (v_info s)(i := (v_info s i)\<lparr>in_status := 0\<rparr>),
              used_ring := (used_ring s)(unat (used_idx s) mod NUM := of_nat h), used_idx := used_idx s + 1, v_isr := v_isr s OR 1\<rparr>))"

definition transferred :: "nat \<Rightarrow> bool \<Rightarrow> 'a bio_st_scheme \<Rightarrow> 'a bio_st_scheme" where
  "transferred b wr s =
     (if wr then s\<lparr>disk := (disk s)(b_blockno (bufs s b) := b_data (bufs s b)),
                   dtrace := (disk s)(b_blockno (bufs s b) := b_data (bufs s b)) # dtrace s\<rparr>
      else s\<lparr>bufs := (bufs s)(b := (bufs s b)\<lparr>b_data := disk s (b_blockno (bufs s b))\<rparr>)\<rparr>)"

lemma disk_transfer_eval: "disk_transfer b wr s = Ret () (transferred b wr s)"
  by (simp add: disk_transfer_def transferred_def kmonad Let_def)

lemma sector_of_block:
  assumes "blk < (2 ^ 31 :: u32)"
  shows "ucast (blk * 2) = (2 * ucast blk :: u64)"
proof -
  have "unat blk < 2 ^ 31" using assms by (simp add: word_less_nat_alt)
  then show ?thesis by (simp add: word_unat_eq_iff unat_word_ariths unsigned_ucast_eq take_bit_eq_mod)
qed

definition served :: "nat \<Rightarrow> bool \<Rightarrow> nat \<Rightarrow> 'a vio_st_scheme \<Rightarrow> 'a vio_st_scheme" where
  "served b wr i s = (transferred b wr s)\<lparr>v_info := (v_info s)(i := (v_info s i)\<lparr>in_status := 0\<rparr>),
     used_ring := (used_ring s)(unat (used_idx s) mod NUM := of_nat i), used_idx := used_idx s + 1, v_isr := v_isr s OR 1\<rparr>"

lemma device_serves:
  assumes "virtio_blk_device dev" "distinct [i, j, k]" "i < NUM" "j < NUM" "k < NUM" "b_blockno (bufs s b) < 2 ^ 31"
    and "v_desc u = v_desc (submitted b wr i j k s)" "v_ops u = v_ops (submitted b wr i j k s)" "bufs u = bufs s"
  shows "dev i u = served b wr i u"
proof -
  have un: "unat (of_nat n :: u16) = n" if "n < NUM" for n using that by (simp add: unat_of_nat)
  have "blk_chain u i i b i"
    using assms(2-5) by (simp add: blk_chain_def assms(7, 8) submitted_def Let_def un)
  moreover have "rq_type (v_ops u i) = (if wr then VIRTIO_BLK_T_OUT else VIRTIO_BLK_T_IN)"
    "rq_sector (v_ops u i) = 2 * ucast (b_blockno (bufs u b))"
    using sector_of_block [OF assms(6)] by (simp_all add: assms(8, 9) submitted_def)
  ultimately show ?thesis
    using assms(1) [unfolded virtio_blk_device_def, rule_format, of u i i b i "b_blockno (bufs u b)"] assms(3)
    by (simp add: served_def transferred_def Let_def)
qed

lemma vio_held: "submitted b wr i j k (s\<lparr>held := h\<rparr>) = (submitted b wr i j k s)\<lparr>held := h\<rparr>"
  by (simp add: submitted_def)

lemma virtio_disk_rw_sleeps:
  assumes "held s = {}" "cproc s = Some p" "3 \<le> card {i. i < NUM \<and> v_free s i}"
  shows "\<exists>i j k. i < NUM \<and> j < NUM \<and> k < NUM \<and> distinct [i, j, k] \<and> v_free s i \<and> v_free s j \<and> v_free s k \<and>
    virtio_disk_rw b wr s = Sched (asleep p (Chan_buf b)
      (submitted b wr i j k (s\<lparr>v_free := (v_free s)(i := False, j := False, k := False)\<rparr>)))"
proof -
  let ?s = "s\<lparr>held := {Lvdisk}\<rparr>"
  obtain i j k where ijk: "i < NUM" "j < NUM" "k < NUM" "distinct [i, j, k]" "v_free s i" "v_free s j" "v_free s k"
    "alloc3_desc ?s = Ret (Some [i, j, k]) (?s\<lparr>v_free := (v_free s)(i := False, j := False, k := False)\<rparr>)"
    using alloc3_desc_some [of ?s] assms(3) by auto
  define t where "t = submitted b wr i j k (s\<lparr>v_free := (v_free s)(i := False, j := False, k := False)\<rparr>)"
  have e: "?s\<lparr>v_free := f\<rparr> = s\<lparr>v_free := f\<rparr>\<lparr>held := {Lvdisk}\<rparr>" for f by (cases s) simp
  have t: "b_disk t b" "cproc t = Some p" using assms(2) by (simp_all add: t_def submitted_def)
  have "virtio_disk_rw b wr s = virtio_wait_loop b i (t\<lparr>held := {Lvdisk}\<rparr>)"
    using assms(1) ijk(8)
    by (simp add: virtio_disk_rw_def virtio_alloc_loop_def kmonad e virtio_submit_eval vio_held t_def)
  also have "\<dots> = Sched (asleep p (Chan_buf b) t)"
    using t sleep_asleep [of "t\<lparr>held := {Lvdisk}\<rparr>" p Lvdisk "Chan_buf b"]
    by (simp add: virtio_wait_loop_def kmonad sleep_asleep asleep_def)
  finally show ?thesis using ijk by (auto simp: t_def)
qed

text \<open>The interrupt handler with one entry in the used ring.\<close>

lemma virtio_complete_Ret:
  assumes "virtio_complete s = Ret () t"
  shows "v_seen t = v_seen s + 1 \<and> used_idx t = used_idx s"
proof -
  from assms obtain b u where u: "wakeup (Some (Chan_buf b)) (s\<lparr>b_disk := (b_disk s)(b := False)\<rparr>) = Ret () u" "t = u\<lparr>v_seen := v_seen u + 1\<rparr>"
    by (auto simp: virtio_complete_def kbind_Ret_iff kthen_Ret_iff kget_def kmod_def kpanic_def split: if_splits option.splits)
  then show ?thesis using ps_eq_vio [OF kkeeps_Ret [OF ps_wakeup u(1)]] by simp
qed

text \<open>The handler does not stop before it has seen every used entry.\<close>

lemma virtio_intr_drains:
  "virtio_intr_loop n s = Ret () t \<Longrightarrow> unat (used_idx s - v_seen s) \<le> n \<Longrightarrow> v_seen t = used_idx t"
proof (induction n arbitrary: s)
  case 0
  then have "used_idx s - v_seen s = 0" "t = s" by (simp_all add: kret_def unat_eq_0)
  then show ?case by simp
next
  case (Suc n)
  show ?case
  proof (cases "v_seen s = used_idx s")
    case True
    then show ?thesis using Suc.prems by (simp add: kmonad)
  next
    case False
    then obtain u where u: "virtio_complete s = Ret () u" "virtio_intr_loop n u = Ret () t"
      using Suc.prems(1) by (auto simp: kbind_Ret_iff kthen_Ret_iff kget_def)
    have "used_idx s - v_seen s \<noteq> 0" using False by simp
    then have "unat (used_idx s - v_seen s - 1) = unat (used_idx s - v_seen s) - 1" by (rule unat_minus_one)
    moreover have "used_idx u - v_seen u = used_idx s - v_seen s - 1" using virtio_complete_Ret [OF u(1)] by simp
    ultimately have "unat (used_idx u - v_seen u) \<le> n" using Suc.prems(2) by simp
    then show ?thesis by (rule Suc.IH [OF u(2)])
  qed
qed

lemma virtio_intr_all: "virtio_intr_loop (2 ^ 16) s = Ret () t \<Longrightarrow> v_seen t = used_idx t"
proof (erule virtio_intr_drains)
  have "unat (used_idx s - v_seen s) < 2 ^ LENGTH(16)" by (rule unsigned_less)
  then show "unat (used_idx s - v_seen s) \<le> 2 ^ 16" by simp
qed

lemma virtio_intr_loop_one:
  assumes "v_seen s \<noteq> used_idx s" "virtio_complete s = Ret () t" "v_seen t = used_idx t"
  shows "virtio_intr_loop (2 ^ 16) s = Ret () t"
proof -
  have "virtio_intr_loop (Suc (Suc n)) s = Ret () t" for n using assms by (simp add: kmonad)
  from this [of 65534] show ?thesis by (simp del: virtio_intr_loop.simps)
qed

lemma virtio_disk_intr_one:
  assumes "held s = {}" "used_idx s = v_seen s + 1" "used_ring s (unat (v_seen s) mod NUM) = of_nat i" "i < NUM"
    and "v_info s i = \<lparr>in_b = Some b, in_status = 0\<rparr>"
  shows "virtio_disk_intr s = Ret () ((wake_all (Chan_buf b) (s\<lparr>v_ack := v_isr s AND 3, b_disk := (b_disk s)(b := False)\<rparr>))
    \<lparr>v_seen := v_seen s + 1\<rparr>)"
proof -
  define a where "a = s\<lparr>v_ack := v_isr s AND 3\<rparr>"
  have a: "held a = {}" "used_idx a = used_idx s" "v_seen a = v_seen s" "used_ring a = used_ring s" "v_info a = v_info s"
    "s\<lparr>v_ack := v_isr s AND 3, b_disk := (b_disk s)(b := False)\<rparr> = a\<lparr>b_disk := (b_disk a)(b := False)\<rparr>"
    using assms(1) by (simp_all add: a_def)
  let ?u = "a\<lparr>b_disk := (b_disk a)(b := False)\<rparr>"
  define W where "W = wake_all (Chan_buf b) ?u"
  have w: "wakeup (Some (Chan_buf b)) (?u\<lparr>held := {Lvdisk}\<rparr>) = Ret () (W\<lparr>held := {Lvdisk}\<rparr>)"
    unfolding W_def wake_all_held [symmetric] by (rule wakeup_all) (simp add: no_plock_def)
  have e: "a\<lparr>held := {Lvdisk}, b_disk := x\<rparr> = a\<lparr>b_disk := x\<rparr>\<lparr>held := {Lvdisk}\<rparr>" for x by (cases a) simp
  have h: "W\<lparr>v_seen := x\<rparr>\<lparr>held := {}\<rparr> = W\<lparr>v_seen := x\<rparr>" "v_seen W = v_seen s" "used_idx W = used_idx s" for x
    using a(1-3) by (auto simp: W_def wake_all_def intro!: held_same)
  have e2: "W\<lparr>held := {Lvdisk}, v_seen := x\<rparr> = W\<lparr>v_seen := x\<rparr>\<lparr>held := {Lvdisk}\<rparr>" for x by (cases W) simp
  have un: "unat (of_nat i :: u32) = i" using assms(4) by (simp add: unat_of_nat)
  have c: "virtio_complete (a\<lparr>held := {Lvdisk}\<rparr>) = Ret () (W\<lparr>v_seen := v_seen s + 1\<rparr>\<lparr>held := {Lvdisk}\<rparr>)"
    using assms(3, 5) un w by (simp add: virtio_complete_def kmonad a h(2) e e2)
  have l: "virtio_intr_loop (2 ^ 16) (a\<lparr>held := {Lvdisk}\<rparr>) = Ret () (W\<lparr>v_seen := v_seen s + 1\<rparr>\<lparr>held := {Lvdisk}\<rparr>)"
    by (rule virtio_intr_loop_one [OF _ c]) (use assms(2) in \<open>simp_all add: a h(3)\<close>)
  have "s\<lparr>held := {Lvdisk}, v_ack := v_isr s AND 3\<rparr> = a\<lparr>held := {Lvdisk}\<rparr>" by (cases s) (simp add: a_def)
  then show ?thesis unfolding a(6) W_def [symmetric]
    using assms(1) l h by (simp add: virtio_disk_intr_def kmonad)
qed

definition vio_same :: "'a vio_st_scheme \<Rightarrow> 'a vio_st_scheme \<Rightarrow> bool" where
  "vio_same s t \<longleftrightarrow> disk t = disk s \<and> bufs t = bufs s \<and> dtrace t = dtrace s \<and> used_idx t = used_idx s \<and>
     v_seen t = v_seen s \<and> held t = held s"

lemma free_desc_ok:
  assumes "held s = {Lvdisk}" "i < NUM" "\<not> v_free s i"
  shows "\<exists>t. free_desc i s = Ret () t \<and> vio_same s t \<and> v_desc t = (v_desc s)(i := zero_desc) \<and>
    v_free t = (v_free s)(i := True)"
proof -
  let ?t = "s\<lparr>v_desc := (v_desc s)(i := zero_desc), v_free := (v_free s)(i := True)\<rparr>"
  have "wakeup (Some Chan_diskfree) ?t = Ret () (wake_all Chan_diskfree ?t)"
    by (rule wakeup_all) (simp add: no_plock_def assms(1))
  then have "free_desc i s = Ret () (wake_all Chan_diskfree ?t)"
    using assms by (simp add: free_desc_def kmonad full_desc zero_desc_def)
  then show ?thesis by (auto simp: vio_same_def wake_all_def)
qed

lemma free_chain_three:
  assumes "held s = {Lvdisk}" "distinct [i, j, k]" "i < NUM" "j < NUM" "k < NUM"
    and "\<not> v_free s i" "\<not> v_free s j" "\<not> v_free s k"
    and "d_flags (v_desc s i) = 1" "d_next (v_desc s i) = of_nat j"
    and "odd (d_flags (v_desc s j))" "d_next (v_desc s j) = of_nat k" "d_flags (v_desc s k) = 2"
  shows "\<exists>t. free_chain i s = Ret () t \<and> vio_same s t \<and> v_free t = (v_free s)(i := True, j := True, k := True)"
proof -
  have un: "unat (of_nat n :: u16) = n" if "n < NUM" for n using that by (simp add: unat_of_nat)
  obtain t where t: "free_desc i s = Ret () t" "vio_same s t" "v_desc t = (v_desc s)(i := zero_desc)"
    "v_free t = (v_free s)(i := True)" using free_desc_ok [OF assms(1, 3, 6)] by blast
  have "held t = {Lvdisk}" "\<not> v_free t j" using t assms(1, 2, 7) by (auto simp: vio_same_def)
  from free_desc_ok [OF this(1) assms(4) this(2)] obtain u where
    u: "free_desc j t = Ret () u" "vio_same t u" "v_desc u = (v_desc t)(j := zero_desc)" "v_free u = (v_free t)(j := True)" by blast
  have "held u = {Lvdisk}" "\<not> v_free u k" using t u assms(1, 2, 8) by (auto simp: vio_same_def)
  from free_desc_ok [OF this(1) assms(5) this(2)] obtain v where
    v: "free_desc k u = Ret () v" "vio_same u v" "v_free v = (v_free u)(k := True)" by blast
  have d: "v_desc t j = v_desc s j" "v_desc u k = v_desc s k" using t(3) u(3) assms(2) by auto
  have "free_chain i s = Ret () v"
    using t(1) u(1) v(1) d assms(9-13) un [OF assms(4)] un [OF assms(5)]
    by (simp add: free_chain_def numeral_eq_Suc kmonad and_one_eq odd_iff_mod_2_eq_one)
  then show ?thesis using t u v by (auto simp: vio_same_def)
qed

lemma virtio_wait_resume_ok:
  assumes "held s = {Lproc p}" "cproc s = Some p" "\<not> b_disk s b"
    and "distinct [i, j, k]" "i < NUM" "j < NUM" "k < NUM" "\<not> v_free s i" "\<not> v_free s j" "\<not> v_free s k"
    and "d_flags (v_desc s i) = 1" "d_next (v_desc s i) = of_nat j"
    and "odd (d_flags (v_desc s j))" "d_next (v_desc s j) = of_nat k" "d_flags (v_desc s k) = 2"
  shows "\<exists>t. virtio_wait_resume b i s = Ret () t \<and> vio_same (s\<lparr>held := {}\<rparr>) t \<and>
    v_free t = (v_free s)(i := True, j := True, k := True)"
proof -
  let ?u = "s\<lparr>procs := (procs s)(p := (procs s p)\<lparr>p_chan := None\<rparr>), held := {Lvdisk},
     v_info := (v_info s)(i := (v_info s i)\<lparr>in_b := None\<rparr>)\<rparr>"
  obtain t where t: "free_chain i ?u = Ret () t" "vio_same ?u t" "v_free t = (v_free s)(i := True, j := True, k := True)"
    using free_chain_three [of ?u i j k] assms(4-15) by auto
  have "virtio_wait_resume b i s = Ret () (t\<lparr>held := {}\<rparr>)"
    using assms(1-3) t(1, 2)
    by (simp add: virtio_wait_resume_def virtio_wait_loop_def kmonad sleep_resume_eval vio_same_def)
  then show ?thesis using t by (auto simp: vio_same_def)
qed

text \<open>C6: a disk request is the transfer it stands for.  \<^verbatim>\<open>virtio_disk_rw\<close> takes three free descriptors, hands the
  device a chain that names the request, the buffer and the status byte, and sleeps; once a device
  that follows the specification has served the head it finds in the ring without an error (status 0), the interrupt handler makes
  the process runnable, and when it runs again the call returns with disk and buffer as the one-step
  transfer of the buffer cache leaves them, every descriptor free again and the used ring drained.\<close>

theorem virtio_rw_transfers:
  assumes "virtio_blk_device dev" "held s = {}" "cproc s = Some p" "p < NPROC"
    and "3 \<le> card {i. i < NUM \<and> v_free s i}" "v_seen s = used_idx s" "b_blockno (bufs s b) < 2 ^ 31"
  shows "\<exists>s1 s2 s3 h. virtio_disk_rw b wr s = Sched s1 \<and>
     h = unat (avail_ring s1 (unat (avail_idx s) mod NUM)) \<and>
     virtio_disk_intr (dev h (s1\<lparr>held := {}, cproc := None\<rparr>)) = Ret () s2 \<and> p_state (procs s2 p) = RUNNABLE \<and>
     virtio_wait_resume b h (s2\<lparr>held := {Lproc p}, cproc := Some p\<rparr>) = Ret () s3 \<and>
     (\<exists>t. disk_transfer b wr s = Ret () t \<and> disk s3 = disk t \<and> bufs s3 = bufs t \<and> dtrace s3 = dtrace t) \<and>
     v_free s3 = v_free s \<and> v_seen s3 = used_idx s3 \<and> held s3 = {}"
proof -
  obtain i j k where ijk: "i < NUM" "j < NUM" "k < NUM" "distinct [i, j, k]" "v_free s i" "v_free s j" "v_free s k"
    "virtio_disk_rw b wr s = Sched (asleep p (Chan_buf b)
      (submitted b wr i j k (s\<lparr>v_free := (v_free s)(i := False, j := False, k := False)\<rparr>)))"
    using virtio_disk_rw_sleeps [OF assms(2, 3, 5)] by blast
  let ?s = "s\<lparr>v_free := (v_free s)(i := False, j := False, k := False)\<rparr>"
  define s1 where "s1 = asleep p (Chan_buf b) (submitted b wr i j k ?s)"
  define u where "u = s1\<lparr>held := {}, cproc := None\<rparr>"
  have h: "unat (avail_ring s1 (unat (avail_idx s) mod NUM)) = i"
    using ijk(1) by (simp add: s1_def asleep_def submitted_def unat_of_nat)
  have dv: "dev i u = served b wr i u"
    by (rule device_serves [where s = ?s and j = j and k = k, OF assms(1) ijk(4, 1-3)])
      (use assms(7) in \<open>simp_all add: u_def s1_def asleep_def submitted_def\<close>)
  define v where "v = served b wr i u"
  have v: "held v = {}" "cproc v = None" "used_idx v = v_seen v + 1" "used_ring v (unat (v_seen v) mod NUM) = of_nat i"
    "v_info v i = \<lparr>in_b = Some b, in_status = 0\<rparr>" "p_state (procs v p) = SLEEPING" "p_chan (procs v p) = Some (Chan_buf b)"
    "v_desc v = v_desc (submitted b wr i j k ?s)" "v_free v = v_free ?s"
    using assms(6) by (simp_all add: v_def served_def transferred_def u_def s1_def asleep_def submitted_def)
  have tr: "disk v = disk (transferred b wr s)" "bufs v = bufs (transferred b wr s)" "dtrace v = dtrace (transferred b wr s)"
    by (simp_all add: v_def served_def transferred_def u_def s1_def asleep_def submitted_def)
  define s2 where "s2 = (wake_all (Chan_buf b) (v\<lparr>v_ack := v_isr v AND 3, b_disk := (b_disk v)(b := False)\<rparr>))\<lparr>v_seen := v_seen v + 1\<rparr>"
  have intr: "virtio_disk_intr (dev i u) = Ret () s2"
    unfolding dv v_def [symmetric] s2_def by (rule virtio_disk_intr_one [OF v(1, 3, 4) ijk(1) v(5)])
  have run: "p_state (procs s2 p) = RUNNABLE" using v assms(4) by (simp add: s2_def wake_all_def)
  have "\<exists>s3. virtio_wait_resume b i (s2\<lparr>held := {Lproc p}, cproc := Some p\<rparr>) = Ret () s3 \<and>
      vio_same (s2\<lparr>held := {Lproc p}, cproc := Some p\<rparr>\<lparr>held := {}\<rparr>) s3 \<and>
      v_free s3 = (v_free (s2\<lparr>held := {Lproc p}, cproc := Some p\<rparr>))(i := True, j := True, k := True)"
    by (rule virtio_wait_resume_ok [where j = j and k = k])
      (use ijk(1-4) v(8, 9) in \<open>simp_all add: s2_def wake_all_def submitted_def\<close>)
  then obtain s3 where s3: "virtio_wait_resume b i (s2\<lparr>held := {Lproc p}, cproc := Some p\<rparr>) = Ret () s3"
      "vio_same (s2\<lparr>held := {}\<rparr>) s3" "v_free s3 = (v_free s2)(i := True, j := True, k := True)"
    by (auto simp: vio_same_def)
  have fr: "v_free s3 = v_free s" using s3(3) v(9) ijk(5-7) by (auto simp: s2_def wake_all_def fun_eq_iff)
  have "disk s3 = disk v" "bufs s3 = bufs v" "dtrace s3 = dtrace v" "v_seen s3 = used_idx s3" "held s3 = {}"
    using s3(2) v(3) by (simp_all add: vio_same_def s2_def wake_all_def)
  then show ?thesis
    using ijk(8) h intr run s3(1) fr tr
    by (intro exI [of _ s1] exI [of _ s2] exI [of _ s3] exI [of _ i]) (simp add: s1_def u_def disk_transfer_eval)
qed

text \<open>A device that follows the specification, for the example.\<close>

definition sample_device :: "nat \<Rightarrow> 'a vio_st_scheme \<Rightarrow> 'a vio_st_scheme" where
  "sample_device h s =
     (let d0 = v_desc s h; d1 = v_desc s (unat (d_next d0)); d2 = v_desc s (unat (d_next d1)) in
      case (d_addr d0, d_addr d1, d_addr d2) of
        (A_ops r, A_data b, A_status i) \<Rightarrow>
          (let blk = ucast (drop_bit 1 (rq_sector (v_ops s r)));
               t = (if rq_type (v_ops s r) = VIRTIO_BLK_T_OUT
                 then s\<lparr>disk := (disk s)(blk := b_data (bufs s b)), dtrace := (disk s)(blk := b_data (bufs s b)) # dtrace s\<rparr>
                 else s\<lparr>bufs := (bufs s)(b := (bufs s b)\<lparr>b_data := disk s blk\<rparr>)\<rparr>)
           in t\<lparr>v_info := (v_info s)(i := (v_info s i)\<lparr>in_status := 0\<rparr>),
              used_ring := (used_ring s)(unat (used_idx s) mod NUM := of_nat h), used_idx := used_idx s + 1, v_isr := v_isr s OR 1\<rparr>)
      | _ \<Rightarrow> s)"

lemma sample_device_ok: "virtio_blk_device sample_device"
proof -
  have "ucast (drop_bit 1 (2 * ucast blk :: u64)) = blk" for blk :: u32
  proof (rule bit_word_eqI)
    fix n assume "n < LENGTH(32)"
    then show "bit (ucast (drop_bit 1 (2 * ucast blk :: u64)) :: u32) n = bit blk n"
      using bit_imp_le_length [of blk n] by (auto simp: bit_simps bit_double_iff)
  qed
  then show ?thesis by (simp add: virtio_blk_device_def sample_device_def blk_chain_def Let_def)
qed

theorem virtio_rw_transfers_witness:
  "\<exists>s1 s2 s3 h. virtio_disk_rw 3 True (blank_vio (\<lambda>_. idle_proc) () :: vio_st) = Sched s1 \<and>
     virtio_disk_intr (sample_device h (s1\<lparr>held := {}, cproc := None\<rparr>)) = Ret () s2 \<and> p_state (procs s2 0) = RUNNABLE \<and>
     virtio_wait_resume 3 h (s2\<lparr>held := {Lproc 0}, cproc := Some 0\<rparr>) = Ret () s3 \<and> v_seen s3 = used_idx s3"
proof -
  have "card {i. i < NUM \<and> v_free (blank_vio (\<lambda>_. idle_proc) () :: vio_st) i} = 8" by (simp add: blank)
  with virtio_rw_transfers [OF sample_device_ok, of "blank_vio (\<lambda>_. idle_proc) () :: vio_st" 0 3 True]
  show ?thesis by (simp add: blank) blast
qed

end
