(* ===== verification/User_Trap.thy ===== *)
theory User_Trap
  imports Process Trap Virtio
begin

text \<open>Traps from user space, over the definitions of the theory Trap: the way back to user space
  (\<^verbatim>\<open>usertrap\<close> and \<^verbatim>\<open>prepare_return\<close> of \<^verbatim>\<open>src/kernel/trap.c\<close>), the range of system call arguments and
  numbers (\<^verbatim>\<open>src/kernel/syscall.c\<close>), and the clock interrupt with the processes that wait for it.\<close>

unbundle bit_operations_syntax

section \<open>The return to user space\<close>

definition regs_eq :: "'a trap_st_scheme \<Rightarrow> 'a trap_st_scheme \<Rightarrow> bool" where
  "regs_eq s t \<longleftrightarrow> procs t = procs s \<and> cproc t = cproc s \<and> held t = held s"

interpretation rgf: frame_rel regs_eq
  by unfold_locales (auto simp: regs_eq_def)

lemma regs_frame:
  "kkeeps regs_eq curproc" "kkeeps regs_eq (proc_at i)" "kkeeps regs_eq (tf_set tf r v)" "kkeeps regs_eq (tf_get tf r)"
  unfolding curproc_def myproc_def proc_at_def tf_set_def tf_get_def
  by (intro rgf.keeps_rules rgf.keeps_mod; simp add: regs_eq_def)+

lemma keeps_prepare_return: "kkeeps regs_eq prepare_return"
  unfolding prepare_return_def
  by (intro rgf.keeps_rules regs_frame rgf.keeps_mod; simp add: regs_eq_def)

lemma yield_never_returns: "yield s \<noteq> Ret r t"
  by (auto simp: yield_def kbind_Ret_iff kthen_Ret_iff sched_never_returns)

lemma killed_Ret: "killed p s = Ret k t \<Longrightarrow> k = p_killed (procs s p) \<and> procs t = procs s \<and> cproc t = cproc s"
  by (cases "Lproc p \<in> held s") (auto simp: killed_def kmonad)

lemma usertrap_tail_Ret:
  assumes "usertrap_tail p w s = Ret v t"
  shows "p_killed (procs t p) = 0 \<and> w \<noteq> 2 \<and> cproc t = cproc s \<and>
    (\<forall>q. cproc t = Some q \<longrightarrow> v = MAKE_SATP (p_pagetable (procs t q)))"
proof -
  from assms obtain u where u: "killed p s = Ret 0 u" "w \<noteq> 2" "kthen prepare_return user_satp u = Ret v t"
    by (auto simp: usertrap_tail_def kbind_Ret_iff kexit_no_return yield_never_returns split: if_splits)
  then obtain x where x: "prepare_return u = Ret () x" "user_satp x = Ret v t" by (auto simp: kthen_Ret_iff)
  have "regs_eq u x" by (rule kkeeps_Ret [OF keeps_prepare_return x(1)])
  moreover have "t = x" "\<forall>q. cproc x = Some q \<longrightarrow> v = MAKE_SATP (p_pagetable (procs x q))"
    using x(2) by (cases "cproc x"; auto simp: user_satp_def kmonad)+
  ultimately show ?thesis using killed_Ret [OF u(1)] u(2) by (simp add: regs_eq_def)
qed

text \<open>Properties of the value returned that do not depend on how the run began.\<close>

definition kends :: "('a \<Rightarrow> 's \<Rightarrow> bool) \<Rightarrow> ('s, 'a) km \<Rightarrow> bool" where
  "kends Q m \<longleftrightarrow> (\<forall>s v t. m s = Ret v t \<longrightarrow> Q v t)"

lemma kends_rules:
  "(\<And>a. kends Q (f a)) \<Longrightarrow> kends Q (kbind m f)"
  "kends Q n \<Longrightarrow> kends Q (kthen m n)"
  "(b \<Longrightarrow> kends Q k) \<Longrightarrow> (\<not> b \<Longrightarrow> kends Q n) \<Longrightarrow> kends Q (if b then k else n)"
  "kends Q (kpanic e)" "kends Q (kexit st)"
  by (auto simp: kends_def kbind_Ret_iff kthen_Ret_iff kpanic_eval kexit_no_return)

definition user_ok :: "nat \<Rightarrow> u64 \<Rightarrow> 'a trap_st_scheme \<Rightarrow> bool" where
  "user_ok p v t \<longleftrightarrow> p_killed (procs t p) = 0 \<and> (\<forall>q. cproc t = Some q \<longrightarrow> v = MAKE_SATP (p_pagetable (procs t q)))"

lemma kends_tail: "kends (user_ok p) (usertrap_tail p w)"
  unfolding kends_def user_ok_def using usertrap_tail_Ret by blast

lemma kends_handle: "kends (user_ok p) (usertrap_handle disk_intr p)"
  unfolding usertrap_handle_def Let_def by (intro kends_rules kends_tail)

section \<open>A process that is killed stays killed\<close>

definition kill_mono :: "'a proc_st_scheme \<Rightarrow> 'a proc_st_scheme \<Rightarrow> bool" where
  "kill_mono s t \<longleftrightarrow> (\<forall>p. p_killed (procs s p) \<noteq> 0 \<longrightarrow> p_killed (procs t p) \<noteq> 0)"

interpretation kmf: frame_rel kill_mono
  by unfold_locales (auto simp: kill_mono_def)

lemma km_upd: "(\<And>P. p_killed P \<noteq> 0 \<Longrightarrow> p_killed (f P) \<noteq> 0) \<Longrightarrow> kkeeps kill_mono (upd_proc i f)"
  unfolding upd_proc_def by (rule kmf.keeps_mod) (simp add: kill_mono_def)

lemma km_mod: "(\<And>s. procs (f s) = procs s) \<Longrightarrow> kkeeps kill_mono (kmod f)"
  by (rule kmf.keeps_mod) (simp add: kill_mono_def)

lemma km_same: "kkeeps kill_mono (acquire l)" "kkeeps kill_mono (release l)" "kkeeps kill_mono curproc" "kkeeps kill_mono myproc"
    "kkeeps kill_mono (proc_at i)" "kkeeps kill_mono (kprintf fmt ap)" "kkeeps kill_mono (tf_set tf r v)"
proof -
  show al: "kkeeps kill_mono (acquire l)" "kkeeps kill_mono (release l)" for l
    by (simp_all add: kkeeps_def acquire_def release_def kill_mono_def)
  show "kkeeps kill_mono curproc" "kkeeps kill_mono myproc" "kkeeps kill_mono (proc_at i)" "kkeeps kill_mono (tf_set tf r v)"
    unfolding curproc_def myproc_def proc_at_def tf_set_def by (intro kmf.keeps_rules km_mod; simp)+
  show "kkeeps kill_mono (kprintf fmt ap)"
    unfolding kprintf_def by (intro kmf.keeps_rules al km_mod; simp)
qed

lemma km_vm:
  assumes "kkeeps vm_eq m"
  shows "kkeeps kill_mono m"
  unfolding kkeeps_def
proof
  fix s
  have "case m s of Ret a t \<Rightarrow> vm_eq s t | Panic e \<Rightarrow> True | Sched t \<Rightarrow> vm_eq s t" using assms by (simp add: kkeeps_def)
  moreover have "vm_eq s t \<Longrightarrow> kill_mono s t" for t by (simp add: vm_eq_fields kill_mono_def)
  ultimately show "case m s of Ret a t \<Rightarrow> kill_mono s t | Panic e \<Rightarrow> True | Sched t \<Rightarrow> kill_mono s t"
    by (cases "m s") simp_all
qed

lemmas km_rules = kmf.keeps_rules km_same km_mod km_upd

lemma km_wakeup: "kkeeps kill_mono (wakeup ch)"
  unfolding wakeup_def by (intro km_rules; simp)

lemma km_setkilled: "kkeeps kill_mono (setkilled p)" "kkeeps kill_mono (killed p)"
  unfolding setkilled_def killed_def by (intro km_rules; simp)+

lemma km_consoleintr: "kkeeps kill_mono (consoleintr c)"
  unfolding consoleintr_def procdump_def consputc_def consputc_backspace_def uartputc_sync_def uart_send_def Let_def cons_put_def
  by (intro km_rules km_wakeup; simp)

lemma km_uartgetc: "kkeeps kill_mono uartgetc"
proof -
  have "kkeeps kill_mono (case rx of [] \<Rightarrow> kret None | c # cs \<Rightarrow> kthen (kmod (\<lambda>s. s\<lparr>uart_rx := cs\<rparr>)) (kret (Some c)))" for rx
    by (cases rx; simp; intro km_rules; simp)
  then show ?thesis unfolding uartgetc_def by (intro km_rules)
qed

lemma km_uartintr: "kkeeps kill_mono uartintr"
  unfolding uartintr_def by (intro km_rules km_wakeup km_uartgetc km_consoleintr; simp)

lemma km_devintr: "kkeeps kill_mono disk_intr \<Longrightarrow> kkeeps kill_mono (devintr disk_intr)"
  unfolding devintr_def clockintr_def by (intro km_rules km_wakeup km_uartintr; simp)

text \<open>The disk driver's handler is such a \<open>disk_intr\<close>.\<close>

lemma km_virtio: "kkeeps kill_mono virtio_disk_intr"
proof -
  have c: "kkeeps kill_mono virtio_complete"
    unfolding virtio_complete_def by (intro km_rules km_wakeup; simp)
  have "kkeeps kill_mono (virtio_intr_loop n)" for n
    by (induction n; simp; intro km_rules c; assumption?)
  then show ?thesis unfolding virtio_disk_intr_def by (intro km_rules; simp)
qed

text \<open>The runs that return only if the process was not killed when they began.\<close>

definition kstarts :: "nat \<Rightarrow> ('a proc_st_scheme, 'r) km \<Rightarrow> bool" where
  "kstarts p m \<longleftrightarrow> (\<forall>s v t. m s = Ret v t \<longrightarrow> p_killed (procs s p) = 0)"

lemma kstarts_rules:
  "kkeeps kill_mono m \<Longrightarrow> (\<And>a. kstarts p (f a)) \<Longrightarrow> kstarts p (kbind m f)"
  "kkeeps kill_mono m \<Longrightarrow> kstarts p n \<Longrightarrow> kstarts p (kthen m n)"
  "(b \<Longrightarrow> kstarts p k) \<Longrightarrow> (\<not> b \<Longrightarrow> kstarts p n) \<Longrightarrow> kstarts p (if b then k else n)"
proof -
  show "kkeeps kill_mono m \<Longrightarrow> (\<And>a. kstarts p (f a)) \<Longrightarrow> kstarts p (kbind m f)"
    unfolding kstarts_def using kkeeps_Ret [of kill_mono m] by (auto simp: kbind_Ret_iff kill_mono_def) metis
  show "kkeeps kill_mono m \<Longrightarrow> kstarts p n \<Longrightarrow> kstarts p (kthen m n)"
    unfolding kstarts_def using kkeeps_Ret [of kill_mono m] by (auto simp: kthen_Ret_iff kill_mono_def) metis
  show "(b \<Longrightarrow> kstarts p k) \<Longrightarrow> (\<not> b \<Longrightarrow> kstarts p n) \<Longrightarrow> kstarts p (if b then k else n)" by simp
qed

lemma kstarts_test: "kstarts p (kbind (killed p) (\<lambda>k. if k \<noteq> 0 then kexit st else m))"
  unfolding kstarts_def by (auto simp: kbind_Ret_iff kexit_no_return dest: killed_Ret split: if_splits)

lemma kstarts_handle:
  assumes "kkeeps kill_mono disk_intr"
  shows "kstarts p (usertrap_handle disk_intr p)"
proof -
  have t: "kstarts p (usertrap_tail p w)" for w unfolding usertrap_tail_def by (rule kstarts_test)
  show ?thesis unfolding usertrap_handle_def Let_def
    by (intro kstarts_rules kstarts_test t km_rules km_devintr km_setkilled km_vm [OF keeps_vmfault] assms)
qed

section \<open>Who returns to user space\<close>

text \<open>C24: a trap from user space that returns there without giving up the processor, and a system call that
  slept and is resumed, do so only if the process is not killed, and with the page table of the
  process that is running; a process that was killed before the trap does not return.  (A timer
  interrupt gives up the processor after the test and is not covered: \<open>usertrap_yield_resume\<close>.)
  \<open>disk_intr\<close> stands for \<^verbatim>\<open>virtio_disk_intr\<close>, of which only this is used: it does not clear the mark of a
  killed process (\<open>km_virtio\<close>).\<close>

theorem usertrap_never_resumes_killed:
  assumes "kkeeps kill_mono disk_intr"
  shows "(case usertrap disk_intr s of
     Ret v t \<Rightarrow> \<exists>p. cproc s = Some p \<and> p_killed (procs s p) = 0 \<and> user_ok p v t
   | _ \<Rightarrow> True) \<and>
   (case usertrap_syscall_resume q rest u of Ret v t \<Rightarrow> user_ok q v t | _ \<Rightarrow> True)"
proof
  show "case usertrap_syscall_resume q rest u of Ret v t \<Rightarrow> user_ok q v t | _ \<Rightarrow> True"
  proof (cases "usertrap_syscall_resume q rest u")
    case (Ret v t)
    have "kends (user_ok q) (usertrap_syscall_resume q rest)"
      unfolding usertrap_syscall_resume_def by (intro kends_rules kends_tail)
    then show ?thesis using Ret by (auto simp: kends_def)
  qed simp_all
  show "case usertrap disk_intr s of
     Ret v t \<Rightarrow> \<exists>p. cproc s = Some p \<and> p_killed (procs s p) = 0 \<and> user_ok p v t | _ \<Rightarrow> True"
  proof (cases "cproc s")
    case None
    then show ?thesis by (simp add: usertrap_def kmonad)
  next
    case (Some p)
    show ?thesis
    proof (cases "usertrap disk_intr s")
      case (Ret v t)
      then have h: "usertrap_handle disk_intr p (s\<lparr>stvec := kernelvec_va s\<rparr>) = Ret v t"
        using Some by (auto simp: usertrap_def kmonad split: if_splits)
      then have "user_ok p v t" using kends_handle [of p disk_intr] by (auto simp: kends_def)
      moreover have "p_killed (procs s p) = 0" using kstarts_handle [OF assms, of p] h by (fastforce simp: kstarts_def)
      ultimately show ?thesis using Ret Some by simp
    qed simp_all
  qed
qed

theorem usertrap_never_resumes_killed_witness:
  "\<exists>v t. usertrap (kret ()) ((blank_trap (\<lambda>_. idle_proc))\<lparr>scause := 0x8000000000000009\<rparr>) = Ret v t \<and> user_ok 0 v t"
proof -
  let ?s = "(blank_trap (\<lambda>_. idle_proc))\<lparr>scause := 0x8000000000000009\<rparr>"
  have "\<exists>v t. usertrap (kret ()) ?s = Ret v t"
    by (simp add: usertrap_def usertrap_handle_def devintr_def usertrap_tail_def prepare_return_def user_satp_def
        tf_set_def tf_get_def kmonad blank idle_proc_def Let_def)
  then obtain v t where r: "usertrap (kret ()) ?s = Ret v t" by blast
  moreover have "cproc ?s = Some 0" by (simp add: blank)
  ultimately show ?thesis using usertrap_never_resumes_killed [OF kmf.keeps_ret [of "()"], of ?s] by auto
qed

section \<open>The timer\<close>

lemma clockintr_eval:
  assumes "held s = {}" "hartid s = 0"
  shows "clockintr s = Ret () ((wake_all Chan_ticks (s\<lparr>ticks := ticks s + 1\<rparr>))\<lparr>stimecmp := rtime s + 1000000\<rparr>)"
proof -
  let ?u = "s\<lparr>ticks := ticks s + 1\<rparr>"
  have w: "wakeup (Some Chan_ticks) (?u\<lparr>held := {Lticks}\<rparr>) = Ret () ((wake_all Chan_ticks ?u)\<lparr>held := {Lticks}\<rparr>)"
    unfolding wake_all_held [symmetric] by (rule wakeup_all) (simp add: no_plock_def)
  have u: "?u\<lparr>held := {Lticks}\<rparr> = s\<lparr>held := {Lticks}, ticks := ticks s + 1\<rparr>" by (cases s) simp
  define W where "W = wake_all Chan_ticks ?u"
  have h: "W\<lparr>held := {}\<rparr> = W" "rtime W = rtime s" unfolding W_def
    by (rule held_same) (simp_all add: assms wake_all_def)
  have "wakeup (Some Chan_ticks) (s\<lparr>held := {Lticks}, ticks := ticks s + 1\<rparr>) = Ret () (W\<lparr>held := {Lticks}\<rparr>)"
    unfolding u [symmetric] W_def by (rule w)
  then show ?thesis unfolding W_def [symmetric] by (simp add: clockintr_def kmonad assms h)
qed

text \<open>A timer interrupt tests whether the process is killed before it yields, and not again afterwards: a
  process that is killed while it waits for the processor goes back to user space, with the page table
  that is its own.\<close>

lemma usertrap_yield_skips_test:
  assumes s: "cproc s = Some p" "held s = {}" "hartid s = 0" "sstatus s AND SSTATUS_SPP = 0" "scause s = 0x8000000000000005"
      "p_killed (procs s p) = 0"
    and u: "cproc u = Some p" "held u = {Lproc p}"
  shows "\<exists>t v w. usertrap disk_intr s = Sched t \<and> p_state (procs t p) = RUNNABLE \<and>
    usertrap_yield_resume u = Ret v w \<and> p_killed (procs w p) = p_killed (procs u p) \<and>
    v = MAKE_SATP (p_pagetable (procs u p))"
proof -
  let ?v = "s\<lparr>stvec := kernelvec_va s, phys := store64 (phys s) (p_trapframe (procs s p) + TF_epc) (sepc s)\<rparr>"
  let ?c = "(wake_all Chan_ticks (?v\<lparr>ticks := ticks ?v + 1\<rparr>))\<lparr>stimecmp := rtime ?v + 1000000\<rparr>"
  have c: "clockintr ?v = Ret () ?c" by (rule clockintr_eval) (use s in simp_all)
  have "cproc ?c = Some p" "held ?c = {}" "p_killed (procs ?c p) = 0" using s by (simp_all add: wake_all_def)
  then have "\<exists>t. usertrap_tail p 2 ?c = Sched t \<and> p_state (procs t p) = RUNNABLE"
    by (simp add: usertrap_tail_def kmonad yield_eval)
  moreover have "usertrap disk_intr s = usertrap_tail p 2 ?c"
    using s c by (simp add: usertrap_def usertrap_handle_def devintr_def tf_set_def kmonad Let_def)
  moreover have "\<exists>v w. usertrap_yield_resume u = Ret v w \<and> procs w = procs u \<and> v = MAKE_SATP (p_pagetable (procs u p))"
    using u by (simp add: usertrap_yield_resume_def yield_resume_def prepare_return_def user_satp_def tf_set_def tf_get_def kmonad)
  ultimately show ?thesis by auto
qed

lemma usertrap_yield_skips_test_example:
  "\<exists>t v w. usertrap (kret ()) ((blank_trap (\<lambda>_. idle_proc))\<lparr>scause := 0x8000000000000005\<rparr>) = Sched t \<and>
     p_state (procs t 0) = RUNNABLE \<and>
     usertrap_yield_resume ((blank_trap (\<lambda>_. idle_proc\<lparr>p_killed := 1\<rparr>))\<lparr>held := {Lproc 0}\<rparr>) = Ret v w \<and> p_killed (procs w 0) = 1"
  using usertrap_yield_skips_test [of "(blank_trap (\<lambda>_. idle_proc))\<lparr>scause := 0x8000000000000005\<rparr>" 0
      "(blank_trap (\<lambda>_. idle_proc\<lparr>p_killed := 1\<rparr>))\<lparr>held := {Lproc 0}\<rparr>" "kret ()"]
  by (auto simp: blank idle_proc_def)

section \<open>Arguments\<close>

lemma to_int_range: "- (2 ^ 31) \<le> to_int v \<and> to_int v < 2 ^ 31"
  using sint_ge [of "ucast v :: u32"] sint_lt [of "ucast v :: u32"] by (simp add: to_int_def)

text \<open>\<^verbatim>\<open>argint\<close> yields a 32-bit signed value whatever the register holds, and a handler's \<^verbatim>\<open>int\<close>
  result survives the 64-bit register it is returned in.\<close>

lemma argint_is_int:
  "(case argint n s of Ret v t \<Rightarrow> - (2 ^ 31) \<le> v \<and> v < 2 ^ 31 \<and> t = s | _ \<Rightarrow> True) \<and>
   (- (2 ^ 31) \<le> v \<and> v < 2 ^ 31 \<longrightarrow> to_int (of_cint v) = v)"
proof
  show "case argint n s of Ret v t \<Rightarrow> - (2 ^ 31) \<le> v \<and> v < 2 ^ 31 \<and> t = s | _ \<Rightarrow> True"
    using to_int_range by (cases "cproc s") (simp_all add: argint_def argraw_def tf_get_def kmonad)
  have "ucast (word_of_int v :: u64) = (word_of_int v :: u32)"
    by (rule bit_word_eqI) (auto simp: bit_simps)
  then show "- (2 ^ 31) \<le> v \<and> v < 2 ^ 31 \<longrightarrow> to_int (of_cint v) = v"
    by (auto simp: to_int_def of_cint_def signed_of_int signed_take_bit_int_eq_self_iff)
qed

section \<open>System call numbers\<close>

lemma syscalls_range: "(\<exists>h. syscalls n = Some h) \<longleftrightarrow> 1 \<le> n \<and> n \<le> 36"
proof
  show "1 \<le> n \<and> n \<le> 36" if "\<exists>h. syscalls n = Some h"
    using that by (auto simp: syscalls_def split: if_splits)
  have "syscalls n \<noteq> None" if "n \<in> {1..36}"
    using that unfolding syscalls_def by (auto simp: atLeastAtMost_insertL [symmetric] numeral_eq_Suc atLeastAtMostSuc_conv)
  then show "\<exists>h. syscalls n = Some h" if "1 \<le> n \<and> n \<le> 36" using that by auto
qed

lemma unknown_text: "\<exists>msg. kprintf_text ''%d %s: unknown sys call %d\<newline>'' [Vint a, Vstr (Some b), Vint c] = Some msg"
  by (simp add: kfmt_eval)

text \<open>A system call number outside 1..36 is reported on the console and answered with -1 in the
  register \<^verbatim>\<open>a0\<close>; the process goes on.\<close>

lemma syscall_unknown:
  fixes s :: "'a trap_st_scheme"
  assumes "cproc s = Some p" "Lpr \<notin> held s" "num = to_int (load64 (phys s) (p_trapframe (procs s p) + 168))"
    and "num < 1 \<or> 36 < num"
  shows "\<exists>msg. syscall s = Ret () (s\<lparr>klog := msg # klog s,
    phys := store64 (phys s) (p_trapframe (procs s p) + TF_a0) (-1)\<rparr>)"
proof -
  have "(if num > 0 then syscalls (nat num) else None :: ('a trap_st_scheme, u64) km option) = None"
  proof (cases "syscalls (nat num) :: ('a trap_st_scheme, u64) km option")
    case (Some h)
    then have "1 \<le> nat num \<and> nat num \<le> 36" using syscalls_range by blast
    then show ?thesis using assms(4) by linarith
  qed simp
  moreover obtain msg where "kprintf_text ''%d %s: unknown sys call %d\<newline>'' [Vint (word_of_int (p_pid (procs s p))),
      Vstr (Some (name_string (p_name (procs s p)))), Vint (word_of_int num)] = Some msg" using unknown_text by blast
  ultimately show ?thesis using assms(1, 2)
    by (intro exI [of _ msg], cases "num > 0")
      (simp_all add: syscall_def kmonad tf_get_def tf_set_def syscall_return_def Let_def assms(3) [symmetric])
qed

section \<open>Time\<close>

text \<open>C33: a process asleep in \<^verbatim>\<open>pause(n)\<close> is made runnable by every clock tick, and the first tick after
  which \<^verbatim>\<open>n\<close> ticks have passed lets it return 0, also when the tick counter wraps around.\<close>

theorem pause_ends:
  assumes "held s = {}" "hartid s = 0" "p < NPROC" "cproc s \<noteq> Some p"
    and "p_state (procs s p) = SLEEPING" "p_chan (procs s p) = Some Chan_ticks"
    and "\<not> ticks s + 1 - ticks0 < word_of_int n"
  shows "\<exists>t u. clockintr s = Ret () t \<and> p_state (procs t p) = RUNNABLE \<and>
    sys_pause_resume ticks0 n (t\<lparr>held := {Lproc p}, cproc := Some p\<rparr>) = Ret 0 u"
proof -
  let ?t = "(wake_all Chan_ticks (s\<lparr>ticks := ticks s + 1\<rparr>))\<lparr>stimecmp := rtime s + 1000000\<rparr>"
  have "clockintr s = Ret () ?t" by (rule clockintr_eval [OF assms(1, 2)])
  moreover have "p_state (procs ?t p) = RUNNABLE" using assms(3-6) by (auto simp: wake_all_def)
  moreover have "\<exists>u. sys_pause_resume ticks0 n (?t\<lparr>held := {Lproc p}, cproc := Some p\<rparr>) = Ret 0 u"
    using assms(7) by (simp add: sys_pause_resume_def sys_pause_loop_def kmonad sleep_resume_eval wake_all_def)
  ultimately show ?thesis by blast
qed

theorem pause_ends_witness:
  "\<exists>t u. clockintr ((blank_trap (\<lambda>_. idle_proc\<lparr>p_state := SLEEPING, p_chan := Some Chan_ticks\<rparr>))
      \<lparr>ticks := -1, cproc := None\<rparr>) = Ret () t \<and> p_state (procs t 4) = RUNNABLE \<and>
    sys_pause_resume (-3) 3 (t\<lparr>held := {Lproc 4}, cproc := Some 4\<rparr>) = Ret 0 u"
  by (rule pause_ends) (simp_all add: blank)

end
