(* ===== verification/Copy.thy ===== *)
theory Copy
  imports Process
begin

text \<open>
  The copies between kernel and user memory of \<^verbatim>\<open>src/kernel/vm.c\<close>, \<^verbatim>\<open>copyin\<close> and \<^verbatim>\<open>copyout\<close>, as reads and
  writes of the bytes behind user addresses: \<open>uaddr\<close> is the physical address a page table gives a
  user address, \<open>user_readable\<close> and \<open>user_writable\<close> say when the kernel may use it.
\<close>

unbundle bit_operations_syntax

section \<open>Copies between kernel and user memory\<close>

lemma page_offset:
  "unat (va - PGROUNDDOWN va) = unat va mod 4096" "unat (PGSIZE - (va - PGROUNDDOWN va)) = 4096 - unat va mod 4096"
proof -
  show off: "unat (va - PGROUNDDOWN va) = unat va mod 4096"
    using unat_sub [OF PGROUNDDOWN_le [of va]] by (simp add: unat_PGROUNDDOWN minus_div_mult_eq_mod)
  have "va - PGROUNDDOWN va \<le> PGSIZE" by (simp add: word_le_nat_alt off)
  then show "unat (PGSIZE - (va - PGROUNDDOWN va)) = 4096 - unat va mod 4096"
    by (simp add: unat_sub off)
qed

lemma page_chunk_eq: "page_chunk va len = min (4096 - unat va mod 4096) len"
  by (simp add: page_chunk_def page_offset)

lemma page_div: "i < 4096 - a mod 4096 \<Longrightarrow> (a + i) div 4096 = a div 4096" for a i :: nat
proof -
  assume i: "i < 4096 - a mod 4096"
  have "a + i = (a mod 4096 + i) + a div 4096 * 4096" using div_mult_mod_eq [of a 4096] by linarith
  then have "(a + i) div 4096 = a div 4096 + (a mod 4096 + i) div 4096" by (simp only: div_mult_self1)
  then show ?thesis using i by simp
qed

lemma chunk_same_page:
  assumes "i < page_chunk va len" "unat va + len \<le> 2 ^ 64"
  shows "PGROUNDDOWN (va + of_nat i) = PGROUNDDOWN va" "va + of_nat i - PGROUNDDOWN va = (va - PGROUNDDOWN va) + of_nat i"
proof -
  have i: "i < 4096 - unat va mod 4096" "i < len" using assms(1) by (auto simp: page_chunk_eq)
  then have "unat (va + of_nat i) = unat va + i" using assms(2) by (intro unat_offset [of _ len]) auto
  moreover have "(unat va + i) div 4096 = unat va div 4096"  using i(1) by (rule page_div)
  ultimately show "PGROUNDDOWN (va + of_nat i) = PGROUNDDOWN va"
    by (simp add: word_unat_eq_iff unat_PGROUNDDOWN)
  show "va + of_nat i - PGROUNDDOWN va = (va - PGROUNDDOWN va) + of_nat i" by simp
qed

lemma chunk_next_page:
  assumes "page_chunk va len < len" "unat va + len \<le> 2 ^ 64"
  shows "PGROUNDDOWN va + PGSIZE = va + of_nat (page_chunk va len)"
proof -
  have c: "page_chunk va len = 4096 - unat va mod 4096" using assms(1) by (simp add: page_chunk_eq)
  have "of_nat (4096 - unat va mod 4096) = PGSIZE - (va - PGROUNDDOWN va)"
    by (simp add: page_offset(2) [symmetric])
  then show ?thesis by (simp add: c)
qed

text \<open>The physical address behind a user address.\<close>

definition uaddr :: "'a proc_st_scheme \<Rightarrow> u64 \<Rightarrow> u64 \<Rightarrow> u64" where
  "uaddr s pt va = pa_of s pt va + (va - PGROUNDDOWN va)"

definition user_readable :: "'a proc_st_scheme \<Rightarrow> u64 \<Rightarrow> u64 \<Rightarrow> bool" where
  "user_readable s pt va \<longleftrightarrow> va < MAXVA \<and> mapped s pt va \<and> pte_of (phys s) pt va AND PTE_U \<noteq> 0 \<and> pa_of s pt va \<noteq> 0"

lemma pte_of_page: "pte_of m pt (PGROUNDDOWN va) = pte_of m pt va"
  by (rule pte_of_vpn) simp

lemma walkaddr_readable:
  assumes "vm_ok s pt F" "user_readable s pt va"
  shows "walkaddr pt (PGROUNDDOWN va) s = Ret (pa_of s pt va) s"
proof -
  have "PGROUNDDOWN va < MAXVA"
    using assms(2) PGROUNDDOWN_le [of va] by (simp add: user_readable_def le_less_trans)
  then show ?thesis
    using walkaddr_eval [OF assms(1), of "PGROUNDDOWN va"] assms(2)
    by (simp add: user_readable_def mapped_def pa_of_def pte_of_page)
qed

lemma copyin_ok:
  assumes "vm_ok s pt F" "unat srcva + len \<le> 2 ^ 64" "\<And>i. i < len \<Longrightarrow> user_readable s pt (srcva + of_nat i)"
  shows "copyin pt srcva len s = Ret (0, map (\<lambda>i. phys s (uaddr s pt (srcva + of_nat i))) [0..<len]) s"
  using assms(2,3)
proof (induction len arbitrary: srcva rule: less_induct)
  case (less len)
  show ?case
  proof (cases "len = 0")
    case True
    then show ?thesis by (subst copyin.simps) (simp add: kmonad)
  next
    case False
    define n where "n = page_chunk srcva len"
    have n: "0 < n" "n \<le> len" using False page_chunk_pos [of len srcva] by (auto simp: n_def page_chunk_eq)
    have rd: "user_readable s pt srcva" using less.prems(2) [of 0] False by simp
    have bytes: "mem_bytes (phys s) (pa_of s pt srcva + (srcva - PGROUNDDOWN srcva)) n =
        map (\<lambda>i. phys s (uaddr s pt (srcva + of_nat i))) [0..<n]"
    proof -
      have "uaddr s pt (srcva + of_nat i) = pa_of s pt srcva + (srcva - PGROUNDDOWN srcva) + of_nat i" if "i < n" for i
        using chunk_same_page [of i srcva len] that less.prems(1)
        by (simp add: uaddr_def pa_of_def n_def pte_of_page [symmetric, of _ _ "srcva + of_nat i"] pte_of_page)
      then show ?thesis by (simp add: mem_bytes_def)
    qed
    have rest: "copyin pt (PGROUNDDOWN srcva + PGSIZE) (len - n) s =
        Ret (0, map (\<lambda>i. phys s (uaddr s pt (srcva + of_nat n + of_nat i))) [0..<len - n]) s"
    proof (cases "n = len")
      case True
      then show ?thesis by (subst copyin.simps) (simp add: kmonad)
    next
      case False
      then have nx: "PGROUNDDOWN srcva + PGSIZE = srcva + of_nat n"
        using chunk_next_page [of srcva len] less.prems(1) n by (simp add: n_def)
      have u: "unat (srcva + of_nat n) = unat srcva + n"
        using less.prems(1) n False by (intro unat_offset [of _ len]) auto
      have "user_readable s pt (srcva + of_nat n + of_nat i)" if "i < len - n" for i
        using less.prems(2) [of "n + i"] that by (simp add: ac_simps)
      then show ?thesis unfolding nx using n u less.prems(1) by (intro less.IH) auto
    qed
    have app: "[0..<len] = [0..<n] @ map (\<lambda>i. i + n) [0..<len - n]"
      using n(2) upt_add_eq_append [of 0 n "len - n"] by (simp add: map_add_upt)
    show ?thesis using False bytes rest walkaddr_readable [OF assms(1) rd] rd
      by (subst copyin.simps)
        (simp add: kmonad Let_def n_def [symmetric] user_readable_def app ac_simps comp_def)
  qed
qed

section \<open>copyout\<close>

text \<open>A user address the kernel may write through: mapped writable for the user, to an allocated
  page that is no table page.\<close>

definition user_writable :: "'a proc_st_scheme \<Rightarrow> u64 \<Rightarrow> u64 set \<Rightarrow> u64 \<Rightarrow> bool" where
  "user_writable s pt F va \<longleftrightarrow> user_readable s pt va \<and> pte_of (phys s) pt va AND PTE_W \<noteq> 0 \<and>
     pa_of s pt va \<in> kmem_pool s - F - pt_pages (phys s) pt"

primrec ublit :: "'a proc_st_scheme \<Rightarrow> u64 \<Rightarrow> mem \<Rightarrow> u64 \<Rightarrow> u8 list \<Rightarrow> mem" where
  "ublit s pt m va [] = m"
| "ublit s pt m va (b # bs) = ublit s pt (m(uaddr s pt va := b)) (va + 1) bs"

lemma ublit_append: "ublit s pt m va (xs @ ys) = ublit s pt (ublit s pt m va xs) (va + of_nat (length xs)) ys"
  by (induction xs arbitrary: m va) (simp_all add: ac_simps)

lemma ublit_other: "(\<And>i. i < length bs \<Longrightarrow> x \<noteq> uaddr s pt (va + of_nat i)) \<Longrightarrow> ublit s pt m va bs x = m x"
proof (induction bs arbitrary: m va)
  case (Cons b bs)
  have "x \<noteq> uaddr s pt va" using Cons.prems [of 0] by simp
  moreover have "x \<noteq> uaddr s pt (va + 1 + of_nat i)" if "i < length bs" for i
    using Cons.prems [of "Suc i"] that by (simp add: ac_simps)
  ultimately show ?case using Cons.IH by simp
qed simp

lemma ublit_at:
  assumes "inj_on (\<lambda>i. uaddr s pt (va + of_nat i)) {..<length bs}" "j < length bs"
  shows "ublit s pt m va bs (uaddr s pt (va + of_nat j)) = bs ! j"
proof -
  let ?v = "va + of_nat j"
  have "bs = take j bs @ bs ! j # drop (Suc j) bs" using assms(2) by (simp add: id_take_nth_drop)
  then have "ublit s pt m va bs = ublit s pt (ublit s pt m va (take j bs)) ?v (bs ! j # drop (Suc j) bs)"
    using ublit_append [of s pt m va "take j bs" "bs ! j # drop (Suc j) bs"] assms(2) by (simp add: min_def)
  moreover have "uaddr s pt ?v \<noteq> uaddr s pt (?v + 1 + of_nat i)" if "i < length bs - Suc j" for i
  proof -
    define k where "k = Suc (j + i)"
    have e: "va + of_nat j + 1 + of_nat i = va + of_nat k" by (simp add: k_def ac_simps)
    have "j \<noteq> k" "k < length bs" using that by (auto simp: k_def)
    then show ?thesis unfolding e using inj_onD [OF assms(1), of j k] assms(2) by auto
  qed
  ultimately show ?thesis using ublit_other [of "drop (Suc j) bs" "uaddr s pt ?v" s pt "?v + 1"] by simp
qed

lemma put_bytes_Cons:
  assumes "length (b # bs) \<le> 4096"
  shows "put_bytes m a (b # bs) = put_bytes (m(a := b)) (a + 1) bs"
proof
  fix x
  show "put_bytes m a (b # bs) x = put_bytes (m(a := b)) (a + 1) bs x"
  proof (cases "x = a")
    case True
    have "a - (a + 1) = (-1 :: u64)" by simp
    then have "unat (a - (a + 1)) = 2 ^ 64 - 1" by (simp only: unsigned_minus_1_eq_mask mask_eq_exp_minus_1) simp
    then show ?thesis using assms True by (simp add: put_bytes_def)
  next
    case False
    then have "x - a \<noteq> 0" by simp
    then have "unat (x - a) = Suc (unat (x - a - 1))" using unat_minus_one [of "x - a"]
      by (cases "unat (x - a)") (simp_all add: unsigned_eq_0_iff)
    then have "unat (x - a) = Suc (unat (x - (a + 1)))" by (simp add: algebra_simps)
    then show ?thesis using False by (simp add: put_bytes_def)
  qed
qed

lemma ublit_put:
  assumes "\<And>i. i < length bs \<Longrightarrow> uaddr s pt (va + of_nat i) = a + of_nat i" "length bs \<le> 4096"
  shows "ublit s pt m va bs = put_bytes m a bs"
  using assms
proof (induction bs arbitrary: m va a)
  case (Cons b bs)
  have "uaddr s pt va = a" using Cons.prems(1) [of 0] by simp
  moreover have "uaddr s pt (va + 1 + of_nat i) = a + 1 + of_nat i" if "i < length bs" for i
    using Cons.prems(1) [of "Suc i"] that by (simp add: ac_simps)
  ultimately show ?case using Cons.IH [of "va + 1" "a + 1"] Cons.prems(2) by (simp add: put_bytes_Cons)
qed (simp add: put_bytes_def)

lemma pt_poke:
  assumes "pt_tree m pt" "\<And>x. PGROUNDDOWN x \<in> pt_pages m pt \<Longrightarrow> m' x = m x"
  shows "pte_of m' pt va = pte_of m pt va" "pt_pages m' pt = pt_pages m pt" "pt_tree m' pt"
proof -
  have "ent m' p i = ent m p i" if "p \<in> pt_pages m pt" "i < 512" for p i
    unfolding ent_def
  proof (rule load64_eqI)
    fix j :: nat assume "j < 8"
    then have "unat (of_nat (8 * i + j) :: u64) < 4096" using that(2) by (simp only: unat_of_nat) simp
    then have "unat (p + 8 * of_nat i + of_nat j - p) < 4096" by (simp add: algebra_simps)
    moreover have "aligned 12 p" using assms(1) that(1) by (auto simp: pt_tree_def)
    ultimately have "PGROUNDDOWN (p + 8 * of_nat i + of_nat j) = p" using page_of_offset by blast
    then show "m' (p + 8 * of_nat i + of_nat j) = m (p + 8 * of_nat i + of_nat j)" using assms(2) that(1) by simp
  qed
  note pt = pt_frame [OF this]
  show "pt_pages m' pt = pt_pages m pt" by (rule pt(2))
  show "pte_of m' pt va = pte_of m pt va" unfolding pte_of_def by (rule pt(4)) simp_all
  show "pt_tree m' pt" using pt(3) assms(1) by simp
qed

lemma vm_poke:
  assumes "vm_ok s pt F" "\<And>x. PGROUNDDOWN x \<in> F \<union> pt_pages (phys s) pt \<Longrightarrow> m x = phys s x"
  shows "vm_ok (s\<lparr>phys := m\<rparr>) pt F" "pte_of m pt va = pte_of (phys s) pt va"
proof -
  have "pt_tree (phys s) pt" using assms(1) by (simp add: vm_ok_def)
  note pt = pt_poke [OF this, of m]
  show "pte_of m pt va = pte_of (phys s) pt va" by (rule pt(1)) (simp add: assms(2))
  have "kmem_free (s\<lparr>phys := m\<rparr>) F"
    by (rule kmem_free_frame [of s]) (use assms in \<open>auto simp: vm_ok_def\<close>)
  then show "vm_ok (s\<lparr>phys := m\<rparr>) pt F" using assms pt(2, 3)
    by (simp add: vm_ok_def kmem_pool_def page_ok_def)
qed

lemma uaddr_page:
  assumes "user_writable s pt F va"
  shows "PGROUNDDOWN (uaddr s pt va) = pa_of s pt va" "PGROUNDDOWN (uaddr s pt va) \<notin> F \<union> pt_pages (phys s) pt"
proof -
  have al: "aligned 12 (pa_of s pt va)" using assms kmem_pool_page by (auto simp: user_writable_def)
  have "unat (uaddr s pt va - pa_of s pt va) < 4096" by (simp add: uaddr_def page_offset)
  then show "PGROUNDDOWN (uaddr s pt va) = pa_of s pt va" using page_of_offset [OF al] by blast
  then show "PGROUNDDOWN (uaddr s pt va) \<notin> F \<union> pt_pages (phys s) pt" using assms by (auto simp: user_writable_def)
qed

lemma ublit_frame:
  assumes "\<And>i. i < length bs \<Longrightarrow> user_writable s pt F (va + of_nat i)" "PGROUNDDOWN x \<in> F \<union> pt_pages (phys s) pt"
  shows "ublit s pt m va bs x = m x"
  by (rule ublit_other) (use uaddr_page(2) [OF assms(1)] assms(2) in blast)

lemma uaddr_chunk:
  assumes "i < page_chunk va len" "unat va + len \<le> 2 ^ 64"
  shows "uaddr s pt (va + of_nat i) = pa_of s pt va + (va - PGROUNDDOWN va) + of_nat i"
  using chunk_same_page [OF assms]
  by (simp add: uaddr_def pa_of_def pte_of_page [symmetric, of _ _ "va + of_nat i"] pte_of_page)

lemma copyout_ok:
  assumes "vm_ok s pt F" "unat va + length bs \<le> 2 ^ 64" "\<And>i. i < length bs \<Longrightarrow> user_writable s pt F (va + of_nat i)"
    and "\<And>x. PGROUNDDOWN x \<in> F \<union> pt_pages (phys s) pt \<Longrightarrow> m x = phys s x"
  shows "copyout pt va bs (s\<lparr>phys := m\<rparr>) = Ret 0 (s\<lparr>phys := ublit s pt m va bs\<rparr>)"
  using assms(2-4)
proof (induction "length bs" arbitrary: bs va m rule: less_induct)
  case less
  show ?case
  proof (cases "bs = []")
    case True
    then show ?thesis by (subst copyout.simps) (simp add: kmonad)
  next
    case False
    define n where "n = page_chunk va (length bs)"
    let ?u = "s\<lparr>phys := m\<rparr>"
    let ?m = "put_bytes m (pa_of s pt va + (va - PGROUNDDOWN va)) (take n bs)"
    have n: "0 < n" "n \<le> length bs" "n \<le> 4096"
      using False page_chunk_pos [of "length bs" va] by (auto simp: n_def page_chunk_eq)
    note pk = vm_poke [OF assms(1) less.prems(3)]
    have w: "user_writable s pt F va" using less.prems(2) [of 0] False by simp
    have wr: "walkaddr pt (PGROUNDDOWN va) ?u = Ret (pa_of s pt va) ?u"
      using walkaddr_readable [OF pk(1), of va] w pk(2)
      by (simp add: user_writable_def user_readable_def mapped_def pa_of_def)
    have lt: "PGROUNDDOWN va < MAXVA"
      using w PGROUNDDOWN_le [of va] by (auto simp: user_writable_def user_readable_def intro: le_less_trans)
    have "pte_of (phys ?u) pt (PGROUNDDOWN va) \<noteq> 0" "pte_of (phys ?u) pt (PGROUNDDOWN va) = pte_of (phys s) pt va"
      using w pk(2) by (auto simp: user_writable_def pte_of_page)
    with walk_read [OF pk(1) lt] obtain a where a: "walk pt (PGROUNDDOWN va) False ?u = Ret a ?u"
      "pte_get a ?u = Ret (pte_of (phys s) pt va) ?u" by metis
    have blit: "ublit s pt m va (take n bs) = ?m"
      by (rule ublit_put) (use n uaddr_chunk [of _ va "length bs" s pt] less.prems(1) in \<open>auto simp: n_def\<close>)
    have m': "?m x = phys s x" if "PGROUNDDOWN x \<in> F \<union> pt_pages (phys s) pt" for x
      using ublit_frame [of "take n bs" s pt F va x m] less.prems(2,3) that n by (simp add: blit)
    have rest: "copyout pt (PGROUNDDOWN va + PGSIZE) (drop n bs) (s\<lparr>phys := ?m\<rparr>) = Ret 0 (s\<lparr>phys := ublit s pt m va bs\<rparr>)"
    proof (cases "n = length bs")
      case True
      then show ?thesis using blit by (subst copyout.simps) (simp add: kmonad)
    next
      case False
      then have nx: "PGROUNDDOWN va + PGSIZE = va + of_nat n"
        using chunk_next_page [of va "length bs"] less.prems(1) n by (simp add: n_def)
      have u: "unat (va + of_nat n) = unat va + n"
        using less.prems(1) n False by (intro unat_offset [of _ "length bs"]) auto
      have "user_writable s pt F (va + of_nat n + of_nat i)" if "i < length (drop n bs)" for i
        using less.prems(2) [of "n + i"] that by (simp add: ac_simps)
      then have "copyout pt (va + of_nat n) (drop n bs) (s\<lparr>phys := ?m\<rparr>) =
          Ret 0 (s\<lparr>phys := ublit s pt ?m (va + of_nat n) (drop n bs)\<rparr>)"
        using n u less.prems(1) m' by (intro less.hyps) auto
      moreover have "ublit s pt m va bs = ublit s pt ?m (va + of_nat n) (drop n bs)"
        using ublit_append [of s pt m va "take n bs" "drop n bs"] n by (simp add: blit)
      ultimately show ?thesis by (simp add: nx)
    qed
    have g: "\<not> MAXVA \<le> PGROUNDDOWN va" "pa_of s pt va \<noteq> 0" "pte_of (phys s) pt va AND PTE_W \<noteq> 0"
      using lt w by (auto simp: user_writable_def user_readable_def)
    show ?thesis using False wr a rest g
      by (subst copyout.simps) (simp add: kmonad Let_def n_def [symmetric])
  qed
qed

lemma copyout_copyin_same:
  assumes "vm_ok s pt F" "unat va + length bs \<le> 2 ^ 64" "\<And>i. i < length bs \<Longrightarrow> user_writable s pt F (va + of_nat i)"
    and "inj_on (\<lambda>i. uaddr s pt (va + of_nat i)) {..<length bs}"
  defines "t \<equiv> s\<lparr>phys := ublit s pt (phys s) va bs\<rparr>"
  shows "copyout pt va bs s = Ret 0 t" "vm_ok t pt F" "copyin pt va (length bs) t = Ret (0, bs) t"
proof -
  show "copyout pt va bs s = Ret 0 t" using copyout_ok [OF assms(1-3), of "phys s"] by (simp add: t_def)
  have pt': "phys t = ublit s pt (phys s) va bs" by (simp add: t_def)
  show ok: "vm_ok t pt F" unfolding t_def by (rule vm_poke [OF assms(1)]) (use ublit_frame [OF assms(3)] in auto)
  have pte: "pte_of (phys t) pt vb = pte_of (phys s) pt vb" for vb unfolding t_def
    using vm_poke(2) [OF assms(1), of "ublit s pt (phys s) va bs"] ublit_frame [OF assms(3)] by auto
  then have u: "uaddr t pt vb = uaddr s pt vb" for vb by (simp add: uaddr_def pa_of_def)
  have "user_readable t pt (va + of_nat i)" if "i < length bs" for i
    using assms(3) [OF that] pte by (simp add: user_writable_def user_readable_def mapped_def pa_of_def)
  from copyin_ok [OF ok assms(2) this]
  have "copyin pt va (length bs) t = Ret (0, map (\<lambda>i. phys t (uaddr t pt (va + of_nat i))) [0..<length bs]) t" .
  moreover have "map (\<lambda>i. phys t (uaddr t pt (va + of_nat i))) [0..<length bs] = bs"
    by (rule nth_equalityI) (simp_all add: u ublit_at [OF assms(4)] pt')
  ultimately show "copyin pt va (length bs) t = Ret (0, bs) t" by simp
qed

text \<open>C7: bytes the kernel copies to a writable user buffer with \<^verbatim>\<open>copyout\<close> are the bytes \<^verbatim>\<open>copyin\<close> reads back
  from it, across page boundaries and whatever the physical pages behind it are, as long as no
  physical byte backs two addresses of the buffer; nothing outside the buffer is written, the page
  table and the allocator are left well-formed.\<close>

theorem copyout_copyin:
  assumes "vm_ok s pt F" "unat va + length bs \<le> 2 ^ 64" "\<And>i. i < length bs \<Longrightarrow> user_writable s pt F (va + of_nat i)"
    and "inj_on (\<lambda>i. uaddr s pt (va + of_nat i)) {..<length bs}"
  shows "\<exists>t. copyout pt va bs s = Ret 0 t \<and> copyin pt va (length bs) t = Ret (0, bs) t \<and> vm_ok t pt F \<and>
    (\<exists>m. t = s\<lparr>phys := m\<rparr> \<and> (\<forall>x. (\<forall>i<length bs. x \<noteq> uaddr s pt (va + of_nat i)) \<longrightarrow> m x = phys s x))"
  using copyout_copyin_same [OF assms] ublit_other [of bs _ s pt va "phys s"] by blast

text \<open>A machine after \<^verbatim>\<open>kinit\<close>, with a page table that maps one page at 4096 for the user to write.\<close>

lemma writable_from:
  assumes "freelist z = 0" "held z = {}" "kend z = 0x80100000"
  shows "\<exists>t pt F. vm_eq z t \<and> vm_ok t pt F \<and> (\<forall>va. PGROUNDDOWN va = 4096 \<longrightarrow> user_writable t pt F va)"
proof -
  obtain s F where s: "kmem_free s F" "6 < card F" "vm_eq z s" using booted_from [OF assms] by blast
  have fin: "finite F" using s(1) by (rule kmem_free_finite)
  have "F \<noteq> {}" using s(2) by auto
  with uvmcreate_ok [OF s(1)] obtain pt a where a: "pt \<in> F" "vm_ok a pt (F - {pt})" "pt_pages (phys a) pt = {pt}"
    "\<forall>va. pte_of (phys a) pt va = 0" "vm_eq s a" by blast
  let ?F = "F - {pt}"
  have c: "5 < card ?F" using a(1) s(2) fin by simp
  then have "?F \<noteq> {}" by (metis card.empty not_less_zero)
  moreover have "kmem_free a ?F" using a(2) by (simp add: vm_ok_def)
  ultimately obtain q b where q: "q \<in> ?F" "kalloc a = Ret q b" "vm_eq a b" "phys b = memset (phys a) q 5 4096" "kmem_free b (?F - {q})"
    using kalloc_zero [of a ?F] by blast
  have qp: "q \<in> kmem_pool a" "aligned 12 q" using free_in_pool [of a ?F] a(2) q(1) kmem_pool_page by (auto simp: vm_ok_def)
  have same: "phys b x = phys a x" if "PGROUNDDOWN x \<in> pt_pages (phys a) pt" for x
    using that q(1) page_of_offset [OF qp(2), of x] by (auto simp: q(4) memset_apply a(3))
  have tree: "pt_tree (phys a) pt" using a(2) by (simp add: vm_ok_def)
  note pb = pt_poke [OF tree same]
  have okb: "vm_ok b pt (?F - {q})"
    using q(5) tree pb a(2) vm_eq_pool [OF q(3)] by (auto simp: vm_ok_def)
  have "\<not> bit (pte_of (phys b) pt 4096) 0" using pb(1) a(4) by simp
  from mappages_one [OF okb _ _ this, of q 22] obtain r t G where
    t: "vm_step pt b (?F - {q}) t G" "card (?F - {q} - G) \<le> 2"
    "r = -1 \<and> G = {} \<and> same_ptes pt b t \<or>
     r = 0 \<and> (\<forall>vb. pte_of (phys t) pt vb = (if vpn vb = vpn 4096 then PA2PTE q OR 22 OR PTE_V else pte_of (phys b) pt vb))"
    by (auto simp: aligned_def take_bit_eq_mod)
  have "card (?F - {q}) > 4" using q(1) c fin by simp
  then have "pte_of (phys t) pt 4096 = PA2PTE q OR 23" using t(2, 3) by (auto simp: or.assoc)
  then have pte: "pte_of (phys t) pt vb = PA2PTE q OR 23" if "PGROUNDDOWN vb = 4096" for vb
    using pte_of_page [of "phys t" pt vb] that by simp
  have okt: "vm_ok t pt G" "G \<subseteq> ?F - {q}" "vm_eq b t" "pt_pages (phys t) pt = {pt} \<union> (?F - {q} - G)"
    using t(1) pb(2) a(3) by (auto simp: vm_step_def)
  have "q \<in> kmem_pool t" using qp(1) vm_eq_pool [OF q(3)] vm_eq_pool [OF okt(3)] by simp
  moreover have "PTE2PA (PA2PTE q OR 23) = q" using kmem_pool_page [OF qp(1)] by (intro PTE_roundtrip) auto
  moreover have "bit (PA2PTE q OR 23) 0" "bit ((PA2PTE q OR 23) AND PTE_U) 4" "bit ((PA2PTE q OR 23) AND PTE_W) 2"
    by (simp_all add: bit_simps)
  then have "bit (PA2PTE q OR 23) 0" "(PA2PTE q OR 23) AND PTE_U \<noteq> 0" "(PA2PTE q OR 23) AND PTE_W \<noteq> 0"
    by (auto simp del: bit_and_iff bit_or_iff)
  moreover have "va < MAXVA" if "PGROUNDDOWN va = 4096" for va
    using page_of_offset [of 4096 va] that unat_PGROUNDDOWN [of va] by (simp add: word_less_nat_alt)
  ultimately have "user_writable t pt G va" if "PGROUNDDOWN va = 4096" for va
    using that pte okt(2, 4) q(1) kmem_pool_page [OF qp(1)]
    by (auto simp: user_writable_def user_readable_def mapped_def pa_of_def)
  moreover have "vm_eq z t" using s(3) a(5) q(3) okt(3) vmf.trans by blast
  ultimately show ?thesis using okt(1) by blast
qed

theorem copyout_copyin_witness:
  "\<exists>(s :: proc_st) pt t. copyout pt 4099 [104, 105, 0] s = Ret 0 t \<and> copyin pt 4099 3 t = Ret (0, [104, 105, 0]) t"
proof -
  obtain s :: proc_st and pt F where s: "vm_ok s pt F" "\<forall>va. PGROUNDDOWN va = 4096 \<longrightarrow> user_writable s pt F va"
    using writable_from [of "table_of (\<lambda>_. idle_proc)"] by (auto simp: table_of_def)
  let ?bs = "[104, 105, 0 :: u8]"
  have v: "i = 0 \<or> i = 1 \<or> i = 2" if "i < length ?bs" for i using that by auto
  have w: "user_writable s pt F (4099 + of_nat i)" if "i < length ?bs" for i
    using v [OF that] s(2) by (elim disjE) (simp_all add: PGROUNDDOWN_def)
  have "pte_of m pt 4099 = pte_of m pt 4096" "pte_of m pt 4100 = pte_of m pt 4096" "pte_of m pt 4101 = pte_of m pt 4096" for m
    by (subst pte_of_page [symmetric], simp add: PGROUNDDOWN_def)+
  then have "inj_on (\<lambda>i. uaddr s pt (4099 + of_nat i)) {..<length ?bs}"
    by (auto simp: inj_on_def uaddr_def pa_of_def PGROUNDDOWN_def dest!: v [simplified])
  with copyout_copyin [OF s(1), of 4099 ?bs] w show ?thesis by (auto simp: numeral_3_eq_3)
qed

end
