(* ===== verification/Ring_Buffer.thy ===== *)
theory Ring_Buffer
  imports Prelude
begin

text \<open>
  Ring buffers indexed by free-running 32-bit counters, as the pipe of \<^verbatim>\<open>src/kernel/pipe.c\<close> and the input
  buffer of \<^verbatim>\<open>src/kernel/console.c\<close> have them.  The contents are the bytes from the read to the write
  index; the laws below hold across the wrap-around of the counters because the size of the buffer
  divides \<open>2 ^ 32\<close>.
\<close>

definition ring_list :: "nat \<Rightarrow> (nat \<Rightarrow> u8) \<Rightarrow> u32 \<Rightarrow> u32 \<Rightarrow> u8 list" where
  "ring_list N d r w = map (\<lambda>i. d (unat (r + of_nat i) mod N)) [0..<unat (w - r)]"

lemma length_ring_list [simp]: "length (ring_list N d r w) = unat (w - r)"
  by (simp add: ring_list_def)

lemma ring_list_empty: "ring_list N d r w = [] \<longleftrightarrow> r = w"
  by (auto simp: ring_list_def unsigned_eq_0_iff)

lemma unat_step: "unat (a - b) < 2 ^ 32 - 1 \<Longrightarrow> unat (a + 1 - b) = Suc (unat (a - b))" for a b :: u32
proof -
  assume "unat (a - b) < 2 ^ 32 - 1"
  then have "unat (a - b + 1) = Suc (unat (a - b))" by (simp add: unat_word_ariths)
  then show ?thesis by (simp add: algebra_simps)
qed

lemma unat_back: "a \<noteq> b \<Longrightarrow> unat (a - 1 - b) = unat (a - b) - 1" for a b :: u32
proof -
  assume "a \<noteq> b"
  then have "a - b \<noteq> 0" by simp
  then have "unat (a - b - 1) = unat (a - b) - 1" by (rule unat_minus_one)
  then show ?thesis by (simp add: algebra_simps)
qed

lemma ring_list_back:
  assumes "r \<noteq> w"
  shows "ring_list N d r (w - 1) = butlast (ring_list N d r w)"
  using assms by (cases "unat (w - r)") (simp_all add: ring_list_def unat_back)

lemma ring_list_take:
  assumes "r \<noteq> w"
  shows "ring_list N d r w = d (unat r mod N) # ring_list N d (r + 1) w"
proof -
  have "w - r \<noteq> 0" using assms by simp
  then have "unat (w - r) = Suc (unat (w - r - 1))"
    using unat_minus_one [of "w - r"] by (cases "unat (w - r)") (simp_all add: unsigned_eq_0_iff)
  then have "unat (w - r) = Suc (unat (w - (r + 1)))" by (simp add: algebra_simps)
  then show ?thesis by (simp add: ring_list_def upt_conv_Cons map_Suc_upt [symmetric] comp_def algebra_simps del: upt_Suc)
qed

lemma ring_list_append:
  assumes "unat (w - r) + unat (e - w) < 2 ^ 32"
  shows "ring_list N d r e = ring_list N d r w @ ring_list N d w e"
proof -
  have sum: "w - r + (e - w) = e - r" by simp
  have ix: "r + of_nat (i + unat (w - r)) = w + of_nat i" for i by (simp add: of_nat_add)
  have "unat (e - r) = unat (w - r) + unat (e - w)"
    using iffD1 [OF unat_add_lem, of "w - r" "e - w"] assms by (simp only: sum) simp
  moreover have "[0..<unat (w - r) + unat (e - w)] = [0..<unat (w - r)] @ map (\<lambda>i. i + unat (w - r)) [0..<unat (e - w)]"
    using upt_add_eq_append [of 0 "unat (w - r)" "unat (e - w)"] by (simp add: map_add_upt add.commute)
  moreover have "map (\<lambda>i. d (unat (r + of_nat i) mod N)) (map (\<lambda>i. i + unat (w - r)) [0..<unat (e - w)]) =
      map (\<lambda>i. d (unat (w + of_nat i) mod N)) [0..<unat (e - w)]"
    by (simp only: map_map comp_def ix)
  ultimately show ?thesis unfolding ring_list_def by (simp only: map_append)
qed

locale ring_queue =
  fixes N :: nat
    and dat :: "'q \<Rightarrow> nat \<Rightarrow> u8"
    and rd :: "'q \<Rightarrow> u32"
    and wr :: "'q \<Rightarrow> u32"
    and put :: "u8 \<Rightarrow> 'q \<Rightarrow> 'q"
    and get :: "'q \<Rightarrow> 'q"
  assumes size_pos: "0 < N"
    and size_dvd: "N dvd 2 ^ 32"
    and size_small: "N < 2 ^ 32 - 1"
    and put_dat: "dat (put c q) = (dat q)(unat (wr q) mod N := c)"
    and put_rd: "rd (put c q) = rd q"
    and put_wr: "wr (put c q) = wr q + 1"
    and get_dat: "dat (get q) = dat q"
    and get_rd: "rd (get q) = rd q + 1"
    and get_wr: "wr (get q) = wr q"
begin

definition queue :: "'q \<Rightarrow> u8 list" where
  "queue q = ring_list N (dat q) (rd q) (wr q)"

definition ok :: "'q \<Rightarrow> bool" where
  "ok q \<longleftrightarrow> unat (wr q - rd q) \<le> N"

lemma queue_length: "length (queue q) = unat (wr q - rd q)"
  by (simp add: queue_def)

lemma index_mod: "unat (r + of_nat i) mod N = (unat r + i) mod N" for r :: u32
  using size_dvd by (simp add: unat_word_ariths unat_of_nat mod_mod_cancel mod_simps)

lemma index_inj:
  fixes r :: u32
  assumes "i < j" "j < N"
  shows "unat (r + of_nat i) mod N \<noteq> unat (r + of_nat j) mod N"
proof
  assume "unat (r + of_nat i) mod N = unat (r + of_nat j) mod N"
  then have "(unat r + j) mod N = (unat r + i) mod N" by (simp add: index_mod)
  then have "N dvd j - i" using assms(1) by (simp add: mod_eq_dvd_iff_nat)
  then show False using assms by (auto dest: dvd_imp_le)
qed

lemma ring_put:
  assumes "unat (w - r) < N" "w' = w + 1"
  shows "ring_list N (d(unat w mod N := c)) r w' = ring_list N d r w @ [c]"
proof -
  have "unat (w + 1 - r) = Suc (unat (w - r))" using assms(1) size_small by (intro unat_step) simp
  moreover have "r + of_nat (unat (w - r)) = w" by simp
  moreover have "unat (r + of_nat i) mod N \<noteq> unat w mod N" if "i < unat (w - r)" for i
    using index_inj [of i "unat (w - r)" r] that assms(1) by simp
  ultimately show ?thesis by (simp add: ring_list_def assms(2))
qed

lemma queue_put:
  assumes "length (queue q) < N"
  shows "queue (put c q) = queue q @ [c]" "ok (put c q)"
proof -
  show q: "queue (put c q) = queue q @ [c]" using assms unfolding queue_def
    by (simp add: put_dat put_rd put_wr ring_put)
  show "ok (put c q)" using arg_cong [OF q, of length] assms by (simp add: ok_def queue_length)
qed

lemma queue_get:
  assumes "rd q \<noteq> wr q"
  shows "queue q = dat q (unat (rd q) mod N) # queue (get q)"
  using ring_list_take [OF assms] by (simp add: queue_def get_dat get_rd get_wr)

lemma ok_get: "rd q \<noteq> wr q \<Longrightarrow> ok q \<Longrightarrow> ok (get q)"
  using arg_cong [OF queue_get [of q], of length] by (simp add: ok_def queue_length)

lemma queue_empty: "queue q = [] \<longleftrightarrow> rd q = wr q"
  by (simp add: queue_def ring_list_empty)

lemma queue_full: "wr q = rd q + of_nat N \<longleftrightarrow> length (queue q) = N"
proof -
  have "wr q = rd q + of_nat N \<longleftrightarrow> wr q - rd q = of_nat N" by (auto simp: algebra_simps)
  also have "\<dots> \<longleftrightarrow> unat (wr q - rd q) = N"
    using size_small by (simp add: word_unat_eq_iff unat_of_nat)
  finally show ?thesis by (simp add: queue_length)
qed

end

end
