(* ===== verification/Pipe.thy ===== *)
theory Pipe
  imports Copy Ring_Buffer File
begin

text \<open>
  Pipes (\<^verbatim>\<open>src/kernel/pipe.c\<close>), over the definitions of the theory File: the ring buffer of a pipe is a queue
  of bytes, \<^verbatim>\<open>pipewrite\<close> appends bytes of the writer's memory to it and \<^verbatim>\<open>piperead\<close> moves bytes from its
  front to the reader's memory.
\<close>

section \<open>The buffer of a pipe as a queue\<close>

interpretation pq: ring_queue PIPESIZE pi_data pi_nread pi_nwrite pipe_put pipe_take
  by unfold_locales (simp_all add: pipe_put_def pipe_take_def)

definition pipe_queue :: "pipe \<Rightarrow> u8 list" where
  "pipe_queue P = ring_list PIPESIZE (pi_data P) (pi_nread P) (pi_nwrite P)"

definition pipe_ok :: "pipe \<Rightarrow> bool" where
  "pipe_ok P \<longleftrightarrow> length (pipe_queue P) \<le> PIPESIZE"

lemma pipe_queue_eq: "pipe_queue = pq.queue"
  by (rule ext) (simp add: pipe_queue_def pq.queue_def)

lemma pipe_put_queue: "length (pipe_queue P) < PIPESIZE \<Longrightarrow> pipe_queue (pipe_put c P) = pipe_queue P @ [c]"
  unfolding pipe_queue_eq by (rule pq.queue_put)

lemma pipe_take_queue: "pipe_queue P \<noteq> [] \<Longrightarrow> pipe_queue P = pipe_peek P # pipe_queue (pipe_take P)"
  unfolding pipe_queue_eq pipe_peek_def by (rule pq.queue_get) (simp add: pq.queue_empty)

lemma pipe_full_queue: "pipe_full P \<longleftrightarrow> length (pipe_queue P) = PIPESIZE"
  unfolding pipe_queue_eq pipe_full_def using pq.queue_full [of P] by simp

lemma pipe_empty_queue: "pipe_empty P \<longleftrightarrow> pipe_queue P = []"
  unfolding pipe_queue_eq pipe_empty_def by (simp add: pq.queue_empty)

lemma pipe_put_open [simp]:
  "pi_readopen (pipe_put c P) = pi_readopen P" "pi_writeopen (pipe_put c P) = pi_writeopen P"
  "pi_readopen (pipe_take P) = pi_readopen P" "pi_writeopen (pipe_take P) = pi_writeopen P"
  by (simp_all add: pipe_put_def pipe_take_def)

lemma pipe_puts_queue:
  "length (pipe_queue P) + length bs \<le> PIPESIZE \<Longrightarrow> pipe_queue (fold pipe_put bs P) = pipe_queue P @ bs"
  by (induction bs arbitrary: P) (simp_all add: pipe_put_queue)

lemma pipe_puts_open [simp]:
  "pi_readopen (fold pipe_put bs P) = pi_readopen P" "pi_writeopen (fold pipe_put bs P) = pi_writeopen P"
  by (induction bs arbitrary: P) simp_all

section \<open>Writing\<close>

text \<open>The bytes at user addresses \<open>va\<close>, \<open>va + 1\<close>, \<dots> and the state with some of them in the pipe.\<close>

definition user_bytes :: "'a proc_st_scheme \<Rightarrow> u64 \<Rightarrow> u64 \<Rightarrow> nat \<Rightarrow> u8 list" where
  "user_bytes s pt va n = map (\<lambda>i. phys s (uaddr s pt (va + of_nat i))) [0..<n]"

definition pipe_filled :: "u64 \<Rightarrow> u8 list \<Rightarrow> 'a file_st_scheme \<Rightarrow> 'a file_st_scheme" where
  "pipe_filled p bs s = s\<lparr>pipes := (pipes s)(p := fold pipe_put bs (pipes s p))\<rparr>"

lemma user_bytes_Suc: "user_bytes s pt va (Suc n) = phys s (uaddr s pt va) # user_bytes s pt (va + 1) n"
  by (simp add: user_bytes_def upt_conv_Cons map_Suc_upt [symmetric] comp_def ac_simps del: upt_Suc)

lemma length_user_bytes [simp]: "length (user_bytes s pt va n) = n"
  by (simp add: user_bytes_def)

lemma take_user_bytes: "take k (user_bytes s pt va n) = user_bytes s pt va (min k n)"
  by (cases "k \<le> n") (simp_all add: user_bytes_def take_map take_upt min_def)

lemma uaddr_pipes [simp]:
  "uaddr (s\<lparr>pipes := x\<rparr>) pt va = uaddr s pt va" "user_readable (s\<lparr>pipes := x\<rparr>) pt va = user_readable s pt va"
  "user_bytes (s\<lparr>pipes := x\<rparr>) pt va n = user_bytes s pt va n"
  by (simp_all add: uaddr_def pa_of_def user_readable_def mapped_def user_bytes_def)

lemma vm_ok_pipes: "vm_ok s pt F \<Longrightarrow> vm_ok (s\<lparr>pipes := x\<rparr>) pt F"
  by (rule vm_ok_cong [of s]) (auto simp: vm_ok_def kmem_free_unlocked)

lemma unat_bound: "unat (x :: u64) + 1 \<le> 2 ^ 64"
proof -
  have "unat x < 2 ^ LENGTH(64)" by (rule unsigned_less)
  then show ?thesis by simp
qed

lemma pipewrite_loop_run:
  assumes "vm_ok s (p_pagetable (procs s pr)) F" "\<And>j. j < n \<Longrightarrow> user_readable s (p_pagetable (procs s pr)) (addr + of_nat (i + j))"
    and "held s = {Lpipe p}" "p_killed (procs s pr) = 0" "pi_readopen (pipes s p)" "pipe_ok (pipes s p)"
    and "room = PIPESIZE - length (pipe_queue (pipes s p))"
  shows "pipewrite_loop p pr addr i n s =
    kthen (wakeup (Some (Chan_nread p)))
      (if n \<le> room then kthen (release (Lpipe p)) (kret (int (i + n))) else sleep (Chan_nwrite p) (Lpipe p))
      (pipe_filled p (take room (user_bytes s (p_pagetable (procs s pr)) (addr + of_nat i) n)) s)"
  using assms
proof (induction n arbitrary: i s room)
  case 0
  then show ?case by (simp add: user_bytes_def pipe_filled_def)
next
  case (Suc n)
  let ?pt = "p_pagetable (procs s pr)" and ?va = "addr + of_nat i"
  show ?case
  proof (cases "room = 0")
    case True
    then have "pipe_full (pipes s p)" using Suc.prems(6, 7) by (simp add: pipe_full_queue pipe_ok_def)
    then show ?thesis using True Suc.prems(3-5) by (simp add: kmonad kthen_def pipe_filled_def)
  next
    case False
    let ?b = "phys s (uaddr s ?pt ?va)"
    let ?t = "s\<lparr>pipes := (pipes s)(p := pipe_put ?b (pipes s p))\<rparr>"
    have nf: "\<not> pipe_full (pipes s p)" "length (pipe_queue (pipes s p)) < PIPESIZE"
      using False Suc.prems(7) by (auto simp: pipe_full_queue)
    have rd: "user_readable s ?pt ?va" using Suc.prems(2) [of 0] by simp
    have "unat ?va + 1 \<le> 2 ^ 64" using unat_bound [of ?va] by simp
    from copyin_ok [OF Suc.prems(1) this] rd have ci: "copyin ?pt ?va (Suc 0) s = Ret (0, [?b]) s" by simp
    have "pipewrite_loop p pr addr i (Suc n) s = pipewrite_loop p pr addr (Suc i) n ?t"
      using Suc.prems(3-5) nf(1) ci by (simp add: kmonad)
    also have "\<dots> = kthen (wakeup (Some (Chan_nread p)))
        (if n \<le> room - 1 then kthen (release (Lpipe p)) (kret (int (Suc i + n))) else sleep (Chan_nwrite p) (Lpipe p))
        (pipe_filled p (take (room - 1) (user_bytes ?t (p_pagetable (procs ?t pr)) (addr + of_nat (Suc i)) n)) ?t)"
    proof (rule Suc.IH)
      show "user_readable ?t (p_pagetable (procs ?t pr)) (addr + of_nat (Suc i + j))" if "j < n" for j
        using Suc.prems(2) [of "Suc j"] that by simp
      show "pipe_ok (pipes ?t p)" "room - 1 = PIPESIZE - length (pipe_queue (pipes ?t p))"
        using nf(2) Suc.prems(7) by (simp_all add: pipe_ok_def pipe_put_queue)
    qed (use Suc.prems vm_ok_pipes in simp_all)
    also have "pipe_filled p (take (room - 1) (user_bytes ?t (p_pagetable (procs ?t pr)) (addr + of_nat (Suc i)) n)) ?t =
        pipe_filled p (take room (user_bytes s ?pt ?va (Suc n))) s"
      using False by (cases room) (simp_all add: pipe_filled_def user_bytes_Suc ac_simps)
    also have "n \<le> room - 1 \<longleftrightarrow> Suc n \<le> room" using False by auto
    finally show ?thesis by simp
  qed
qed

definition pipe_room :: "pipe \<Rightarrow> nat" where
  "pipe_room P = PIPESIZE - length (pipe_queue P)"

lemma pipe_held: "s\<lparr>held := h, pipes := x\<rparr> = s\<lparr>pipes := x, held := h\<rparr>"
  by (cases s) simp

lemma user_held [simp]:
  "uaddr (s\<lparr>held := h\<rparr>) pt va = uaddr s pt va" "user_readable (s\<lparr>held := h\<rparr>) pt va = user_readable s pt va"
  "user_bytes (s\<lparr>held := h\<rparr>) pt va n = user_bytes s pt va n"
  "user_writable (s\<lparr>held := h\<rparr>) pt F va = user_writable s pt F va"
  by (simp_all add: uaddr_def pa_of_def user_readable_def mapped_def user_bytes_def user_writable_def kmem_pool_def page_ok_def)

lemma vm_ok_held: "vm_ok s pt F \<Longrightarrow> Lkmem \<notin> h \<Longrightarrow> vm_ok (s\<lparr>held := h\<rparr>) pt F"
  by (rule vm_ok_cong [of s]) auto

lemma pipe_filled_held: "pipe_filled p bs (s\<lparr>held := h\<rparr>) = (pipe_filled p bs s)\<lparr>held := h\<rparr>"
  by (simp add: pipe_filled_def)

lemma asleep_held: "asleep p ch (s\<lparr>held := h\<rparr>) = asleep p ch s"
  by (simp add: asleep_def)

lemma pipewrite_run:
  assumes "cproc s = Some pr" "held s = {}" "p_killed (procs s pr) = 0" "pi_readopen (pipes s p)" "pipe_ok (pipes s p)"
    and "vm_ok s (p_pagetable (procs s pr)) F" "\<And>j. j < nat n \<Longrightarrow> user_readable s (p_pagetable (procs s pr)) (addr + of_nat j)"
    and "0 \<le> n"
  defines "t \<equiv> pipe_filled p (take (pipe_room (pipes s p)) (user_bytes s (p_pagetable (procs s pr)) addr (nat n))) s"
  shows "pipewrite p addr n s = (if nat n \<le> pipe_room (pipes s p) then Ret n (wake_all (Chan_nread p) t)
     else Sched (asleep pr (Chan_nwrite p) (wake_all (Chan_nread p) t)))"
proof -
  let ?s = "s\<lparr>held := {Lpipe p}\<rparr>" and ?room = "pipe_room (pipes s p)"
  have "vm_ok ?s (p_pagetable (procs ?s pr)) F" using vm_ok_held [OF assms(6)] by simp
  from pipewrite_loop_run [OF this, of "nat n" addr 0 p ?room] assms(3-5, 7)
  have loop: "pipewrite_loop p pr addr 0 (nat n) ?s = kthen (wakeup (Some (Chan_nread p)))
      (if nat n \<le> ?room then kthen (release (Lpipe p)) (kret (int (nat n))) else sleep (Chan_nwrite p) (Lpipe p))
      (t\<lparr>held := {Lpipe p}\<rparr>)"
    by (simp add: pipe_room_def t_def pipe_filled_held)
  have t: "held t = {}" "cproc t = Some pr" using assms(1, 2) by (simp_all add: t_def pipe_filled_def)
  have w: "wakeup (Some (Chan_nread p)) (t\<lparr>held := {Lpipe p}\<rparr>) = Ret () ((wake_all (Chan_nread p) t)\<lparr>held := {Lpipe p}\<rparr>)"
    unfolding wake_all_held [symmetric] by (rule wakeup_all) (simp add: no_plock_def)
  define W where "W = wake_all (Chan_nread p) t"
  have h: "W\<lparr>held := {}\<rparr> = W" "cproc W = Some pr" unfolding W_def by (rule held_same) (simp_all add: t)
  show ?thesis unfolding W_def [symmetric]
    using assms(1, 2, 8) h w [folded W_def] by (simp add: pipewrite_def kmonad loop sleep_asleep asleep_held)
qed

lemma pipe_filled_queue:
  assumes "pipe_ok (pipes s p)" "length bs \<le> pipe_room (pipes s p)"
  shows "pipe_queue (pipes (pipe_filled p bs s) p) = pipe_queue (pipes s p) @ bs" "pipe_ok (pipes (pipe_filled p bs s) p)"
  using assms by (simp_all add: pipe_filled_def pipe_puts_queue pipe_ok_def pipe_room_def)

section \<open>Reading\<close>

definition pipe_drained :: "u64 \<Rightarrow> nat \<Rightarrow> u64 \<Rightarrow> u64 \<Rightarrow> 'a file_st_scheme \<Rightarrow> 'a file_st_scheme" where
  "pipe_drained p k pt va s = s\<lparr>phys := ublit s pt (phys s) va (take k (pipe_queue (pipes s p))),
     pipes := (pipes s)(p := (pipe_take ^^ k) (pipes s p))\<rparr>"

lemma ublit_cong: "(\<And>va. uaddr t pt va = uaddr s pt va) \<Longrightarrow> ublit t pt m va bs = ublit s pt m va bs"
  by (induction bs arbitrary: m va) simp_all

lemma piperead_copy_run:
  assumes "vm_ok s (p_pagetable (procs s pr)) F"
    and "\<And>j. j < n \<Longrightarrow> user_writable s (p_pagetable (procs s pr)) F (addr + of_nat (i + j))"
  shows "piperead_copy p pr addr i n s =
    Ret (int (i + min n (length (pipe_queue (pipes s p)))))
      (pipe_drained p (min n (length (pipe_queue (pipes s p)))) (p_pagetable (procs s pr)) (addr + of_nat i) s)"
  using assms
proof (induction n arbitrary: i s)
  case 0
  then show ?case by (simp add: kmonad pipe_drained_def)
next
  case (Suc n)
  let ?pt = "p_pagetable (procs s pr)" and ?va = "addr + of_nat i" and ?P = "pipes s p"
  show ?case
  proof (cases "pipe_queue ?P = []")
    case True
    then show ?thesis by (simp add: kmonad pipe_empty_queue pipe_drained_def)
  next
    case False
    have q: "pipe_queue ?P = pipe_peek ?P # pipe_queue (pipe_take ?P)" by (rule pipe_take_queue [OF False])
    define m where "m = (phys s)(uaddr s ?pt ?va := pipe_peek ?P)"
    let ?t = "s\<lparr>phys := m, pipes := (pipes s)(p := pipe_take ?P)\<rparr>"
    have w: "user_writable s ?pt F ?va" using Suc.prems(2) [of 0] by simp
    have "unat ?va + length [pipe_peek ?P] \<le> 2 ^ 64" using unat_bound [of ?va] by simp
    from copyout_ok [OF Suc.prems(1) this, of "phys s"] w
    have co: "copyout ?pt ?va [pipe_peek ?P] s = Ret 0 (s\<lparr>phys := m\<rparr>)" by (simp add: m_def)
    have mm: "m x = phys s x" if "PGROUNDDOWN x \<in> F \<union> pt_pages (phys s) ?pt" for x
      using uaddr_page(2) [OF w] that by (auto simp: m_def)
    have pte: "pte_of m ?pt vb = pte_of (phys s) ?pt vb" for vb by (rule vm_poke(2) [OF Suc.prems(1) mm])
    have pg: "pt_pages m ?pt = pt_pages (phys s) ?pt"
      by (rule pt_poke(2)) (use Suc.prems(1) mm in \<open>auto simp: vm_ok_def\<close>)
    have ua: "uaddr ?t ?pt vb = uaddr s ?pt vb" for vb using pte [of vb] by (simp add: uaddr_def pa_of_def)
    have "piperead_copy p pr addr i (Suc n) s = piperead_copy p pr addr (Suc i) n ?t"
      using False co by (simp add: kmonad pipe_empty_queue)
    also have "\<dots> = Ret (int (Suc i + min n (length (pipe_queue (pipes ?t p)))))
      (pipe_drained p (min n (length (pipe_queue (pipes ?t p)))) (p_pagetable (procs ?t pr)) (addr + of_nat (Suc i)) ?t)"
    proof (rule Suc.IH)
      show "vm_ok ?t (p_pagetable (procs ?t pr)) F"
        using vm_ok_pipes [OF vm_poke(1) [OF Suc.prems(1) mm]] by simp
      show "user_writable ?t (p_pagetable (procs ?t pr)) F (addr + of_nat (Suc i + j))" if "j < n" for j
        using Suc.prems(2) [of "Suc j"] that
        by (simp add: user_writable_def user_readable_def mapped_def pa_of_def pte pg kmem_pool_def page_ok_def)
    qed
    also have "\<dots> = Ret (int (i + min (Suc n) (length (pipe_queue ?P))))
        (pipe_drained p (min (Suc n) (length (pipe_queue ?P))) ?pt ?va s)"
      unfolding pipe_drained_def using ublit_cong [of ?t ?pt s, OF ua]
      by (simp add: q funpow_swap1 ac_simps m_def)
    finally show ?thesis .
  qed
qed

lemma pipe_drained_queue:
  "k \<le> length (pipe_queue (pipes s p)) \<Longrightarrow> pipe_queue (pipes (pipe_drained p k pt va s) p) = drop k (pipe_queue (pipes s p))"
proof -
  have "k \<le> length (pipe_queue P) \<Longrightarrow> pipe_queue ((pipe_take ^^ k) P) = drop k (pipe_queue P)" for P
  proof (induction k arbitrary: P)
    case (Suc k)
    then have "pipe_queue P = pipe_peek P # pipe_queue (pipe_take P)" by (intro pipe_take_queue) auto
    then show ?case using Suc by (simp add: funpow_swap1)
  qed simp
  then show "k \<le> length (pipe_queue (pipes s p)) \<Longrightarrow> ?thesis" by (simp add: pipe_drained_def)
qed

lemma pipe_drained_held: "pipe_drained p k pt va (s\<lparr>held := h\<rparr>) = (pipe_drained p k pt va s)\<lparr>held := h\<rparr>"
  unfolding pipe_drained_def using ublit_cong [of "s\<lparr>held := h\<rparr>" pt s] by simp

lemma piperead_run:
  assumes "cproc s = Some pr" "held s = {}" "vm_ok s (p_pagetable (procs s pr)) F"
    and "\<And>j. j < nat n \<Longrightarrow> user_writable s (p_pagetable (procs s pr)) F (addr + of_nat j)"
    and k_def: "k = min (nat n) (length (pipe_queue (pipes s p)))"
  shows "piperead p addr n s =
    (if pipe_queue (pipes s p) = [] \<and> pi_writeopen (pipes s p) then
       if p_killed (procs s pr) \<noteq> 0 then Ret (-1) s else Sched (asleep pr (Chan_nread p) s)
     else Ret (int k) (wake_all (Chan_nwrite p) (pipe_drained p k (p_pagetable (procs s pr)) addr s)))"
proof (cases "pipe_queue (pipes s p) = [] \<and> pi_writeopen (pipes s p)")
  case True
  then show ?thesis using assms(1, 2)
    by (simp add: piperead_def piperead_loop_def kmonad pipe_empty_queue sleep_asleep asleep_held held_same)
next
  case False
  let ?pt = "p_pagetable (procs s pr)" and ?s = "s\<lparr>held := {Lpipe p}\<rparr>"
  define t where "t = pipe_drained p k ?pt addr s"
  have "vm_ok ?s (p_pagetable (procs ?s pr)) F" using vm_ok_held [OF assms(3)] by simp
  from piperead_copy_run [OF this, of "nat n" addr 0 p] assms(4)
  have loop: "piperead_copy p pr addr 0 (nat n) ?s = Ret (int k) (t\<lparr>held := {Lpipe p}\<rparr>)"
    by (simp add: k_def t_def pipe_drained_held)
  have w: "wakeup (Some (Chan_nwrite p)) (t\<lparr>held := {Lpipe p}\<rparr>) = Ret () ((wake_all (Chan_nwrite p) t)\<lparr>held := {Lpipe p}\<rparr>)"
    unfolding wake_all_held [symmetric] by (rule wakeup_all) (simp add: no_plock_def)
  define W where "W = wake_all (Chan_nwrite p) t"
  have h: "W\<lparr>held := {}\<rparr> = W" unfolding W_def by (rule held_same) (simp add: t_def pipe_drained_def assms(2))
  show ?thesis unfolding t_def [symmetric] W_def [symmetric]
    using assms(1, 2) False h w [folded W_def]
    by (cases "pipe_queue (pipes s p) = []") (simp_all add: piperead_def piperead_loop_def kmonad pipe_empty_queue loop)
qed

section \<open>Properties\<close>

text \<open>C12: \<^verbatim>\<open>pipewrite\<close> of a readable buffer, by a process that is not killed into a pipe whose read end is open, appends its bytes in order to what the pipe holds.  If they all
  fit it returns their number; otherwise it fills the pipe to its 512 bytes, with the rest still to
  be written, and sleeps with the lock released.  Either way the readers of the pipe are woken, and
  the counters may wrap around.\<close>

theorem pipewrite_spec:
  assumes "cproc s = Some pr" "held s = {}" "p_killed (procs s pr) = 0" "pi_readopen (pipes s p)" "pipe_ok (pipes s p)"
    and "vm_ok s (p_pagetable (procs s pr)) F" "\<And>j. j < nat n \<Longrightarrow> user_readable s (p_pagetable (procs s pr)) (addr + of_nat j)"
    and "0 \<le> n" and "bs = user_bytes s (p_pagetable (procs s pr)) addr (nat n)" "room = pipe_room (pipes s p)"
  shows "\<exists>t. pipewrite p addr n s = (if nat n \<le> room then Ret n (wake_all (Chan_nread p) t)
       else Sched (asleep pr (Chan_nwrite p) (wake_all (Chan_nread p) t))) \<and>
     (\<exists>P. t = s\<lparr>pipes := (pipes s)(p := P)\<rparr> \<and> pipe_ok P \<and> pipe_queue P = pipe_queue (pipes s p) @ take room bs)"
proof (intro exI conjI)
  let ?t = "pipe_filled p (take room bs) s"
  show "pipewrite p addr n s = (if nat n \<le> room then Ret n (wake_all (Chan_nread p) ?t)
       else Sched (asleep pr (Chan_nwrite p) (wake_all (Chan_nread p) ?t)))"
    using pipewrite_run [OF assms(1-8)] by (simp add: assms(9, 10))
  show "?t = s\<lparr>pipes := (pipes s)(p := fold pipe_put (take room bs) (pipes s p))\<rparr>" by (simp add: pipe_filled_def)
  show "pipe_ok (fold pipe_put (take room bs) (pipes s p))"
    "pipe_queue (fold pipe_put (take room bs) (pipes s p)) = pipe_queue (pipes s p) @ take room bs"
    using pipe_filled_queue [OF assms(5), of "take room bs"] by (simp_all add: pipe_filled_def assms(10))
qed

text \<open>C13: \<^verbatim>\<open>piperead\<close> into a writable buffer moves bytes from the front of the pipe, as many as there are and
  fit, to the buffer in order and wakes the writers; of an empty pipe it returns 0 when no writer is
  left, and otherwise fails for a killed process and sleeps for another.\<close>

theorem piperead_spec:
  assumes "cproc s = Some pr" "held s = {}" "vm_ok s (p_pagetable (procs s pr)) F"
    and "\<And>j. j < nat n \<Longrightarrow> user_writable s (p_pagetable (procs s pr)) F (addr + of_nat j)"
    and "k = min (nat n) (length (pipe_queue (pipes s p)))"
  shows "\<exists>t P. piperead p addr n s =
      (if pipe_queue (pipes s p) = [] \<and> pi_writeopen (pipes s p) then
         if p_killed (procs s pr) \<noteq> 0 then Ret (-1) s else Sched (asleep pr (Chan_nread p) s)
       else Ret (int k) (wake_all (Chan_nwrite p) t)) \<and>
     t = s\<lparr>phys := ublit s (p_pagetable (procs s pr)) (phys s) addr (take k (pipe_queue (pipes s p))),
           pipes := (pipes s)(p := P)\<rparr> \<and>
     pipe_queue P = drop k (pipe_queue (pipes s p))"
  using piperead_run [OF assms(1-4)] pipe_drained_queue [of k s p "p_pagetable (procs s pr)" addr]
  by (intro exI [of _ "pipe_drained p k (p_pagetable (procs s pr)) addr s"] exI [of _ "(pipe_take ^^ k) (pipes s p)"])
    (simp add: pipe_drained_def assms(5))

text \<open>A process with one writable page at 4096, on a machine whose pipes are all in the state \<open>P\<close>.\<close>

lemma pipe_example:
  "\<exists>(s :: file_st) F. cproc s = Some 0 \<and> held s = {} \<and> p_killed (procs s 0) = 0 \<and> pipes s = (\<lambda>_. P) \<and>
     vm_ok s (p_pagetable (procs s 0)) F \<and> (\<forall>j<3. user_writable s (p_pagetable (procs s 0)) F (4099 + of_nat j))"
proof -
  let ?z = "(blank_files (\<lambda>_. idle_proc) () :: file_st)\<lparr>pipes := \<lambda>_. P\<rparr>"
  obtain t pt F where t: "vm_eq ?z t" "vm_ok t pt F" "\<forall>va. PGROUNDDOWN va = 4096 \<longrightarrow> user_writable t pt F va"
    using writable_from [of ?z] by (auto simp: blank)
  let ?s = "t\<lparr>procs := \<lambda>_. idle_proc\<lparr>p_pagetable := pt\<rparr>\<rparr>"
  have "\<exists>m f. t = ?z\<lparr>phys := m, freelist := f\<rparr>" using t(1) by (simp add: vm_eq_upd)
  then have f: "cproc t = Some 0" "held t = {}" "pipes t = (\<lambda>_. P)" by (auto simp: blank)
  have "vm_ok ?s pt F" by (rule vm_ok_cong [OF t(2)]) (simp_all add: f)
  moreover have "user_writable ?s pt F va" if "PGROUNDDOWN va = 4096" for va
    using t(3) that by (simp add: user_writable_def user_readable_def mapped_def pa_of_def kmem_pool_def page_ok_def)
  moreover have "PGROUNDDOWN (4099 + of_nat j) = 4096" if "j < 3" for j
  proof -
    have "j = 0 \<or> j = 1 \<or> j = 2" using that by auto
    then show ?thesis by (elim disjE) (simp_all add: PGROUNDDOWN_def)
  qed
  ultimately show ?thesis by (intro exI [of _ ?s] exI [of _ F]) (simp add: f idle_proc_def)
qed

lemma writable_readable: "user_writable s pt F va \<Longrightarrow> user_readable s pt va"
  by (simp add: user_writable_def)

theorem pipewrite_spec_witness:
  "\<exists>(s :: file_st) P. pi_nwrite (pipes s 0) = -2 \<and>
     pipewrite 0 4099 3 s = Ret 3 (wake_all (Chan_nread 0) (s\<lparr>pipes := (pipes s)(0 := P)\<rparr>)) \<and> length (pipe_queue P) = 3"
proof -
  let ?P = "blank_pipe\<lparr>pi_nread := -2, pi_nwrite := -2\<rparr>"
  obtain s :: file_st and F where s: "cproc s = Some 0" "held s = {}" "p_killed (procs s 0) = 0" "pipes s = (\<lambda>_. ?P)"
    "vm_ok s (p_pagetable (procs s 0)) F" "\<forall>j<3. user_writable s (p_pagetable (procs s 0)) F (4099 + of_nat j)"
    using pipe_example by blast
  have e: "pipe_queue (pipes s 0) = []" "pipe_room (pipes s 0) = 512" "pi_readopen (pipes s 0)"
    by (simp_all add: s(4) blank pipe_queue_def ring_list_def pipe_room_def)
  have rd: "user_readable s (p_pagetable (procs s 0)) (4099 + of_nat j)" if "j < nat 3" for j
    using that s(6) by (intro writable_readable [of s _ F]) simp
  have "pipe_ok (pipes s 0)" by (simp add: pipe_ok_def e)
  from pipewrite_spec [OF s(1-3) e(3) this s(5), of 3 4099, OF rd _ refl refl] e obtain P where
    "pipewrite 0 4099 3 s = Ret 3 (wake_all (Chan_nread 0) (s\<lparr>pipes := (pipes s)(0 := P)\<rparr>))" "length (pipe_queue P) = 3"
    by auto
  moreover have "pi_nwrite (pipes s 0) = -2" by (simp add: s(4))
  ultimately show ?thesis by blast
qed

theorem piperead_spec_witness:
  "\<exists>(s :: file_st) t. pipe_queue (pipes s 0) = [7, 7] \<and> piperead 0 4099 3 s = Ret 2 (wake_all (Chan_nwrite 0) t) \<and>
     pipe_queue (pipes t 0) = []"
proof -
  let ?P = "blank_pipe\<lparr>pi_data := \<lambda>_. 7, pi_nread := -1, pi_nwrite := 1\<rparr>"
  obtain s :: file_st and F where s: "cproc s = Some 0" "held s = {}" "p_killed (procs s 0) = 0" "pipes s = (\<lambda>_. ?P)"
    "vm_ok s (p_pagetable (procs s 0)) F" "\<forall>j<3. user_writable s (p_pagetable (procs s 0)) F (4099 + of_nat j)"
    using pipe_example by blast
  have q: "pipe_queue (pipes s 0) = [7, 7]"
    using upt_conv_Cons [of 0 2] upt_conv_Cons [of 1 2] by (simp add: s(4) pipe_queue_def ring_list_def)
  from piperead_spec [OF s(1, 2, 5), of 3 4099 2 0] s(6) q obtain t P where
    "piperead 0 4099 3 s = Ret 2 (wake_all (Chan_nwrite 0) t)" "pipes t 0 = P" "pipe_queue P = []"
    by auto
  then show ?thesis using q by blast
qed

end
