(* ===== verification/Console_Line.thy ===== *)
theory Console_Line
  imports Console Ring_Buffer
begin

text \<open>
  The line discipline of \<^verbatim>\<open>src/kernel/console.c\<close>, over the definitions of the theory Console: the input
  buffer holds the bytes of finished lines and the line being typed, and \<^verbatim>\<open>consoleintr\<close> edits them as
  \<open>line_edit\<close> says.
\<close>

interpretation cq: ring_queue INPUT_BUF_SIZE cons_buf cons_r cons_e cons_put cons_take
  by unfold_locales (simp_all add: cons_put_def cons_take_def)

definition cons_ready :: "'a cons_st_scheme \<Rightarrow> u8 list" where
  "cons_ready s = ring_list INPUT_BUF_SIZE (cons_buf s) (cons_r s) (cons_w s)"

definition cons_line :: "'a cons_st_scheme \<Rightarrow> u8 list" where
  "cons_line s = ring_list INPUT_BUF_SIZE (cons_buf s) (cons_w s) (cons_e s)"

definition cons_ok :: "'a cons_st_scheme \<Rightarrow> bool" where
  "cons_ok s \<longleftrightarrow> length (cons_ready s) + length (cons_line s) \<le> INPUT_BUF_SIZE \<and> 10 \<notin> set (cons_line s)"

text \<open>What a typed byte does to the finished input and the line being typed.\<close>

definition line_edit :: "u8 \<Rightarrow> u8 list \<times> u8 list \<Rightarrow> u8 list \<times> u8 list" where
  "line_edit c0 rl = (let (ready, line) = rl; c = (if c0 = 13 then 10 else c0) in
     if c0 = 16 \<or> c0 = 0 then (ready, line)
     else if c0 = 21 then (ready, [])
     else if c0 = 8 \<or> c0 = 127 then (ready, butlast line)
     else if length ready + length line = INPUT_BUF_SIZE then (ready, line)
     else if c = 10 \<or> c = 4 \<or> length ready + length line + 1 = INPUT_BUF_SIZE then (ready @ line @ [c], [])
     else (ready, line @ [c]))"

section \<open>Control-U\<close>

lemma kill_line_all: "10 \<notin> set (ring_list INPUT_BUF_SIZE bf w e) \<Longrightarrow> kill_line bf w e = w"
proof (induction bf w e rule: kill_line.induct)
  case (1 bf w e)
  show ?case
  proof (cases "e = w")
    case True
    then show ?thesis by (subst kill_line.simps) simp
  next
    case False
    let ?l = "ring_list INPUT_BUF_SIZE bf w e"
    have n: "?l \<noteq> []" using False ring_list_empty [of INPUT_BUF_SIZE bf w e] by auto
    have b: "ring_list INPUT_BUF_SIZE bf w (e - 1) = butlast ?l" using False by (intro ring_list_back) auto
    have "last ?l = ?l ! (unat (e - w) - 1)" using n by (simp add: last_conv_nth)
    also have "\<dots> = bf (unat (e - 1) mod INPUT_BUF_SIZE)"
    proof -
      have "unat (e - w) - 1 = unat (e - w - 1)" using False by (simp add: unat_minus_one)
      then have "w + of_nat (unat (e - w) - 1) = e - 1" by simp
      then show ?thesis using False n by (simp add: ring_list_def)
    qed
    finally have "bf (unat (e - 1) mod INPUT_BUF_SIZE) \<noteq> 10" using 1(2) n last_in_set by metis
    moreover have "10 \<notin> set (ring_list INPUT_BUF_SIZE bf w (e - 1))" using 1(2) by (auto simp: b dest: in_set_butlastD)
    ultimately show ?thesis using 1(1) False by (subst kill_line.simps) simp
  qed
qed

section \<open>Output that only goes to the terminal\<close>

lemma backspaces: "\<exists>out. kfor xs (\<lambda>_. consputc_backspace) s = Ret () (s\<lparr>uart_out := out\<rparr>)"
proof (induction xs arbitrary: s)
  case Nil
  have "s\<lparr>uart_out := uart_out s\<rparr> = s" by simp
  then show ?case by (metis kfor.simps(1) kret_eval)
next
  case (Cons x xs)
  have "consputc_backspace s = Ret () (s\<lparr>uart_out := 8 # 32 # 8 # uart_out s\<rparr>)"
    by (simp add: consputc_backspace_def uartputc_sync_def uart_send_def kmonad)
  then show ?case using Cons [of "s\<lparr>uart_out := 8 # 32 # 8 # uart_out s\<rparr>"] by (auto simp: kmonad)
qed

lemma kprintf_klog: "Lpr \<notin> held s \<Longrightarrow> kprintf_text f vs = Some msg \<Longrightarrow> kprintf f vs s = Ret () (s\<lparr>klog := msg # klog s\<rparr>)"
  by (simp add: kmonad)

lemma dump_text:
  "\<exists>msg. kprintf_text ''%d %s %s'' [Vint a, Vstr (Some b), Vstr (Some c)] = Some msg"
  "\<exists>msg. kprintf_text ''\<newline>'' [] = Some msg"
  by (simp_all add: kfmt_eval)

lemma klog_loop:
  assumes b: "\<And>i s. Lpr \<notin> held s \<Longrightarrow> \<exists>l. b i s = Ret () (s\<lparr>klog := l\<rparr>)" and "Lpr \<notin> held s"
  shows "\<exists>l. kfor xs b s = Ret () (s\<lparr>klog := l\<rparr>)"
  using assms(2)
proof (induction xs arbitrary: s)
  case Nil
  then show ?case by (intro exI [of _ "klog s"]) (simp add: kmonad)
next
  case (Cons x xs)
  obtain l where l: "b x s = Ret () (s\<lparr>klog := l\<rparr>)" using b [OF Cons.prems] by blast
  moreover obtain l' where "kfor xs b (s\<lparr>klog := l\<rparr>) = Ret () (s\<lparr>klog := l\<rparr>\<lparr>klog := l'\<rparr>)"
    using Cons.IH [of "s\<lparr>klog := l\<rparr>"] Cons.prems by auto
  ultimately show ?case by (intro exI [of _ l']) (simp add: kmonad)
qed

lemma procdump_klog:
  assumes "Lpr \<notin> held s"
  shows "\<exists>l. procdump s = Ret () (s\<lparr>klog := l\<rparr>)"
proof -
  define b :: "nat \<Rightarrow> ('a cons_st_scheme, unit) km" where "b = (\<lambda>i. kbind (proc_at i) (\<lambda>P. if p_state P = UNUSED then kret ()
       else kthen (kprintf ''%d %s %s'' [Vint (word_of_int (p_pid P)), Vstr (Some (state_name (p_state P))),
                  Vstr (Some (name_string (p_name P)))]) (kprintf ''\<newline>'' [])))"
  obtain k where k: "kprintf_text ''\<newline>'' [] = Some k" using dump_text(2) by blast
  have "\<exists>l. b i s = Ret () (s\<lparr>klog := l\<rparr>)" if "Lpr \<notin> held s" for i s
  proof (cases "p_state (procs s i) = UNUSED")
    case True
    then show ?thesis by (intro exI [of _ "klog s"]) (simp add: b_def kmonad)
  next
    case False
    obtain m where "kprintf_text ''%d %s %s'' [Vint (word_of_int (p_pid (procs s i))),
        Vstr (Some (state_name (p_state (procs s i)))), Vstr (Some (name_string (p_name (procs s i))))] = Some m"
      using dump_text(1) by blast
    then show ?thesis using False that k by (intro exI [of _ "k # m # klog s"]) (simp add: b_def kmonad)
  qed
  from klog_loop [of b "s\<lparr>klog := k # klog s\<rparr>" allprocs, OF this] assms
  obtain l where "kfor allprocs b (s\<lparr>klog := k # klog s\<rparr>) = Ret () (s\<lparr>klog := l\<rparr>)" by auto
  then show ?thesis unfolding procdump_def b_def [symmetric] using assms k by (intro exI [of _ l]) (simp add: kmonad)
qed

section \<open>The interrupt handler on every branch\<close>

lemma locked_run:
  assumes "held s = {}" "m (s\<lparr>held := {l}\<rparr>) = Ret () (t\<lparr>held := {l}\<rparr>)" "held t = {}"
  shows "kthen (acquire l) (kthen m (release l)) s = Ret () t"
  using assms held_same [OF assms(3)] by (simp add: kmonad)

lemma cons_held:
  "s\<lparr>held := h, uart_out := x\<rparr> = s\<lparr>uart_out := x, held := h\<rparr>" "s\<lparr>held := h, klog := l\<rparr> = s\<lparr>klog := l, held := h\<rparr>"
  "s\<lparr>held := h, cons_e := e\<rparr> = s\<lparr>cons_e := e, held := h\<rparr>" "s\<lparr>held := h, cons_w := e\<rparr> = s\<lparr>cons_w := e, held := h\<rparr>"
  "cons_put c (s\<lparr>held := h\<rparr>) = (cons_put c s)\<lparr>held := h\<rparr>"
  by (cases s; simp add: cons_put_def)+

definition cons_commit :: "'a cons_st_scheme \<Rightarrow> 'a cons_st_scheme" where
  "cons_commit s = wake_all Chan_cons (s\<lparr>cons_w := cons_e s\<rparr>)"

lemma consoleintr_list:
  assumes "held s = {}"
  shows "\<exists>l. consoleintr 16 s = Ret () (s\<lparr>klog := l\<rparr>)"
proof -
  obtain l where "procdump (s\<lparr>held := {Lcons}\<rparr>) = Ret () (s\<lparr>held := {Lcons}\<rparr>\<lparr>klog := l\<rparr>)"
    using procdump_klog [of "s\<lparr>held := {Lcons}\<rparr>"] by auto
  then show ?thesis unfolding consoleintr_def
    by (intro exI [of _ l] locked_run) (simp_all add: assms cons_held)
qed

lemma consoleintr_kill:
  assumes "held s = {}" "cons_ok s"
  shows "\<exists>out. consoleintr 21 s = Ret () (s\<lparr>cons_e := cons_w s, uart_out := out\<rparr>)"
proof -
  have k: "kill_line (cons_buf s) (cons_w s) (cons_e s) = cons_w s"
    using assms(2) by (intro kill_line_all) (simp add: cons_ok_def cons_line_def)
  obtain out where "kfor [0..<unat (cons_e s - cons_w s)] (\<lambda>_. consputc_backspace) (s\<lparr>cons_e := cons_w s\<rparr>\<lparr>held := {Lcons}\<rparr>) =
      Ret () (s\<lparr>cons_e := cons_w s\<rparr>\<lparr>held := {Lcons}\<rparr>\<lparr>uart_out := out\<rparr>)" using backspaces by blast
  then show ?thesis unfolding consoleintr_def
    by (intro exI [of _ out] locked_run) (simp_all add: assms k kmonad cons_held)
qed

lemma consoleintr_erase:
  assumes "held s = {}" "c = 8 \<or> c = 127"
  shows "consoleintr c s = Ret () (if cons_e s = cons_w s then s
    else s\<lparr>cons_e := cons_e s - 1, uart_out := 8 # 32 # 8 # uart_out s\<rparr>)"
  unfolding consoleintr_def using assms
  by (intro locked_run)
    (auto simp: kmonad cons_held consputc_backspace_def uartputc_sync_def uart_send_def)

lemma consoleintr_ignored:
  assumes "held s = {}" "c \<noteq> 16" "c \<noteq> 21" "c \<noteq> 8" "c \<noteq> 127" "c = 0 \<or> \<not> cons_e s - cons_r s < 128"
  shows "consoleintr c s = Ret () s"
  unfolding consoleintr_def using assms by (intro locked_run) (auto simp: kmonad)

lemma consoleintr_typed:
  assumes "held s = {}" "c \<noteq> 16" "c \<noteq> 21" "c \<noteq> 8" "c \<noteq> 127" "c \<noteq> 0" "cons_e s - cons_r s < 128"
  defines "d \<equiv> if c = 13 then 10 else c"
  defines "t \<equiv> cons_put d (s\<lparr>uart_out := d # uart_out s\<rparr>)"
  shows "consoleintr c s = Ret () (if d = 10 \<or> d = 4 \<or> cons_e t - cons_r t = 128 then cons_commit t else t)"
proof -
  have t: "held t = {}" "cons_e t = cons_e s + 1" "cons_r t = cons_r s" using assms(1) by (simp_all add: t_def cons_put_def)
  have w: "wakeup (Some Chan_cons) (t\<lparr>cons_w := e\<rparr>\<lparr>held := {Lcons}\<rparr>) = Ret () (wake_all Chan_cons (t\<lparr>cons_w := e\<rparr>)\<lparr>held := {Lcons}\<rparr>)" for e
    unfolding wake_all_held [symmetric] by (rule wakeup_all) (simp add: no_plock_def)
  show ?thesis unfolding consoleintr_def
  proof (rule locked_run [OF assms(1)])
    show "held (if d = 10 \<or> d = 4 \<or> cons_e t - cons_r t = 128 then cons_commit t else t) = {}"
      using t by (simp add: cons_commit_def)
  qed (use assms(2-7) t w in \<open>simp add: kmonad Let_def d_def [symmetric] consputc_def uartputc_sync_def uart_send_def cons_held
        t_def [symmetric] cons_commit_def\<close>)
qed

section \<open>The buffer as finished input and a line\<close>

lemma cons_split:
  assumes "cons_ok s"
  shows "cq.queue s = cons_ready s @ cons_line s" "unat (cons_e s - cons_r s) = length (cons_ready s) + length (cons_line s)"
proof -
  show q: "cq.queue s = cons_ready s @ cons_line s" unfolding cq.queue_def cons_ready_def cons_line_def
    by (rule ring_list_append) (use assms in \<open>auto simp: cons_ok_def cons_ready_def cons_line_def\<close>)
  show "unat (cons_e s - cons_r s) = length (cons_ready s) + length (cons_line s)"
    using arg_cong [OF q, of length] by (simp add: cq.queue_length)
qed

lemma cons_room: "cons_ok s \<Longrightarrow> cons_e s - cons_r s < 128 \<longleftrightarrow> length (cons_ready s) + length (cons_line s) < INPUT_BUF_SIZE"
  by (simp add: word_less_nat_alt cons_split)

lemma cons_put_lists:
  assumes "cons_ok s" "length (cons_ready s) + length (cons_line s) < INPUT_BUF_SIZE"
    and t_def: "t = cons_put c s"
  shows "cons_ready t = cons_ready s" "cons_line t = cons_line s @ [c]"
    "cons_e t - cons_r t = 128 \<longleftrightarrow> length (cons_ready s) + length (cons_line s) + 1 = INPUT_BUF_SIZE"
proof -
  have r: "cons_r t = cons_r s" "cons_w t = cons_w s" "cons_e t = cons_e s + 1"
    "cons_buf t = (cons_buf s)(unat (cons_e s) mod INPUT_BUF_SIZE := c)" by (simp_all add: t_def cons_put_def)
  have q: "cq.queue t = cons_ready s @ cons_line s @ [c]"
    unfolding t_def using cq.queue_put(1) [of s c] cons_split [OF assms(1)] assms(2) by simp
  have l: "cons_line t = cons_line s @ [c]" unfolding cons_line_def r
    by (rule cq.ring_put) (use assms(2) in \<open>simp_all add: cons_line_def\<close>)
  have "length (cons_ready t) = length (cons_ready s)" by (simp add: cons_ready_def r)
  moreover have "cq.queue t = cons_ready t @ cons_line t" unfolding cq.queue_def cons_ready_def cons_line_def
    by (rule ring_list_append) (use assms(2) arg_cong [OF l, of length] r in \<open>simp add: cons_ready_def cons_line_def\<close>)
  ultimately show "cons_ready t = cons_ready s" using q by simp
  show "cons_line t = cons_line s @ [c]" by (rule l)
  have "unat (cons_e t - cons_r t) = length (cons_ready s) + length (cons_line s) + 1"
    using arg_cong [OF q, of length] by (simp add: cq.queue_length)
  then show "cons_e t - cons_r t = 128 \<longleftrightarrow> length (cons_ready s) + length (cons_line s) + 1 = INPUT_BUF_SIZE"
    by (simp add: word_unat_eq_iff)
qed

lemma cons_lists_out [simp]:
  "cons_ready (s\<lparr>uart_out := x\<rparr>) = cons_ready s" "cons_line (s\<lparr>uart_out := x\<rparr>) = cons_line s"
  "cons_ready (s\<lparr>klog := l\<rparr>) = cons_ready s" "cons_line (s\<lparr>klog := l\<rparr>) = cons_line s"
  "cons_ready (s\<lparr>cons_e := e\<rparr>) = cons_ready s" "cons_line (s\<lparr>cons_e := cons_w s\<rparr>) = []"
  by (simp_all add: cons_ready_def cons_line_def ring_list_empty)

lemma cons_commit_lists:
  assumes "length (cons_ready s) + length (cons_line s) \<le> INPUT_BUF_SIZE"
  shows "cons_ready (cons_commit s) = cons_ready s @ cons_line s" "cons_line (cons_commit s) = []"
  using assms ring_list_append [of "cons_w s" "cons_r s" "cons_e s"]
  by (simp_all add: cons_ready_def cons_line_def cons_commit_def wake_all_def ring_list_empty)

text \<open>C14: the console interrupt handler edits the input as a line discipline should.  A byte is appended to
  the line being typed, erase and kill act on that line only, a newline, an end-of-file or a full
  buffer makes the line available to readers and wakes them, and a byte for which there is no room is
  dropped.  The 128-byte buffer is never overrun and finished input never changed, across the
  wrap-around of its indices.\<close>

theorem consoleintr_edits_line:
  assumes "held s = {}" "cons_ok s"
  shows "\<exists>t. consoleintr c s = Ret () t \<and> cons_ok t \<and>
    (cons_ready t, cons_line t) = line_edit c (cons_ready s, cons_line s) \<and>
    procs t = (if cons_ready t = cons_ready s then procs s else procs (wake_all Chan_cons s))"
proof -
  consider "c = 16" | "c = 21" | "c = 8 \<or> c = 127"
    | "c \<noteq> 16" "c \<noteq> 21" "c \<noteq> 8" "c \<noteq> 127" "c = 0 \<or> \<not> cons_e s - cons_r s < 128"
    | "c \<noteq> 16" "c \<noteq> 21" "c \<noteq> 8" "c \<noteq> 127" "c \<noteq> 0" "cons_e s - cons_r s < 128" by blast
  then show ?thesis
  proof cases
    case 1
    then show ?thesis using consoleintr_list [OF assms(1)] assms(2)
      by (auto simp: line_edit_def Let_def cons_ok_def)
  next
    case 2
    then obtain out where "consoleintr c s = Ret () (s\<lparr>cons_e := cons_w s, uart_out := out\<rparr>)"
      using consoleintr_kill [OF assms] by blast
    then show ?thesis using 2 assms(2) by (auto simp: line_edit_def Let_def cons_ok_def)
  next
    case 3
    let ?t = "if cons_e s = cons_w s then s else s\<lparr>cons_e := cons_e s - 1, uart_out := 8 # 32 # 8 # uart_out s\<rparr>"
    have l: "cons_line ?t = butlast (cons_line s)" "cons_ready ?t = cons_ready s"
      using ring_list_back [of "cons_w s" "cons_e s"] by (auto simp: cons_line_def cons_ready_def ring_list_def)
    moreover have "cons_ok ?t" using assms(2) in_set_butlastD unfolding cons_ok_def l by fastforce
    ultimately show ?thesis using 3 consoleintr_erase [OF assms(1) 3]
      by (intro exI [of _ ?t]) (auto simp: line_edit_def Let_def)
  next
    case 4
    then show ?thesis using consoleintr_ignored [OF assms(1) 4] cons_room [OF assms(2)] assms(2)
      by (auto simp: line_edit_def Let_def cons_ok_def)
  next
    case 5
    let ?d = "if c = 13 then 10 else c" and ?u = "s\<lparr>uart_out := (if c = 13 then 10 else c) # uart_out s\<rparr>"
    have lt: "length (cons_ready s) + length (cons_line s) < INPUT_BUF_SIZE" using 5(6) cons_room [OF assms(2)] by simp
    have "cons_ok ?u" using assms(2) by (simp add: cons_ok_def)
    note p = cons_put_lists [OF this _ refl, of ?d, simplified cons_lists_out, OF lt]
    note cm = cons_commit_lists [of "cons_put ?d ?u"]
    have procs: "procs (cons_put d v) = procs v" "cproc (cons_put d v) = cproc v" for d v by (simp_all add: cons_put_def)
    show ?thesis using consoleintr_typed [OF assms(1) 5] p cm lt 5 assms(2)
      by (auto simp: line_edit_def Let_def cons_ok_def cons_commit_def wake_all_def procs)
  qed
qed

theorem consoleintr_edits_line_witness:
  "\<exists>t. consoleintr 13 ((blank_cons (\<lambda>_. idle_proc) () :: cons_st)\<lparr>cons_r := -1, cons_w := -1, cons_e := 1,
       cons_buf := \<lambda>_. 97\<rparr>) = Ret () t \<and> cons_ready t = [97, 97, 10] \<and> cons_line t = []"
proof -
  let ?s = "(blank_cons (\<lambda>_. idle_proc) () :: cons_st)\<lparr>cons_r := -1, cons_w := -1, cons_e := 1, cons_buf := \<lambda>_. 97\<rparr>"
  have "cons_line ?s = [97, 97]" "cons_ready ?s = []"
    using upt_conv_Cons [of 0 2] upt_conv_Cons [of 1 2] by (simp_all add: cons_line_def cons_ready_def ring_list_def)
  with consoleintr_edits_line [of ?s 13] show ?thesis by (auto simp: blank cons_ok_def line_edit_def)
qed

end
