(* ===== verification/Virtio_Init.thy ===== *)
theory Virtio_Init
  imports Virtio
begin

unbundle bit_operations_syntax

text \<open>
  \<^verbatim>\<open>virtio_disk_init\<close> of \<^verbatim>\<open>kernel/virtio_disk.c\<close>: finding the disk, negotiating features and setting up the queue through the
  registers of the device.  The device is a parameter: how its registers read in a state \<open>'d\<close> of the device and what a write
  makes of the state; \<open>virtio_mmio_device\<close> has what the specification says of the registers the driver uses.
\<close>

abbreviation (input) MMIO_MAGIC_VALUE :: u32 where "MMIO_MAGIC_VALUE \<equiv> 0x000"
abbreviation (input) MMIO_VERSION :: u32 where "MMIO_VERSION \<equiv> 0x004"
abbreviation (input) MMIO_DEVICE_ID :: u32 where "MMIO_DEVICE_ID \<equiv> 0x008"
abbreviation (input) MMIO_VENDOR_ID :: u32 where "MMIO_VENDOR_ID \<equiv> 0x00c"
abbreviation (input) MMIO_DEVICE_FEATURES :: u32 where "MMIO_DEVICE_FEATURES \<equiv> 0x010"
abbreviation (input) MMIO_DRIVER_FEATURES :: u32 where "MMIO_DRIVER_FEATURES \<equiv> 0x020"
abbreviation (input) MMIO_QUEUE_SEL :: u32 where "MMIO_QUEUE_SEL \<equiv> 0x030"
abbreviation (input) MMIO_QUEUE_NUM_MAX :: u32 where "MMIO_QUEUE_NUM_MAX \<equiv> 0x034"
abbreviation (input) MMIO_QUEUE_NUM :: u32 where "MMIO_QUEUE_NUM \<equiv> 0x038"
abbreviation (input) MMIO_QUEUE_READY :: u32 where "MMIO_QUEUE_READY \<equiv> 0x044"
abbreviation (input) MMIO_STATUS :: u32 where "MMIO_STATUS \<equiv> 0x070"

record 'd mmio =
  mm_read :: "'d \<Rightarrow> u32 \<Rightarrow> u32"
  mm_write :: "'d \<Rightarrow> u32 \<Rightarrow> u32 \<Rightarrow> 'd"

definition rd :: "'d mmio \<Rightarrow> u32 \<Rightarrow> ('s \<times> 'd, u32) km" where
  "rd m r = kget (\<lambda>x. mm_read m (snd x) r)"

definition wr :: "'d mmio \<Rightarrow> u32 \<Rightarrow> u32 \<Rightarrow> ('s \<times> 'd, unit) km" where
  "wr m r v = kmod (\<lambda>x. (fst x, mm_write m (snd x) r v))"

definition on_kernel :: "('s, 'r) km \<Rightarrow> ('s \<times> 'd, 'r) km" where
  "on_kernel k x = (case k (fst x) of Ret r s \<Rightarrow> Ret r (s, snd x) | Panic e \<Rightarrow> Panic e | Sched s \<Rightarrow> Sched (s, snd x))"

text \<open>The features the driver does not use.\<close>

definition drop_features :: "u64 \<Rightarrow> u64" where
  "drop_features f = fold (\<lambda>k f. f AND NOT (push_bit k 1)) [5, 7, 11, 12, 27, 29, 28] f"

definition queue_regs :: "'d mmio \<Rightarrow> u32 \<Rightarrow> u64 \<Rightarrow> ('s \<times> 'd, unit) km" where
  "queue_regs m r a = kthen (wr m r (ucast a)) (wr m (r + 4) (ucast (drop_bit 32 a)))"

definition virtio_disk_init :: "'d mmio \<Rightarrow> ('a vio_st_scheme \<times> 'd, unit) km" where
  "virtio_disk_init m =
     kbind (rd m MMIO_MAGIC_VALUE) (\<lambda>magic.
     kbind (rd m MMIO_VERSION) (\<lambda>version.
     kbind (rd m MMIO_DEVICE_ID) (\<lambda>device.
     kbind (rd m MMIO_VENDOR_ID) (\<lambda>vendor.
     if magic \<noteq> 0x74726976 \<or> version \<noteq> 2 \<or> device \<noteq> 2 \<or> vendor \<noteq> 0x554d4551 then kpanic ''could not find virtio disk''
     else
       kthen (wr m MMIO_STATUS 0)
       (kthen (wr m MMIO_STATUS 1)
       (kthen (wr m MMIO_STATUS 3)
       (kbind (rd m MMIO_DEVICE_FEATURES) (\<lambda>features.
       kthen (wr m MMIO_DRIVER_FEATURES (ucast (drop_features (ucast features))))
       (kthen (wr m MMIO_STATUS 11)
       (kbind (rd m MMIO_STATUS) (\<lambda>status.
       if status AND 8 = 0 then kpanic ''virtio disk FEATURES_OK unset''
       else
         kthen (wr m MMIO_QUEUE_SEL 0)
         (kbind (rd m MMIO_QUEUE_READY) (\<lambda>ready.
         if ready \<noteq> 0 then kpanic ''virtio disk should not be ready''
         else
           kbind (rd m MMIO_QUEUE_NUM_MAX) (\<lambda>qmax.
           if qmax = 0 then kpanic ''virtio disk has no queue 0''
           else if qmax < of_nat NUM then kpanic ''virtio disk max queue too short''
           else
             kbind (on_kernel kalloc) (\<lambda>desc.
             kbind (on_kernel kalloc) (\<lambda>avail.
             kbind (on_kernel kalloc) (\<lambda>used.
             if desc = 0 \<or> avail = 0 \<or> used = 0 then kpanic ''virtio disk kalloc''
             else
               kthen (on_kernel (kmod (\<lambda>s. s\<lparr>v_desc := \<lambda>_. zero_desc, avail_idx := 0, avail_ring := \<lambda>_. 0, used_idx := 0, used_ring := \<lambda>_. 0\<rparr>)))
               (kthen (wr m MMIO_QUEUE_NUM (of_nat NUM))
               (kthen (queue_regs m 0x080 desc)
               (kthen (queue_regs m 0x090 avail)
               (kthen (queue_regs m 0x0a0 used)
               (kthen (wr m MMIO_QUEUE_READY 1)
               (kthen (on_kernel (kfor [0..<NUM] (\<lambda>i. set_free i True)))
               (wr m MMIO_STATUS (status OR 4)))))))))))))))))))))))))"

text \<open>The registers of the device: those that identify it are constant; a reset clears the ready bit; the status and the ready bit
  read as they were written, and other writes do not change them.\<close>

definition virtio_mmio_device :: "'d mmio \<Rightarrow> bool" where
  "virtio_mmio_device m \<longleftrightarrow> (\<forall>d.
     mm_read m d MMIO_MAGIC_VALUE = 0x74726976 \<and> mm_read m d MMIO_VERSION = 2 \<and> mm_read m d MMIO_DEVICE_ID = 2 \<and>
     mm_read m d MMIO_VENDOR_ID = 0x554d4551 \<and> of_nat NUM \<le> mm_read m d MMIO_QUEUE_NUM_MAX \<and>
     (\<forall>v. mm_read m (mm_write m d MMIO_STATUS v) MMIO_STATUS = v) \<and>
     (\<forall>v. mm_read m (mm_write m d MMIO_QUEUE_READY v) MMIO_QUEUE_READY = v) \<and>
     mm_read m (mm_write m d MMIO_STATUS 0) MMIO_QUEUE_READY = 0 \<and>
     (\<forall>r v. r \<noteq> MMIO_STATUS \<longrightarrow> mm_read m (mm_write m d r v) MMIO_STATUS = mm_read m d MMIO_STATUS) \<and>
     (\<forall>r v. r \<noteq> MMIO_QUEUE_READY \<longrightarrow> r \<noteq> MMIO_STATUS \<or> v \<noteq> 0 \<longrightarrow> mm_read m (mm_write m d r v) MMIO_QUEUE_READY = mm_read m d MMIO_QUEUE_READY))"

lemma rd_eval [kmonad]: "rd m r x = Ret (mm_read m (snd x) r) x"
  by (simp add: rd_def kmonad)

lemma wr_eval [kmonad]: "wr m r v x = Ret () (fst x, mm_write m (snd x) r v)"
  by (simp add: wr_def kmonad)

lemma drop_features_bits: "k \<in> {5, 7, 11, 12, 27, 28, 29} \<Longrightarrow> \<not> bit (drop_features f) k"
  by (auto simp: drop_features_def bit_simps)

lemma all_free: "kfor [0..<NUM] (\<lambda>i. set_free i True) s = Ret () (s\<lparr>v_free := \<lambda>i. i < NUM \<or> v_free s i\<rparr>)"
proof -
  have "kfor [0..<n] (\<lambda>i. set_free i True) s = Ret () (s\<lparr>v_free := \<lambda>i. i < n \<or> v_free s i\<rparr>)" for n
    by (induction n) (auto simp: kfor_append kmonad fun_upd_def less_Suc_eq intro!: arg_cong [of _ _ "\<lambda>f. s\<lparr>v_free := f\<rparr>"])
  then show ?thesis .
qed

text \<open>The disk is found and started: the driver is ready, in the state the other operations of the driver start from, and the device
  has been told so after everything else.\<close>

lemma virtio_disk_init_ready:
  assumes m: "virtio_mmio_device m" and k: "kalloc s = Ret a s1" "kalloc s1 = Ret b s2" "kalloc s2 = Ret c s3" "a \<noteq> 0" "b \<noteq> 0" "c \<noteq> 0"
  shows "\<exists>t d'. virtio_disk_init m (s, d) = Ret () (t, d') \<and> mm_read m d' MMIO_STATUS = 15 \<and> mm_read m d' MMIO_QUEUE_READY = 1 \<and>
    t = s3\<lparr>v_desc := \<lambda>_. zero_desc, avail_idx := 0, avail_ring := \<lambda>_. 0, used_idx := 0, used_ring := \<lambda>_. 0, v_free := \<lambda>i. i < NUM \<or> v_free s3 i\<rparr>"
proof -
  note v = m [unfolded virtio_mmio_device_def, rule_format]
  have id: "mm_read m d' 0 = 0x74726976" "mm_read m d' 4 = 2" "mm_read m d' 8 = 2" "mm_read m d' 0xc = 0x554d4551" for d' using v by blast+
  have le: "of_nat NUM \<le> mm_read m d' 0x34" for d' using v by blast
  have q: "mm_read m d' 0x34 \<noteq> 0" "\<not> mm_read m d' 0x34 < 8" for d' using le [of d'] by auto
  have st: "mm_read m (mm_write m d' 0x70 v) 0x70 = v" "mm_read m (mm_write m d' 0x44 v) 0x44 = v" "mm_read m (mm_write m d' 0x70 0) 0x44 = 0" for d' v
    using v by blast+
  have keep: "r \<noteq> 0x70 \<Longrightarrow> mm_read m (mm_write m d' r v) 0x70 = mm_read m d' 0x70"
    "r \<noteq> 0x44 \<Longrightarrow> r \<noteq> 0x70 \<or> v \<noteq> 0 \<Longrightarrow> mm_read m (mm_write m d' r v) 0x44 = mm_read m d' 0x44" for d' r v using v by blast+
  show ?thesis
    unfolding virtio_disk_init_def
    by (simp add: kbind_eval kthen_eval rd_eval wr_eval on_kernel_def queue_regs_def all_free kmod_eval id q st keep k)
qed

text \<open>A device with just these registers.\<close>

definition sample_mmio :: "(u32 \<times> u32) mmio" where
  "sample_mmio = \<lparr>mm_read = \<lambda>d r.
       if r = MMIO_MAGIC_VALUE then 0x74726976 else if r = MMIO_VERSION \<or> r = MMIO_DEVICE_ID then 2
       else if r = MMIO_VENDOR_ID then 0x554d4551 else if r = MMIO_QUEUE_NUM_MAX then 8
       else if r = MMIO_STATUS then fst d else if r = MMIO_QUEUE_READY then snd d else 0,
     mm_write = \<lambda>d r v.
       if r = MMIO_STATUS then (v, if v = 0 then 0 else snd d) else if r = MMIO_QUEUE_READY then (fst d, v) else d\<rparr>"

lemma sample_mmio_device: "virtio_mmio_device sample_mmio"
  by (simp add: virtio_mmio_device_def sample_mmio_def)

end
