(* ===== verification/Linked.thy ===== *)
theory Linked
  imports Main
begin

text \<open>
  Lists threaded through the fields of their elements, as the buffers of \<^verbatim>\<open>src/kernel/bio.c\<close> and the free blocks of
  \<^verbatim>\<open>src/user/umalloc.c\<close> are: \<open>links f xs\<close> says that the field \<open>f\<close> leads from each element of \<open>xs\<close> to the next.  A ring
  is a list that ends with its first element.
\<close>

fun links :: "(nat \<Rightarrow> nat) \<Rightarrow> nat list \<Rightarrow> bool" where
  "links f (a # b # xs) \<longleftrightarrow> f a = b \<and> links f (b # xs)"
| "links f _ \<longleftrightarrow> True"

lemma links_append: "links f (xs @ a # ys) \<longleftrightarrow> links f (xs @ [a]) \<and> links f (a # ys)"
proof (induction xs)
  case (Cons x xs)
  then show ?case by (cases xs) auto
qed simp

lemma links_upd: "a \<notin> set (butlast xs) \<Longrightarrow> links (f(a := c)) xs = links f xs"
  by (induction f xs rule: links.induct) auto

lemma links_two: "links f (xs @ [a, b]) \<longleftrightarrow> links f (xs @ [a]) \<and> f a = b"
  using links_append [of f xs a "[b]"] by simp

text \<open>Taking an element out and putting one at either end, for the forward and the backward links.\<close>

lemma links_remove:
  assumes "links f (h # as @ b # cs @ [h])" "distinct (h # as @ b # cs)"
  shows "f b = hd (cs @ [h])" "links (f(last (h # as) := hd (cs @ [h]))) (h # as @ cs @ [h])"
proof -
  obtain P p where P: "h # as = P @ [p]" by (metis append_butlast_last_id list.distinct(1))
  obtain n N where N: "cs @ [h] = n # N" by (metis append_is_Nil_conv list.distinct(1) neq_Nil_conv)
  have "h # as @ b # cs @ [h] = (P @ [p]) @ b # n # N" unfolding P [symmetric] N [symmetric] by simp
  then have "links f (P @ p # b # n # N)" using assms(1) by simp
  then have l: "links f (P @ [p])" "f p = b" "f b = n" "links f (n # N)"
    using links_append [of f P p "b # n # N"] by auto
  show "f b = hd (cs @ [h])" using l(3) N by simp
  have "distinct ((P @ [p]) @ b # cs)" using assms(2) unfolding P [symmetric] by simp
  then have p: "p \<notin> set P" "p \<notin> set cs" by auto
  have "butlast (n # N) = cs" using N by (metis butlast_snoc)
  then have "links (f(p := n)) (P @ [p])" "links (f(p := n)) (n # N)"
    using l p by (simp_all add: links_upd)
  then have "links (f(p := n)) (P @ p # n # N)" using links_append [of "f(p := n)" P p "n # N"] by simp
  moreover have "h # as @ cs @ [h] = P @ p # n # N" using P N by (metis append.assoc append_Cons append_Nil)
  moreover have "last (h # as) = p" "hd (cs @ [h]) = n" using P N by auto
  ultimately show "links (f(last (h # as) := hd (cs @ [h]))) (h # as @ cs @ [h])" by (simp only:)
qed

lemma links_front:
  assumes "links f (h # xs @ [h])" "b \<noteq> h" "b \<notin> set xs" "h \<notin> set xs"
  shows "f h = hd (xs @ [h])" "links (f(b := f h, h := b)) (h # b # xs @ [h])"
proof -
  show fh: "f h = hd (xs @ [h])" using assms(1) by (cases xs) auto
  obtain n N where N: "xs @ [h] = n # N" by (metis append_is_Nil_conv list.distinct(1) neq_Nil_conv)
  have "butlast (n # N) = xs" using N by (metis butlast_snoc)
  moreover have "links f (n # N)" using assms(1) N by simp
  ultimately have "links (f(b := f h, h := b)) (n # N)" using assms(3, 4) by (simp add: links_upd)
  then show "links (f(b := f h, h := b)) (h # b # xs @ [h])" using assms(2) fh by (simp add: N)
qed

lemma links_back:
  assumes "links g (h # ys @ [h])" "b \<noteq> h" "b \<notin> set ys" "distinct (h # ys)"
  shows "links (g(b := h, last (h # ys) := b)) (h # ys @ [b, h])"
proof -
  obtain P p where P: "h # ys = P @ [p]" by (metis append_butlast_last_id list.distinct(1))
  have "distinct (P @ [p])" "b \<notin> set (P @ [p])" using assms(2-4) unfolding P [symmetric] by auto
  then have d: "p \<notin> set P" "b \<notin> set (P @ [p])" by auto
  have "links g (P @ [p])" using assms(1) P links_append [of g P p "[h]"] by (metis append.assoc append_Cons append_Nil)
  then have "links (g(b := h, p := b)) (P @ [p])" using d by (simp add: links_upd)
  moreover have "p \<noteq> b" using d by auto
  ultimately have "links (g(b := h, p := b)) (P @ [p, b, h])"
    using links_append [of "g(b := h, p := b)" P p "[b, h]"] by simp
  moreover have "h # ys @ [b, h] = P @ [p, b, h]" "last (h # ys) = p" using P
    by (metis append.assoc append_Cons append_Nil, metis P last_snoc)
  ultimately show ?thesis by (simp only:)
qed

text \<open>A list in two parts.\<close>

lemma links_hd: "links f (a # xs @ [b]) \<Longrightarrow> f a = hd (xs @ [b])"
  by (cases xs) auto

lemma links_split:
  assumes "links f (xs @ ys @ [b])" "xs \<noteq> []"
  shows "f (last xs) = hd (ys @ [b])" "links f xs" "links f (ys @ [b])"
proof -
  obtain as a where xs: "xs = as @ [a]" using assms(2) by (metis append_butlast_last_id)
  then have l: "links f (as @ [a])" "links f (a # ys @ [b])" using assms(1) links_append [of f as a "ys @ [b]"] by auto
  show "f (last xs) = hd (ys @ [b])" using links_hd [OF l(2)] xs by simp
  show "links f xs" using l(1) xs by simp
  show "links f (ys @ [b])" using l(2) by (cases ys) auto
qed

lemma links_join: "links g xs \<Longrightarrow> links g ys \<Longrightarrow> xs \<noteq> [] \<Longrightarrow> ys \<noteq> [] \<Longrightarrow> g (last xs) = hd ys \<Longrightarrow> links g (xs @ ys)"
proof -
  assume a: "links g xs" "links g ys" "xs \<noteq> []" "ys \<noteq> []" "g (last xs) = hd ys"
  obtain as x where "xs = as @ [x]" using a(3) by (metis append_butlast_last_id)
  moreover obtain y bs where "ys = y # bs" using a(4) by (metis neq_Nil_conv)
  ultimately show ?thesis using a links_append [of g as x "y # bs"] by simp
qed

lemma links_cong: "\<forall>x\<in>set (butlast xs). f x = g x \<Longrightarrow> links f xs = links g xs"
  by (induction f xs rule: links.induct) auto

end
