(* ===== verification/Bio_Cache.thy ===== *)
theory Bio_Cache
  imports Bio Linked
begin

text \<open>
  The buffer cache of \<^verbatim>\<open>src/kernel/bio.c\<close>, over the definitions of the theory Bio: the doubly linked list
  threaded through the buffers is a list in most-recently-used order, and what \<^verbatim>\<open>bread\<close> returns is the
  current contents of a block.
\<close>

section \<open>The list of buffers\<close>

lemma follow_links:
  assumes "links f (xs @ [bhead])" "bhead \<notin> set xs" "length xs \<le> n"
  shows "follow n f (hd (xs @ [bhead])) = xs"
  using assms
proof (induction n arbitrary: xs)
  case 0
  then show ?case by simp
next
  case (Suc n)
  show ?case
  proof (cases xs)
    case (Cons x ys)
    then have "f x = hd (ys @ [bhead])" "links f (ys @ [bhead])" using Suc.prems(1) by (cases ys; simp)+
    then show ?thesis using Suc.IH [of ys] Suc.prems(2, 3) Cons by auto
  qed simp
qed

definition nexts :: "'a bio_st_scheme \<Rightarrow> nat \<Rightarrow> nat" where "nexts s b = b_next (bufs s b)"
definition prevs :: "'a bio_st_scheme \<Rightarrow> nat \<Rightarrow> nat" where "prevs s b = b_prev (bufs s b)"

text \<open>\<open>blist s xs\<close>: following \<^verbatim>\<open>next\<close> from the head meets the buffers \<open>xs\<close>, following \<^verbatim>\<open>prev\<close> the same
  backwards, and every buffer is there.\<close>

definition blist :: "'a bio_st_scheme \<Rightarrow> nat list \<Rightarrow> bool" where
  "blist s xs \<longleftrightarrow> distinct xs \<and> set xs = {..<NBUF} \<and>
     links (nexts s) (bhead # xs @ [bhead]) \<and> links (prevs s) (bhead # rev xs @ [bhead])"

lemma blist_lists:
  assumes "blist s xs"
  shows "mru_list s = xs" "lru_list s = rev xs"
proof -
  have h: "bhead \<notin> set xs" and len: "length xs \<le> NBUF"
    using assms distinct_card [of xs] by (auto simp: blist_def)
  have f: "links (nexts s) (xs @ [bhead])" "nexts s bhead = hd (xs @ [bhead])"
    using assms by (cases xs; auto simp: blist_def)+
  have g: "links (prevs s) (rev xs @ [bhead])" "prevs s bhead = hd (rev xs @ [bhead])"
    using assms by (cases "rev xs"; auto simp: blist_def)+
  show "mru_list s = xs" using follow_links [OF f(1) h len] f(2) by (simp add: mru_list_def nexts_def [abs_def])
  show "lru_list s = rev xs" using follow_links [OF g(1), of NBUF] h len g(2) by (simp add: lru_list_def prevs_def [abs_def])
qed

text \<open>The state with other links and everything else the same.\<close>

definition relinked :: "'a bio_st_scheme \<Rightarrow> (nat \<Rightarrow> nat) \<Rightarrow> (nat \<Rightarrow> nat) \<Rightarrow> 'a bio_st_scheme" where
  "relinked s N P = s\<lparr>bufs := \<lambda>c. (bufs s c)\<lparr>b_prev := P c, b_next := N c\<rparr>\<rparr>"

lemma relinked_self: "relinked s (nexts s) (prevs s) = s"
  by (simp add: relinked_def nexts_def prevs_def)

lemma relinked_eval:
  "upd_buf b (\<lambda>B. B\<lparr>b_next := x\<rparr>) (relinked s N P) = Ret () (relinked s (N(b := x)) P)"
  "upd_buf b (\<lambda>B. B\<lparr>b_prev := x\<rparr>) (relinked s N P) = Ret () (relinked s N (P(b := x)))"
  "buf_at b (relinked s N P) = Ret ((bufs s b)\<lparr>b_prev := P b, b_next := N b\<rparr>) (relinked s N P)"
  by (auto simp: relinked_def kmonad fun_eq_iff intro!: arg_cong [where f = "\<lambda>B. s\<lparr>bufs := B\<rparr>"])

lemma relinked_links [simp]: "nexts (relinked s N P) = N" "prevs (relinked s N P) = P"
  by (auto simp: relinked_def nexts_def prevs_def)

lemma move_eval:
  assumes "n = nexts s b" "p = prevs s b" "N = (nexts s)(p := n)" "P = (prevs s)(n := p)"
  shows "kthen (bunlink b) (blink_front b) s = Ret () (relinked s (N(b := N bhead, bhead := b)) (P(b := bhead, N bhead := b)))"
proof -
  have "kthen (bunlink b) (blink_front b) (relinked s (nexts s) (prevs s)) =
      Ret () (relinked s (N(b := N bhead, bhead := b)) (P(b := bhead, N bhead := b)))"
    by (simp add: bunlink_def blink_front_def kthen_eval kbind_eval relinked_eval assms)
  then show ?thesis by (simp add: relinked_self)
qed

lemma move_to_front:
  assumes "blist s xs" "b < NBUF"
  shows "\<exists>t. kthen (bunlink b) (blink_front b) s = Ret () t \<and> (\<exists>N P. t = relinked s N P) \<and> blist t (b # removeAll b xs)"
proof -
  have "b \<in> set xs" using assms by (auto simp: blist_def)
  then obtain as cs where xs: "xs = as @ b # cs" by (auto simp: in_set_conv_decomp)
  have d: "distinct (bhead # as @ b # cs)" "set (as @ b # cs) = {..<NBUF}"
    using assms(1) by (auto simp: blist_def xs)
  have l: "links (nexts s) (bhead # as @ b # cs @ [bhead])" "links (prevs s) (bhead # rev cs @ b # rev as @ [bhead])"
    using assms(1) by (simp_all add: blist_def xs)
  note f = links_remove [OF l(1) d(1)]
  have d': "distinct (bhead # rev cs @ b # rev as)" using d(1) by auto
  note g = links_remove [OF l(2) d']
  let ?n = "hd (cs @ [bhead])" and ?p = "hd (rev as @ [bhead])"
  have pl: "last (bhead # as) = ?p" "last (bhead # rev cs) = ?n" by (simp_all add: last_rev hd_append hd_rev)
  have nb: "nexts s b = ?n" "prevs s b = ?p" using f(1) g(1) by auto
  define N1 where "N1 = (nexts s)(?p := ?n)"
  define P1 where "P1 = (prevs s)(?n := ?p)"
  have l1: "links N1 (bhead # (as @ cs) @ [bhead])" "links P1 (bhead # rev (as @ cs) @ [bhead])"
    using f(2) [unfolded pl] g(2) [unfolded pl] by (simp_all add: N1_def P1_def)
  have nin: "b \<noteq> bhead" "b \<notin> set (as @ cs)" "bhead \<notin> set (as @ cs)" "distinct (bhead # rev (as @ cs))" using d by auto
  note f2 = links_front [OF l1(1) nin(1-3)]
  have g2: "links (P1(b := bhead, last (bhead # rev (as @ cs)) := b)) (bhead # rev (as @ cs) @ [b, bhead])"
    using nin by (intro links_back [OF l1(2)]) auto
  have hd_last: "last (bhead # rev (as @ cs)) = N1 bhead"
    using f2(1) by (simp add: last_rev hd_append del: rev_append)
  let ?N = "N1(b := N1 bhead, bhead := b)" and ?P = "P1(b := bhead, N1 bhead := b)"
  let ?t = "relinked s ?N ?P"
  have "kthen (bunlink b) (blink_front b) s = Ret () ?t"
    by (rule move_eval) (simp_all add: nb N1_def P1_def)
  moreover have "blist ?t (b # removeAll b xs)"
  proof -
    have "removeAll b xs = as @ cs" using nin(2) by (simp add: xs)
    then show ?thesis using f2(2) g2 hd_last nin d(2) assms(2) by (auto simp: blist_def)
  qed
  ultimately show ?thesis by blast
qed

section \<open>Sleep locks that are not contended\<close>

lemma slocks_held: "s\<lparr>held := h, slocks := k\<rparr> = s\<lparr>slocks := k, held := h\<rparr>"
  by (cases s) simp

lemma bufs_held: "s\<lparr>held := h, bufs := B\<rparr> = s\<lparr>bufs := B, held := h\<rparr>"
  by (cases s) simp

lemma full_slock: "(k :: sleeplock)\<lparr>sl_locked := b, sl_pid := x\<rparr> = \<lparr>sl_locked = b, sl_pid = x\<rparr>"
  by (cases k) simp

lemma acquiresleep_eval:
  assumes "held s = {}" "cproc s = Some p" "\<not> sl_locked (slocks s l)"
  shows "acquiresleep l s = Ret () (s\<lparr>slocks := (slocks s)(l := \<lparr>sl_locked = True, sl_pid = p_pid (procs s p)\<rparr>)\<rparr>)"
  using assms by (simp add: acquiresleep_def acquiresleep_loop_def kmonad full_slock)

lemma holdingsleep_eval:
  assumes "held s = {}" "cproc s = Some p"
  shows "holdingsleep l s = Ret (sl_locked (slocks s l) \<and> sl_pid (slocks s l) = p_pid (procs s p)) s"
  using assms by (simp add: holdingsleep_def kmonad)

lemma releasesleep_eval:
  assumes "held s = {}"
  shows "releasesleep l s = Ret () (wake_all (Chan_slock l) (s\<lparr>slocks := (slocks s)(l := \<lparr>sl_locked = False, sl_pid = 0\<rparr>)\<rparr>))"
proof -
  let ?u = "s\<lparr>slocks := (slocks s)(l := \<lparr>sl_locked = False, sl_pid = 0\<rparr>)\<rparr>"
  define W where "W = wake_all (Chan_slock l) ?u"
  have w: "wakeup (Some (Chan_slock l)) (?u\<lparr>held := {Lsleep l}\<rparr>) = Ret () (W\<lparr>held := {Lsleep l}\<rparr>)"
    unfolding W_def wake_all_held [symmetric] by (rule wakeup_all) (simp add: no_plock_def)
  have h: "W\<lparr>held := {}\<rparr> = W" unfolding W_def by (rule held_same) (simp add: assms)
  show ?thesis unfolding W_def [symmetric] using assms w h
    by (simp add: releasesleep_def kmonad slocks_held full_slock)
qed

section \<open>Finding a buffer\<close>

lemma kfind_find:
  assumes "\<And>b. b \<in> set xs \<Longrightarrow> \<not> Q b \<Longrightarrow> body b s = Ret None s"
    and "\<And>b. b \<in> set xs \<Longrightarrow> Q b \<Longrightarrow> body b s = Ret (Some (r b)) (t b)"
  shows "kfind xs body s = (case find Q xs of None \<Rightarrow> Ret None s | Some b \<Rightarrow> Ret (Some (r b)) (t b))"
  using assms by (induction xs) (simp_all add: kmonad)

definition buf_locked :: "nat \<Rightarrow> (buf \<Rightarrow> buf) \<Rightarrow> 'a bio_st_scheme \<Rightarrow> 'a bio_st_scheme" where
  "buf_locked b f s = s\<lparr>bufs := (bufs s)(b := f (bufs s b)),
     slocks := (slocks s)(Slock_buf b := \<lparr>sl_locked = True, sl_pid = p_pid (procs s (the (cproc s)))\<rparr>)\<rparr>"

lemma lock_buf:
  assumes "held s = {}" "cproc s = Some p" "\<not> sl_locked (slocks s (Slock_buf b))"
  shows "kthen (upd_buf b f) (kthen (release Lbcache) (kthen (acquiresleep (Slock_buf b)) (kret (Some b)))) (s\<lparr>held := {Lbcache}\<rparr>) =
    Ret (Some b) (buf_locked b f s)"
proof -
  let ?u = "s\<lparr>bufs := (bufs s)(b := f (bufs s b))\<rparr>"
  have "acquiresleep (Slock_buf b) ?u = Ret () (buf_locked b f s)"
    using acquiresleep_eval [of ?u p "Slock_buf b"] assms by (simp add: buf_locked_def)
  moreover have "?u\<lparr>held := {}\<rparr> = ?u" by (rule held_same) (simp add: assms)
  ultimately show ?thesis by (simp add: kmonad bufs_held)
qed

definition bmatch :: "'a bio_st_scheme \<Rightarrow> u32 \<Rightarrow> u32 \<Rightarrow> nat \<Rightarrow> bool" where
  "bmatch s dev bn b \<longleftrightarrow> b_dev (bufs s b) = dev \<and> b_blockno (bufs s b) = bn"

lemma bget_eval:
  assumes "held s = {}" "cproc s = Some p" "blist s xs"
    and "\<And>b. b < NBUF \<Longrightarrow> bmatch s dev bn b \<or> b_refcnt (bufs s b) = 0 \<Longrightarrow> \<not> sl_locked (slocks s (Slock_buf b))"
  shows "bget dev bn s =
    (case find (bmatch s dev bn) xs of
       Some b \<Rightarrow> Ret b (buf_locked b (\<lambda>B. B\<lparr>b_refcnt := b_refcnt B + 1\<rparr>) s)
     | None \<Rightarrow>
         (case find (\<lambda>b. b_refcnt (bufs s b) = 0) (rev xs) of
            Some b \<Rightarrow> Ret b (buf_locked b (\<lambda>B. B\<lparr>b_dev := dev, b_blockno := bn, b_valid := False, b_refcnt := 1\<rparr>) s)
          | None \<Rightarrow> Panic ''bget: no buffers''))"
proof -
  let ?s = "s\<lparr>held := {Lbcache}\<rparr>"
  let ?hit = "\<lambda>b. kbind (buf_at b) (\<lambda>B. if b_dev B = dev \<and> b_blockno B = bn then
         kthen (upd_buf b (\<lambda>B. B\<lparr>b_refcnt := b_refcnt B + 1\<rparr>))
         (kthen (release Lbcache) (kthen (acquiresleep (Slock_buf b)) (kret (Some b)))) else kret None)"
  let ?miss = "\<lambda>b. kbind (buf_at b) (\<lambda>B. if b_refcnt B = 0 then
         kthen (upd_buf b (\<lambda>B. B\<lparr>b_dev := dev, b_blockno := bn, b_valid := False, b_refcnt := 1\<rparr>))
         (kthen (release Lbcache) (kthen (acquiresleep (Slock_buf b)) (kret (Some b)))) else kret None)"
  have lists: "mru_list ?s = xs" "lru_list ?s = rev xs"
    using blist_lists [OF assms(3)] by (simp_all add: mru_list_def lru_list_def)
  have mem: "b < NBUF" if "b \<in> set xs" for b using that assms(3) by (auto simp: blist_def)
  have hit: "kfind xs ?hit ?s = (case find (bmatch s dev bn) xs of None \<Rightarrow> Ret None ?s
      | Some b \<Rightarrow> Ret (Some b) (buf_locked b (\<lambda>B. B\<lparr>b_refcnt := b_refcnt B + 1\<rparr>) s))"
    by (rule kfind_find) (use lock_buf [OF assms(1, 2)] assms(4) mem in \<open>auto simp: kbind_eval buf_at_eval kret_eval bmatch_def\<close>)
  have miss: "kfind (rev xs) ?miss ?s = (case find (\<lambda>b. b_refcnt (bufs s b) = 0) (rev xs) of None \<Rightarrow> Ret None ?s
      | Some b \<Rightarrow> Ret (Some b) (buf_locked b (\<lambda>B. B\<lparr>b_dev := dev, b_blockno := bn, b_valid := False, b_refcnt := 1\<rparr>) s))"
    by (rule kfind_find) (use lock_buf [OF assms(1, 2)] assms(4) mem in \<open>auto simp: kbind_eval buf_at_eval kret_eval\<close>)
  have "bget dev bn s = kbind (kget mru_list) (\<lambda>l1. kbind (kfind l1 ?hit) (\<lambda>r. case r of Some b \<Rightarrow> kret b
     | None \<Rightarrow> kbind (kget lru_list) (\<lambda>l2. kbind (kfind l2 ?miss) (\<lambda>r. case r of Some b \<Rightarrow> kret b
         | None \<Rightarrow> kpanic ''bget: no buffers'')))) ?s"
    using assms(1) by (simp add: bget_def kthen_eval acquire_def)
  also have "\<dots> = (case find (bmatch s dev bn) xs of
       Some b \<Rightarrow> Ret b (buf_locked b (\<lambda>B. B\<lparr>b_refcnt := b_refcnt B + 1\<rparr>) s)
     | None \<Rightarrow> (case find (\<lambda>b. b_refcnt (bufs s b) = 0) (rev xs) of
            Some b \<Rightarrow> Ret b (buf_locked b (\<lambda>B. B\<lparr>b_dev := dev, b_blockno := bn, b_valid := False, b_refcnt := 1\<rparr>) s)
          | None \<Rightarrow> Panic ''bget: no buffers''))"
  proof (cases "find (bmatch s dev bn) xs")
    case None
    with hit have "kfind xs ?hit ?s = Ret None ?s" by simp
    then show ?thesis using None
      by (cases "find (\<lambda>b. b_refcnt (bufs s b) = 0) (rev xs)") (simp_all add: kbind_eval kget_eval lists miss kret_eval kpanic_eval)
  next
    case (Some b)
    with hit have "kfind xs ?hit ?s = Ret (Some b) (buf_locked b (\<lambda>B. B\<lparr>b_refcnt := b_refcnt B + 1\<rparr>) s)" by simp
    then show ?thesis using Some by (simp add: kbind_eval kget_eval lists kret_eval)
  qed
  finally show ?thesis .
qed

section \<open>The cache as a view of the disk\<close>

text \<open>The buffer of a block, its contents as the kernel sees them, and how often it is in use.\<close>

definition matches :: "(nat \<Rightarrow> buf) \<Rightarrow> u32 \<Rightarrow> u32 \<Rightarrow> nat \<Rightarrow> bool" where
  "matches B dev bn b \<longleftrightarrow> b_dev (B b) = dev \<and> b_blockno (B b) = bn"

definition slot :: "(nat \<Rightarrow> buf) \<Rightarrow> u32 \<Rightarrow> u32 \<Rightarrow> nat option" where
  "slot B dev bn = find (matches B dev bn) [0..<NBUF]"

definition bview :: "(nat \<Rightarrow> buf) \<Rightarrow> (u32 \<Rightarrow> block) \<Rightarrow> u32 \<Rightarrow> u32 \<Rightarrow> block" where
  "bview B D dev bn = (case slot B dev bn of Some b \<Rightarrow> b_data (B b) | None \<Rightarrow> D bn)"

definition brefs :: "(nat \<Rightarrow> buf) \<Rightarrow> u32 \<Rightarrow> u32 \<Rightarrow> nat" where
  "brefs B dev bn = (case slot B dev bn of Some b \<Rightarrow> unat (b_refcnt (B b)) | None \<Rightarrow> 0)"

text \<open>\<open>cells dev B D M\<close>: the buffers hold valid contents of distinct blocks of \<open>dev\<close>, those not in use what
  the disk has, and the running process has the buffers of the blocks in \<open>dom M\<close>.\<close>

definition cells :: "u32 \<Rightarrow> (nat \<Rightarrow> buf) \<Rightarrow> (u32 \<Rightarrow> block) \<Rightarrow> (u32 \<rightharpoonup> nat) \<Rightarrow> bool" where
  "cells dev B D M \<longleftrightarrow>
     (\<forall>b<NBUF. b_dev (B b) = dev \<longrightarrow> b_valid (B b)) \<and> (\<forall>b<NBUF. b_dev (B b) \<noteq> dev \<longrightarrow> b_refcnt (B b) = 0) \<and>
     (\<forall>b<NBUF. \<forall>c<NBUF. \<forall>bn. matches B dev bn b \<longrightarrow> matches B dev bn c \<longrightarrow> b = c) \<and>
     (\<forall>b<NBUF. b_dev (B b) = dev \<longrightarrow> b_refcnt (B b) = 0 \<longrightarrow> b_data (B b) = D (b_blockno (B b))) \<and>
     (\<forall>bn b. M bn = Some b \<longrightarrow> b < NBUF \<and> matches B dev bn b \<and> b_refcnt (B b) \<noteq> 0)"

lemma cells_rules:
  assumes "cells dev B D M"
  shows "\<And>b. b < NBUF \<Longrightarrow> b_dev (B b) = dev \<Longrightarrow> b_valid (B b)"
    "\<And>b. b < NBUF \<Longrightarrow> b_dev (B b) \<noteq> dev \<Longrightarrow> b_refcnt (B b) = 0"
    "\<And>b c bn. b < NBUF \<Longrightarrow> c < NBUF \<Longrightarrow> matches B dev bn b \<Longrightarrow> matches B dev bn c \<Longrightarrow> b = c"
    "\<And>b. b < NBUF \<Longrightarrow> b_dev (B b) = dev \<Longrightarrow> b_refcnt (B b) = 0 \<Longrightarrow> b_data (B b) = D (b_blockno (B b))"
    "\<And>bn b. M bn = Some b \<Longrightarrow> b < NBUF \<and> matches B dev bn b \<and> b_refcnt (B b) \<noteq> 0"
  using assms unfolding cells_def by blast+

lemma slot_None: "slot B dev bn = None \<longleftrightarrow> (\<forall>b<NBUF. \<not> matches B dev bn b)"
  by (auto simp: slot_def find_None_iff)

lemma slot_Some:
  assumes "cells dev B D M"
  shows "slot B dev bn = Some b \<longleftrightarrow> b < NBUF \<and> matches B dev bn b"
proof
  show "b < NBUF \<and> matches B dev bn b" if "slot B dev bn = Some b"
    using that by (auto simp: slot_def find_Some_iff simp del: upt_Suc)
  show "slot B dev bn = Some b" if b: "b < NBUF \<and> matches B dev bn b"
  proof (cases "slot B dev bn")
    case None
    then show ?thesis using b by (auto simp: slot_None)
  next
    case (Some c)
    then have "c < NBUF" "matches B dev bn c" by (auto simp: slot_def find_Some_iff simp del: upt_Suc)
    then show ?thesis using Some b assms by (auto simp: cells_def)
  qed
qed

lemma slot_eqI:
  assumes "\<And>b. b < NBUF \<Longrightarrow> matches C dev bn b = matches B dev bn b"
  shows "slot C dev bn = slot B dev bn"
  unfolding slot_def by (rule find_cong) (use assms in auto)

lemma cells_view:
  assumes "cells dev B D M" "b < NBUF" "matches B dev bn b"
  shows "bview B D dev bn = b_data (B b)" "brefs B dev bn = unat (b_refcnt (B b))"
  using slot_Some [OF assms(1), of bn b] assms(2, 3) by (simp_all add: bview_def brefs_def)

text \<open>Changing fields of one buffer other than its block.\<close>

lemma cells_change:
  assumes c: "cells dev B D M" and b: "b < NBUF" "matches B dev bn b"
    and C: "C = B(b := (B b)\<lparr>b_refcnt := r, b_data := x\<rparr>)"
    and E: "\<And>bo. bo \<noteq> bn \<Longrightarrow> E bo = D bo" "r = 0 \<Longrightarrow> x = E bn"
    and N: "\<And>bo c. N bo = Some c \<Longrightarrow> M bo = Some c \<and> bo \<noteq> bn \<or> bo = bn \<and> c = b \<and> r \<noteq> 0"
  shows "cells dev C E N" "bview C E dev = (bview B D dev)(bn := x)" "brefs C dev = (brefs B dev)(bn := unat r)"
proof -
  have m: "matches C dev bo c = matches B dev bo c" for bo c by (simp add: C matches_def)
  have sl: "slot C dev bo = slot B dev bo" for bo by (rule slot_eqI) (simp add: m)
  have other: "b_blockno (B c) \<noteq> bn" if "c < NBUF" "c \<noteq> b" "b_dev (B c) = dev" for c
    using c b that by (auto simp: cells_def matches_def)
  show "cells dev C E N" unfolding cells_def
  proof (intro conjI allI impI)
    fix d assume d: "d < NBUF"
    show "b_dev (C d) = dev \<Longrightarrow> b_valid (C d)" using c d by (auto simp: cells_def C)
    show "b_dev (C d) \<noteq> dev \<Longrightarrow> b_refcnt (C d) = 0" using c d b by (auto simp: cells_def C matches_def)
    show "d = e" if "e < NBUF" "matches C dev bo d" "matches C dev bo e" for e bo
      using cells_rules(3) [OF c d that(1), of bo] that by (simp add: m)
    show "b_data (C d) = E (b_blockno (C d))" if "b_dev (C d) = dev" "b_refcnt (C d) = 0"
    proof (cases "d = b")
      case True
      then show ?thesis using that b E(2) by (simp add: C matches_def)
    next
      case False
      then show ?thesis using that c d other E(1) by (simp add: C cells_def)
    qed
  next
    fix bo d assume "N bo = Some d"
    from N [OF this] show "d < NBUF" "matches C dev bo d" "b_refcnt (C d) \<noteq> 0"
      using cells_rules(5) [OF c, of bo d] b by (auto simp: m) (auto simp: C matches_def split: if_splits)
  qed
  have sb: "slot B dev bn = Some b" using slot_Some [OF c] b by simp
  have so: "e \<noteq> b" if "slot B dev bo = Some e" "bo \<noteq> bn" for bo e
    using that slot_Some [OF c] b by (auto simp: matches_def)
  have Ce: "b_data (C e) = (if e = b then x else b_data (B e))" "b_refcnt (C e) = (if e = b then r else b_refcnt (B e))" for e
    by (simp_all add: C)
  show "bview C E dev = (bview B D dev)(bn := x)"
  proof
    fix bo
    show "bview C E dev bo = ((bview B D dev)(bn := x)) bo"
      using sb so [of bo] E(1) [of bo] by (cases "slot B dev bo") (auto simp: bview_def sl Ce)
  qed
  show "brefs C dev = (brefs B dev)(bn := unat r)"
  proof
    fix bo
    show "brefs C dev bo = ((brefs B dev)(bn := unat r)) bo"
      using sb so [of bo] by (cases "slot B dev bo") (auto simp: brefs_def sl Ce)
  qed
qed

lemma cells_recycle:
  assumes c: "cells dev B D M" and b: "b < NBUF" "b_refcnt (B b) = 0" and new: "\<And>c. c < NBUF \<Longrightarrow> \<not> matches B dev bn c"
    and C: "C = B(b := (B b)\<lparr>b_dev := dev, b_blockno := bn, b_valid := True, b_refcnt := 1, b_data := D bn\<rparr>)"
  shows "cells dev C D (M(bn \<mapsto> b))" "bview C D dev = bview B D dev" "brefs C dev = (brefs B dev)(bn := 1)"
proof -
  have m: "matches C dev bo d = (if d = b then bo = bn else matches B dev bo d)" for bo d by (auto simp: C matches_def)
  have Ce: "b_data (C e) = (if e = b then D bn else b_data (B e))" "b_refcnt (C e) = (if e = b then 1 else b_refcnt (B e))" for e
    by (simp_all add: C)
  have Mb: "d \<noteq> b" "bo \<noteq> bn" if "M bo = Some d" for bo d
    using cells_rules(5) [OF c that] b(2) new by auto
  show cl: "cells dev C D (M(bn \<mapsto> b))" unfolding cells_def
  proof (intro conjI allI impI)
    fix d assume d: "d < NBUF"
    show "b_dev (C d) = dev \<Longrightarrow> b_valid (C d)" using cells_rules(1) [OF c d] by (auto simp: C)
    show "b_dev (C d) \<noteq> dev \<Longrightarrow> b_refcnt (C d) = 0" using cells_rules(2) [OF c d] by (auto simp: C split: if_splits)
    show "d = e" if "e < NBUF" "matches C dev bo d" "matches C dev bo e" for e bo
      using cells_rules(3) [OF c d that(1), of bo] that new [OF d] new [OF that(1)] by (auto simp: m split: if_splits)
    show "b_data (C d) = D (b_blockno (C d))" if "b_dev (C d) = dev" "b_refcnt (C d) = 0"
      using that cells_rules(4) [OF c d] by (auto simp: C split: if_splits)
  next
    fix bo d assume M': "(M(bn \<mapsto> b)) bo = Some d"
    have "d < NBUF \<and> matches C dev bo d \<and> b_refcnt (C d) \<noteq> 0"
    proof (cases "bo = bn")
      case True
      then show ?thesis using M' b(1) by (simp add: m Ce)
    next
      case False
      then have "M bo = Some d" using M' by simp
      then show ?thesis using cells_rules(5) [OF c, of bo d] Mb [of bo d] by (simp add: m Ce)
    qed
    then show "d < NBUF" "matches C dev bo d" "b_refcnt (C d) \<noteq> 0" by simp_all
  qed
  have sb: "slot C dev bn = Some b" using slot_Some [OF cl] b(1) by (simp add: m)
  have sn: "slot B dev bn = None" using new by (simp add: slot_None)
  have so: "slot C dev bo = (if slot B dev bo = Some b then None else slot B dev bo)" if "bo \<noteq> bn" for bo
  proof (cases "slot B dev bo")
    case None
    then have "slot C dev bo = None" using that unfolding slot_None by (auto simp: m)
    then show ?thesis using None by simp
  next
    case (Some e)
    then have e: "e < NBUF" "matches B dev bo e" using slot_Some [OF c] by auto
    show ?thesis
    proof (cases "e = b")
      case True
      have "\<not> matches C dev bo d" if "d < NBUF" for d
        using cells_rules(3) [OF c that e(1), of bo] e(2) True \<open>bo \<noteq> bn\<close> by (auto simp: m)
      then show ?thesis using True Some by (simp add: slot_None)
    next
      case False
      then show ?thesis using Some e slot_Some [OF cl, of bo e] by (simp add: m)
    qed
  qed
  have old: "b_data (B b) = D bo" if "slot B dev bo = Some b" for bo
    using that slot_Some [OF c, of bo b] cells_rules(4) [OF c b(1) _ b(2)] by (auto simp: matches_def)
  show "bview C D dev = bview B D dev"
  proof
    fix bo
    show "bview C D dev bo = bview B D dev bo"
      using sb sn so [of bo] old [of bo] by (cases "bo = bn") (auto simp: bview_def Ce split: option.split)
  qed
  show "brefs C dev = (brefs B dev)(bn := 1)"
  proof
    fix bo
    show "brefs C dev bo = ((brefs B dev)(bn := 1)) bo"
      using sb sn so [of bo] b(2) by (cases "bo = bn") (auto simp: brefs_def Ce split: option.split)
  qed
qed

lemma cells_relink:
  defines "C \<equiv> \<lambda>B P N c. (B c)\<lparr>b_prev := P c, b_next := N c\<rparr>"
  shows "cells dev (C B P N) D M = cells dev B D M" "bview (C B P N) D dev = bview B D dev" "brefs (C B P N) dev = brefs B dev"
proof -
  have m: "matches (C B P N) dev bn c = matches B dev bn c" for bn c by (simp add: C_def matches_def)
  have sl: "slot (C B P N) dev bn = slot B dev bn" for bn by (rule slot_eqI) (simp add: m)
  have C: "b_data (C B P N c) = b_data (B c)" "b_refcnt (C B P N c) = b_refcnt (B c)" "b_dev (C B P N c) = b_dev (B c)"
    "b_blockno (C B P N c) = b_blockno (B c)" "b_valid (C B P N c) = b_valid (B c)" for c by (simp_all add: C_def)
  show "cells dev (C B P N) D M = cells dev B D M" by (simp add: cells_def m C)
  show "bview (C B P N) D dev = bview B D dev" "brefs (C B P N) dev = brefs B dev"
    using C by (auto simp: fun_eq_iff bview_def brefs_def sl split: option.split)
qed

lemma cells_inj: "cells dev B D M \<Longrightarrow> M x = Some b \<Longrightarrow> M y = Some b \<Longrightarrow> x = y"
  using cells_rules(5) [of dev B D M x b] cells_rules(5) [of dev B D M y b] by (auto simp: matches_def)

section \<open>The operations on the cache\<close>

definition cache :: "u32 \<Rightarrow> 'a bio_st_scheme \<Rightarrow> (u32 \<rightharpoonup> nat) \<Rightarrow> bool" where
  "cache dev s M \<longleftrightarrow> held s = {} \<and> (\<exists>xs. blist s xs) \<and> cells dev (bufs s) (disk s) M \<and>
     (\<exists>p. cproc s = Some p \<and> (\<forall>b<NBUF. sl_locked (slocks s (Slock_buf b)) \<longleftrightarrow> b \<in> ran M) \<and>
       (\<forall>b\<in>ran M. sl_pid (slocks s (Slock_buf b)) = p_pid (procs s p)))"

definition cview :: "u32 \<Rightarrow> 'a bio_st_scheme \<Rightarrow> u32 \<Rightarrow> block" where
  "cview dev s = bview (bufs s) (disk s) dev"

definition crefs :: "u32 \<Rightarrow> 'a bio_st_scheme \<Rightarrow> u32 \<Rightarrow> nat" where
  "crefs dev s = brefs (bufs s) dev"

text \<open>Everything but the processes, the sleep locks, the buffers and the disk is the same.\<close>

definition cframe :: "'a bio_st_scheme \<Rightarrow> 'a bio_st_scheme \<Rightarrow> bool" where
  "cframe s t \<longleftrightarrow> t = s\<lparr>procs := procs t, slocks := slocks t, bufs := bufs t, disk := disk t, dtrace := dtrace t\<rparr>"

lemma cframe_upd: "cframe s t \<longleftrightarrow> (\<exists>p k B d x. t = s\<lparr>procs := p, slocks := k, bufs := B, disk := d, dtrace := x\<rparr>)"
proof
  show "\<exists>p k B d x. t = s\<lparr>procs := p, slocks := k, bufs := B, disk := d, dtrace := x\<rparr>" if "cframe s t"
    using that unfolding cframe_def by (intro exI)
  show "cframe s t" if "\<exists>p k B d x. t = s\<lparr>procs := p, slocks := k, bufs := B, disk := d, dtrace := x\<rparr>"
    using that by (elim exE) (simp add: cframe_def)
qed

lemma cframe_trans: "cframe s t \<Longrightarrow> cframe t u \<Longrightarrow> cframe s u"
  unfolding cframe_upd by (elim exE) (intro exI, simp)

lemma cframe_refl: "cframe s s"
  by (simp add: cframe_def)

lemma find_Some_mem: "find P xs = Some x \<Longrightarrow> x \<in> set xs \<and> P x"
  by (induction xs) (auto split: if_splits)

lemma blist_cong: "(\<And>b. b_next (bufs t b) = b_next (bufs s b)) \<Longrightarrow> (\<And>b. b_prev (bufs t b) = b_prev (bufs s b)) \<Longrightarrow> blist t xs = blist s xs"
  by (simp add: blist_def nexts_def [abs_def] prevs_def [abs_def])

lemma cache_locked:
  assumes "cache dev s M" "b < NBUF" "b \<notin> ran M" "M bn = None"
    and "cells dev ((bufs s)(b := f (bufs s b))) (disk s) (M(bn \<mapsto> b))"
    and "\<And>B. b_next (f B) = b_next B" "\<And>B. b_prev (f B) = b_prev B"
  shows "cache dev (buf_locked b f s) (M(bn \<mapsto> b))"
proof -
  obtain p xs where s: "held s = {}" "blist s xs" "cproc s = Some p" "\<And>b. b < NBUF \<Longrightarrow> sl_locked (slocks s (Slock_buf b)) \<longleftrightarrow> b \<in> ran M"
    "\<And>b. b \<in> ran M \<Longrightarrow> sl_pid (slocks s (Slock_buf b)) = p_pid (procs s p)" using assms(1) by (auto simp: cache_def)
  have "blist (buf_locked b f s) xs" using s(2) by (subst blist_cong [of _ s]) (simp_all add: buf_locked_def assms(6, 7))
  moreover have "ran (M(bn \<mapsto> b)) = insert b (ran M)" using assms(4) by simp
  ultimately show ?thesis using s assms(5) unfolding cache_def by (auto simp: buf_locked_def)
qed

lemma buf_locked_upd:
  "upd_buf b h (buf_locked b f s) = Ret () (buf_locked b (\<lambda>B. h (f B)) s)"
  by (cases s) (simp add: buf_locked_def kmonad)

lemma bread_recycled:
  assumes "bget dev bn s = Ret b (buf_locked b (\<lambda>B. B\<lparr>b_dev := dev, b_blockno := bn, b_valid := False, b_refcnt := 1\<rparr>) s)"
  shows "bread dev bn s = Ret b (buf_locked b (\<lambda>B. B\<lparr>b_dev := dev, b_blockno := bn, b_valid := True, b_refcnt := 1, b_data := disk s bn\<rparr>) s)"
proof -
  let ?f = "\<lambda>B. B\<lparr>b_dev := dev, b_blockno := bn, b_valid := False, b_refcnt := 1\<rparr>"
  define t where "t = buf_locked b ?f s"
  have t: "\<not> b_valid (bufs t b)" "disk t (b_blockno (bufs t b)) = disk s bn" by (simp_all add: t_def buf_locked_def)
  have "disk_transfer b False t = upd_buf b (\<lambda>B. B\<lparr>b_data := disk s bn\<rparr>) t"
    by (simp add: disk_transfer_def kmonad t)
  also have "\<dots> = Ret () (buf_locked b (\<lambda>B. (?f B)\<lparr>b_data := disk s bn\<rparr>) s)" unfolding t_def by (rule buf_locked_upd)
  finally have "kthen (disk_transfer b False) (upd_buf b (\<lambda>B. B\<lparr>b_valid := True\<rparr>)) t =
      Ret () (buf_locked b (\<lambda>B. (?f B)\<lparr>b_data := disk s bn\<rparr>\<lparr>b_valid := True\<rparr>) s)"
    by (simp only: kthen_eval out.case buf_locked_upd)
  moreover have "(\<lambda>B :: buf. (?f B)\<lparr>b_data := disk s bn\<rparr>\<lparr>b_valid := True\<rparr>) =
      (\<lambda>B. B\<lparr>b_dev := dev, b_blockno := bn, b_valid := True, b_refcnt := 1, b_data := disk s bn\<rparr>)"
  proof
    fix B :: buf
    show "(?f B)\<lparr>b_data := disk s bn\<rparr>\<lparr>b_valid := True\<rparr> =
      B\<lparr>b_dev := dev, b_blockno := bn, b_valid := True, b_refcnt := 1, b_data := disk s bn\<rparr>" by (cases B) simp
  qed
  ultimately have "kthen (disk_transfer b False) (upd_buf b (\<lambda>B. B\<lparr>b_valid := True\<rparr>)) t =
      Ret () (buf_locked b (\<lambda>B. B\<lparr>b_dev := dev, b_blockno := bn, b_valid := True, b_refcnt := 1, b_data := disk s bn\<rparr>) s)"
    by (simp only:)
  then show ?thesis using assms t(1) by (simp add: bread_def kbind_eval kthen_eval buf_at_eval kwhen_def kret_eval t_def [symmetric])
qed

lemma bread_spec:
  assumes "cache dev s M" "M bn = None" "crefs dev s bn < 2 ^ 32 - 1"
    and room: "0 < crefs dev s bn \<or> card {x. 0 < crefs dev s x} < NBUF"
  shows "\<exists>b t. bread dev bn s = Ret b t \<and> cache dev t (M(bn \<mapsto> b)) \<and> cview dev t = cview dev s \<and>
    crefs dev t = (crefs dev s)(bn := crefs dev s bn + 1) \<and> disk t = disk s \<and> dtrace t = dtrace s \<and> cframe s t"
proof -
  obtain p xs where s: "held s = {}" "blist s xs" "cproc s = Some p" "\<And>b. b < NBUF \<Longrightarrow> sl_locked (slocks s (Slock_buf b)) \<longleftrightarrow> b \<in> ran M"
    and c: "cells dev (bufs s) (disk s) M" using assms(1) by (auto simp: cache_def)
  have xs: "set xs = {..<NBUF}" using s(2) by (simp add: blist_def)
  have nM: "b \<notin> ran M" if "bmatch s dev bn b \<or> b_refcnt (bufs s b) = 0" for b
  proof
    assume "b \<in> ran M"
    then obtain bo where bo: "M bo = Some b" by (auto simp: ran_def)
    from cells_rules(5) [OF c bo] that assms(2) bo show False by (auto simp: bmatch_def matches_def)
  qed
  have ev: "bget dev bn s = (case find (bmatch s dev bn) xs of
       Some b \<Rightarrow> Ret b (buf_locked b (\<lambda>B. B\<lparr>b_refcnt := b_refcnt B + 1\<rparr>) s)
     | None \<Rightarrow> (case find (\<lambda>b. b_refcnt (bufs s b) = 0) (rev xs) of
            Some b \<Rightarrow> Ret b (buf_locked b (\<lambda>B. B\<lparr>b_dev := dev, b_blockno := bn, b_valid := False, b_refcnt := 1\<rparr>) s)
          | None \<Rightarrow> Panic ''bget: no buffers''))"
    by (rule bget_eval [OF s(1, 3, 2)]) (use s(4) nM in blast)
  show ?thesis
  proof (cases "find (bmatch s dev bn) xs")
    case (Some b)
    let ?f = "\<lambda>B. B\<lparr>b_refcnt := b_refcnt B + 1\<rparr>"
    have b: "b < NBUF" "bmatch s dev bn b" using find_Some_mem [OF Some] xs by auto
    then have m: "matches (bufs s) dev bn b" by (simp add: bmatch_def matches_def)
    have rf: "crefs dev s bn = unat (b_refcnt (bufs s b))" using cells_view(2) [OF c b(1) m] by (simp add: crefs_def)
    have nz: "unat (b_refcnt (bufs s b) + 1) = unat (b_refcnt (bufs s b)) + 1"
      using assms(3) rf by (simp add: unat_word_ariths)
    have "b_refcnt (bufs s b) + 1 \<noteq> 0" using nz by (metis Suc_eq_plus1 nat.simps(3) unsigned_0)
    have C: "(bufs s)(b := ?f (bufs s b)) = (bufs s)(b := (bufs s b)\<lparr>b_refcnt := b_refcnt (bufs s b) + 1, b_data := b_data (bufs s b)\<rparr>)" by simp
    have N: "(M(bn \<mapsto> b)) bo = Some d \<Longrightarrow> M bo = Some d \<and> bo \<noteq> bn \<or> bo = bn \<and> d = b \<and> b_refcnt (bufs s b) + 1 \<noteq> 0" for bo d
      using \<open>b_refcnt (bufs s b) + 1 \<noteq> 0\<close> by (auto split: if_splits)
    note ch = cells_change [OF c b(1) m C, of "disk s" "M(bn \<mapsto> b)", OF refl _ N]
    have cl: "cells dev ((bufs s)(b := ?f (bufs s b))) (disk s) (M(bn \<mapsto> b))"
      using ch(1) \<open>b_refcnt (bufs s b) + 1 \<noteq> 0\<close> by simp
    have "bview ((bufs s)(b := ?f (bufs s b))) (disk s) dev = (bview (bufs s) (disk s) dev)(bn := b_data (bufs s b))"
      using ch(2) \<open>b_refcnt (bufs s b) + 1 \<noteq> 0\<close> by simp
    also have "\<dots> = bview (bufs s) (disk s) dev" by (rule fun_upd_idem) (rule cells_view(1) [OF c b(1) m])
    finally have vw: "bview ((bufs s)(b := ?f (bufs s b))) (disk s) dev = bview (bufs s) (disk s) dev" .
    have rr: "brefs ((bufs s)(b := ?f (bufs s b))) dev = (brefs (bufs s) dev)(bn := unat (b_refcnt (bufs s b) + 1))"
      using ch(3) \<open>b_refcnt (bufs s b) + 1 \<noteq> 0\<close> by simp
    have "cache dev (buf_locked b ?f s) (M(bn \<mapsto> b))"
      by (rule cache_locked [OF assms(1) b(1) _ assms(2)]) (use nM b cl in auto)
    moreover have "b_valid (bufs (buf_locked b ?f s) b)" using cells_rules(1) [OF c b(1)] b(2) by (simp add: buf_locked_def bmatch_def)
    then have "bread dev bn s = Ret b (buf_locked b ?f s)" using ev Some by (simp add: bread_def kmonad)
    ultimately show ?thesis
      using vw rr nz rf
      by (intro exI [of _ b] exI [of _ "buf_locked b ?f s"])
        (simp add: cview_def crefs_def buf_locked_def cframe_def)
  next
    case None
    have new: "\<not> matches (bufs s) dev bn d" if "d < NBUF" for d
      using None that xs by (auto simp: find_None_iff bmatch_def matches_def)
    then have "slot (bufs s) dev bn = None" by (simp add: slot_None)
    then have r0: "crefs dev s bn = 0" by (simp add: crefs_def brefs_def)
    obtain b where b: "find (\<lambda>b. b_refcnt (bufs s b) = 0) (rev xs) = Some b"
    proof (cases "find (\<lambda>b. b_refcnt (bufs s b) = 0) (rev xs)")
      case None
      then have nz: "b_refcnt (bufs s d) \<noteq> 0" if "d < NBUF" for d using that xs by (auto simp: find_None_iff)
      then have dv: "b_dev (bufs s d) = dev" if "d < NBUF" for d using cells_rules(2) [OF c that] that by auto
      have "inj_on (\<lambda>d. b_blockno (bufs s d)) {..<NBUF}"
        using cells_rules(3) [OF c] dv by (auto simp: inj_on_def matches_def)
      then have "card ((\<lambda>d. b_blockno (bufs s d)) ` {..<NBUF}) = NBUF" by (simp add: card_image)
      moreover have "(\<lambda>d. b_blockno (bufs s d)) ` {..<NBUF} \<subseteq> {x. 0 < crefs dev s x}"
      proof
        fix x assume "x \<in> (\<lambda>d. b_blockno (bufs s d)) ` {..<NBUF}"
        then obtain d where d: "d < NBUF" "x = b_blockno (bufs s d)" by auto
        then have "crefs dev s x = unat (b_refcnt (bufs s d))"
          using cells_view(2) [OF c d(1), of x] dv [OF d(1)] by (simp add: crefs_def matches_def)
        then show "x \<in> {x. 0 < crefs dev s x}" using nz [OF d(1)] by (simp add: unat_gt_0)
      qed
      ultimately have "NBUF \<le> card {x. 0 < crefs dev s x}" by (metis card_mono finite)
      then show thesis using room r0 by simp
    qed
    have bb: "b < NBUF" "b_refcnt (bufs s b) = 0" using find_Some_mem [OF b] xs by auto
    let ?f = "\<lambda>B. B\<lparr>b_dev := dev, b_blockno := bn, b_valid := True, b_refcnt := 1, b_data := disk s bn\<rparr>"
    note rc = cells_recycle [OF c bb new refl]
    have "bread dev bn s = Ret b (buf_locked b ?f s)"
      using ev None b by (intro bread_recycled) simp
    moreover have "cache dev (buf_locked b ?f s) (M(bn \<mapsto> b))"
      by (rule cache_locked [OF assms(1) bb(1) _ assms(2)]) (use nM bb rc(1) in auto)
    ultimately show ?thesis using rc(2, 3) r0
      by (intro exI [of _ b] exI [of _ "buf_locked b ?f s"])
        (simp add: cview_def crefs_def buf_locked_def cframe_def)
  qed
qed

text \<open>The operations on a buffer the process has.\<close>

lemma cache_buf:
  assumes "cache dev s M" "M bn = Some b"
  shows "b < NBUF" "matches (bufs s) dev bn b" "b_refcnt (bufs s b) \<noteq> 0" "cview dev s bn = b_data (bufs s b)"
    "crefs dev s bn = unat (b_refcnt (bufs s b))" "bdata b s = Ret (cview dev s bn) s"
proof -
  have c: "cells dev (bufs s) (disk s) M" using assms(1) by (simp add: cache_def)
  show b: "b < NBUF" "matches (bufs s) dev bn b" "b_refcnt (bufs s b) \<noteq> 0" using cells_rules(5) [OF c assms(2)] by auto
  show v: "cview dev s bn = b_data (bufs s b)" "crefs dev s bn = unat (b_refcnt (bufs s b))"
    using cells_view [OF c b(1, 2)] by (simp_all add: cview_def crefs_def)
  show "bdata b s = Ret (cview dev s bn) s" by (simp add: bdata_def kmonad v)
qed

lemma cache_bufs:
  assumes "cache dev s M" "cells dev B D M" "\<And>b. b_next (B b) = b_next (bufs s b)" "\<And>b. b_prev (B b) = b_prev (bufs s b)"
  shows "cache dev (s\<lparr>bufs := B, disk := D, dtrace := x\<rparr>) M"
proof -
  obtain xs where "blist s xs" using assms(1) by (auto simp: cache_def)
  then have "blist (s\<lparr>bufs := B, disk := D, dtrace := x\<rparr>) xs" by (subst blist_cong [of _ s]) (simp_all add: assms(3, 4))
  then show ?thesis using assms(1, 2) by (auto simp: cache_def)
qed

lemma bset_spec:
  assumes "cache dev s M" "M bn = Some b"
  shows "\<exists>t. bset b f s = Ret () t \<and> cache dev t M \<and> cview dev t = (cview dev s)(bn := f (cview dev s bn)) \<and>
    crefs dev t = crefs dev s \<and> disk t = disk s \<and> dtrace t = dtrace s \<and> cframe s t"
proof -
  note b = cache_buf [OF assms]
  have c: "cells dev (bufs s) (disk s) M" using assms(1) by (simp add: cache_def)
  let ?B = "(bufs s)(b := (bufs s b)\<lparr>b_data := f (b_data (bufs s b))\<rparr>)"
  have C: "?B = (bufs s)(b := (bufs s b)\<lparr>b_refcnt := b_refcnt (bufs s b), b_data := f (b_data (bufs s b))\<rparr>)" by simp
  have N: "M bo = Some d \<Longrightarrow> M bo = Some d \<and> bo \<noteq> bn \<or> bo = bn \<and> d = b \<and> b_refcnt (bufs s b) \<noteq> 0" for bo d
    using assms(2) b(3) by auto
  note ch = cells_change [OF c b(1, 2) C, of "disk s" M, OF refl _ N]
  let ?t = "s\<lparr>bufs := ?B\<rparr>"
  have "bset b f s = Ret () ?t" by (simp add: bset_def kmonad)
  moreover have "cache dev ?t M" using cache_bufs [OF assms(1) ch(1), of "dtrace s"] b(3) by simp
  moreover have "cview dev ?t = (cview dev s)(bn := f (cview dev s bn))" "crefs dev ?t = crefs dev s"
    using ch(2, 3) b(3-5) by (simp_all add: cview_def crefs_def fun_upd_idem)
  ultimately show ?thesis by (intro exI [of _ ?t]) (simp add: cframe_def)
qed

lemma bwrite_spec:
  assumes "cache dev s M" "M bn = Some b"
  shows "\<exists>t. bwrite b s = Ret () t \<and> cache dev t M \<and> cview dev t = cview dev s \<and> crefs dev t = crefs dev s \<and>
    disk t = (disk s)(bn := cview dev s bn) \<and> dtrace t = disk t # dtrace s \<and> cframe s t"
proof -
  note b = cache_buf [OF assms]
  obtain p where p: "cproc s = Some p" "\<And>b. b < NBUF \<Longrightarrow> sl_locked (slocks s (Slock_buf b)) \<longleftrightarrow> b \<in> ran M"
    "\<And>b. b \<in> ran M \<Longrightarrow> sl_pid (slocks s (Slock_buf b)) = p_pid (procs s p)"
    and c: "held s = {}" "cells dev (bufs s) (disk s) M" using assms(1) by (auto simp: cache_def)
  let ?D = "(disk s)(bn := b_data (bufs s b))"
  have C: "bufs s = (bufs s)(b := (bufs s b)\<lparr>b_refcnt := b_refcnt (bufs s b), b_data := b_data (bufs s b)\<rparr>)" by simp
  have N: "M bo = Some d \<Longrightarrow> M bo = Some d \<and> bo \<noteq> bn \<or> bo = bn \<and> d = b \<and> b_refcnt (bufs s b) \<noteq> 0" for bo d
    using assms(2) b(3) by auto
  note ch = cells_change [OF c(2) b(1, 2) C, of ?D M, OF _ _ N]
  let ?t = "s\<lparr>disk := ?D, dtrace := ?D # dtrace s\<rparr>"
  have "b \<in> ran M" using assms(2) by (rule ranI)
  then have "holdingsleep (Slock_buf b) s = Ret True s" using holdingsleep_eval [OF c(1) p(1)] p(2, 3) b(1) by simp
  then have "bwrite b s = Ret () ?t" using b(2) by (simp add: bwrite_def disk_transfer_def kmonad Let_def matches_def)
  moreover have "cache dev ?t M" using cache_bufs [OF assms(1) ch(1), of "?D # dtrace s"] b(3) by simp
  moreover have "cview dev ?t = cview dev s" "crefs dev ?t = crefs dev s"
    using ch(2) b(3, 4) by (auto simp: cview_def crefs_def fun_eq_iff)
  ultimately show ?thesis using b(4) by (intro exI [of _ ?t]) (simp add: cframe_def)
qed

lemma bunpin_spec:
  assumes "cache dev s M" "M bn = Some b" "2 \<le> crefs dev s bn"
  shows "\<exists>t. bunpin b s = Ret () t \<and> cache dev t M \<and> cview dev t = cview dev s \<and>
    crefs dev t = (crefs dev s)(bn := crefs dev s bn - 1) \<and> disk t = disk s \<and> dtrace t = dtrace s \<and> cframe s t"
proof -
  note b = cache_buf [OF assms(1, 2)]
  have c: "held s = {}" "cells dev (bufs s) (disk s) M" using assms(1) by (simp_all add: cache_def)
  let ?r = "b_refcnt (bufs s b) - 1"
  let ?B = "(bufs s)(b := (bufs s b)\<lparr>b_refcnt := ?r\<rparr>)"
  have r: "unat ?r = unat (b_refcnt (bufs s b)) - 1" using b(3) by (simp add: unat_minus_one)
  then have "unat ?r \<noteq> 0" using assms(3) b(5) by simp
  then have r0: "?r \<noteq> 0" by (metis unsigned_0)
  have C: "?B = (bufs s)(b := (bufs s b)\<lparr>b_refcnt := ?r, b_data := b_data (bufs s b)\<rparr>)" by simp
  have N: "M bo = Some d \<Longrightarrow> M bo = Some d \<and> bo \<noteq> bn \<or> bo = bn \<and> d = b \<and> ?r \<noteq> 0" for bo d
    using assms(2) r0 by auto
  note ch = cells_change [OF c(2) b(1, 2) C, of "disk s" M, OF refl _ N]
  let ?t = "s\<lparr>bufs := ?B\<rparr>"
  have "?t\<lparr>held := {}\<rparr> = ?t" by (rule held_same) (simp add: c)
  then have "bunpin b s = Ret () ?t" using c(1) by (simp add: bunpin_def kmonad bufs_held)
  moreover have "cache dev ?t M" using cache_bufs [OF assms(1) ch(1), of "dtrace s"] r0 by simp
  moreover have "cview dev ?t = cview dev s" "crefs dev ?t = (crefs dev s)(bn := crefs dev s bn - 1)"
    using ch(2, 3) r0 b(4, 5) r by (simp_all add: cview_def crefs_def fun_upd_idem)
  ultimately show ?thesis by (intro exI [of _ ?t]) (simp add: cframe_def)
qed

text \<open>What \<^verbatim>\<open>brelse\<close> does once the sleep lock is free: the reference, and the list when it was the last.\<close>

definition brelse_tail :: "nat \<Rightarrow> ('a bio_st_scheme, unit) km" where
  "brelse_tail b =
     kthen (acquire Lbcache)
     (kthen (upd_buf b (\<lambda>B. B\<lparr>b_refcnt := b_refcnt B - 1\<rparr>))
     (kbind (buf_at b) (\<lambda>B.
     kthen (kwhen (b_refcnt B = 0) (kthen (bunlink b) (blink_front b)))
     (release Lbcache))))"

lemma brelse_tail_eval:
  assumes "held s = {}" "blist s xs" "b < NBUF"
  shows "\<exists>N P. brelse_tail b s = Ret () (relinked (s\<lparr>bufs := (bufs s)(b := (bufs s b)\<lparr>b_refcnt := b_refcnt (bufs s b) - 1\<rparr>)\<rparr>) N P) \<and>
    blist (relinked (s\<lparr>bufs := (bufs s)(b := (bufs s b)\<lparr>b_refcnt := b_refcnt (bufs s b) - 1\<rparr>)\<rparr>) N P)
      (if b_refcnt (bufs s b) = 1 then b # removeAll b xs else xs)"
proof -
  define v where "v = s\<lparr>bufs := (bufs s)(b := (bufs s b)\<lparr>b_refcnt := b_refcnt (bufs s b) - 1\<rparr>)\<rparr>"
  have bv: "blist v xs" using assms(2) by (subst blist_cong [of _ s]) (simp_all add: v_def)
  have vh: "held v = {}" by (simp add: v_def assms(1))
  have e: "upd_buf b (\<lambda>B. B\<lparr>b_refcnt := b_refcnt B - 1\<rparr>) (s\<lparr>held := {Lbcache}\<rparr>) = Ret () (v\<lparr>held := {Lbcache}\<rparr>)"
    by (simp add: kmonad v_def bufs_held)
  have rl: "relinked (v\<lparr>held := h\<rparr>) N P = (relinked v N P)\<lparr>held := h\<rparr>" for h N P by (simp add: relinked_def)
  have hr: "(relinked v N P)\<lparr>held := {}\<rparr> = relinked v N P" for N P by (rule held_same) (simp add: relinked_def vh)
  show ?thesis
  proof (cases "b_refcnt (bufs s b) = 1")
    case True
    have "blist (v\<lparr>held := {Lbcache}\<rparr>) xs" using bv by (subst blist_cong [of _ v]) simp_all
    from move_to_front [OF this assms(3)] obtain N P where
      m: "kthen (bunlink b) (blink_front b) (v\<lparr>held := {Lbcache}\<rparr>) = Ret () (relinked v N P\<lparr>held := {Lbcache}\<rparr>)"
        "blist (relinked v N P\<lparr>held := {Lbcache}\<rparr>) (b # removeAll b xs)" by (auto simp: rl)
    have "blist (relinked v N P) (b # removeAll b xs)"
      using m(2) by (subst blist_cong [of _ "relinked v N P\<lparr>held := {Lbcache}\<rparr>"]) simp_all
    moreover have "brelse_tail b s = Ret () (relinked v N P)"
      using True assms(1) e m(1) hr by (simp add: brelse_tail_def kthen_eval kbind_eval acquire_def buf_at_eval kwhen_def v_def [symmetric] release_def)
        (simp add: v_def)
    ultimately show ?thesis using True by (auto simp: v_def)
  next
    case False
    then have "b_refcnt (bufs s b) - 1 \<noteq> 0" by simp
    then have "brelse_tail b s = Ret () v" using assms(1) e held_same [OF vh]
      by (simp add: brelse_tail_def kthen_eval kbind_eval acquire_def buf_at_eval kwhen_def kret_eval v_def [symmetric] release_def)
        (simp add: v_def)
    then show ?thesis using False bv relinked_self [of v]
      by (intro exI [of _ "nexts v"] exI [of _ "prevs v"]) (simp add: v_def)
  qed
qed

lemma brelse_eq:
  assumes "held s = {}" "cproc s = Some p" "sl_locked (slocks s (Slock_buf b))" "sl_pid (slocks s (Slock_buf b)) = p_pid (procs s p)"
  shows "brelse b s = brelse_tail b (wake_all (Chan_slock (Slock_buf b)) (s\<lparr>slocks := (slocks s)(Slock_buf b := \<lparr>sl_locked = False, sl_pid = 0\<rparr>)\<rparr>))"
  using holdingsleep_eval [OF assms(1, 2), of "Slock_buf b"] assms(3, 4) releasesleep_eval [OF assms(1), of "Slock_buf b"]
  by (simp add: brelse_def brelse_tail_def kthen_eval kbind_eval)

lemma brelse_spec:
  assumes "cache dev s M" "M bn = Some b" "crefs dev s bn = 1 \<Longrightarrow> cview dev s bn = disk s bn"
  shows "\<exists>t. brelse b s = Ret () t \<and> cache dev t (M(bn := None)) \<and> cview dev t = cview dev s \<and>
    crefs dev t = (crefs dev s)(bn := crefs dev s bn - 1) \<and> disk t = disk s \<and> dtrace t = dtrace s \<and> cframe s t"
proof -
  note b = cache_buf [OF assms(1, 2)]
  obtain p xs where p: "cproc s = Some p" "\<And>b. b < NBUF \<Longrightarrow> sl_locked (slocks s (Slock_buf b)) \<longleftrightarrow> b \<in> ran M"
    "\<And>b. b \<in> ran M \<Longrightarrow> sl_pid (slocks s (Slock_buf b)) = p_pid (procs s p)"
    and c: "held s = {}" "cells dev (bufs s) (disk s) M" "blist s xs" using assms(1) by (auto simp: cache_def)
  have bM: "b \<in> ran M" using assms(2) by (rule ranI)
  define u where "u = wake_all (Chan_slock (Slock_buf b)) (s\<lparr>slocks := (slocks s)(Slock_buf b := \<lparr>sl_locked = False, sl_pid = 0\<rparr>)\<rparr>)"
  have u: "held u = {}" "cproc u = Some p" "bufs u = bufs s" "disk u = disk s" "dtrace u = dtrace s"
    "slocks u = (slocks s)(Slock_buf b := \<lparr>sl_locked = False, sl_pid = 0\<rparr>)" "p_pid (procs u i) = p_pid (procs s i)" "cframe s u" for i
    using c(1) p(1) by (simp_all add: u_def wake_all_def cframe_def)
  have bu: "blist u xs" using c(3) by (subst blist_cong [of _ s]) (simp_all add: u)
  let ?r = "b_refcnt (bufs s b) - 1"
  define B where "B = (bufs s)(b := (bufs s b)\<lparr>b_refcnt := ?r\<rparr>)"
  obtain N P where t: "brelse_tail b u = Ret () (relinked (u\<lparr>bufs := B\<rparr>) N P)" "\<exists>ys. blist (relinked (u\<lparr>bufs := B\<rparr>) N P) ys"
    using brelse_tail_eval [OF u(1) bu b(1)] by (auto simp: u(3) B_def)
  define t where "t = relinked (u\<lparr>bufs := B\<rparr>) N P"
  have tf: "bufs t = (\<lambda>c. (B c)\<lparr>b_prev := P c, b_next := N c\<rparr>)" "held t = {}" "cproc t = Some p" "slocks t = slocks u"
    "procs t = procs u" "disk t = disk s" "dtrace t = dtrace s" "cframe u t"
    using u by (simp_all add: t_def relinked_def cframe_def)
  have r: "unat ?r = unat (b_refcnt (bufs s b)) - 1" using b(3) by (simp add: unat_minus_one)
  have r0: "b_data (bufs s b) = disk s bn" if "?r = 0"
    using that r assms(3) b(3-5) unsigned_eq_0_iff [of "b_refcnt (bufs s b)"] by simp
  have C: "B = (bufs s)(b := (bufs s b)\<lparr>b_refcnt := ?r, b_data := b_data (bufs s b)\<rparr>)" by (simp add: B_def)
  have Nn: "(M(bn := None)) bo = Some d \<Longrightarrow> M bo = Some d \<and> bo \<noteq> bn \<or> bo = bn \<and> d = b \<and> ?r \<noteq> 0" for bo d
    by (auto split: if_splits)
  note ch = cells_change [OF c(2) b(1, 2) C, of "disk s" "M(bn := None)", OF refl r0 Nn]
  have inj: "a = bn" if "M a = Some b" for a by (rule cells_inj [OF c(2) that assms(2)])
  have ran: "ran (M(bn := None)) = ran M - {b}"
  proof (rule set_eqI)
    fix x
    have "x \<in> ran (M(bn := None)) \<longleftrightarrow> (\<exists>a. a \<noteq> bn \<and> M a = Some x)" by (auto simp: ran_def split: if_splits)
    also have "\<dots> \<longleftrightarrow> (\<exists>a. M a = Some x) \<and> x \<noteq> b"
    proof (cases "x = b")
      case True
      then show ?thesis using inj by blast
    next
      case False
      then have "a \<noteq> bn" if "M a = Some x" for a using that assms(2) by auto
      then show ?thesis using False by blast
    qed
    also have "\<dots> \<longleftrightarrow> x \<in> ran M - {b}" by (simp add: ran_def)
    finally show "x \<in> ran (M(bn := None)) \<longleftrightarrow> x \<in> ran M - {b}" .
  qed
  have "cache dev t (M(bn := None))" unfolding cache_def
  proof (intro conjI exI [of _ p])
    show "\<exists>xs. blist t xs" using t(2) by (simp add: t_def)
    show "cells dev (bufs t) (disk t) (M(bn := None))" using ch(1) by (simp add: tf cells_relink(1))
    show "\<forall>b<NBUF. sl_locked (slocks t (Slock_buf b)) \<longleftrightarrow> b \<in> ran (M(bn := None))" using p(2) by (simp add: tf u ran)
    show "\<forall>b\<in>ran (M(bn := None)). sl_pid (slocks t (Slock_buf b)) = p_pid (procs t p)" using p(3) by (simp add: tf u ran)
  qed (simp_all add: tf)
  moreover have "cview dev t = (cview dev s)(bn := b_data (bufs s b))"
    unfolding cview_def tf(1, 6) cells_relink(2) by (rule ch(2))
  then have "cview dev t = cview dev s" using b(4) by (simp add: fun_upd_idem)
  moreover have "crefs dev t = (crefs dev s)(bn := unat ?r)" unfolding crefs_def tf(1) cells_relink(3) by (rule ch(3))
  then have "crefs dev t = (crefs dev s)(bn := crefs dev s bn - 1)" by (simp only: r b(5))
  moreover have "brelse b s = Ret () t"
    using brelse_eq [OF c(1) p(1), of b] p(2) [OF b(1)] p(3) [OF bM] bM t(1) unfolding u_def [symmetric] t_def [symmetric] by simp
  ultimately show ?thesis using tf(6, 7) cframe_trans [OF u(8) tf(8)] by (intro exI [of _ t]) simp
qed

lemma blank_blist:
  assumes "\<And>b. b_next (bufs s b) = b_next (blank_buf b)" "\<And>b. b_prev (bufs s b) = b_prev (blank_buf b)"
  shows "blist s (rev [0..<30])"
proof -
  have "nexts s b = (if b = 0 then 30 else b - 1)" "prevs s b = (if b = 30 then 0 else b + 1)" for b
    by (simp_all add: nexts_def prevs_def assms blank)
  then have "links (nexts s) (30 # rev [0..<30] @ [30])" "links (prevs s) (30 # rev (rev [0..<30]) @ [30])"
    by (simp_all add: upt_rec)
  moreover have "set (rev [0..<30]) = {..<30 :: nat}" by (simp add: atLeast0LessThan)
  ultimately show ?thesis by (simp add: blist_def)
qed

text \<open>C32: \<^verbatim>\<open>bget\<close> returns the buffer of the block, wherever the list has it, with one more reference; when there is
  none it takes over the unreferenced buffer that has been in use least recently, and it panics when every buffer is
  referenced.  The sleep lock of the buffer is free: the caller does not have to wait for it.\<close>

theorem bget_least_recently_used:
  assumes "held s = {}" "cproc s = Some p" "blist s xs"
    and "\<forall>b<NBUF. bmatch s dev bn b \<or> b_refcnt (bufs s b) = 0 \<longrightarrow> \<not> sl_locked (slocks s (Slock_buf b))"
  shows "bget dev bn s =
    (case find (bmatch s dev bn) xs of
       Some b \<Rightarrow> Ret b (buf_locked b (\<lambda>B. B\<lparr>b_refcnt := b_refcnt B + 1\<rparr>) s)
     | None \<Rightarrow>
         (case find (\<lambda>b. b_refcnt (bufs s b) = 0) (rev xs) of
            Some b \<Rightarrow> Ret b (buf_locked b (\<lambda>B. B\<lparr>b_dev := dev, b_blockno := bn, b_valid := False, b_refcnt := 1\<rparr>) s)
          | None \<Rightarrow> Panic ''bget: no buffers''))"
  using bget_eval [OF assms(1-3)] assms(4) by blast

theorem bget_least_recently_used_witness:
  "\<exists>t. bget 1 7 (blank_bio (\<lambda>_. idle_proc) ()\<lparr>cproc := Some 0\<rparr>) = Ret 0 t \<and> b_blockno (bufs t 0) = 7"
proof -
  let ?s = "blank_bio (\<lambda>_. idle_proc) ()\<lparr>cproc := Some 0\<rparr>"
  have l: "blist ?s (rev [0..<30])" by (rule blank_blist) (simp_all add: blank)
  have "find (bmatch ?s 1 7) (rev [0..<30]) = None" by (simp add: find_None_iff bmatch_def blank)
  moreover have "find (\<lambda>b. b_refcnt (bufs ?s b) = 0) (rev (rev [0..<30])) = Some 0" by (simp add: upt_rec blank)
  ultimately show ?thesis using bget_least_recently_used [OF _ _ l, of 0 1 7] by (simp add: blank buf_locked_def)
qed

end
