(* ===== verification/Log_Commit.thy ===== *)
theory Log_Commit
  imports Bio_Cache Fs
begin

text \<open>
  The commit and the recovery of \<^verbatim>\<open>src/kernel/log.c\<close>, over the definitions of the theory Log and the
  view of the buffer cache of the theory Bio_Cache.  \<open>dtrace\<close> records the disk after every block write, so a
  crash leaves one of its disks behind; a commit is atomic when recovery turns each of them into the disk
  before the transaction or the disk after it.
\<close>

section \<open>Steps on the cache\<close>

text \<open>\<open>lgs dev l M V R D T s\<close>: the running process holds the buffers \<open>M\<close>, the blocks of \<open>dev\<close> have the
  contents \<open>V\<close> and \<open>R\<close> references, the disk is \<open>D\<close> and was \<open>T\<close> before, and the log's fields are \<open>l\<close>.\<close>

definition log_fields :: "'a log_st_scheme \<Rightarrow> u32 \<times> u32 \<times> int \<times> (nat \<Rightarrow> u32)" where
  "log_fields s = (log_dev s, log_start s, lh_n s, lh_block s)"

definition lgs :: "u32 \<Rightarrow> u32 \<times> u32 \<times> int \<times> (nat \<Rightarrow> u32) \<Rightarrow> (u32 \<rightharpoonup> nat) \<Rightarrow> (u32 \<Rightarrow> block) \<Rightarrow> (u32 \<Rightarrow> nat) \<Rightarrow>
    (u32 \<Rightarrow> block) \<Rightarrow> (u32 \<Rightarrow> block) list \<Rightarrow> 'a log_st_scheme \<Rightarrow> bool" where
  "lgs dev l M V R D T s \<longleftrightarrow> cache dev s M \<and> cview dev s = V \<and> crefs dev s = R \<and> disk s = D \<and> dtrace s = T \<and>
     log_fields s = l"

lemma cframe_log_fields: "cframe s t \<Longrightarrow> log_fields t = log_fields s"
  unfolding cframe_upd by (elim exE) (simp add: log_fields_def)

definition room :: "(u32 \<Rightarrow> nat) \<Rightarrow> u32 \<Rightarrow> bool" where
  "room R bn \<longleftrightarrow> R bn < 2 ^ 32 - 1 \<and> (0 < R bn \<or> card {x. 0 < R x} < NBUF)"

lemma lgs_bread:
  assumes "lgs dev l M V R D T s" "M bn = None" "room R bn"
  shows "\<exists>b t. bread dev bn s = Ret b t \<and> lgs dev l (M(bn \<mapsto> b)) V (R(bn := R bn + 1)) D T t"
  using bread_spec [of dev s M bn] assms cframe_log_fields unfolding lgs_def room_def by metis

lemma lgs_bdata:
  assumes "lgs dev l M V R D T s" "M bn = Some b"
  shows "bdata b s = Ret (V bn) s"
  using cache_buf(6) [of dev s M bn b] assms by (auto simp: lgs_def)

lemma lgs_bset:
  assumes "lgs dev l M V R D T s" "M bn = Some b"
  shows "\<exists>t. bset b f s = Ret () t \<and> lgs dev l M (V(bn := f (V bn))) R D T t"
  using bset_spec [of dev s M bn b f] assms cframe_log_fields unfolding lgs_def by metis

lemma lgs_bwrite:
  assumes "lgs dev l M V R D T s" "M bn = Some b"
  shows "\<exists>t. bwrite b s = Ret () t \<and> lgs dev l M V R (D(bn := V bn)) (D(bn := V bn) # T) t"
  using bwrite_spec [of dev s M bn b] assms cframe_log_fields unfolding lgs_def by metis

lemma lgs_bunpin:
  assumes "lgs dev l M V R D T s" "M bn = Some b" "2 \<le> R bn"
  shows "\<exists>t. bunpin b s = Ret () t \<and> lgs dev l M V (R(bn := R bn - 1)) D T t"
  using bunpin_spec [of dev s M bn b] assms cframe_log_fields unfolding lgs_def by metis

lemma lgs_brelse:
  assumes "lgs dev l M V R D T s" "M bn = Some b" "R bn = 1 \<Longrightarrow> V bn = D bn"
  shows "\<exists>t. brelse b s = Ret () t \<and> lgs dev l (M(bn := None)) V (R(bn := R bn - 1)) D T t"
  using brelse_spec [of dev s M bn b] assms cframe_log_fields unfolding lgs_def by metis

text \<open>A block nobody references has on the disk what the cache shows.\<close>

lemma cells_clean:
  assumes "cells dev B D M" "brefs B dev bn = 0"
  shows "bview B D dev bn = D bn"
proof (cases "slot B dev bn")
  case (Some b)
  then have "b < NBUF" "matches B dev bn b" by (auto simp: slot_def dest!: find_Some_mem)
  moreover have "b_refcnt (B b) = 0" using assms(2) Some by (simp add: brefs_def unat_eq_0)
  ultimately show ?thesis using assms(1) Some by (simp add: cells_def bview_def matches_def)
qed (simp add: bview_def)

lemma lgs_clean: "lgs dev l M V R D T s \<Longrightarrow> R bn = 0 \<Longrightarrow> V bn = D bn"
  using cells_clean [of dev "bufs s" "disk s" M bn] unfolding lgs_def cache_def cview_def crefs_def by metis

lemma lgs_dev: "lgs dev (d, st, n, L) M V R D T s \<Longrightarrow> log_dev s = d \<and> log_start s = st \<and> lh_n s = n \<and> lh_block s = L"
  by (simp add: lgs_def log_fields_def)

section \<open>The log on the disk\<close>

text \<open>The number of blocks and the blocks a header block of the disk names.\<close>

definition hdr_n :: "block \<Rightarrow> int" where "hdr_n d = sint (get32 d 0)"
definition hdr_block :: "block \<Rightarrow> nat \<Rightarrow> u32" where "hdr_block d i = get32 d (4 + 4 * i)"

text \<open>Block \<open>i\<close> of the log, and the blocks outside the log.\<close>

definition logblk :: "u32 \<Rightarrow> nat \<Rightarrow> u32" where "logblk start i = start + of_nat i + 1"
definition home :: "u32 \<Rightarrow> u32 \<Rightarrow> bool" where "home start bn \<longleftrightarrow> bn \<noteq> start \<and> (\<forall>i<LOGBLOCKS. bn \<noteq> logblk start i)"

lemma logblk_nth:
  assumes "unat start + LOGBLOCKS < 2 ^ 32" "i < LOGBLOCKS"
  shows "unat (logblk start i) = unat start + i + 1"
  using assms unfolding logblk_def by (simp add: unat_word_ariths unat_of_nat)

lemma logblk_simps:
  assumes "unat start + LOGBLOCKS < 2 ^ 32" "i < LOGBLOCKS"
  shows "logblk start i \<noteq> start" "j < LOGBLOCKS \<Longrightarrow> logblk start i = logblk start j \<longleftrightarrow> i = j"
proof -
  note i = logblk_nth [OF assms]
  show "logblk start i \<noteq> start"
  proof
    assume "logblk start i = start"
    with i show False by simp
  qed
  show "logblk start i = logblk start j \<longleftrightarrow> i = j" if "j < LOGBLOCKS"
  proof
    assume "logblk start i = logblk start j"
    then have "unat start + i + 1 = unat start + j + 1" by (metis i logblk_nth [OF assms(1) that])
    then show "i = j" by simp
  qed simp
qed

section \<open>Sequences of block writes\<close>

definition writes :: "nat \<Rightarrow> (nat \<Rightarrow> u32) \<Rightarrow> (nat \<Rightarrow> block) \<Rightarrow> (u32 \<Rightarrow> block) \<Rightarrow> u32 \<Rightarrow> block" where
  "writes n a v F = fold (\<lambda>i F. F(a i := v i)) [0..<n] F"

lemma writes_simps [simp]: "writes 0 a v F = F" "writes (Suc n) a v F = (writes n a v F)(a n := v n)"
  by (simp_all add: writes_def)

lemma writes_other: "\<forall>i<n. a i \<noteq> bn \<Longrightarrow> writes n a v F bn = F bn"
  by (induction n) auto

lemma writes_hit: "i < n \<Longrightarrow> writes n a v F (a i) = writes n a v G (a i)"
  by (induction n) (auto simp: less_Suc_eq)

lemma writes_at: "i < n \<Longrightarrow> inj_on a {..<n} \<Longrightarrow> writes n a v F (a i) = v i"
proof (induction n)
  case (Suc n)
  then have "inj_on a {..<n}" by (auto intro: inj_on_subset)
  moreover have "a i = a n \<Longrightarrow> i = n" using Suc.prems by (simp add: inj_on_def)
  ultimately show ?case using Suc by (auto simp: less_Suc_eq)
qed simp

lemma writes_cong: "(\<And>i. i < n \<Longrightarrow> a i = b i) \<Longrightarrow> (\<And>i. i < n \<Longrightarrow> v i = w i) \<Longrightarrow> writes n a v F = writes n b w F"
  by (induction n) auto

lemma writes_base:
  assumes "F bn = G bn"
  shows "writes n a v F bn = writes n a v G bn"
proof (cases "\<exists>i<n. a i = bn")
  case True
  then show ?thesis using writes_hit by metis
qed (simp add: writes_other assms)

lemma writes_again:
  assumes "k \<le> n"
  shows "writes n a v (writes k a v F) bn = writes n a v F bn"
proof (cases "\<exists>i<n. a i = bn")
  case True
  then show ?thesis using writes_hit by metis
next
  case False
  then show ?thesis using assms by (simp add: writes_other)
qed

text \<open>What recovery makes of a disk: the blocks its header names get the contents the log has for them.\<close>

definition recovered :: "u32 \<Rightarrow> (u32 \<Rightarrow> block) \<Rightarrow> u32 \<Rightarrow> block" where
  "recovered start D = writes (nat (hdr_n (D start))) (hdr_block (D start)) (\<lambda>i. D (logblk start i)) D"

section \<open>Copying one block\<close>

lemma write_log_step:
  assumes s: "lgs dev l Map.empty V R D T s" and R: "room R to" "room R from" "0 < R from" "to \<noteq> from" "R to = 0"
  shows "\<exists>t. kbind (bread dev to) (\<lambda>to. kbind (bread dev from) (\<lambda>from. kbind (bdata from) (\<lambda>d.
      kthen (bset to (\<lambda>_. d)) (kthen (bwrite to) (kthen (brelse from) (brelse to)))))) s = Ret () t \<and>
    lgs dev l Map.empty (V(to := V from)) R (D(to := V from)) (D(to := V from) # T) t"
proof -
  obtain a t1 where 1: "bread dev to s = Ret a t1" "lgs dev l [to \<mapsto> a] V (R(to := R to + 1)) D T t1"
    using lgs_bread [OF s _ R(1)] by auto
  moreover obtain b t2 where 2: "bread dev from t1 = Ret b t2"
    "lgs dev l [to \<mapsto> a, from \<mapsto> b] V (R(to := R to + 1, from := R from + 1)) D T t2"
    using lgs_bread [OF 1(2), of "from"] R by (auto simp: room_def)
  moreover have "bdata b t2 = Ret (V from) t2" using lgs_bdata [OF 2(2), of "from"] by simp
  moreover obtain t3 where 3: "bset a (\<lambda>_. V from) t2 = Ret () t3"
    "lgs dev l [to \<mapsto> a, from \<mapsto> b] (V(to := V from)) (R(to := R to + 1, from := R from + 1)) D T t3"
    using lgs_bset [OF 2(2), of to a "\<lambda>_. V from"] R(4) by auto
  moreover obtain t4 where 4: "bwrite a t3 = Ret () t4"
    "lgs dev l [to \<mapsto> a, from \<mapsto> b] (V(to := V from)) (R(to := R to + 1, from := R from + 1)) (D(to := V from)) (D(to := V from) # T) t4"
    using lgs_bwrite [OF 3(2), of to a] R(4) by auto
  moreover obtain t5 where 5: "brelse b t4 = Ret () t5"
    "lgs dev l [to \<mapsto> a] (V(to := V from)) (R(to := R to + 1)) (D(to := V from)) (D(to := V from) # T) t5"
    using lgs_brelse [OF 4(2), of "from" b] R(3, 4) by (auto simp: fun_upd_twist [of "to" "from"] fun_upd_idem)
  moreover obtain t6 where "brelse a t5 = Ret () t6"
    "lgs dev l Map.empty (V(to := V from)) R (D(to := V from)) (D(to := V from) # T) t6"
    using lgs_brelse [OF 5(2), of to a] by (auto simp: fun_upd_idem)
  ultimately show ?thesis by (simp add: kmonad)
qed

lemma room_next:
  "R bn < 2 ^ 32 - 1 \<Longrightarrow> 0 < R bn \<or> card {x. 0 < R x} \<le> m \<and> m < NBUF \<Longrightarrow> room R bn"
  by (auto simp: room_def)

lemma install_step:
  assumes s: "lgs dev l Map.empty V R D T s" and R: "room R lb" "R lb = 0" "lb \<noteq> dst" "R dst < 2 ^ 32 - 1"
    and rec: "if recovering then Suc (card {x. 0 < R x}) < NBUF else 0 < R dst"
  shows "\<exists>t. kbind (bread dev lb) (\<lambda>lbuf. kbind (bread dev dst) (\<lambda>dbuf. kbind (bdata lbuf) (\<lambda>d.
      kthen (bset dbuf (\<lambda>_. d)) (kthen (bwrite dbuf) (kthen (kwhen (\<not> recovering) (bunpin dbuf))
      (kthen (brelse lbuf) (brelse dbuf))))))) s = Ret () t \<and>
    lgs dev l Map.empty (V(dst := V lb)) (if recovering then R else R(dst := R dst - 1)) (D(dst := V lb)) (D(dst := V lb) # T) t"
proof -
  obtain a t1 where 1: "bread dev lb s = Ret a t1" "lgs dev l [lb \<mapsto> a] V (R(lb := R lb + 1)) D T t1"
    using lgs_bread [OF s _ R(1)] by auto
  have "{x. 0 < (R(lb := R lb + 1)) x} \<subseteq> insert lb {x. 0 < R x}" by auto
  then have "card {x. 0 < (R(lb := R lb + 1)) x} \<le> card (insert lb {x. 0 < R x})" by (rule card_mono [OF finite])
  also have "\<dots> \<le> Suc (card {x. 0 < R x})" by (simp add: card_insert_if)
  finally have "card {x. 0 < (R(lb := R lb + 1)) x} \<le> Suc (card {x. 0 < R x})" .
  then have "room (R(lb := R lb + 1)) dst" using R(3, 4) rec
    by (intro room_next [where m = "Suc (card {x. 0 < R x})"]) (simp_all split: if_splits)
  then obtain b t2 where 2: "bread dev dst t1 = Ret b t2"
    "lgs dev l [lb \<mapsto> a, dst \<mapsto> b] V (R(lb := R lb + 1, dst := R dst + 1)) D T t2"
    using lgs_bread [OF 1(2), of dst] R(3) by auto
  have d: "bdata a t2 = Ret (V lb) t2" using lgs_bdata [OF 2(2), of lb] R(3) by simp
  obtain t3 where 3: "bset b (\<lambda>_. V lb) t2 = Ret () t3"
    "lgs dev l [lb \<mapsto> a, dst \<mapsto> b] (V(dst := V lb)) (R(lb := R lb + 1, dst := R dst + 1)) D T t3"
    using lgs_bset [OF 2(2), of dst b "\<lambda>_. V lb"] by auto
  let ?T = "D(dst := V lb) # T" and ?R = "if recovering then R else R(dst := R dst - 1)"
  obtain t4 where 4: "bwrite b t3 = Ret () t4"
    "lgs dev l [lb \<mapsto> a, dst \<mapsto> b] (V(dst := V lb)) (R(lb := R lb + 1, dst := R dst + 1)) (D(dst := V lb)) ?T t4"
    using lgs_bwrite [OF 3(2), of dst b] by auto
  obtain t5 where 5: "kwhen (\<not> recovering) (bunpin b) t4 = Ret () t5"
    "lgs dev l [lb \<mapsto> a, dst \<mapsto> b] (V(dst := V lb)) (R(lb := R lb + 1, dst := ?R dst + 1)) (D(dst := V lb)) ?T t5"
    using lgs_bunpin [OF 4(2), of dst b] 4(2) rec by (cases recovering) (auto simp: kmonad)
  have "V lb = D lb" using lgs_clean [OF s R(2)] .
  then obtain t6 where 6: "brelse a t5 = Ret () t6"
    "lgs dev l [dst \<mapsto> b] (V(dst := V lb)) (R(dst := ?R dst + 1)) (D(dst := V lb)) ?T t6"
    using lgs_brelse [OF 5(2), of lb a] R(2, 3)
    by (auto simp: fun_upd_twist [of dst lb] fun_upd_idem simp del: if_split)
  have Q: "R(dst := ?R dst) = ?R" by auto
  obtain t7 where 7: "brelse b t6 = Ret () t7" "lgs dev l Map.empty (V(dst := V lb)) ?R (D(dst := V lb)) ?T t7"
    using lgs_brelse [OF 6(2), of dst b] Q by (auto simp del: if_split)
  show ?thesis using 7(2) by (simp add: kmonad 1(1) 2(1) d 3(1) 4(1) 5(1) [unfolded kmonad] 6(1) 7(1) del: if_split)
qed

section \<open>The loops of a commit\<close>

text \<open>\<open>log_ok n st L\<close>: the log fits the block numbers, and the blocks of a transaction are outside it.\<close>

definition log_ok :: "nat \<Rightarrow> u32 \<Rightarrow> (nat \<Rightarrow> u32) \<Rightarrow> bool" where
  "log_ok n st L \<longleftrightarrow> n \<le> LOGBLOCKS \<and> unat st + LOGBLOCKS < 2 ^ 32 \<and> (\<forall>i<n. home st (L i))"

lemma log_ok_simps:
  assumes "log_ok n st L" "i < n"
  shows "logblk st i \<noteq> st" "L i \<noteq> st" "j < n \<Longrightarrow> L i \<noteq> logblk st j" "j < n \<Longrightarrow> logblk st i = logblk st j \<longleftrightarrow> i = j"
    "\<not> home st (logblk st i)" "\<not> home st st"
proof -
  have n: "i < LOGBLOCKS" "j < n \<Longrightarrow> j < LOGBLOCKS" "unat st + LOGBLOCKS < 2 ^ 32" "home st (L i)"
    using assms by (auto simp: log_ok_def)
  show "logblk st i \<noteq> st" "j < n \<Longrightarrow> logblk st i = logblk st j \<longleftrightarrow> i = j"
    using logblk_simps [OF n(3, 1)] n(2) by blast+
  show "L i \<noteq> st" "j < n \<Longrightarrow> L i \<noteq> logblk st j" "\<not> home st (logblk st i)" "\<not> home st st"
    using n(1, 2, 4) unfolding home_def by blast+
qed

text \<open>\<open>pins n st L R\<close>: the references are those of the transaction's pinned blocks, with room for one more
  buffer, and nobody holds a block of the log.\<close>

definition pins :: "nat \<Rightarrow> u32 \<Rightarrow> (nat \<Rightarrow> u32) \<Rightarrow> (u32 \<Rightarrow> nat) \<Rightarrow> bool" where
  "pins n st L R \<longleftrightarrow> (\<forall>i<n. 0 < R (L i)) \<and> (\<forall>bn. R bn < 2 ^ 32 - 1) \<and> card {x. 0 < R x} < NBUF \<and>
     (\<forall>bn. \<not> home st bn \<longrightarrow> R bn = 0)"

lemma write_log_spec:
  fixes s :: "'a log_st_scheme"
  assumes s: "lgs dev (dev, st, int n, L) Map.empty V R D T s" and ok: "log_ok n st L" "pins n st L R"
  shows "\<exists>t ds. write_log s = Ret () t \<and> lgs dev (dev, st, int n, L) Map.empty
      (writes n (logblk st) (\<lambda>i. V (L i)) V) R (writes n (logblk st) (\<lambda>i. V (L i)) D) (ds @ T) t \<and>
    (\<forall>d\<in>set ds. \<exists>k\<le>n. d = writes k (logblk st) (\<lambda>i. V (L i)) D)"
proof -
  let ?l = "(dev, st, int n, L)" and ?w = "\<lambda>k. writes k (logblk st) (\<lambda>i. V (L i))"
  define I where "I = (\<lambda>k (t :: 'a log_st_scheme). \<exists>ds. lgs dev ?l Map.empty (?w k V) R (?w k D) (ds @ T) t \<and> (\<forall>d\<in>set ds. \<exists>j\<le>k. d = ?w j D))"
  let ?b = "\<lambda>tail. kbind (kget log_dev) (\<lambda>dev. kbind (kget log_start) (\<lambda>start. kbind (kget (\<lambda>s. lh_block s tail)) (\<lambda>src.
       kbind (bread dev (start + of_nat tail + 1)) (\<lambda>to. kbind (bread dev src) (\<lambda>from. kbind (bdata from) (\<lambda>d.
       kthen (bset to (\<lambda>_. d)) (kthen (bwrite to) (kthen (brelse from) (brelse to)))))))))"
  have "\<exists>t. ?b i u = Ret () t \<and> I (Suc i) t" if lt: "i < n" and Iu: "I i u" for i u
  proof -
    note i = log_ok_simps [OF ok(1) lt]
    obtain ds where u: "lgs dev ?l Map.empty (?w i V) R (?w i D) (ds @ T) u" "\<forall>d\<in>set ds. \<exists>j\<le>i. d = ?w j D"
      using Iu by (auto simp: I_def)
    have "room R (logblk st i)" "room R (L i)" "0 < R (L i)" "logblk st i \<noteq> L i" "R (logblk st i) = 0"
      using ok(2) lt i by (auto simp: pins_def room_def)
    from write_log_step [OF u(1) this] obtain t where t: "?b i u = Ret () t"
      "lgs dev ?l Map.empty ((?w i V)(logblk st i := ?w i V (L i))) R ((?w i D)(logblk st i := ?w i V (L i)))
        ((?w i D)(logblk st i := ?w i V (L i)) # ds @ T) t"
      using lgs_dev [OF u(1)] by (auto simp only: kbind_kget logblk_def)
    have "?w i V (L i) = V (L i)" using i(3) lt by (intro writes_other) (metis less_trans)
    then have "lgs dev ?l Map.empty (?w (Suc i) V) R (?w (Suc i) D) ((?w (Suc i) D # ds) @ T) t" using t(2) by simp
    moreover have "\<forall>d\<in>set (?w (Suc i) D # ds). \<exists>j\<le>Suc i. d = ?w j D" using u(2) by (metis le_Suc_eq set_ConsD)
    ultimately show ?thesis using t(1) unfolding I_def by blast
  qed
  moreover have "I 0 s" unfolding I_def using s by (intro exI [of _ "[]"]) simp
  ultimately obtain t where "kfor [0..<n] ?b s = Ret () t" "I n t" using kfor_upt [of n I ?b s] by blast
  moreover have "write_log s = kfor [0..<n] ?b s" using lgs_dev [OF s] by (simp add: write_log_def kbind_kget)
  ultimately show ?thesis unfolding I_def by (simp only:) blast
qed

lemma recovering_text: "\<exists>msg. kprintf_text ''recovering tail %d dst %d\<newline>'' [Vint a, Vint b] = Some msg"
  by (simp add: kfmt_eval)

lemma lgs_klog: "lgs dev l M V R D T s \<Longrightarrow> lgs dev l M V R D T (s\<lparr>klog := x\<rparr>)"
proof -
  have "blist (s\<lparr>klog := x\<rparr>) xs = blist s xs" for xs by (rule blist_cong) simp_all
  then show "lgs dev l M V R D T s \<Longrightarrow> lgs dev l M V R D T (s\<lparr>klog := x\<rparr>)"
    by (auto simp: lgs_def cache_def cview_def crefs_def log_fields_def)
qed

lemma lgs_report:
  assumes "lgs dev l M V R D T s"
  shows "\<exists>t. kwhen c (kprintf ''recovering tail %d dst %d\<newline>'' [Vint a, Vint b]) s = Ret () t \<and> lgs dev l M V R D T t"
proof (cases c)
  case True
  obtain msg where m: "kprintf_text ''recovering tail %d dst %d\<newline>'' [Vint a, Vint b] = Some msg"
    using recovering_text by blast
  have "Lpr \<notin> held s" using assms by (simp add: lgs_def cache_def)
  from kprintf_eval [OF this m] show ?thesis using lgs_klog [OF assms] True by (simp add: kwhen_def)
qed (use assms in \<open>simp add: kmonad\<close>)

text \<open>References while the first \<open>k\<close> blocks have been installed.\<close>

definition unpinned :: "bool \<Rightarrow> (nat \<Rightarrow> u32) \<Rightarrow> nat \<Rightarrow> (u32 \<Rightarrow> nat) \<Rightarrow> u32 \<Rightarrow> nat" where
  "unpinned recovering L k R bn = (if recovering \<or> bn \<notin> L ` {..<k} then R bn else R bn - 1)"

lemma unpinned_0: "unpinned recovering L 0 R = R"
  by (rule ext) (simp add: unpinned_def)

definition installable :: "bool \<Rightarrow> nat \<Rightarrow> u32 \<Rightarrow> (nat \<Rightarrow> u32) \<Rightarrow> (u32 \<Rightarrow> nat) \<Rightarrow> bool" where
  "installable recovering n st L R \<longleftrightarrow> (\<forall>bn. R bn < 2 ^ 32 - 1) \<and> (\<forall>bn. \<not> home st bn \<longrightarrow> R bn = 0) \<and>
     (if recovering then Suc (card {x. 0 < R x}) < NBUF
      else (\<forall>i<n. 0 < R (L i)) \<and> card {x. 0 < R x} < NBUF \<and> inj_on L {..<n})"

lemma unpinned_room:
  assumes "installable recovering n st L R" "\<not> home st bn"
  shows "room (unpinned recovering L k R) bn" "unpinned recovering L k R bn = 0"
proof -
  have "{x. 0 < unpinned recovering L k R x} \<subseteq> {x. 0 < R x}" by (auto simp: unpinned_def)
  then have "card {x. 0 < unpinned recovering L k R x} \<le> card {x. 0 < R x}" by (rule card_mono [OF finite])
  then have "card {x. 0 < unpinned recovering L k R x} < NBUF" using assms(1) by (auto simp: installable_def split: if_splits)
  moreover show "unpinned recovering L k R bn = 0" using assms by (simp add: installable_def unpinned_def)
  ultimately show "room (unpinned recovering L k R) bn" by (simp add: room_def)
qed

lemma unpinned_next:
  assumes "installable recovering n st L R" "i < n"
  shows "unpinned recovering L i R (L i) < 2 ^ 32 - 1"
    "if recovering then Suc (card {x. 0 < unpinned recovering L i R x}) < NBUF else 0 < unpinned recovering L i R (L i)"
    "(if recovering then unpinned recovering L i R else (unpinned recovering L i R)(L i := unpinned recovering L i R (L i) - 1))
       = unpinned recovering L (Suc i) R"
proof -
  have r: "R (L i) < 2 ^ 32 - 1" using assms(1) by (simp add: installable_def)
  then show "unpinned recovering L i R (L i) < 2 ^ 32 - 1" unfolding unpinned_def by (auto intro: less_imp_diff_less)
  have n: "L i \<notin> L ` {..<i}" "0 < R (L i)" if "\<not> recovering"
  proof -
    have "inj_on L {..<n}" "0 < R (L i)" using assms that by (auto simp: installable_def)
    then show "L i \<notin> L ` {..<i}" "0 < R (L i)" using assms(2) by (auto dest: inj_onD)
  qed
  show "if recovering then Suc (card {x. 0 < unpinned recovering L i R x}) < NBUF else 0 < unpinned recovering L i R (L i)"
    using assms(1) n by (cases recovering) (simp_all add: installable_def unpinned_def)
  show "(if recovering then unpinned recovering L i R else (unpinned recovering L i R)(L i := unpinned recovering L i R (L i) - 1))
       = unpinned recovering L (Suc i) R"
    using n(1) by (auto simp: unpinned_def fun_eq_iff lessThan_Suc)
qed

lemma install_trans_spec:
  fixes s :: "'a log_st_scheme"
  assumes s: "lgs dev (dev, st, int n, L) Map.empty V R D T s" and ok: "log_ok n st L" "installable recovering n st L R"
  shows "\<exists>t ds. install_trans recovering s = Ret () t \<and> lgs dev (dev, st, int n, L) Map.empty
      (writes n L (\<lambda>i. V (logblk st i)) V) (unpinned recovering L n R) (writes n L (\<lambda>i. V (logblk st i)) D) (ds @ T) t \<and>
    (\<forall>d\<in>set ds. \<exists>k\<le>n. d = writes k L (\<lambda>i. V (logblk st i)) D)"
proof -
  let ?l = "(dev, st, int n, L)" and ?w = "\<lambda>k. writes k L (\<lambda>i. V (logblk st i))"
  define I where "I = (\<lambda>k (t :: 'a log_st_scheme). \<exists>ds. lgs dev ?l Map.empty (?w k V) (unpinned recovering L k R) (?w k D) (ds @ T) t \<and>
    (\<forall>d\<in>set ds. \<exists>j\<le>k. d = ?w j D))"
  let ?c = "\<lambda>dev lb dst. kbind (bread dev lb) (\<lambda>lbuf. kbind (bread dev dst) (\<lambda>dbuf. kbind (bdata lbuf) (\<lambda>d.
       kthen (bset dbuf (\<lambda>_. d)) (kthen (bwrite dbuf) (kthen (kwhen (\<not> recovering) (bunpin dbuf))
       (kthen (brelse lbuf) (brelse dbuf)))))))"
  let ?b = "\<lambda>tail. kbind (kget log_dev) (\<lambda>dev. kbind (kget log_start) (\<lambda>start. kbind (kget (\<lambda>s. lh_block s tail)) (\<lambda>dst.
       kthen (kwhen recovering (kprintf ''recovering tail %d dst %d\<newline>'' [Vint (of_nat tail), Vint (ucast dst)]))
       (?c dev (start + of_nat tail + 1) dst))))"
  have "\<exists>t. ?b i u = Ret () t \<and> I (Suc i) t" if lt: "i < n" and Iu: "I i u" for i u
  proof -
    note i = log_ok_simps [OF ok(1) lt]
    obtain ds where u: "lgs dev ?l Map.empty (?w i V) (unpinned recovering L i R) (?w i D) (ds @ T) u" "\<forall>d\<in>set ds. \<exists>j\<le>i. d = ?w j D"
      using Iu by (auto simp: I_def)
    obtain v where v: "kwhen recovering (kprintf ''recovering tail %d dst %d\<newline>'' [Vint (of_nat i), Vint (ucast (L i))]) u = Ret () v"
      "lgs dev ?l Map.empty (?w i V) (unpinned recovering L i R) (?w i D) (ds @ T) v"
      using lgs_report [OF u(1)] by blast
    have ne: "logblk st i \<noteq> L i" using i(3) lt by metis
    have V: "?w i V (logblk st i) = V (logblk st i)"
      using log_ok_simps(3) [OF ok(1)] lt by (intro writes_other) (metis less_trans)
    obtain t where t: "?c dev (logblk st i) (L i) v = Ret () t"
      "lgs dev ?l Map.empty (?w (Suc i) V) (unpinned recovering L (Suc i) R) (?w (Suc i) D) (?w (Suc i) D # ds @ T) t"
      using install_step [OF v(2) unpinned_room [OF ok(2) i(5)] ne unpinned_next(1, 2) [OF ok(2) lt]]
      unfolding unpinned_next(3) [OF ok(2) lt] V writes_simps by blast
    have "?b i u = Ret () t" using lgs_dev [OF u(1)] t(1) v(1) by (simp only: kbind_kget kthen_Ret logblk_def)
    moreover have "\<forall>d\<in>set (?w (Suc i) D # ds). \<exists>j\<le>Suc i. d = ?w j D" using u(2) by (metis le_Suc_eq set_ConsD)
    moreover have "lgs dev ?l Map.empty (?w (Suc i) V) (unpinned recovering L (Suc i) R) (?w (Suc i) D) ((?w (Suc i) D # ds) @ T) t"
      using t(2) by (simp only: append_Cons)
    ultimately show ?thesis unfolding I_def by blast
  qed
  moreover have "I 0 s" unfolding I_def using s by (intro exI [of _ "[]"]) (simp add: unpinned_0)
  ultimately obtain t where "kfor [0..<n] ?b s = Ret () t" "I n t" using kfor_upt [of n I ?b s] by blast
  moreover have "install_trans recovering s = kfor [0..<n] ?b s" using lgs_dev [OF s] by (simp add: install_trans_def kbind_kget)
  ultimately show ?thesis unfolding I_def by (simp only:) blast
qed

section \<open>The header block\<close>

text \<open>The header block \<^verbatim>\<open>write_head\<close> writes over the block \<open>d\<close>.\<close>

definition head_block :: "block \<Rightarrow> nat \<Rightarrow> (nat \<Rightarrow> u32) \<Rightarrow> block" where
  "head_block d n L = fold (\<lambda>i d. put32 d (4 + 4 * i) (L i)) [0..<n] (put32 d 0 (of_nat n))"

lemma head_block_roundtrip:
  assumes "n \<le> LOGBLOCKS"
  shows "hdr_n (head_block d n L) = int n" "i < n \<Longrightarrow> hdr_block (head_block d n L) i = L i"
proof -
  have "get32 (head_block d n L) 0 = get32 (put32 d 0 (of_nat n)) 0"
    unfolding get32_def head_block_def by (simp add: put32s_other)
  also have "\<dots> = of_nat n" by (rule get32_put32)
  finally show "hdr_n (head_block d n L) = int n"
    using assms by (simp add: hdr_n_def signed_of_nat signed_take_bit_int_eq_self)
  show "i < n \<Longrightarrow> hdr_block (head_block d n L) i = L i"
    by (simp add: hdr_block_def head_block_def put32s_get32)
qed

lemma write_head_spec:
  fixes s :: "'a log_st_scheme"
  assumes s: "lgs dev (dev, st, int n, L) Map.empty V R D T s" and R: "room R st" "R st = 0"
  defines "h \<equiv> head_block (V st) n L"
  shows "\<exists>t. write_head s = Ret () t \<and> lgs dev (dev, st, int n, L) Map.empty (V(st := h)) R (D(st := h)) (D(st := h) # T) t"
proof -
  let ?l = "(dev, st, int n, L)" and ?R = "R(st := R st + 1)"
  obtain b t1 where 1: "bread dev st s = Ret b t1" "lgs dev ?l [st \<mapsto> b] V ?R D T t1"
    using lgs_bread [OF s _ R(1)] by auto
  obtain t2 where 2: "bset b (\<lambda>d. put32 d 0 (word_of_int (int n))) t1 = Ret () t2"
    "lgs dev ?l [st \<mapsto> b] (V(st := put32 (V st) 0 (of_nat n))) ?R D T t2"
    using lgs_bset [OF 1(2), of st b "\<lambda>d. put32 d 0 (word_of_int (int n))"] by auto
  let ?I = "\<lambda>k t. lgs dev ?l [st \<mapsto> b] (V(st := fold (\<lambda>i d. put32 d (4 + 4 * i) (L i)) [0..<k] (put32 (V st) 0 (of_nat n)))) ?R D T t"
  let ?b = "\<lambda>i. kbind (kget (\<lambda>s. lh_block s i)) (\<lambda>v. bset b (\<lambda>d. put32 d (4 + 4 * i) v))"
  have "\<exists>t. ?b i u = Ret () t \<and> ?I (Suc i) t" if "?I i u" for i u
    using lgs_bset [OF that, of st b "\<lambda>d. put32 d (4 + 4 * i) (L i)"] lgs_dev [OF that] by (simp add: kbind_kget)
  then obtain t3 where 3: "kfor [0..<n] ?b t2 = Ret () t3" "?I n t3" using kfor_upt [of n ?I ?b t2] 2(2) by auto
  then have 3: "kfor [0..<n] ?b t2 = Ret () t3" "lgs dev ?l [st \<mapsto> b] (V(st := h)) ?R D T t3"
    by (simp_all add: h_def head_block_def)
  obtain t4 where 4: "bwrite b t3 = Ret () t4" "lgs dev ?l [st \<mapsto> b] (V(st := h)) ?R (D(st := h)) (D(st := h) # T) t4"
    using lgs_bwrite [OF 3(2), of st b] by auto
  obtain t5 where 5: "brelse b t4 = Ret () t5" "lgs dev ?l Map.empty (V(st := h)) R (D(st := h)) (D(st := h) # T) t5"
    using lgs_brelse [OF 4(2), of st b] by (auto simp: fun_upd_idem)
  have "write_head s = Ret () t5" using lgs_dev [OF s] lgs_dev [OF 1(2)] 1(1) 2(1) 3(1) 4(1) 5(1)
    by (simp add: write_head_def kbind_kget kbind_Ret kthen_Ret)
  then show ?thesis using 5(2) by blast
qed

section \<open>Recovery\<close>

definition agree :: "u32 \<Rightarrow> (u32 \<Rightarrow> block) \<Rightarrow> (u32 \<Rightarrow> block) \<Rightarrow> bool" where
  "agree st D E \<longleftrightarrow> (\<forall>bn. home st bn \<longrightarrow> D bn = E bn)"

text \<open>A disk whose header names at most \<^verbatim>\<open>LOGBLOCKS\<close> blocks, all outside the log.\<close>

definition sound_log :: "u32 \<Rightarrow> (u32 \<Rightarrow> block) \<Rightarrow> bool" where
  "sound_log st D \<longleftrightarrow> 0 \<le> hdr_n (D st) \<and> log_ok (nat (hdr_n (D st))) st (hdr_block (D st))"

lemma recovered_clean: "hdr_n (D st) = 0 \<Longrightarrow> recovered st D = D"
  by (simp add: recovered_def)

lemma recovered_head:
  assumes "hdr_n (D st) = int n" "\<And>i. i < n \<Longrightarrow> hdr_block (D st) i = L i" "\<And>i. i < n \<Longrightarrow> D (logblk st i) = v i"
  shows "recovered st D = writes n L v D"
proof -
  have "recovered st D = writes n (hdr_block (D st)) (\<lambda>i. D (logblk st i)) D" by (simp add: recovered_def assms(1))
  also have "\<dots> = writes n L v D" by (rule writes_cong) (simp_all add: assms(2, 3))
  finally show ?thesis .
qed

text \<open>The blocks of the transaction are installed over and over: after any number of installed blocks,
  recovery has the same result.\<close>

lemma recovered_partial:
  assumes ok: "log_ok n st L" and h: "hdr_n (D st) = int n" "\<And>i. i < n \<Longrightarrow> hdr_block (D st) i = L i"
    and k: "k \<le> n"
  defines "v \<equiv> \<lambda>i. D (logblk st i)"
  shows "sound_log st (writes k L v D)" "recovered st (writes k L v D) bn = writes n L v D bn"
proof -
  have s: "writes k L v D st = D st" using log_ok_simps(2) [OF ok] k by (intro writes_other) (metis less_le_trans)
  have l: "writes k L v D (logblk st i) = v i" if "i < n" for i
  proof -
    have "writes k L v D (logblk st i) = D (logblk st i)"
      using log_ok_simps(3) [OF ok _ that] k by (intro writes_other) (metis less_le_trans)
    then show ?thesis by (simp add: v_def)
  qed
  show "sound_log st (writes k L v D)" using ok h by (simp add: sound_log_def s log_ok_def)
  have "recovered st (writes k L v D) = writes n L v (writes k L v D)"
    by (rule recovered_head) (simp_all add: s h l)
  then show "recovered st (writes k L v D) bn = writes n L v D bn" using writes_again [OF k] by simp
qed

lemma lgs_lh: "lgs dev (d, st, n, L) M V R D T s \<Longrightarrow> lgs dev (d, st, n', L') M V R D T (s\<lparr>lh_n := n', lh_block := L'\<rparr>)"
proof -
  have "blist (s\<lparr>lh_n := n', lh_block := L'\<rparr>) xs = blist s xs" for xs by (rule blist_cong) simp_all
  then show "lgs dev (d, st, n, L) M V R D T s \<Longrightarrow> lgs dev (d, st, n', L') M V R D T (s\<lparr>lh_n := n', lh_block := L'\<rparr>)"
    by (auto simp: lgs_def cache_def cview_def crefs_def log_fields_def)
qed

lemma lgs_lh_n: "lgs dev (d, st, n, L) M V R D T s \<Longrightarrow> lgs dev (d, st, n', L) M V R D T (s\<lparr>lh_n := n'\<rparr>)"
proof -
  assume s: "lgs dev (d, st, n, L) M V R D T s"
  have "s\<lparr>lh_n := n', lh_block := lh_block s\<rparr> = s\<lparr>lh_n := n'\<rparr>" by simp
  then show "lgs dev (d, st, n', L) M V R D T (s\<lparr>lh_n := n'\<rparr>)"
    using lgs_lh [OF s, of n' "lh_block s"] lgs_dev [OF s] by metis
qed

lemma lh_block_loop:
  "kfor [0..<n] (\<lambda>i. kmod (\<lambda>s. s\<lparr>lh_block := (lh_block s)(i := f i)\<rparr>)) s =
     Ret () (s\<lparr>lh_block := \<lambda>i. if i < n then f i else lh_block s i\<rparr>)"
proof -
  let ?s = "\<lambda>k. s\<lparr>lh_block := \<lambda>i. if i < k then f i else lh_block s i\<rparr>"
  have "\<exists>t. kmod (\<lambda>s. s\<lparr>lh_block := (lh_block s)(k := f k)\<rparr>) u = Ret () t \<and> t = ?s (Suc k)" if "u = ?s k" for k u
  proof -
    have "(\<lambda>i. if i < k then f i else lh_block s i)(k := f k) = (\<lambda>i. if i < Suc k then f i else lh_block s i)"
      by (auto simp: fun_eq_iff)
    then show ?thesis using that by (simp add: kmod_def)
  qed
  then show ?thesis using kfor_upt [of n "\<lambda>k u. u = ?s k" _ s] by simp
qed

lemma read_head_spec:
  assumes s: "lgs dev (dev, st, n, L) Map.empty V R D T s" and R: "room R st" "R st = 0" and h: "hdr_n (D st) = int m"
  shows "\<exists>t L'. read_head s = Ret () t \<and> lgs dev (dev, st, int m, L') Map.empty V R D T t \<and> (\<forall>i<m. L' i = hdr_block (D st) i)"
proof -
  have v: "V st = D st" using lgs_clean [OF s R(2)] .
  obtain b t1 where 1: "bread dev st s = Ret b t1" "lgs dev (dev, st, n, L) [st \<mapsto> b] V (R(st := R st + 1)) D T t1"
    using lgs_bread [OF s _ R(1)] by auto
  have d: "bdata b t1 = Ret (D st) t1" using lgs_bdata [OF 1(2), of st b] v by simp
  define L' where "L' = (\<lambda>i. if i < m then hdr_block (D st) i else L i)"
  let ?t = "t1\<lparr>lh_n := int m, lh_block := L'\<rparr>"
  have 2: "lgs dev (dev, st, int m, L') [st \<mapsto> b] V (R(st := R st + 1)) D T ?t" by (rule lgs_lh [OF 1(2)])
  obtain t3 where 3: "brelse b ?t = Ret () t3" "lgs dev (dev, st, int m, L') Map.empty V R D T t3"
    using lgs_brelse [OF 2, of st b] v by (auto simp: fun_upd_idem)
  have "sint (get32 (D st) 0) = int m" using h by (simp add: hdr_n_def)
  moreover have "kfor [0..<m] (\<lambda>i. kmod (\<lambda>s. s\<lparr>lh_block := (lh_block s)(i := get32 (D st) (4 + 4 * i))\<rparr>)) (t1\<lparr>lh_n := int m\<rparr>) = Ret () ?t"
  proof -
    have "(\<lambda>i. if i < m then get32 (D st) (4 + 4 * i) else lh_block (t1\<lparr>lh_n := int m\<rparr>) i) = L'"
      using lgs_dev [OF 1(2)] by (simp add: L'_def hdr_block_def fun_eq_iff)
    then show ?thesis using lh_block_loop [of m "\<lambda>i. get32 (D st) (4 + 4 * i)" "t1\<lparr>lh_n := int m\<rparr>"] by metis
  qed
  ultimately have "read_head s = Ret () t3" using lgs_dev [OF s] 1(1) d 3(1)
    by (simp add: read_head_def kbind_kget kbind_Ret kthen_Ret kmod_def)
  then show ?thesis using 3(2) by (auto simp: L'_def)
qed

lemma recover_from_log_spec:
  assumes s: "lgs dev (dev, st, n0, L0) Map.empty V (\<lambda>_. 0) D T s" and snd: "sound_log st D"
  shows "\<exists>t L E ds. recover_from_log s = Ret () t \<and> lgs dev (dev, st, 0, L) Map.empty E (\<lambda>_. 0) E (ds @ T) t \<and>
    hdr_n (E st) = 0 \<and> agree st E (recovered st D) \<and> (\<forall>d\<in>set ds. sound_log st d \<and> agree st (recovered st d) (recovered st D))"
proof -
  obtain n where n: "hdr_n (D st) = int n" using snd by (metis sound_log_def nonneg_int_cases)
  have V: "V = D" using lgs_clean [OF s] by (simp add: fun_eq_iff)
  have r: "room (\<lambda>_. 0) st" by (simp add: room_def)
  obtain t1 L where 1: "read_head s = Ret () t1" "lgs dev (dev, st, int n, L) Map.empty D (\<lambda>_. 0) D T t1"
    "\<And>i. i < n \<Longrightarrow> hdr_block (D st) i = L i"
    using read_head_spec [OF s r refl n] V by auto
  have ok: "log_ok n st L" using snd n 1(3) by (simp add: sound_log_def log_ok_def)
  let ?w = "\<lambda>k. writes k L (\<lambda>i. D (logblk st i)) D"
  have "installable True n st L (\<lambda>_. 0)" by (simp add: installable_def)
  moreover have u0: "unpinned True L n (\<lambda>_. 0) = (\<lambda>_. 0)" by (rule ext) (simp add: unpinned_def)
  ultimately obtain t2 ds where 2: "install_trans True t1 = Ret () t2"
    "lgs dev (dev, st, int n, L) Map.empty (?w n) (\<lambda>_. 0) (?w n) (ds @ T) t2" "\<forall>d\<in>set ds. \<exists>k\<le>n. d = ?w k"
    using install_trans_spec [OF 1(2) ok, of True] by auto
  have z: "lgs dev (dev, st, int 0, L) Map.empty (?w n) (\<lambda>_. 0) (?w n) (ds @ T) (t2\<lparr>lh_n := 0\<rparr>)"
    using lgs_lh_n [OF 2(2)] by simp
  define E where "E = (?w n)(st := head_block (?w n st) 0 L)"
  obtain t3 where 3: "write_head (t2\<lparr>lh_n := 0\<rparr>) = Ret () t3"
    "lgs dev (dev, st, 0, L) Map.empty E (\<lambda>_. 0) E ((E # ds) @ T) t3"
    using write_head_spec [OF z r refl] by (auto simp: E_def)
  have "recover_from_log s = Ret () t3"
    using 1(1) 2(1) 3(1) by (simp add: recover_from_log_def kthen_Ret kmod_def)
  moreover have E0: "hdr_n (E st) = 0" using head_block_roundtrip(1) [of 0] by (simp add: E_def)
  have p: "sound_log st (?w k)" "recovered st (?w k) bn = ?w n bn" if "k \<le> n" for k bn
    using recovered_partial [where D = D, OF ok n 1(3) that] by blast+
  have R: "recovered st D = ?w n" using p(2) [of 0] by (simp add: fun_eq_iff)
  have a: "agree st E (recovered st D)" unfolding R by (simp add: agree_def E_def home_def)
  moreover have "sound_log st E \<and> agree st (recovered st E) (recovered st D)"
    using E0 a ok recovered_clean [of E st] by (simp add: sound_log_def log_ok_def)
  moreover have "\<forall>d\<in>set ds. sound_log st d \<and> agree st (recovered st d) (recovered st D)"
  proof (intro ballI)
    fix d assume "d \<in> set ds"
    then obtain k where k: "k \<le> n" "d = ?w k" using 2(3) by blast
    show "sound_log st d \<and> agree st (recovered st d) (recovered st D)" unfolding R k(2) agree_def using p [OF k(1)] by blast
  qed
  ultimately have "recover_from_log s = Ret () t3 \<and> lgs dev (dev, st, 0, L) Map.empty E (\<lambda>_. 0) E ((E # ds) @ T) t3 \<and>
    hdr_n (E st) = 0 \<and> agree st E (recovered st D) \<and> (\<forall>d\<in>set (E # ds). sound_log st d \<and> agree st (recovered st d) (recovered st D))"
    using 3(2) E0 by (simp only: list.set ball_simps simp_thms)
  then show ?thesis by blast
qed

section \<open>Commit\<close>

lemma pins_installable: "pins n st L R \<Longrightarrow> inj_on L {..<n} \<Longrightarrow> installable False n st L R"
  by (simp add: pins_def installable_def)

text \<open>The disk while the transaction is being written: before the header, and from the header on.\<close>

lemma logging_disk:
  assumes ok: "log_ok n st L" and "hdr_n (D st) = 0" "k \<le> n"
  shows "sound_log st (writes k (logblk st) v D)" "agree st (recovered st (writes k (logblk st) v D)) D"
proof -
  have "writes k (logblk st) v D st = D st"
    using log_ok_simps(1) [OF ok] assms(3) by (intro writes_other) (metis less_le_trans)
  then have h: "hdr_n (writes k (logblk st) v D st) = 0" by (simp add: assms(2))
  then show "sound_log st (writes k (logblk st) v D)" using ok by (simp add: sound_log_def log_ok_def)
  have "writes k (logblk st) v D bn = D bn" if "home st bn" for bn
    using that assms(3) log_ok_simps(5) [OF ok] by (intro writes_other) (metis less_le_trans)
  then show "agree st (recovered st (writes k (logblk st) v D)) D" by (simp add: recovered_clean h agree_def)
qed

lemma installing_disk:
  assumes ok: "log_ok n st L" and "k \<le> n" and E_def: "E = (writes n (logblk st) v D)(st := head_block d n L)"
  shows "sound_log st (writes k L v E)" "agree st (recovered st (writes k L v E)) (writes n L v D)"
    "agree st (writes n L v E) (writes n L v D)"
proof -
  have n: "n \<le> LOGBLOCKS" using ok by (simp add: log_ok_def)
  have h: "hdr_n (E st) = int n" "\<And>i. i < n \<Longrightarrow> hdr_block (E st) i = L i"
    using head_block_roundtrip [OF n] by (simp_all add: E_def)
  have lb: "E (logblk st i) = v i" if "i < n" for i
  proof -
    have "inj_on (logblk st) {..<n}" using log_ok_simps(4) [OF ok] by (auto simp: inj_on_def)
    then show ?thesis using writes_at [OF that] log_ok_simps(1) [OF ok that] by (simp add: E_def)
  qed
  have w: "writes j L (\<lambda>i. E (logblk st i)) E = writes j L v E" if "j \<le> n" for j
    using lb that by (intro writes_cong) auto
  note p = recovered_partial [where D = E, OF ok h assms(2), unfolded w [OF assms(2)] w [OF order_refl]]
  show "sound_log st (writes k L v E)" by (rule p(1))
  show 3: "agree st (writes n L v E) (writes n L v D)" unfolding agree_def
  proof (intro allI impI)
    fix bn assume "home st bn"
    then have "bn \<noteq> st" "\<forall>i<n. logblk st i \<noteq> bn" using log_ok_simps(5) [OF ok] by (auto simp: home_def)
    then have "E bn = D bn" by (simp add: E_def writes_other)
    then show "writes n L v E bn = writes n L v D bn" by (rule writes_base)
  qed
  then show "agree st (recovered st (writes k L v E)) (writes n L v D)" using p(2) by (simp add: agree_def)
qed

lemma commit_spec:
  assumes s: "lgs dev (dev, st, int n, L) Map.empty V R D T s" and n: "0 < n"
    and ok: "log_ok n st L" "pins n st L R" "inj_on L {..<n}" and clean: "hdr_n (D st) = 0"
  defines "N \<equiv> writes n L (\<lambda>i. V (L i)) D"
  shows "\<exists>t W E before after. commit s = Ret () t \<and>
    lgs dev (dev, st, 0, L) Map.empty W (unpinned False L n R) E (after @ before @ T) t \<and> hdr_n (E st) = 0 \<and> agree st E N \<and>
    (\<forall>d\<in>set before. sound_log st d \<and> agree st (recovered st d) D) \<and>
    (\<forall>d\<in>set after. sound_log st d \<and> agree st (recovered st d) N)"
proof -
  let ?v = "\<lambda>i. V (L i)" and ?A = "\<lambda>N d. sound_log st d \<and> agree st (recovered st d) N"
  define V1 where "V1 = writes n (logblk st) ?v V"
  define D1 where "D1 = writes n (logblk st) ?v D"
  obtain t1 ds1 where 1: "write_log s = Ret () t1" "lgs dev (dev, st, int n, L) Map.empty V1 R D1 (ds1 @ T) t1"
    "\<forall>d\<in>set ds1. \<exists>k\<le>n. d = writes k (logblk st) ?v D"
    using write_log_spec [OF s ok(1, 2)] unfolding V1_def D1_def by blast
  have h: "\<not> home st st" using log_ok_simps(6) [OF ok(1) n] .
  then have r: "room R st" "R st = 0" using ok(2) by (simp_all add: pins_def room_def)
  define h where "h = head_block (V1 st) n L"
  obtain t2 where 2: "write_head t1 = Ret () t2" "lgs dev (dev, st, int n, L) Map.empty (V1(st := h)) R (D1(st := h)) (D1(st := h) # ds1 @ T) t2"
    using write_head_spec [OF 1(2) r] unfolding h_def by blast
  have v: "(V1(st := h)) (logblk st i) = ?v i" if "i < n" for i
  proof -
    have "inj_on (logblk st) {..<n}" using log_ok_simps(4) [OF ok(1)] by (auto simp: inj_on_def)
    then show ?thesis using writes_at [OF that] log_ok_simps(1) [OF ok(1) that] by (simp add: V1_def)
  qed
  let ?E = "D1(st := h)"
  have w: "writes k L (\<lambda>i. (V1(st := h)) (logblk st i)) X = writes k L ?v X" if "k \<le> n" for k X
    using v that by (intro writes_cong) auto
  obtain t3 ds3 where 3: "install_trans False t2 = Ret () t3"
    "lgs dev (dev, st, int n, L) Map.empty (writes n L ?v (V1(st := h))) (unpinned False L n R) (writes n L ?v ?E) (ds3 @ ?E # ds1 @ T) t3"
    "\<forall>d\<in>set ds3. \<exists>k\<le>n. d = writes k L ?v ?E"
    using install_trans_spec [OF 2(2) ok(1) pins_installable [OF ok(2, 3)]] unfolding w [OF order_refl] by (metis w)
  have z: "lgs dev (dev, st, int 0, L) Map.empty (writes n L ?v (V1(st := h))) (unpinned False L n R) (writes n L ?v ?E) (ds3 @ ?E # ds1 @ T) (t3\<lparr>lh_n := 0\<rparr>)"
    using lgs_lh_n [OF 3(2)] by simp
  note ur = unpinned_room [OF pins_installable [OF ok(2, 3)] h]
  define E where "E = (writes n L ?v ?E)(st := head_block (writes n L ?v (V1(st := h)) st) 0 L)"
  obtain t4 W where 4: "write_head (t3\<lparr>lh_n := 0\<rparr>) = Ret () t4"
    "lgs dev (dev, st, 0, L) Map.empty W (unpinned False L n R) E (E # ds3 @ ?E # ds1 @ T) t4"
    using write_head_spec [OF z ur] unfolding E_def by auto
  have "commit s = Ret () t4"
    using lgs_dev [OF s] n 1(1) 2(1) 3(1) 4(1) by (simp add: commit_def kbind_kget kthen_Ret kmod_def kwhen_def)
  moreover have E0: "hdr_n (E st) = 0" using head_block_roundtrip(1) [of 0] by (simp add: E_def)
  have "?E = (writes n (logblk st) ?v D)(st := head_block (V1 st) n L)" by (simp add: D1_def h_def)
  note inst = installing_disk [OF ok(1) _ this, folded N_def]
  have EN: "agree st E N" using inst(3) [OF order_refl] by (simp add: agree_def E_def home_def)
  have AE: "?A N E" using E0 EN ok(1) recovered_clean [of E st] by (simp add: sound_log_def log_ok_def)
  have A1: "\<forall>d\<in>set ds1. ?A D d" using 1(3) logging_disk [where D = D and v = ?v, OF ok(1) clean] by metis
  have A3: "\<forall>d\<in>set ds3. ?A N d" using 3(3) inst(1, 2) by metis
  have A2: "?A N ?E" using inst(1, 2) [of 0] by simp
  have "\<forall>d\<in>set (E # ds3 @ [?E]). ?A N d" using AE A2 A3 by (simp only: list.set set_append ball_Un ball_simps simp_thms)
  moreover have "lgs dev (dev, st, 0, L) Map.empty W (unpinned False L n R) E ((E # ds3 @ [?E]) @ ds1 @ T) t4"
    using 4(2) by (simp only: append_Cons append_assoc append_Nil)
  ultimately show ?thesis using E0 EN A1 by blast
qed

section \<open>Atomicity\<close>

text \<open>A state in which \<^verbatim>\<open>commit\<close> runs: \<open>n\<close> distinct blocks outside the log are in the header and pinned in
  the cache, no other buffer is in use, and the header on the disk is empty.\<close>

definition commit_ready :: "'a log_st_scheme \<Rightarrow> nat \<Rightarrow> bool" where
  "commit_ready s n \<longleftrightarrow> 0 < n \<and> lh_n s = int n \<and> cache (log_dev s) s Map.empty \<and> log_ok n (log_start s) (lh_block s) \<and>
     pins n (log_start s) (lh_block s) (crefs (log_dev s) s) \<and> inj_on (lh_block s) {..<n} \<and>
     hdr_n (disk s (log_start s)) = 0"

text \<open>The disk with the transaction in place.\<close>

definition committed :: "'a log_st_scheme \<Rightarrow> nat \<Rightarrow> u32 \<Rightarrow> block" where
  "committed s n = writes n (lh_block s) (\<lambda>i. cview (log_dev s) s (lh_block s i)) (disk s)"

text \<open>A system started on the disk \<open>D\<close>, with no buffer in use.\<close>

definition rebooted :: "u32 \<Rightarrow> u32 \<Rightarrow> (u32 \<Rightarrow> block) \<Rightarrow> 'a log_st_scheme \<Rightarrow> bool" where
  "rebooted dev st D u \<longleftrightarrow> log_dev u = dev \<and> log_start u = st \<and> cache dev u Map.empty \<and> (\<forall>bn. crefs dev u bn = 0) \<and> disk u = D"

lemma rebooted_lgs: "rebooted dev st D u \<Longrightarrow> lgs dev (dev, st, lh_n u, lh_block u) Map.empty (cview dev u) (\<lambda>_. 0) D (dtrace u) u"
  by (auto simp: rebooted_def lgs_def log_fields_def)

lemma commit_ready_lgs:
  "commit_ready s n \<Longrightarrow> lgs (log_dev s) (log_dev s, log_start s, int n, lh_block s) Map.empty (cview (log_dev s) s)
     (crefs (log_dev s) s) (disk s) (dtrace s) s"
  by (simp add: commit_ready_def lgs_def log_fields_def)

lemma rebooted_recovers:
  assumes "rebooted dev st d u" "sound_log st d" "agree st (recovered st d) N"
  shows "\<exists>r. recover_from_log u = Ret () r \<and> agree st (disk r) N"
  using recover_from_log_spec [OF rebooted_lgs [OF assms(1)] assms(2)] assms(3) by (auto simp: lgs_def agree_def)

text \<open>C1: a commit is atomic under crashes: every disk it leaves on the way is recovered to the contents before the
  transaction up to the write of the header, and to the contents with the whole transaction from there on.\<close>

theorem commit_crash_atomic:
  fixes s :: "'a log_st_scheme"
  assumes "commit_ready s n"
  shows "\<exists>t before after. commit s = Ret () t \<and> dtrace t = after @ before @ dtrace s \<and>
    agree (log_start s) (disk t) (committed s n) \<and> lh_n t = 0 \<and> hdr_n (disk t (log_start s)) = 0 \<and>
    (\<forall>d\<in>set before. \<forall>u :: 'a log_st_scheme. rebooted (log_dev s) (log_start s) d u \<longrightarrow>
       (\<exists>r. recover_from_log u = Ret () r \<and> agree (log_start s) (disk r) (disk s))) \<and>
    (\<forall>d\<in>set after. \<forall>u :: 'a log_st_scheme. rebooted (log_dev s) (log_start s) d u \<longrightarrow>
       (\<exists>r. recover_from_log u = Ret () r \<and> agree (log_start s) (disk r) (committed s n)))"
proof -
  note c = assms [unfolded commit_ready_def]
  obtain t W E before after where t: "commit s = Ret () t"
    "lgs (log_dev s) (log_dev s, log_start s, 0, lh_block s) Map.empty W (unpinned False (lh_block s) n (crefs (log_dev s) s)) E
       (after @ before @ dtrace s) t" "hdr_n (E (log_start s)) = 0" "agree (log_start s) E (committed s n)"
    "\<forall>d\<in>set before. sound_log (log_start s) d \<and> agree (log_start s) (recovered (log_start s) d) (disk s)"
    "\<forall>d\<in>set after. sound_log (log_start s) d \<and> agree (log_start s) (recovered (log_start s) d) (committed s n)"
    using commit_spec [OF commit_ready_lgs [OF assms]] c unfolding committed_def by blast
  moreover have "disk t = E" "dtrace t = after @ before @ dtrace s" "lh_n t = 0" using t(2) by (simp_all add: lgs_def log_fields_def)
  ultimately show ?thesis using rebooted_recovers by metis
qed

text \<open>C18: recovery installs the log of the disk it starts on, and may itself be cut short: every disk it leaves on the
  way is one that recovery takes to the same contents.\<close>

theorem recovery_restartable:
  assumes "rebooted dev st D s" "sound_log st D"
  shows "\<exists>t ds. recover_from_log s = Ret () t \<and> dtrace t = ds @ dtrace s \<and> agree st (disk t) (recovered st D) \<and>
    cview dev t = disk t \<and> lh_n t = 0 \<and> hdr_n (disk t st) = 0 \<and>
    (\<forall>d\<in>set ds. sound_log st d \<and> agree st (recovered st d) (recovered st D))"
  using recover_from_log_spec [OF rebooted_lgs [OF assms(1)] assms(2)] by (auto simp: lgs_def log_fields_def)

lemma slot_one:
  assumes "\<And>b. b < 30 \<Longrightarrow> b_dev (B b) = dev \<longleftrightarrow> b = 0"
  shows "slot B dev bn = (if b_blockno (B 0) = bn then Some 0 else None)"
proof -
  have "[0..<30] = 0 # [1..<30]" by (simp add: upt_rec)
  moreover have "find (matches B dev bn) [1..<30] = None" using assms by (auto simp: find_None_iff matches_def)
  ultimately show ?thesis using assms [of 0] by (simp add: slot_def matches_def)
qed

lemma home_40: "home 2 40" "log_ok 1 2 (\<lambda>_. 40)"
proof -
  have "40 \<noteq> logblk 2 i" if "i < LOGBLOCKS" for i
  proof
    assume "40 = logblk 2 i"
    moreover have "unat (logblk 2 i) = unat (2 :: u32) + i + 1" using that by (intro logblk_nth) simp_all
    ultimately have "unat (40 :: u32) = unat (2 :: u32) + i + 1" by metis
    then show False using that by simp
  qed
  then show "home 2 40" by (simp add: home_def)
  then show "log_ok 1 2 (\<lambda>_. 40)" by (simp add: log_ok_def)
qed

text \<open>A transaction of one block, 40, whose buffer holds sevens.\<close>

definition one_block_tx :: log_st where
  "one_block_tx = (blank_log (\<lambda>_. idle_proc) ())\<lparr>cproc := Some 0, lh_n := 1, lh_block := \<lambda>_. 40,
     bufs := \<lambda>b. if b = 0 then (blank_buf 0)\<lparr>b_valid := True, b_dev := 1, b_blockno := 40, b_refcnt := 1, b_data := \<lambda>_. 7\<rparr>
       else blank_buf b\<rparr>"

lemma one_block_tx_view:
  "cview 1 one_block_tx bn = (\<lambda>_. if bn = 40 then 7 else 0)" "crefs 1 one_block_tx bn = (if bn = 40 then 1 else 0)"
  by (simp_all add: cview_def crefs_def bview_def brefs_def slot_one one_block_tx_def blank)

lemma one_block_tx_ready: "commit_ready one_block_tx 1"
proof -
  have "blist one_block_tx (rev [0..<30])" by (rule blank_blist) (simp_all add: one_block_tx_def blank)
  moreover have "cells 1 (bufs one_block_tx) (disk one_block_tx) Map.empty"
    by (auto simp: cells_def matches_def one_block_tx_def blank split: if_splits)
  ultimately have "cache 1 one_block_tx Map.empty" by (auto simp: cache_def one_block_tx_def blank)
  moreover have "{x. 0 < crefs 1 one_block_tx x} = {40}" by (auto simp: one_block_tx_view)
  then have "pins 1 2 (\<lambda>_. 40) (crefs 1 one_block_tx)" using home_40(1) by (auto simp: pins_def one_block_tx_view)
  moreover have "hdr_n (disk one_block_tx 2) = 0" by (simp add: hdr_n_def get32_def one_block_tx_def blank)
  ultimately show ?thesis using home_40(2) by (simp add: commit_ready_def one_block_tx_def blank inj_on_def)
qed

theorem commit_crash_atomic_witness:
  "\<exists>t. commit one_block_tx = Ret () t \<and> disk t 40 = (\<lambda>_. 7) \<and> lh_n t = 0"
proof -
  have "committed one_block_tx 1 40 = (\<lambda>_. 7)" "log_start one_block_tx = 2"
    using one_block_tx_view(1) [of 40] by (simp_all add: committed_def one_block_tx_def blank)
  then show ?thesis using commit_crash_atomic [OF one_block_tx_ready] home_40(1) by (auto simp: agree_def)
qed

text \<open>A system started on a disk that holds the log of that transaction.\<close>

definition one_block_boot :: log_st where
  "one_block_boot = (blank_log (\<lambda>_. idle_proc) ())\<lparr>cproc := Some 0,
     disk := (\<lambda>_ _. 0)(2 := head_block (\<lambda>_. 0) 1 (\<lambda>_. 40), 3 := \<lambda>_. 7)\<rparr>"

theorem recovery_restartable_witness:
  "\<exists>t. recover_from_log one_block_boot = Ret () t \<and> disk t 40 = (\<lambda>_. 7) \<and> lh_n t = 0"
proof -
  let ?D = "disk one_block_boot"
  have h: "hdr_n (?D 2) = 1" "hdr_block (?D 2) 0 = 40" using head_block_roundtrip(1) [of 1 "\<lambda>_. 0" "\<lambda>_. 40"] head_block_roundtrip(2) [of 1 0 "\<lambda>_. 0" "\<lambda>_. 40"]
    by (simp_all add: one_block_boot_def)
  have "blist one_block_boot (rev [0..<30])" by (rule blank_blist) (simp_all add: one_block_boot_def blank)
  moreover have "slot (bufs one_block_boot) 1 bn = None" for bn
    by (simp add: slot_def find_None_iff matches_def one_block_boot_def blank)
  ultimately have "rebooted 1 2 ?D one_block_boot"
    by (auto simp: rebooted_def cache_def cells_def matches_def crefs_def brefs_def one_block_boot_def blank)
  moreover have "sound_log 2 ?D" using h home_40 by (simp add: sound_log_def log_ok_def)
  moreover have "recovered 2 ?D 40 = (\<lambda>_. 7)" using h by (simp add: recovered_def logblk_def) (simp add: one_block_boot_def)
  ultimately show ?thesis using recovery_restartable [of 1 2 ?D one_block_boot] home_40(1) by (auto simp: agree_def)
qed

section \<open>A full cache\<close>

lemma bread_full:
  assumes c: "cache dev s Map.empty" and "\<And>i. i < NBUF \<Longrightarrow> 0 < crefs dev s (L i)" "inj_on L {..<NBUF}" "bn \<notin> L ` {..<NBUF}"
  shows "bread dev bn s = Panic ''bget: no buffers''"
proof -
  obtain p xs where s: "held s = {}" "cproc s = Some p" "blist s xs" "\<And>b. b < NBUF \<Longrightarrow> \<not> sl_locked (slocks s (Slock_buf b))"
    using c by (auto simp: cache_def)
  have xs: "set xs = {..<NBUF}" using s(3) by (simp add: blist_def)
  define f where "f i = the (slot (bufs s) dev (L i))" for i
  have f: "f i < NBUF" "matches (bufs s) dev (L i) (f i)" "b_refcnt (bufs s (f i)) \<noteq> 0" if i: "i < NBUF" for i
  proof -
    have *: "0 < brefs (bufs s) dev (L i)" using assms(2) [OF i] by (simp add: crefs_def)
    then obtain b where b: "slot (bufs s) dev (L i) = Some b" by (auto simp: brefs_def split: option.splits)
    then have "b_refcnt (bufs s b) \<noteq> 0" using * by (auto simp: brefs_def)
    with b show "f i < NBUF" "matches (bufs s) dev (L i) (f i)" "b_refcnt (bufs s (f i)) \<noteq> 0"
      by (auto simp: f_def slot_def dest!: find_Some_mem)
  qed
  have "inj_on f {..<NBUF}"
  proof (rule inj_onI)
    fix i j assume ij: "i \<in> {..<NBUF}" "j \<in> {..<NBUF}" "f i = f j"
    then have "L i = L j" using f(2) [of i] f(2) [of j] by (simp add: matches_def)
    then show "i = j" using inj_onD [OF assms(3)] ij(1, 2) by blast
  qed
  moreover have "f ` {..<NBUF} \<subseteq> {..<NBUF}" using f(1) by auto
  ultimately have sur: "f ` {..<NBUF} = {..<NBUF}" by (intro endo_inj_surj) simp_all
  have used: "b_refcnt (bufs s b) \<noteq> 0 \<and> \<not> bmatch s dev bn b" if b: "b < NBUF" for b
  proof -
    obtain i where i: "i < NBUF" "b = f i" using sur b by blast
    then have "b_blockno (bufs s b) = L i" using f(2) [OF i(1)] by (simp add: matches_def)
    moreover have "L i \<noteq> bn" using assms(4) i(1) by blast
    ultimately show ?thesis using f(3) [OF i(1)] i(2) by (simp add: bmatch_def)
  qed
  have "find (bmatch s dev bn) xs = None" "find (\<lambda>b. b_refcnt (bufs s b) = 0) (rev xs) = None"
    using used xs by (auto simp: find_None_iff)
  then have "bget dev bn s = Panic ''bget: no buffers''" using bget_eval [OF s(1-3), of dev bn] s(4) by simp
  then show ?thesis by (simp add: bread_def kmonad)
qed

text \<open>C37: \<^verbatim>\<open>log_write\<close> lets a transaction grow to \<^verbatim>\<open>LOGBLOCKS\<close> blocks, each of which keeps a buffer, and the
  cache has no more than \<^verbatim>\<open>NBUF = LOGBLOCKS\<close> buffers: committing a full log panics, as no buffer is left for the
  first block of the log.\<close>

theorem commit_full_log_panics:
  assumes "cache (log_dev s) s Map.empty" "lh_n s = int LOGBLOCKS" "log_ok LOGBLOCKS (log_start s) (lh_block s)"
    and "inj_on (lh_block s) {..<LOGBLOCKS}" "\<forall>i<LOGBLOCKS. 0 < crefs (log_dev s) s (lh_block s i)"
  shows "commit s = Panic ''bget: no buffers''"
proof -
  have "logblk (log_start s) 0 \<notin> lh_block s ` {..<NBUF}" 
  proof
    assume "logblk (log_start s) 0 \<in> lh_block s ` {..<NBUF}"
    then obtain i where "i < LOGBLOCKS" "lh_block s i = logblk (log_start s) 0" by auto
    then show False using log_ok_simps(3) [OF assms(3), of i 0] by simp
  qed
  then have "bread (log_dev s) (log_start s + 1) s = Panic ''bget: no buffers''"
    using bread_full [OF assms(1) _ assms(4)] assms(5) by (simp add: logblk_def)
  moreover have "[0..<nat (lh_n s)] = 0 # [1..<LOGBLOCKS]" using assms(2) by (simp add: upt_rec)
  ultimately show ?thesis using assms(2)
    by (simp add: commit_def kbind_kget kwhen_def write_log_def) (simp add: kmonad)
qed

text \<open>Thirty blocks, 40 to 69, in thirty buffers.\<close>

definition full_tx :: log_st where
  "full_tx = (blank_log (\<lambda>_. idle_proc) ())\<lparr>cproc := Some 0, lh_n := 30, lh_block := \<lambda>i. 40 + of_nat i,
     bufs := \<lambda>b. if b < 30 then (blank_buf b)\<lparr>b_valid := True, b_dev := 1, b_blockno := 40 + of_nat b, b_refcnt := 1\<rparr> else blank_buf b\<rparr>"

lemma full_block: "i < 30 \<Longrightarrow> unat (40 + of_nat i :: u32) = 40 + i"
  by (simp add: unat_word_ariths unat_of_nat)

lemma full_block_inj: "i < 30 \<Longrightarrow> j < 30 \<Longrightarrow> (40 + of_nat i :: u32) = 40 + of_nat j \<Longrightarrow> i = j"
  by (metis add_left_cancel full_block)

theorem commit_full_log_panics_witness: "commit full_tx = Panic ''bget: no buffers''"
proof (rule commit_full_log_panics)
  have l: "blist full_tx (rev [0..<30])" by (rule blank_blist) (simp_all add: full_tx_def blank)
  have m: "matches (bufs full_tx) 1 bn b \<longleftrightarrow> bn = 40 + of_nat b" if "b < 30" for b bn
    using that by (auto simp: matches_def full_tx_def blank)
  have cl: "cells 1 (bufs full_tx) (disk full_tx) Map.empty" unfolding cells_def
    using full_block_inj by (auto simp: m) (simp_all add: full_tx_def blank)
  have f: "log_dev full_tx = 1" "lh_n full_tx = 30" "log_start full_tx = 2" "lh_block full_tx = (\<lambda>i. 40 + of_nat i)" "held full_tx = {}"
    "cproc full_tx = Some 0" "\<And>b. \<not> sl_locked (slocks full_tx (Slock_buf b))" "\<And>b. b < 30 \<Longrightarrow> b_refcnt (bufs full_tx b) = 1"
    by (simp_all add: full_tx_def blank)
  show "cache (log_dev full_tx) full_tx Map.empty" using l cl f by (auto simp: cache_def)
  show "lh_n full_tx = int LOGBLOCKS" by (simp add: f)
  show "inj_on (lh_block full_tx) {..<LOGBLOCKS}" using full_block_inj by (auto simp: inj_on_def f)
  have "home 2 (40 + of_nat i)" if "i < 30" for i unfolding home_def
  proof (intro conjI allI impI notI)
    assume "40 + of_nat i = (2 :: u32)"
    then have "unat (40 + of_nat i :: u32) = unat (2 :: u32)" by (rule arg_cong)
    then show False using full_block [OF that] by simp
  next
    fix j assume j: "j < LOGBLOCKS" and "40 + of_nat i = logblk 2 j"
    then have "unat (40 + of_nat i :: u32) = unat (logblk 2 j)" by metis
    moreover have "unat (logblk 2 j) = unat (2 :: u32) + j + 1" using j by (intro logblk_nth) simp_all
    ultimately show False using full_block [OF that] j by simp
  qed
  then show "log_ok LOGBLOCKS (log_start full_tx) (lh_block full_tx)" by (simp add: log_ok_def f)
  show "\<forall>i<LOGBLOCKS. 0 < crefs (log_dev full_tx) full_tx (lh_block full_tx i)"
  proof (intro allI impI)
    fix i assume i: "i < LOGBLOCKS"
    then have "brefs (bufs full_tx) 1 (40 + of_nat i) = unat (b_refcnt (bufs full_tx i))"
      using cells_view(2) [OF cl, of i "40 + of_nat i"] m [of i] by simp
    then show "0 < crefs (log_dev full_tx) full_tx (lh_block full_tx i)" using i by (simp add: crefs_def f)
  qed
qed

end
