(* ===== verification/Ulib.thy ===== *)
theory Ulib
  imports Printf Memory
begin

text \<open>
  \<^verbatim>\<open>user/ulib.c\<close>: the C library of the user programs.  Where a function only reads a string, the string is the list of
  its characters before the nul, followed by the bytes of the buffer it lies in; where it writes, memory is the flat
  memory of the theory Memory or a buffer with its own offsets.  A loop that ends at a nul is \<open>None\<close> on a buffer
  without one.
\<close>

section \<open>Strings\<close>

partial_function (option) strcpy_from :: "cbuf \<Rightarrow> cbuf \<Rightarrow> nat \<Rightarrow> cbuf option" where
  "strcpy_from s t i = (if t i = 0 then Some (s(i := 0)) else strcpy_from (s(i := t i)) t (Suc i))"

definition strcpy :: "cbuf \<Rightarrow> cbuf \<Rightarrow> cbuf option" where
  "strcpy s t = strcpy_from s t 0"

partial_function (option) strcmp :: "cbuf \<Rightarrow> cbuf \<Rightarrow> int option" where
  "strcmp p q = (if p 0 \<noteq> 0 \<and> p 0 = q 0 then strcmp (cadv p) (cadv q) else Some (uint (p 0) - uint (q 0)))"

definition strchr :: "string \<Rightarrow> char \<Rightarrow> nat option" where
  "strchr s c = find (\<lambda>i. s ! i = c) [0..<length (takeWhile (\<lambda>x. x \<noteq> CHR 0x00) s)]"

text \<open>\<^verbatim>\<open>gets\<close>: the bytes a \<^verbatim>\<open>read\<close> of one byte would give, one after another; the string read and what is left.\<close>

fun gets_loop :: "nat \<Rightarrow> nat \<Rightarrow> string \<Rightarrow> string \<times> string" where
  "gets_loop i limit inp =
     (if i + 1 < limit then
        (case inp of
           [] \<Rightarrow> ([], [])
         | c # rest \<Rightarrow>
             if c = CHR ''\<newline>'' \<or> c = CHR 0x0D then ([c], rest)
             else (let (s, rest') = gets_loop (i + 1) limit rest in (c # s, rest')))
      else ([], inp))"

declare gets_loop.simps [simp del]

definition gets :: "nat \<Rightarrow> string \<Rightarrow> string \<times> string" where
  "gets limit inp = gets_loop 0 limit inp"

text \<open>\<^verbatim>\<open>atoi\<close> computes in \<^verbatim>\<open>int\<close>, which wraps here as it does on the machine.\<close>

fun atoi_loop :: "u32 \<Rightarrow> string \<Rightarrow> u32" where
  "atoi_loop n [] = n"
| "atoi_loop n (c # s) =
     (if 48 \<le> (of_char c :: nat) \<and> (of_char c :: nat) \<le> 57 then atoi_loop (n * 10 + of_nat (of_char c) - 48) s else n)"

definition atoi :: "string \<Rightarrow> int" where
  "atoi s = sint (atoi_loop 0 s)"

section \<open>Memory\<close>

definition umemset :: "mem \<Rightarrow> u64 \<Rightarrow> u8 \<Rightarrow> u32 \<Rightarrow> mem" where
  "umemset m dst c n = fold (\<lambda>i m. m(dst + of_nat i := c)) [0..<unat n] m"

definition umemmove :: "mem \<Rightarrow> u64 \<Rightarrow> u64 \<Rightarrow> int \<Rightarrow> mem" where
  "umemmove m dst src n =
     (if src > dst then fold (\<lambda>i m. m(dst + of_nat i := m (src + of_nat i))) [0..<nat n] m
      else fold (\<lambda>i m. m(dst + of_nat i := m (src + of_nat i))) (rev [0..<nat n]) m)"

primrec umemcmp_loop :: "mem \<Rightarrow> u64 \<Rightarrow> u64 \<Rightarrow> nat \<Rightarrow> int" where
  "umemcmp_loop m p1 p2 0 = 0"
| "umemcmp_loop m p1 p2 (Suc n) =
     (if m p1 \<noteq> m p2 then uint (m p1) - uint (m p2) else umemcmp_loop m (p1 + 1) (p2 + 1) n)"

definition umemcmp :: "mem \<Rightarrow> u64 \<Rightarrow> u64 \<Rightarrow> u32 \<Rightarrow> int" where
  "umemcmp m s1 s2 n = umemcmp_loop m s1 s2 (unat n)"

definition umemcpy :: "mem \<Rightarrow> u64 \<Rightarrow> u64 \<Rightarrow> u32 \<Rightarrow> mem" where
  "umemcpy m dst src n = umemmove m dst src (sint n)"

end
