(* ===== verification/Grep.thy ===== *)
theory Grep
  imports Ulib
begin

text \<open>
  \<^verbatim>\<open>user/grep.c\<close>: the pattern matcher and the loop that reads a file and prints the lines that match.  A C string
  is the list of its characters before the nul.  The file a \<^verbatim>\<open>read\<close> takes bytes from is the list of bytes still
  to come, with a bound for each \<^verbatim>\<open>read\<close>, as a pipe or a console may give fewer bytes than it is asked for.
\<close>

section \<open>The matcher\<close>

function matchhere :: "string \<Rightarrow> string \<Rightarrow> bool" and matchstar :: "char \<Rightarrow> string \<Rightarrow> string \<Rightarrow> bool" where
  "matchhere re text =
     (if re = [] then True
      else if char_at re 1 = CHR ''*'' then matchstar (hd re) (drop 2 re) text
      else if hd re = CHR ''$'' \<and> tl re = [] then text = []
      else if text \<noteq> [] \<and> (hd re = CHR ''.'' \<or> hd re = hd text) then matchhere (tl re) (tl text)
      else False)"
| "matchstar c re text =
     (if matchhere re text then True
      else if text \<noteq> [] \<and> (hd text = c \<or> c = CHR ''.'') then matchstar c re (tl text)
      else False)"
  by pat_completeness auto
termination
  by (relation "measures [\<lambda>x. case x of Inl (re, t) \<Rightarrow> 2 * length re | Inr (c, re, t) \<Rightarrow> 2 * length re + 1,
      \<lambda>x. case x of Inl (re, t) \<Rightarrow> length t | Inr (c, re, t) \<Rightarrow> length t]")
    (auto simp: char_at_def neq_Nil_conv split: if_splits)

declare matchhere.simps [simp del] matchstar.simps [simp del]

fun match_from :: "string \<Rightarrow> string \<Rightarrow> bool" where
  "match_from re text = (if matchhere re text then True else if text = [] then False else match_from re (tl text))"

declare match_from.simps [simp del]

definition match :: "string \<Rightarrow> string \<Rightarrow> bool" where
  "match re text = (if char_at re 0 = CHR ''^'' then matchhere (tl re) text else match_from re text)"

section \<open>The lines of a file\<close>

text \<open>The inner loop of \<^verbatim>\<open>grep\<close> over the bytes of the buffer: what it prints, and the bytes after the last line.\<close>

function grep_lines :: "string \<Rightarrow> string \<Rightarrow> string \<times> string" where
  "grep_lines pattern p =
     (case strchr p CHR ''\<newline>'' of
        None \<Rightarrow> ([], p)
      | Some q \<Rightarrow>
          (let (out, rest) = grep_lines pattern (drop (q + 1) p) in
           ((if match pattern (take q p) then take (q + 1) p else []) @ out, rest)))"
  by pat_completeness auto
termination
proof (relation "measure (\<lambda>(re, p). length p)")
  fix pattern p q assume "strchr p CHR ''\<newline>'' = Some q"
  then have "q \<in> set [0..<length (takeWhile (\<lambda>x. x \<noteq> CHR 0x00) p)]" unfolding strchr_def by (metis find_Some_iff nth_mem)
  then have "q < length p" using length_takeWhile_le [of _ p] by (simp add: order.strict_trans2)
  then show "((pattern, drop (q + 1) p), (pattern, p)) \<in> measure (\<lambda>(re, p). length p)" by simp
qed simp

declare grep_lines.simps [simp del]

text \<open>\<^verbatim>\<open>read\<close> of at most \<open>k\<close> bytes, and the outer loop.\<close>

definition read_count :: "nat \<Rightarrow> nat list \<Rightarrow> string \<Rightarrow> nat" where
  "read_count k lims inp = min (length inp) (case lims of [] \<Rightarrow> k | l # _ \<Rightarrow> min k (Suc l))"

function grep :: "string \<Rightarrow> string \<Rightarrow> string \<Rightarrow> nat list \<Rightarrow> string" where
  "grep pattern buf inp lims =
     (let n = read_count (1024 - length buf - 1) lims inp in
      if n = 0 then []
      else (let (out, rest) = grep_lines pattern (buf @ take n inp) in out @ grep pattern rest (drop n inp) (tl lims)))"
  by pat_completeness auto
termination
  by (relation "measure (\<lambda>(re, buf, inp, lims). length inp)") (auto simp: read_count_def)

declare grep.simps [simp del]

section \<open>What a pattern means\<close>

datatype atom = One char | Many char

fun compile_re :: "string \<Rightarrow> atom list \<times> bool" where
  "compile_re [] = ([], False)"
| "compile_re [c] = (if c = CHR ''$'' then ([], True) else ([One c], False))"
| "compile_re (c # d # re) =
     (if d = CHR ''*'' then apfst (Cons (Many c)) (compile_re re) else apfst (Cons (One c)) (compile_re (d # re)))"

definition fits :: "char \<Rightarrow> char \<Rightarrow> bool" where "fits c x \<longleftrightarrow> c = CHR ''.'' \<or> x = c"

fun atom_lang :: "atom \<Rightarrow> string set" where
  "atom_lang (One c) = {[x] | x. fits c x}"
| "atom_lang (Many c) = {w. \<forall>x\<in>set w. fits c x}"

fun re_lang :: "atom list \<Rightarrow> string set" where
  "re_lang [] = {[]}"
| "re_lang (a # as) = {v @ w | v w. v \<in> atom_lang a \<and> w \<in> re_lang as}"

text \<open>A text starts with a match of the pattern, all of it when the pattern ends in a dollar sign.\<close>

definition starts :: "atom list \<times> bool \<Rightarrow> string \<Rightarrow> bool" where
  "starts r tx \<longleftrightarrow> (\<exists>p q. tx = p @ q \<and> p \<in> re_lang (fst r) \<and> (snd r \<longrightarrow> q = []))"

definition re_matches :: "string \<Rightarrow> string \<Rightarrow> bool" where
  "re_matches re tx \<longleftrightarrow>
     (if char_at re 0 = CHR ''^'' then starts (compile_re (tl re)) tx
      else \<exists>u v. tx = u @ v \<and> starts (compile_re re) v)"

lemma starts_Cons: "starts (apfst (Cons a) r) tx \<longleftrightarrow>
    (\<exists>v w q. tx = (v @ w) @ q \<and> v \<in> atom_lang a \<and> w \<in> re_lang (fst r) \<and> (snd r \<longrightarrow> q = []))"
  unfolding starts_def fst_apfst snd_apfst re_lang.simps by blast

lemma starts_One: "starts (apfst (Cons (One c)) r) tx \<longleftrightarrow> tx \<noteq> [] \<and> fits c (hd tx) \<and> starts r (tl tx)"
proof
  assume "starts (apfst (Cons (One c)) r) tx"
  then obtain y w q where "tx = ([y] @ w) @ q" "fits c y" "w \<in> re_lang (fst r)" "snd r \<longrightarrow> q = []"
    unfolding starts_Cons atom_lang.simps by blast
  then show "tx \<noteq> [] \<and> fits c (hd tx) \<and> starts r (tl tx)" by (auto simp: starts_def)
next
  assume a: "tx \<noteq> [] \<and> fits c (hd tx) \<and> starts r (tl tx)"
  then obtain p q where t: "tl tx = p @ q" "p \<in> re_lang (fst r)" "snd r \<longrightarrow> q = []" unfolding starts_def by blast
  then have "tx = ([hd tx] @ p) @ q" using a by (cases tx) auto
  then show "starts (apfst (Cons (One c)) r) tx" unfolding starts_Cons using a t(2, 3)
    by (intro exI [of _ "[hd tx]"] exI [of _ p] exI [of _ q]) simp
qed

lemma starts_Many: "starts (apfst (Cons (Many c)) r) tx \<longleftrightarrow>
    starts r tx \<or> (tx \<noteq> [] \<and> fits c (hd tx) \<and> starts (apfst (Cons (Many c)) r) (tl tx))"
proof
  assume "starts (apfst (Cons (Many c)) r) tx"
  then obtain v w q where t: "tx = (v @ w) @ q" "\<forall>x\<in>set v. fits c x" "w \<in> re_lang (fst r)" "snd r \<longrightarrow> q = []"
    unfolding starts_Cons atom_lang.simps by blast
  show "starts r tx \<or> (tx \<noteq> [] \<and> fits c (hd tx) \<and> starts (apfst (Cons (Many c)) r) (tl tx))"
  proof (cases v)
    case Nil
    then show ?thesis using t unfolding starts_def by auto
  next
    case (Cons x v')
    then have "tl tx = (v' @ w) @ q" "\<forall>x\<in>set v'. fits c x" "tx \<noteq> []" "fits c (hd tx)" using t by auto
    then show ?thesis using t(3, 4) unfolding starts_Cons atom_lang.simps by blast
  qed
next
  assume "starts r tx \<or> (tx \<noteq> [] \<and> fits c (hd tx) \<and> starts (apfst (Cons (Many c)) r) (tl tx))"
  then show "starts (apfst (Cons (Many c)) r) tx"
  proof
    assume "starts r tx"
    then obtain p q where "tx = p @ q" "p \<in> re_lang (fst r)" "snd r \<longrightarrow> q = []" unfolding starts_def by blast
    then show ?thesis unfolding starts_Cons by (intro exI [of _ "[]"] exI [of _ p] exI [of _ q]) simp
  next
    assume a: "tx \<noteq> [] \<and> fits c (hd tx) \<and> starts (apfst (Cons (Many c)) r) (tl tx)"
    then obtain v w q where t: "tl tx = (v @ w) @ q" "\<forall>x\<in>set v. fits c x" "w \<in> re_lang (fst r)" "snd r \<longrightarrow> q = []"
      unfolding starts_Cons atom_lang.simps by blast
    have "tx = ((hd tx # v) @ w) @ q" using a t(1) by (cases tx) auto
    then show ?thesis unfolding starts_Cons using a t(2-4)
      by (intro exI [of _ "hd tx # v"] exI [of _ w] exI [of _ q]) simp
  qed
qed

lemma match_starts:
  "matchhere re tx \<longleftrightarrow> starts (compile_re re) tx"
  "matchstar c re tx \<longleftrightarrow> starts (apfst (Cons (Many c)) (compile_re re)) tx"
proof (induction re tx and c re tx rule: matchhere_matchstar.induct)
  case (1 re tx)
  show ?case
  proof (cases re rule: compile_re.cases)
    case 1
    then show ?thesis by (auto simp: matchhere.simps starts_def)
  next
    case (2 c)
    then show ?thesis using "1.IH"(2) starts_One [of c "([], False)" tx]
      by (auto simp: matchhere.simps [of "[c]"] char_at_def fits_def starts_def)
  next
    case (3 c d re')
    then show ?thesis using "1.IH" starts_One [of c "compile_re (d # re')" tx]
      by (auto simp: matchhere.simps [of "c # d # re'"] char_at_def fits_def)
  qed
next
  case (2 c re tx)
  then show ?case using starts_Many [of c "compile_re re" tx] by (auto simp: matchstar.simps [of c] fits_def)
qed

lemma match_from_starts: "match_from re tx \<longleftrightarrow> (\<exists>u v. tx = u @ v \<and> starts (compile_re re) v)"
proof (induction re tx rule: match_from.induct)
  case (1 re tx)
  show ?case
  proof (cases tx)
    case Nil
    then show ?thesis by (simp add: match_from.simps [of re "[]"] match_starts)
  next
    case (Cons x xs)
    have "(\<exists>u v. tx = u @ v \<and> starts (compile_re re) v) \<longleftrightarrow>
        starts (compile_re re) tx \<or> (\<exists>u v. xs = u @ v \<and> starts (compile_re re) v)"
      unfolding Cons by (auto simp: Cons_eq_append_conv)
    moreover have "match_from re tx \<longleftrightarrow> matchhere re tx \<or> match_from re xs"
      by (subst match_from.simps) (simp add: Cons)
    moreover have "match_from re xs \<longleftrightarrow> (\<exists>u v. xs = u @ v \<and> starts (compile_re re) v)" if "\<not> matchhere re tx"
      using 1 that Cons by simp
    ultimately show ?thesis using match_starts(1) [of re tx] by argo
  qed
qed

lemma match_re: "match re tx \<longleftrightarrow> re_matches re tx"
  by (simp add: match_def re_matches_def match_starts match_from_starts)

section \<open>The lines a file has\<close>

text \<open>What \<^verbatim>\<open>grep\<close> should print: the complete lines of the input that match, each with its newline.\<close>

function matching_lines :: "string \<Rightarrow> string \<Rightarrow> string" where
  "matching_lines re s =
     (let l = takeWhile (\<lambda>c. c \<noteq> CHR ''\<newline>'') s in
      if l = s then []
      else (if re_matches re l then l @ [CHR ''\<newline>''] else []) @ matching_lines re (drop (length l + 1) s))"
  by pat_completeness auto
termination
proof (relation "measure (\<lambda>(re, s). length s)")
  fix re s l assume l: "l = takeWhile (\<lambda>c. c \<noteq> CHR ''\<newline>'') s" "l \<noteq> s"
  then have "s \<noteq> []" by auto
  then show "((re, drop (length l + 1) s), (re, s)) \<in> measure (\<lambda>(re, s). length s)" by simp
qed simp

declare matching_lines.simps [simp del]

text \<open>\<open>short_lines s\<close>: no complete line of \<open>s\<close> has more than 1022 bytes.\<close>

function short_lines :: "string \<Rightarrow> bool" where
  "short_lines s =
     (let l = takeWhile (\<lambda>c. c \<noteq> CHR ''\<newline>'') s in
      if l = s then True else if length l > 1022 then False else short_lines (drop (length l + 1) s))"
  by pat_completeness auto
termination
proof (relation "measure length")
  fix s l assume l: "l = takeWhile (\<lambda>c. c \<noteq> CHR ''\<newline>'') s" "l \<noteq> s" "\<not> 1022 < length l"
  then have "s \<noteq> []" by auto
  then show "(drop (length l + 1) s, s) \<in> measure length" by simp
qed simp

declare short_lines.simps [simp del]

abbreviation (input) nl :: char where "nl \<equiv> CHR ''\<newline>''"

lemma lines_simps:
  "nl \<notin> set l \<Longrightarrow> matching_lines re l = []"
  "nl \<notin> set l \<Longrightarrow> matching_lines re (l @ nl # s) = (if re_matches re l then l @ [nl] else []) @ matching_lines re s"
  "nl \<notin> set l \<Longrightarrow> short_lines l"
  "nl \<notin> set l \<Longrightarrow> short_lines (l @ nl # s) \<longleftrightarrow> length l \<le> 1022 \<and> short_lines s"
proof -
  assume a: "nl \<notin> set l"
  then have t: "takeWhile (\<lambda>c. c \<noteq> nl) l = l" "takeWhile (\<lambda>c. c \<noteq> nl) (l @ nl # s) = l"
    by (induction l) auto
  show "matching_lines re l = []" by (subst matching_lines.simps) (simp add: t)
  show "matching_lines re (l @ nl # s) = (if re_matches re l then l @ [nl] else []) @ matching_lines re s"
    by (subst matching_lines.simps) (simp add: t)
  show "short_lines l" by (subst short_lines.simps) (simp add: t)
  show "short_lines (l @ nl # s) \<longleftrightarrow> length l \<le> 1022 \<and> short_lines s"
    by (subst short_lines.simps) (simp add: t)
qed

lemma line_cases:
  obtains "nl \<notin> set s" | l r where "s = l @ nl # r" "nl \<notin> set l"
  by (meson split_list_first)

lemma strchr_line:
  assumes "CHR 0x00 \<notin> set s"
  shows "nl \<notin> set s \<Longrightarrow> strchr s nl = None" "s = l @ nl # r \<Longrightarrow> nl \<notin> set l \<Longrightarrow> strchr s nl = Some (length l)"
proof -
  have t: "takeWhile (\<lambda>x. x \<noteq> CHR 0x00) s = s" using assms by (auto simp: takeWhile_eq_all_conv)
  show "nl \<notin> set s \<Longrightarrow> strchr s nl = None" unfolding strchr_def t by (auto simp: find_None_iff in_set_conv_nth)
  assume s: "s = l @ nl # r" "nl \<notin> set l"
  have "s ! i \<noteq> nl" if "i < length l" for i using that s by (metis nth_append nth_mem)
  moreover have "length l < length s" "s ! length l = nl" using s(1) by simp_all
  ultimately show "strchr s nl = Some (length l)" unfolding strchr_def t find_Some_iff
    by (intro exI [of _ "length l"]) (simp add: nth_upt)
qed

lemma grep_lines_spec:
  assumes "CHR 0x00 \<notin> set s"
  shows "\<exists>r out. grep_lines re s = (out, r) \<and> nl \<notin> set r \<and> set r \<subseteq> set s \<and>
    (\<forall>t. matching_lines re (s @ t) = out @ matching_lines re (r @ t) \<and> (short_lines (s @ t) \<longrightarrow> short_lines (r @ t)))"
  using assms
proof (induction s rule: length_induct)
  case (1 s)
  show ?case
  proof (cases rule: line_cases [of s])
    case 1
    then show ?thesis using strchr_line(1) [OF "1.prems"] by (simp add: grep_lines.simps [of re s])
  next
    case (2 l r)
    then have c: "strchr s nl = Some (length l)" using strchr_line(2) [OF "1.prems"] by blast
    have "length r < length s" "CHR 0x00 \<notin> set r" using "1.prems" 2(1) by auto
    from "1.IH" [rule_format, OF this] obtain r' out where r: "grep_lines re r = (out, r')" "nl \<notin> set r'" "set r' \<subseteq> set r"
      "\<And>t. matching_lines re (r @ t) = out @ matching_lines re (r' @ t)" "\<And>t. short_lines (r @ t) \<longrightarrow> short_lines (r' @ t)"
      by blast
    have "grep_lines re s = ((if re_matches re l then l @ [nl] else []) @ out, r')"
      using c r(1) 2(1) by (subst grep_lines.simps) (simp add: match_re)
    moreover have "matching_lines re (s @ t) = ((if re_matches re l then l @ [nl] else []) @ out) @ matching_lines re (r' @ t)" for t
      using lines_simps(2) [OF 2(2), of re "r @ t"] r(4) [of t] 2(1) by simp
    moreover have "short_lines (s @ t) \<longrightarrow> short_lines (r' @ t)" for t
      using lines_simps(4) [OF 2(2), of "r @ t"] r(5) [of t] 2(1) by simp
    ultimately show ?thesis using r(2, 3) 2(1) by auto
  qed
qed

lemma grep_spec:
  assumes "nl \<notin> set buf" "CHR 0x00 \<notin> set (buf @ inp)" "short_lines (buf @ inp)"
  shows "grep re buf inp lims = matching_lines re (buf @ inp)"
  using assms
proof (induction re buf inp lims rule: grep.induct)
  case (1 re buf inp lims)
  define n where "n = read_count (1024 - length buf - 1) lims inp"
  have g: "grep re buf inp lims = (if n = 0 then [] else
      (let (out, rest) = grep_lines re (buf @ take n inp) in out @ grep re rest (drop n inp) (tl lims)))"
    by (subst grep.simps) (simp only: n_def Let_def)
  show ?case
  proof (cases "n = 0")
    case True
    have "nl \<notin> set inp"
    proof (cases rule: line_cases [of inp])
      case (2 l r)
      then have "nl \<notin> set (buf @ l)" using "1.prems"(1) by simp
      from lines_simps(4) [OF this, of r] have "length (buf @ l) \<le> 1022" using "1.prems"(3) 2(1) by simp
      then have "1024 - length buf - 1 > 0" by simp
      moreover have "inp \<noteq> []" using 2 by simp
      ultimately have "n \<noteq> 0" by (auto simp: n_def read_count_def split: list.splits)
      then show ?thesis using True by simp
    qed
    then have "matching_lines re (buf @ inp) = []" using "1.prems"(1) by (intro lines_simps(1)) simp
    then show ?thesis using True by (simp add: g)
  next
    case False
    have z: "CHR 0x00 \<notin> set (buf @ take n inp)" using "1.prems"(2) set_take_subset [of n inp] by auto
    obtain r out where r: "grep_lines re (buf @ take n inp) = (out, r)" "nl \<notin> set r" "set r \<subseteq> set (buf @ take n inp)"
      "\<And>t. matching_lines re ((buf @ take n inp) @ t) = out @ matching_lines re (r @ t)"
      "\<And>t. short_lines ((buf @ take n inp) @ t) \<longrightarrow> short_lines (r @ t)"
      using grep_lines_spec [OF z, of re] by blast
    have d: "(buf @ take n inp) @ drop n inp = buf @ inp" by simp
    have "short_lines (r @ drop n inp)" using r(5) [of "drop n inp"] "1.prems"(3) unfolding d by blast
    moreover have "CHR 0x00 \<notin> set (r @ drop n inp)" using "1.prems"(2) r(3) z set_drop_subset [of n inp] by auto
    ultimately have "grep re r (drop n inp) (tl lims) = matching_lines re (r @ drop n inp)"
      using "1.IH" [OF n_def False r(1) [symmetric] refl] r(1, 2) by simp
    then have "grep re buf inp lims = out @ matching_lines re (r @ drop n inp)"
      using False r(1) by (simp add: g)
    then show ?thesis using r(4) [of "drop n inp"] unfolding d by simp
  qed
qed

text \<open>C17: of an input without NUL bytes, all of whose lines are short enough for its buffer (\<open>short_lines\<close>), \<^verbatim>\<open>grep\<close> prints
  exactly the lines that match the pattern, in order, however the input comes in pieces.  A line is what a newline ends: a
  last line without one is not printed.  A line matches when some part of it, the beginning for a pattern that
  starts with a caret, is in the language of the pattern and, for a pattern that ends in a dollar sign, reaches its end.\<close>

theorem grep_prints_matching_lines:
  assumes "CHR 0x00 \<notin> set inp" "short_lines inp"
  shows "grep re [] inp lims = matching_lines re inp"
  using grep_spec [of "[]" inp re lims] assms by simp

theorem grep_prints_matching_lines_witness:
  "grep ''b*c$'' [] ''abbc\<newline>cd\<newline>'' [1, 2] = matching_lines ''b*c$'' ''abbc\<newline>cd\<newline>'' \<and>
   grep ''b*c$'' [] ''abbc\<newline>cd\<newline>'' [1, 2] = ''abbc\<newline>''"
proof
  have "short_lines ''abbc\<newline>cd\<newline>''" by code_simp
  then show "grep ''b*c$'' [] ''abbc\<newline>cd\<newline>'' [1, 2] = matching_lines ''b*c$'' ''abbc\<newline>cd\<newline>''"
    by (intro grep_prints_matching_lines) simp_all
  show "grep ''b*c$'' [] ''abbc\<newline>cd\<newline>'' [1, 2] = ''abbc\<newline>''" by code_simp
qed

end
