(* ===== verification/Sh.thy ===== *)
theory Sh
  imports Ulib
begin

text \<open>
  \<^verbatim>\<open>user/sh.c\<close>: the parser of the shell.  The command line is the list of its characters before the nul; a pointer
  into it is an index, \<^verbatim>\<open>es\<close> is its length.  A parser returns the command and the index it stopped at, or the message
  of \<^verbatim>\<open>panic\<close>.  The four parsers that call each other take fuel, and \<open>None\<close> means that it ran out.
\<close>

section \<open>Commands\<close>

text \<open>A word of the command line is given by its first index and the index after its last.\<close>

type_synonym word_at = "nat \<times> nat"

datatype cmd =
    EXEC "word_at list"
  | REDIR cmd word_at int int
  | PIPE cmd cmd
  | LIST cmd cmd
  | BACK cmd

definition MAXARGS :: nat where "MAXARGS = 10"

text \<open>\<^verbatim>\<open>cmd->argv[argc] = q\<close> in \<^verbatim>\<open>parseexec\<close>: the \<^verbatim>\<open>execcmd\<close> is the one inside the redirections around it.\<close>

fun add_arg :: "word_at \<Rightarrow> cmd \<Rightarrow> cmd" where
  "add_arg w (EXEC ws) = EXEC (ws @ [w])"
| "add_arg w (REDIR c f mode fd) = REDIR (add_arg w c) f mode fd"
| "add_arg w c = c"

section \<open>Tokens\<close>

definition whitespace :: string where "whitespace = [CHR '' '', CHR 0x09, CHR 0x0D, CHR ''\<newline>'', CHR 0x0B]"
definition symbols :: string where "symbols = ''<|>&;()''"

function skip_ws :: "string \<Rightarrow> nat \<Rightarrow> nat" where
  "skip_ws s i = (if i < length s \<and> strchr whitespace (s ! i) \<noteq> None then skip_ws s (i + 1) else i)"
  by pat_completeness auto
termination
  by (relation "measure (\<lambda>(s, i). length s - i)") auto

function skip_word :: "string \<Rightarrow> nat \<Rightarrow> nat" where
  "skip_word s i =
     (if i < length s \<and> strchr whitespace (s ! i) = None \<and> strchr symbols (s ! i) = None then skip_word s (i + 1) else i)"
  by pat_completeness auto
termination
  by (relation "measure (\<lambda>(s, i). length s - i)") auto

declare skip_ws.simps [simp del] skip_word.simps [simp del]

text \<open>The token, where it starts and ends, and the new value of \<^verbatim>\<open>*ps\<close>.\<close>

definition gettoken :: "string \<Rightarrow> nat \<Rightarrow> char \<times> word_at \<times> nat" where
  "gettoken s ps =
     (let q = skip_ws s ps; c = char_at s q;
          (ret, eq) =
            (if c = CHR 0x00 then (c, q)
             else if c \<in> set ''|();&<'' then (c, q + 1)
             else if c = CHR ''>'' then (if char_at s (q + 1) = CHR ''>'' then (CHR ''+'', q + 2) else (c, q + 1))
             else (CHR ''a'', skip_word s q))
      in (ret, (q, eq), skip_ws s eq))"

definition peek :: "string \<Rightarrow> nat \<Rightarrow> string \<Rightarrow> bool \<times> nat" where
  "peek s ps toks = (let i = skip_ws s ps; c = char_at s i in (c \<noteq> CHR 0x00 \<and> strchr toks c \<noteq> None, i))"

section \<open>Progress\<close>

lemma skip_ws_ge: "i \<le> skip_ws s i"
proof (induction s i rule: skip_ws.induct)
  case (1 s i)
  then show ?case by (subst skip_ws.simps) auto
qed

lemma skip_ws_le: "i \<le> length s \<Longrightarrow> skip_ws s i \<le> length s"
proof (induction s i rule: skip_ws.induct)
  case (1 s i)
  then show ?case by (subst skip_ws.simps) auto
qed

lemma skip_ws_idem: "skip_ws s (skip_ws s i) = skip_ws s i"
proof (induction s i rule: skip_ws.induct)
  case (1 s i)
  show ?case
  proof (cases "i < length s \<and> strchr whitespace (s ! i) \<noteq> None")
    case True
    then have "skip_ws s i = skip_ws s (i + 1)" by (subst skip_ws.simps) (rule if_P)
    then show ?thesis using 1 [OF True] by simp
  next
    case False
    then have "skip_ws s i = i" by (subst skip_ws.simps) (rule if_not_P)
    then show ?thesis by simp
  qed
qed

lemma skip_word_ge: "i \<le> skip_word s i"
proof (induction s i rule: skip_word.induct)
  case (1 s i)
  then show ?case by (subst skip_word.simps) auto
qed

lemma skip_word_le: "i \<le> length s \<Longrightarrow> skip_word s i \<le> length s"
proof (induction s i rule: skip_word.induct)
  case (1 s i)
  then show ?case by (subst skip_word.simps) auto
qed

lemma peek_step:
  assumes "peek s i toks = (b, j)"
  shows "i \<le> j" "i \<le> length s \<Longrightarrow> j \<le> length s" "b \<Longrightarrow> j < length s" "skip_ws s j = j"
  using assms skip_ws_ge [of i s] skip_ws_le [of i s] skip_ws_idem [of s i]
  by (auto simp: peek_def Let_def char_at_def split: if_splits)

lemma strchr_None: "CHR 0x00 \<notin> set s \<Longrightarrow> strchr s c = None \<longleftrightarrow> c \<notin> set s"
proof -
  assume "CHR 0x00 \<notin> set s"
  then have t: "takeWhile (\<lambda>x. x \<noteq> CHR 0x00) s = s" by (auto simp: takeWhile_eq_all_conv)
  show ?thesis unfolding strchr_def t find_None_iff in_set_conv_nth by auto
qed

lemma skip_ws_stop: "skip_ws s i < length s \<Longrightarrow> strchr whitespace (s ! skip_ws s i) = None"
proof (rule ccontr)
  let ?j = "skip_ws s i"
  assume "?j < length s" "strchr whitespace (s ! ?j) \<noteq> None"
  then have "skip_ws s ?j = skip_ws s (?j + 1)" by (subst skip_ws.simps) (intro if_P conjI)
  then show False using skip_ws_idem [of s i] skip_ws_ge [of "?j + 1" s] by simp
qed

lemma symbols_None: "c \<notin> set ''|();&<'' \<Longrightarrow> c \<noteq> CHR ''>'' \<Longrightarrow> strchr symbols c = None"
  by (simp add: strchr_None symbols_def)

text \<open>A word: no character of it is white space or a symbol, and the character after it is not part of a word.\<close>

definition is_word :: "string \<Rightarrow> word_at \<Rightarrow> bool" where
  "is_word s w = (case w of (q, e) \<Rightarrow> q < e \<and> e \<le> length s \<and>
     (\<forall>k. q \<le> k \<and> k < e \<longrightarrow> strchr whitespace (s ! k) = None \<and> strchr symbols (s ! k) = None) \<and>
     (e < length s \<longrightarrow> strchr whitespace (s ! e) \<noteq> None \<or> strchr symbols (s ! e) \<noteq> None))"

lemma skip_word_chars: "i \<le> k \<Longrightarrow> k < skip_word s i \<Longrightarrow> strchr whitespace (s ! k) = None \<and> strchr symbols (s ! k) = None"
proof (induction s i rule: skip_word.induct)
  case (1 s i)
  show ?case
  proof (cases "i < length s \<and> strchr whitespace (s ! i) = None \<and> strchr symbols (s ! i) = None")
    case True
    then have "skip_word s i = skip_word s (i + 1)" by (subst skip_word.simps) (rule if_P)
    then show ?thesis using 1 True by (cases "k = i") auto
  next
    case False
    then have "skip_word s i = i" by (subst skip_word.simps) (rule if_not_P)
    then show ?thesis using 1 by simp
  qed
qed

lemma skip_word_stop: "skip_word s i < length s \<Longrightarrow> strchr whitespace (s ! skip_word s i) \<noteq> None \<or> strchr symbols (s ! skip_word s i) \<noteq> None"
proof (induction s i rule: skip_word.induct)
  case (1 s i)
  show ?case
  proof (cases "i < length s \<and> strchr whitespace (s ! i) = None \<and> strchr symbols (s ! i) = None")
    case True
    then have "skip_word s i = skip_word s (i + 1)" by (subst skip_word.simps) (rule if_P)
    then show ?thesis using 1 True by simp
  next
    case False
    then have "skip_word s i = i" by (subst skip_word.simps) (rule if_not_P)
    then show ?thesis using 1 False by simp
  qed
qed

lemma gettoken_step:
  assumes "gettoken s i = (tok, (q, e), j)"
  shows "i \<le> j" "i \<le> length s \<Longrightarrow> j \<le> length s" "tok \<noteq> CHR 0x00 \<Longrightarrow> i < j \<and> i < length s" "tok = CHR ''a'' \<Longrightarrow> is_word s (q, e)"
proof -
  define c where "c = char_at s q"
  have q: "q = skip_ws s i" "j = skip_ws s e" using assms by (auto simp: gettoken_def Let_def split: if_splits)
  have iq: "i \<le> q" "i \<le> length s \<Longrightarrow> q \<le> length s" using q(1) skip_ws_ge skip_ws_le by blast+
  have ej: "e \<le> j" "e \<le> length s \<Longrightarrow> j \<le> length s" using q(2) skip_ws_ge skip_ws_le by blast+
  have t: "c = CHR 0x00 \<and> tok = CHR 0x00 \<and> e = q \<or> q < e \<and> e \<le> length s \<and> tok \<noteq> CHR 0x00 \<and> tok \<noteq> CHR ''a'' \<or>
      q < length s \<and> c \<notin> set ''|();&<'' \<and> c \<noteq> CHR ''>'' \<and> tok = CHR ''a'' \<and> e = skip_word s q"
    using assms q(1) by (auto simp: gettoken_def Let_def c_def char_at_def split: if_splits)
  have w: "q < e \<and> is_word s (q, e)" "e \<le> length s" if "q < length s" "c \<notin> set ''|();&<''" "c \<noteq> CHR ''>''" "e = skip_word s q"
  proof -
    have "strchr symbols (s ! q) = None" "strchr whitespace (s ! q) = None"
      using symbols_None [OF that(2, 3)] skip_ws_stop [of s i] that(1) q(1) by (simp_all add: c_def char_at_def)
    then have "skip_word s q = skip_word s (q + 1)" using that(1) by (subst skip_word.simps) (intro if_P conjI)
    then have "q < e" using skip_word_ge [of "q + 1" s] that(4) by simp
    moreover show "e \<le> length s" using skip_word_le that(1, 4) by simp
    ultimately show "q < e \<and> is_word s (q, e)"
      using skip_word_chars skip_word_stop that(4) unfolding is_word_def by blast
  qed
  show "i \<le> j" using t w(1) iq(1) ej(1) by linarith
  show "i \<le> length s \<Longrightarrow> j \<le> length s" using t w(2) iq ej by auto
  show "tok \<noteq> CHR 0x00 \<Longrightarrow> i < j \<and> i < length s" using t w iq ej by auto
  show "tok = CHR ''a'' \<Longrightarrow> is_word s (q, e)" using t w(1) by auto
qed

section \<open>The parsers\<close>

lemma peek_token:
  assumes "peek s i toks = (True, j)" "gettoken s j = (tok, (q, e), k)"
  shows "i < length s" "i < k"
proof -
  have j: "i \<le> j" "j < length s" "skip_ws s j = j" using peek_step [OF assms(1)] by auto
  have "char_at s j \<noteq> CHR 0x00" using assms(1) by (auto simp: peek_def Let_def)
  then have "tok \<noteq> CHR 0x00" using assms(2) j(3) by (auto simp: gettoken_def Let_def split: if_splits)
  then show "i < length s" "i < k" using gettoken_step(3) [OF assms(2)] j by auto
qed

lemma peek_progress: "(True, i) = peek s ps toks \<Longrightarrow> (tok, w, j) = gettoken s i \<Longrightarrow> length s - j < length s - ps"
  using peek_token [of s ps toks i tok "fst w" "snd w" j] by auto

lemma redir_progress:
  "(True, i) = peek s ps toks \<Longrightarrow> (tok, w, j) = gettoken s i \<Longrightarrow> (tok2, w2, k) = gettoken s j \<Longrightarrow> length s - k < length s - ps"
  using peek_progress [of i s ps toks tok w j] gettoken_step(1) [of s j tok2 "fst w2" "snd w2" k] by auto

function parseredirs :: "string \<Rightarrow> cmd \<Rightarrow> nat \<Rightarrow> string + cmd \<times> nat" where
  "parseredirs s cmd ps =
     (case peek s ps ''<>'' of (b, i) \<Rightarrow>
      if \<not> b then Inr (cmd, i)
      else (case gettoken s i of (tok, _, j) \<Rightarrow>
        (case gettoken s j of (tok2, w, k) \<Rightarrow>
           if tok2 \<noteq> CHR ''a'' then Inl ''missing file for redirection''
           else parseredirs s
             (if tok = CHR ''<'' then REDIR cmd w 0 0
              else if tok = CHR ''>'' then REDIR cmd w 0x601 1
              else if tok = CHR ''+'' then REDIR cmd w 0x201 1
              else cmd) k)))"
  by pat_completeness auto
termination
  by (relation "measure (\<lambda>(s, c, i). length s - i)") (auto dest!: redir_progress)

function back_loop :: "string \<Rightarrow> cmd \<Rightarrow> nat \<Rightarrow> cmd \<times> nat" where
  "back_loop s cmd ps =
     (case peek s ps ''&'' of (b, i) \<Rightarrow>
      if \<not> b then (cmd, i)
      else (case gettoken s i of (_, _, j) \<Rightarrow> back_loop s (BACK cmd) j))"
  by pat_completeness auto
termination
  by (relation "measure (\<lambda>(s, c, i). length s - i)") (auto dest!: peek_progress)

declare parseredirs.simps [simp del] back_loop.simps [simp del]

text \<open>The words of a command.\<close>

primrec cmd_words :: "cmd \<Rightarrow> word_at list" where
  "cmd_words (EXEC ws) = ws"
| "cmd_words (REDIR c w mode fd) = w # cmd_words c"
| "cmd_words (PIPE l r) = cmd_words l @ cmd_words r"
| "cmd_words (LIST l r) = cmd_words l @ cmd_words r"
| "cmd_words (BACK c) = cmd_words c"

text \<open>The arguments of each \<^verbatim>\<open>execcmd\<close> leave room in \<^verbatim>\<open>argv\<close> for the null pointer after them.\<close>

primrec args_fit :: "cmd \<Rightarrow> bool" where
  "args_fit (EXEC ws) \<longleftrightarrow> length ws < MAXARGS"
| "args_fit (REDIR c w mode fd) \<longleftrightarrow> args_fit c"
| "args_fit (PIPE l r) \<longleftrightarrow> args_fit l \<and> args_fit r"
| "args_fit (LIST l r) \<longleftrightarrow> args_fit l \<and> args_fit r"
| "args_fit (BACK c) \<longleftrightarrow> args_fit c"

text \<open>The number of arguments of the \<^verbatim>\<open>execcmd\<close> that \<^verbatim>\<open>parseexec\<close> is filling.\<close>

fun argc_of :: "cmd \<Rightarrow> nat" where
  "argc_of (EXEC ws) = length ws"
| "argc_of (REDIR c w mode fd) = argc_of c"
| "argc_of c = 0"

definition good :: "string \<Rightarrow> cmd \<Rightarrow> bool" where
  "good s c \<longleftrightarrow> list_all (is_word s) (cmd_words c) \<and> args_fit c"

lemma good_simps [simp]:
  "good s (EXEC ws) \<longleftrightarrow> list_all (is_word s) ws \<and> length ws < MAXARGS" "good s (REDIR c w m d) \<longleftrightarrow> is_word s w \<and> good s c"
  "good s (PIPE l r) \<longleftrightarrow> good s l \<and> good s r" "good s (LIST l r) \<longleftrightarrow> good s l \<and> good s r" "good s (BACK c) \<longleftrightarrow> good s c"
  by (auto simp: good_def)

lemma good_add_arg: "is_word s w \<Longrightarrow> good s c \<Longrightarrow> argc_of c + 1 < MAXARGS \<Longrightarrow> good s (add_arg w c)"
  by (induction w c rule: add_arg.induct) auto

lemma argc_add_arg: "argc_of (add_arg w c) \<le> argc_of c + 1"
  by (induction w c rule: add_arg.induct) auto

lemma parseredirs_step:
  "parseredirs s c i = Inr (c', k) \<Longrightarrow> i \<le> k \<and> (i \<le> length s \<longrightarrow> k \<le> length s) \<and> (good s c \<longrightarrow> good s c') \<and> argc_of c' = argc_of c"
proof (induction s c i rule: parseredirs.induct)
  case (1 s c i)
  obtain b j where p: "peek s i ''<>'' = (b, j)" by (cases "peek s i ''<>''")
  obtain tok w m where g: "gettoken s j = (tok, w, m)" by (cases "gettoken s j")
  obtain tok2 q e n where h: "gettoken s m = (tok2, (q, e), n)" by (cases "gettoken s m") auto
  note st = peek_step [OF p] gettoken_step(1, 2) [of s j tok "fst w" "snd w" m] gettoken_step [OF h]
  show ?case
  proof (cases b)
    case False
    then have "parseredirs s c i = Inr (c, j)" by (subst parseredirs.simps) (simp add: p)
    then show ?thesis using "1.prems" st by auto
  next
    case True
    define d where "d = (if tok = CHR ''<'' then REDIR c (q, e) 0 0 else if tok = CHR ''>'' then REDIR c (q, e) 0x601 1
      else if tok = CHR ''+'' then REDIR c (q, e) 0x201 1 else c)"
    have "parseredirs s c i = (if tok2 \<noteq> CHR ''a'' then Inl ''missing file for redirection'' else parseredirs s d n)"
      by (subst parseredirs.simps) (simp only: p g h True d_def prod.case simp_thms if_True if_False)
    then have r: "tok2 = CHR ''a''" "parseredirs s d n = Inr (c', k)" using "1.prems" by (simp_all split: if_splits)
    have gd: "good s c \<longrightarrow> good s d" "argc_of d = argc_of c" using st r(1) by (auto simp: d_def)
    have "n \<le> k \<and> (n \<le> length s \<longrightarrow> k \<le> length s) \<and> (good s d \<longrightarrow> good s c') \<and> argc_of c' = argc_of d"
      using "1.IH" [OF p [symmetric] _ g [symmetric] refl h [symmetric] refl] True r by (simp add: d_def)
    then show ?thesis using st gd g by auto
  qed
qed

lemma back_loop_step:
  "back_loop s c i = (c', k) \<Longrightarrow> i \<le> k \<and> (i \<le> length s \<longrightarrow> k \<le> length s) \<and> (good s c \<longrightarrow> good s c')"
proof (induction s c i rule: back_loop.induct)
  case (1 s c i)
  obtain b j where p: "peek s i ''&'' = (b, j)" by (cases "peek s i ''&''")
  obtain tok w m where g: "gettoken s j = (tok, w, m)" by (cases "gettoken s j")
  note st = peek_step [OF p] gettoken_step(1, 2) [of s j tok "fst w" "snd w" m]
  show ?case
  proof (cases b)
    case False
    then have "back_loop s c i = (c, j)" by (subst back_loop.simps) (simp add: p)
    then show ?thesis using "1.prems" st by auto
  next
    case True
    then have "back_loop s c i = back_loop s (BACK c) m" by (subst back_loop.simps) (simp add: p g)
    then have "back_loop s (BACK c) m = (c', k)" using "1.prems" by simp
    then show ?thesis using "1.IH" [OF p [symmetric] _ g [symmetric] refl] True st g by auto
  qed
qed

text \<open>The loop over the arguments of a command.\<close>

lemma exec_progress:
  "(CHR ''a'', w, j) = gettoken s i \<Longrightarrow> (False, i) = peek s ps toks \<Longrightarrow> parseredirs s c j = Inr (d, k) \<Longrightarrow>
    length s - k < length s - ps"
  using peek_step(1) [of s ps toks False i] gettoken_step(3) [of s i "CHR ''a''" "fst w" "snd w" j] parseredirs_step [of s c j d k]
  by auto

function parseexec_loop :: "string \<Rightarrow> cmd \<Rightarrow> nat \<Rightarrow> nat \<Rightarrow> string + cmd \<times> nat" where
  "parseexec_loop s ret argc ps =
     (case peek s ps ''|)&;'' of (b, i) \<Rightarrow>
      if b then Inr (ret, i)
      else (case gettoken s i of (tok, w, j) \<Rightarrow>
        if tok = CHR 0x00 then Inr (ret, j)
        else if tok \<noteq> CHR ''a'' then Inl ''syntax''
        else if argc + 1 \<ge> MAXARGS then Inl ''too many args''
        else (case parseredirs s (add_arg w ret) j of
                Inl e \<Rightarrow> Inl e
              | Inr (ret', k) \<Rightarrow> parseexec_loop s ret' (argc + 1) k)))"
  by pat_completeness auto
termination
  by (relation "measure (\<lambda>(s, c, n, i). length s - i)") (auto dest!: exec_progress)

declare parseexec_loop.simps [simp del]

lemma parseexec_loop_step:
  "parseexec_loop s c n i = Inr (c', k) \<Longrightarrow> i \<le> k \<and> (i \<le> length s \<longrightarrow> k \<le> length s) \<and> (good s c \<and> argc_of c \<le> n \<longrightarrow> good s c')"
proof (induction s c n i rule: parseexec_loop.induct)
  case (1 s c n i)
  obtain b j where p: "peek s i ''|)&;'' = (b, j)" by (cases "peek s i ''|)&;''")
  obtain tok q e m where g: "gettoken s j = (tok, (q, e), m)" by (cases "gettoken s j") auto
  note st = peek_step [OF p] gettoken_step [OF g]
  have u: "parseexec_loop s c n i = (if b then Inr (c, j) else if tok = CHR 0x00 then Inr (c, m)
      else if tok \<noteq> CHR ''a'' then Inl ''syntax'' else if n + 1 \<ge> MAXARGS then Inl ''too many args''
      else (case parseredirs s (add_arg (q, e) c) m of Inl e \<Rightarrow> Inl e | Inr (ret', k) \<Rightarrow> parseexec_loop s ret' (n + 1) k))"
    by (subst parseexec_loop.simps) (simp only: p g prod.case)
  show ?case
  proof (cases "b \<or> tok = CHR 0x00")
    case True
    then show ?thesis using u "1.prems" st by (auto split: if_splits)
  next
    case False
    then obtain d r where r: "tok = CHR ''a''" "\<not> n + 1 \<ge> MAXARGS" "parseredirs s (add_arg (q, e) c) m = Inr (d, r)"
      "parseexec_loop s d (n + 1) r = Inr (c', k)"
      using u "1.prems" by (auto split: if_splits sum.splits)
    note rs = parseredirs_step [OF r(3)]
    have "r \<le> k \<and> (r \<le> length s \<longrightarrow> k \<le> length s) \<and> (good s d \<and> argc_of d \<le> n + 1 \<longrightarrow> good s c')"
      using "1.IH" [OF p [symmetric] _ g [symmetric] refl] False r by simp
    moreover have "good s c \<and> argc_of c \<le> n \<longrightarrow> good s d \<and> argc_of d \<le> n + 1"
      using rs good_add_arg [OF st(8) [OF r(1)], of c] argc_add_arg [of "(q, e)" c] r(2) by auto
    ultimately show ?thesis using rs st by auto
  qed
qed

text \<open>Running one parser after another.\<close>

fun pbind :: "(string + 'a) option \<Rightarrow> ('a \<Rightarrow> (string + 'b) option) \<Rightarrow> (string + 'b) option" where
  "pbind None f = None"
| "pbind (Some (Inl e)) f = Some (Inl e)"
| "pbind (Some (Inr a)) f = f a"

fun parseline :: "nat \<Rightarrow> string \<Rightarrow> nat \<Rightarrow> (string + cmd \<times> nat) option"
  and parsepipe :: "nat \<Rightarrow> string \<Rightarrow> nat \<Rightarrow> (string + cmd \<times> nat) option"
  and parseexec :: "nat \<Rightarrow> string \<Rightarrow> nat \<Rightarrow> (string + cmd \<times> nat) option"
  and parseblock :: "nat \<Rightarrow> string \<Rightarrow> nat \<Rightarrow> (string + cmd \<times> nat) option" where
  "parseline 0 s ps = None"
| "parseline (Suc n) s ps =
     pbind (parsepipe n s ps) (\<lambda>(cmd, i).
     case back_loop s cmd i of (cmd, i) \<Rightarrow>
     (case peek s i '';'' of (b, i) \<Rightarrow>
      if b then
        (case gettoken s i of (_, _, i) \<Rightarrow>
         pbind (parseline n s i) (\<lambda>(right, i). Some (Inr (LIST cmd right, i))))
      else Some (Inr (cmd, i))))"
| "parsepipe 0 s ps = None"
| "parsepipe (Suc n) s ps =
     pbind (parseexec n s ps) (\<lambda>(cmd, i).
     case peek s i ''|'' of (b, i) \<Rightarrow>
      if b then
        (case gettoken s i of (_, _, i) \<Rightarrow>
         pbind (parsepipe n s i) (\<lambda>(right, i). Some (Inr (PIPE cmd right, i))))
      else Some (Inr (cmd, i)))"
| "parseexec 0 s ps = None"
| "parseexec (Suc n) s ps =
     (case peek s ps ''('' of (b, i) \<Rightarrow>
      if b then parseblock n s i
      else
        pbind (Some (parseredirs s (EXEC []) i)) (\<lambda>(ret, i).
        Some (parseexec_loop s ret 0 i)))"
| "parseblock 0 s ps = None"
| "parseblock (Suc n) s ps =
     (case peek s ps ''('' of (b, i) \<Rightarrow>
      if \<not> b then Some (Inl ''parseblock'')
      else
        (case gettoken s i of (_, _, i) \<Rightarrow>
         pbind (parseline n s i) (\<lambda>(cmd, i).
         case peek s i '')'' of (b, i) \<Rightarrow>
         if \<not> b then Some (Inl ''syntax - missing )'')
         else (case gettoken s i of (_, _, i) \<Rightarrow> Some (parseredirs s cmd i)))))"

primrec nulterminate :: "cmd \<Rightarrow> string \<Rightarrow> string" where
  "nulterminate (EXEC ws) buf = fold (\<lambda>w buf. buf[snd w := CHR 0x00]) ws buf"
| "nulterminate (REDIR c w mode fd) buf = (nulterminate c buf)[snd w := CHR 0x00]"
| "nulterminate (PIPE l r) buf = nulterminate r (nulterminate l buf)"
| "nulterminate (LIST l r) buf = nulterminate r (nulterminate l buf)"
| "nulterminate (BACK c) buf = nulterminate c buf"

text \<open>The command and the command line with its words terminated.\<close>

definition parsecmd :: "string \<Rightarrow> (string + cmd \<times> string) option" where
  "parsecmd s =
     pbind (parseline (4 * length s + 4) s 0) (\<lambda>(cmd, i).
     case peek s i [] of (_, i) \<Rightarrow>
     if i \<noteq> length s then Some (Inl ''syntax'')
     else Some (Inr (cmd, nulterminate cmd (s @ [CHR 0x00]))))"

section \<open>The parsers return\<close>

text \<open>\<open>parsed s i r\<close>: the parser started at \<open>i\<close> returned, and a command it returned has words of \<open>s\<close> only.\<close>

definition parsed :: "string \<Rightarrow> nat \<Rightarrow> (string + cmd \<times> nat) option \<Rightarrow> bool" where
  "parsed s i r \<longleftrightarrow> (\<exists>x. r = Some x \<and> (\<forall>c j. x = Inr (c, j) \<longrightarrow> i \<le> j \<and> j \<le> length s \<and> good s c))"

lemma parsed_simps [simp]:
  "parsed s i (Some (Inl e))" "parsed s i (Some (Inr (c, j))) \<longleftrightarrow> i \<le> j \<and> j \<le> length s \<and> good s c"
  by (simp_all add: parsed_def)

lemma parsed_pbind:
  assumes "parsed s i r" "\<And>c j. i \<le> j \<Longrightarrow> j \<le> length s \<Longrightarrow> good s c \<Longrightarrow> parsed s i (f (c, j))"
  shows "parsed s i (pbind r f)"
proof -
  obtain x where x: "r = Some x" "\<And>c j. x = Inr (c, j) \<Longrightarrow> i \<le> j \<and> j \<le> length s \<and> good s c" using assms(1) by (auto simp: parsed_def)
  show ?thesis
  proof (cases x)
    case (Inr b)
    then obtain c j where "x = Inr (c, j)" by (cases b) auto
    then show ?thesis using x assms(2) by auto
  qed (simp add: x(1))
qed

lemma parsed_mono: "parsed s j r \<Longrightarrow> i \<le> j \<Longrightarrow> parsed s i r"
  by (fastforce simp: parsed_def)

lemma parsed_redirs: "i \<le> length s \<Longrightarrow> good s c \<Longrightarrow> parsed s i (Some (parseredirs s c i))"
  using parseredirs_step by (auto simp: parsed_def)

lemma token_step:
  assumes "peek s i toks = (True, j)" "gettoken s j = (tok, w, k)" "i \<le> length s"
  shows "i < k" "k \<le> length s"
proof -
  obtain q e where w: "gettoken s j = (tok, (q, e), k)" using assms(2) by (cases w) auto
  show "i < k" using peek_token(2) [OF assms(1) w] .
  show "k \<le> length s" using gettoken_step(2) [OF w] peek_step(2) [OF assms(1, 3)] by simp
qed

text \<open>One step of each parser, from what it knows of the ones it calls.\<close>

lemma parseline_step:
  assumes i: "i \<le> length s" and p: "parsed s i (parsepipe n s i)" and q: "\<And>k. i < k \<Longrightarrow> k \<le> length s \<Longrightarrow> parsed s k (parseline n s k)"
  shows "parsed s i (parseline (Suc n) s i)"
  unfolding parseline.simps
proof (rule parsed_pbind [OF p])
  fix c j assume j: "i \<le> j" "j \<le> length s" "good s c"
  obtain d k where b: "back_loop s c j = (d, k)" by (cases "back_loop s c j")
  obtain f m where p: "peek s k '';'' = (f, m)" by (cases "peek s k '';''")
  obtain tok w l where g: "gettoken s m = (tok, w, l)" by (cases "gettoken s m") auto
  have k: "j \<le> k" "k \<le> length s" "good s d" using back_loop_step [OF b] j by auto
  show "parsed s i (case (c, j) of (cmd, i) \<Rightarrow> case back_loop s cmd i of (cmd, i) \<Rightarrow> (case peek s i '';'' of (b, i) \<Rightarrow>
    if b then (case gettoken s i of (_, _, i) \<Rightarrow> pbind (parseline n s i) (\<lambda>(right, i). Some (Inr (LIST cmd right, i))))
    else Some (Inr (cmd, i))))"
  proof (cases f)
    case True
    have l: "k < l" "l \<le> length s" using token_step [OF _ g k(2)] p True by auto
    have "parsed s l (pbind (parseline n s l) (\<lambda>(right, i). Some (Inr (LIST d right, i))))"
      by (rule parsed_pbind [OF q]) (use j k l in auto)
    then show ?thesis using True b p g parsed_mono [of s l _ i] j k l by simp
  qed (use b p k j peek_step [OF p] in simp)
qed

lemma parsepipe_step:
  assumes i: "i \<le> length s" and p: "parsed s i (parseexec n s i)" and q: "\<And>k. i < k \<Longrightarrow> k \<le> length s \<Longrightarrow> parsed s k (parsepipe n s k)"
  shows "parsed s i (parsepipe (Suc n) s i)"
  unfolding parsepipe.simps
proof (rule parsed_pbind [OF p])
  fix c j assume j: "i \<le> j" "j \<le> length s" "good s c"
  obtain f m where p: "peek s j ''|'' = (f, m)" by (cases "peek s j ''|''")
  obtain tok w l where g: "gettoken s m = (tok, w, l)" by (cases "gettoken s m") auto
  show "parsed s i (case (c, j) of (cmd, i) \<Rightarrow> case peek s i ''|'' of (b, i) \<Rightarrow>
    if b then (case gettoken s i of (_, _, i) \<Rightarrow> pbind (parsepipe n s i) (\<lambda>(right, i). Some (Inr (PIPE cmd right, i))))
    else Some (Inr (cmd, i)))"
  proof (cases f)
    case True
    have l: "j < l" "l \<le> length s" using token_step [OF _ g j(2)] p True by auto
    have "parsed s l (pbind (parsepipe n s l) (\<lambda>(right, i). Some (Inr (PIPE c right, i))))"
      by (rule parsed_pbind [OF q]) (use j l in auto)
    then show ?thesis using True p g parsed_mono [of s l _ i] j l by simp
  qed (use p j peek_step [OF p] in simp)
qed

lemma parseexec_step:
  assumes i: "i \<le> length s" and q: "\<And>k. i \<le> k \<Longrightarrow> k \<le> length s \<Longrightarrow> parsed s k (parseblock n s k)"
  shows "parsed s i (parseexec (Suc n) s i)"
proof -
  obtain f m where p: "peek s i ''('' = (f, m)" by (cases "peek s i ''(''")
  have m: "i \<le> m" "m \<le> length s" using peek_step [OF p] i by auto
  show ?thesis
  proof (cases f)
    case False
    have "parsed s m (pbind (Some (parseredirs s (EXEC []) m)) (\<lambda>(ret, i). Some (parseexec_loop s ret 0 i)))"
    proof (cases "parseredirs s (EXEC []) m")
      case (Inr r)
      then obtain c k where r: "parseredirs s (EXEC []) m = Inr (c, k)" by (cases r) auto
      then have "m \<le> k" "k \<le> length s" "good s c" "argc_of c = 0"
        using parseredirs_step [OF r] m(2) by (auto simp: MAXARGS_def)
      then show ?thesis using r parseexec_loop_step [of s c 0 k] by (fastforce simp: parsed_def)
    qed simp
    then show ?thesis using p False parsed_mono [OF _ m(1)] by simp
  qed (use p q m parsed_mono [OF q m(1)] in simp)
qed

lemma parseblock_step:
  assumes i: "i \<le> length s" and q: "\<And>k. i < k \<Longrightarrow> k \<le> length s \<Longrightarrow> parsed s k (parseline n s k)"
  shows "parsed s i (parseblock (Suc n) s i)"
proof -
  obtain f m where p: "peek s i ''('' = (f, m)" by (cases "peek s i ''(''")
  obtain tok w l where g: "gettoken s m = (tok, w, l)" by (cases "gettoken s m") auto
  show ?thesis
  proof (cases f)
    case True
    have l: "i < l" "l \<le> length s" using token_step [OF _ g i] p True by auto
    have "parsed s l (pbind (parseline n s l) (\<lambda>(cmd, i). case peek s i '')'' of (b, i) \<Rightarrow>
       if \<not> b then Some (Inl ''syntax - missing )'')
       else (case gettoken s i of (_, _, i) \<Rightarrow> Some (parseredirs s cmd i))))"
    proof (rule parsed_pbind [OF q [OF l]])
      fix c j assume j: "l \<le> j" "j \<le> length s" "good s c"
      obtain f' m' where p': "peek s j '')'' = (f', m')" by (cases "peek s j '')''")
      obtain tok' w' l' where g': "gettoken s m' = (tok', w', l')" by (cases "gettoken s m'") auto
      show "parsed s l (case (c, j) of (cmd, i) \<Rightarrow> case peek s i '')'' of (b, i) \<Rightarrow>
        if \<not> b then Some (Inl ''syntax - missing )'')
        else (case gettoken s i of (_, _, i) \<Rightarrow> Some (parseredirs s cmd i)))"
      proof (cases f')
        case True
        then have "j < l'" "l' \<le> length s" using token_step [OF _ g' j(2)] p' by auto
        then show ?thesis using True p' g' j parsed_mono [OF parsed_redirs, of l' s c l] by simp
      qed (simp add: p')
    qed
    then show ?thesis using p g True parsed_mono [of s l _ i] l by simp
  qed (simp add: p)
qed

lemma parsers_return:
  fixes s :: string
  shows "i \<le> length s \<Longrightarrow> 4 * (length s - i) + 4 \<le> n \<Longrightarrow> parsed s i (parseline n s i)"
    and "i \<le> length s \<Longrightarrow> 4 * (length s - i) + 3 \<le> n \<Longrightarrow> parsed s i (parsepipe n s i)"
    and "i \<le> length s \<Longrightarrow> 4 * (length s - i) + 2 \<le> n \<Longrightarrow> parsed s i (parseexec n s i)"
    and "i \<le> length s \<Longrightarrow> 4 * (length s - i) + 1 \<le> n \<Longrightarrow> parsed s i (parseblock n s i)"
proof (induction n arbitrary: i)
  case (Suc n)
  note IH = Suc.IH
  {
    case 1
    then show ?case by (intro parseline_step IH(1, 2)) auto
  next
    case 2
    then show ?case by (intro parsepipe_step IH(2, 3)) auto
  next
    case 3
    then show ?case by (intro parseexec_step IH(4)) auto
  next
    case 4
    then show ?case by (intro parseblock_step IH(1)) auto
  }
qed simp_all

section \<open>Terminated words\<close>

text \<open>The C string at an index of a buffer.\<close>

definition cstring_at :: "string \<Rightarrow> nat \<Rightarrow> string" where
  "cstring_at buf q = takeWhile (\<lambda>x. x \<noteq> CHR 0x00) (drop q buf)"

lemma nth_cut: "k < length xs \<Longrightarrow> xs[b := z] ! k = (if b = k then z else xs ! k)"
  by (cases "b = k") auto

lemma cut_words:
  "length (fold (\<lambda>w buf. buf[snd w := CHR 0x00]) ws buf) = length buf"
  "k < length buf \<Longrightarrow> fold (\<lambda>w buf. buf[snd w := CHR 0x00]) ws buf ! k = (if k \<in> snd ` set ws then CHR 0x00 else buf ! k)"
  by (induction ws arbitrary: buf) (auto simp: nth_cut)

lemma nulterminate_length: "length (nulterminate c buf) = length buf"
  by (induction c arbitrary: buf) (auto simp: cut_words)

lemma nulterminate_at:
  "k < length buf \<Longrightarrow> nulterminate c buf ! k = (if k \<in> snd ` set (cmd_words c) then CHR 0x00 else buf ! k)"
proof (induction c arbitrary: buf)
  case (EXEC ws)
  then show ?case by (simp add: cut_words)
next
  case (REDIR c w mode fd)
  then show ?case by (simp add: nth_cut nulterminate_length)
qed (simp_all add: nulterminate_length image_Un)

lemmas nulterminate_nth = nulterminate_length nulterminate_at

lemma nulterminate_word:
  assumes z: "CHR 0x00 \<notin> set s" and g: "good s c" and w: "(q, e) \<in> set (cmd_words c)"
  shows "cstring_at (nulterminate c (s @ [CHR 0x00])) q = take (e - q) (drop q s)"
proof -
  let ?b = "nulterminate c (s @ [CHR 0x00])"
  have words: "is_word s v" if "v \<in> set (cmd_words c)" for v using g that by (simp add: good_def list_all_iff)
  note v = words [OF w, unfolded is_word_def prod.case]
  have keep: "?b ! k = s ! k" "s ! k \<noteq> CHR 0x00" if k: "q \<le> k" "k < e" for k
  proof -
    have kl: "k < length s" using k v by simp
    have "k \<notin> snd ` set (cmd_words c)"
    proof
      assume "k \<in> snd ` set (cmd_words c)"
      then obtain p where "(p, k) \<in> set (cmd_words c)" by auto
      from words [OF this] have "strchr whitespace (s ! k) \<noteq> None \<or> strchr symbols (s ! k) \<noteq> None" using kl by (simp add: is_word_def)
      moreover have "strchr whitespace (s ! k) = None" "strchr symbols (s ! k) = None" using v k by simp_all
      ultimately show False by simp
    qed
    then show "?b ! k = s ! k" using kl by (simp add: nulterminate_nth nth_append)
    show "s ! k \<noteq> CHR 0x00" using z nth_mem [OF kl] by metis
  qed
  have "e \<in> snd ` set (cmd_words c)" using w by force
  then have e: "?b ! e = CHR 0x00" using v by (simp add: nulterminate_nth)
  have "cstring_at ?b q = take (e - q) (drop q ?b)" unfolding cstring_at_def
  proof (rule takeWhile_eq_take_P_nth)
    fix i assume "i < e - q" "i < length (drop q ?b)"
    then show "drop q ?b ! i \<noteq> CHR 0x00" using keep [of "q + i"] by (simp add: nulterminate_length)
  next
    assume "e - q < length (drop q ?b)"
    then show "\<not> drop q ?b ! (e - q) \<noteq> CHR 0x00" using e v by (simp add: nulterminate_nth)
  qed
  also have "\<dots> = take (e - q) (drop q s)"
  proof (rule nth_equalityI)
    show "length (take (e - q) (drop q ?b)) = length (take (e - q) (drop q s))" using v by (auto simp: nulterminate_nth)
    fix i assume "i < length (take (e - q) (drop q ?b))"
    then have i: "i < e - q" by simp
    then have "?b ! (q + i) = s ! (q + i)" by (intro keep(1)) simp_all
    then show "take (e - q) (drop q ?b) ! i = take (e - q) (drop q s) ! i" using i v by (simp add: nulterminate_length)
  qed
  finally show ?thesis .
qed

text \<open>C15: \<^verbatim>\<open>parsecmd\<close> returns for every command line, with a command or a syntax error.  The command's words are not empty,
  each reads as its text in the command line once \<^verbatim>\<open>nulterminate\<close> has cut the line, whatever other words surround it,
  and no command has more arguments than \<^verbatim>\<open>argv\<close> holds with the null pointer after them.\<close>

theorem parsecmd_words:
  assumes "CHR 0x00 \<notin> set s"
  shows "(\<exists>e. parsecmd s = Some (Inl e)) \<or>
    (\<exists>c buf. parsecmd s = Some (Inr (c, buf)) \<and> args_fit c \<and>
      (\<forall>(q, e)\<in>set (cmd_words c). q < e \<and> cstring_at buf q = take (e - q) (drop q s)))"
proof -
  have "parsed s 0 (parseline (4 * length s + 4) s 0)" by (rule parsers_return(1)) simp_all
  then consider e where "parseline (4 * length s + 4) s 0 = Some (Inl e)"
    | c j where "parseline (4 * length s + 4) s 0 = Some (Inr (c, j))" "good s c"
    by (metis parsed_def sum.exhaust surj_pair)
  then show ?thesis
  proof cases
    case (2 c j)
    have "\<forall>(q, e)\<in>set (cmd_words c). q < e \<and> cstring_at (nulterminate c (s @ [CHR 0x00])) q = take (e - q) (drop q s)"
      using nulterminate_word [OF assms 2(2)] 2(2) by (auto simp: good_def list_all_iff is_word_def)
    then show ?thesis using 2 by (auto simp: parsecmd_def good_def split: prod.split)
  qed (simp add: parsecmd_def)
qed

theorem parsecmd_words_witness:
  "\<exists>c buf. parsecmd ''(ls a;wc)|sort >out&'' = Some (Inr (c, buf)) \<and> (\<forall>(q, e)\<in>set (cmd_words c).
     cstring_at buf q = take (e - q) (drop q ''(ls a;wc)|sort >out&'')) \<and> map (cstring_at buf \<circ> fst) (cmd_words c) = [''ls'', ''a'', ''wc'', ''out'', ''sort'']"
proof -
  have p: "parsecmd ''(ls a;wc)|sort >out&'' = Some (Inr (BACK (PIPE (LIST (EXEC [(1, 3), (4, 5)]) (EXEC [(6, 8)])) (REDIR (EXEC [(10, 14)]) (16, 19) 0x601 1)),
     nulterminate (BACK (PIPE (LIST (EXEC [(1, 3), (4, 5)]) (EXEC [(6, 8)])) (REDIR (EXEC [(10, 14)]) (16, 19) 0x601 1))) (''(ls a;wc)|sort >out&'' @ [CHR 0x00])))"
    by code_simp
  show ?thesis using parsecmd_words [of "''(ls a;wc)|sort >out&''"] unfolding p by (simp add: cstring_at_def)
qed

end
