(* ===== verification/Sh_Run.thy ===== *)
theory Sh_Run
  imports Sh Sysfile
begin

text \<open>
  \<^verbatim>\<open>runcmd\<close> and the start of \<^verbatim>\<open>main\<close> of \<^verbatim>\<open>user/sh.c\<close>: what the shell does with a parsed command.  A process is its table of open
  files.  \<^verbatim>\<open>fork\<close> copies it, and each process runs on by itself, so a run of \<^verbatim>\<open>runcmd\<close> is the list of the processes it makes with
  the way each one ends: in \<^verbatim>\<open>exec\<close> with its arguments and open files, or in \<^verbatim>\<open>exit\<close>.  What the system calls do to a table
  is what \<open>Sysfile\<close> has; whether a file can be opened, a program run and a process made is a parameter.
\<close>

section \<open>Open files\<close>

datatype ufile = Inherited nat | Console | Opened word_at int | Pread nat | Pwrite nat

type_synonym fd_table = "nat \<Rightarrow> ufile option"

record sh_env =
  can_open :: "word_at \<Rightarrow> int \<Rightarrow> bool"
  can_exec :: "word_at list \<Rightarrow> bool"
  can_fork :: "nat \<Rightarrow> bool"
  has_console :: bool

definition free_fd :: "(nat \<Rightarrow> 'f option) \<Rightarrow> nat option" where
  "free_fd f = find (\<lambda>fd. f fd = None) [0..<NOFILE]"

text \<open>It is the descriptor \<^verbatim>\<open>fdalloc\<close> of the kernel chooses.\<close>

lemma fdalloc_free_fd:
  assumes "cproc s = Some p"
  shows "fdalloc g s = (case free_fd (p_ofile (procs s p)) of None \<Rightarrow> Ret None s
    | Some fd \<Rightarrow> Ret (Some fd) (s\<lparr>procs := (procs s)(p := (procs s p)\<lparr>p_ofile := (p_ofile (procs s p))(fd := Some g)\<rparr>)\<rparr>))"
proof -
  have "kfind is (\<lambda>fd. kbind (proc_at p) (\<lambda>P.
       if p_ofile P fd = None then
         kthen (upd_proc p (\<lambda>P. P\<lparr>p_ofile := (p_ofile P)(fd := Some g)\<rparr>)) (kret (Some fd))
       else kret None)) s = (case find (\<lambda>fd. p_ofile (procs s p) fd = None) is of None \<Rightarrow> Ret None s
    | Some fd \<Rightarrow> Ret (Some fd) (s\<lparr>procs := (procs s)(p := (procs s p)\<lparr>p_ofile := (p_ofile (procs s p))(fd := Some g)\<rparr>)\<rparr>))" for "is"
    by (induction "is") (simp_all add: kmonad)
  then show ?thesis using assms by (simp add: fdalloc_def kmonad free_fd_def)
qed

definition close_fd :: "nat \<Rightarrow> fd_table \<Rightarrow> fd_table" where
  "close_fd fd f = f(fd := None)"

definition dup_fd :: "nat \<Rightarrow> fd_table \<Rightarrow> fd_table" where
  "dup_fd fd f = (case f fd of None \<Rightarrow> f | Some g \<Rightarrow> (case free_fd f of None \<Rightarrow> f | Some k \<Rightarrow> f(k \<mapsto> g)))"

definition open_fd :: "bool \<Rightarrow> ufile \<Rightarrow> fd_table \<Rightarrow> (nat \<times> fd_table) option" where
  "open_fd ok g f = (if ok then map_option (\<lambda>k. (k, f(k \<mapsto> g))) (free_fd f) else None)"

definition pipe_fd :: "nat \<Rightarrow> fd_table \<Rightarrow> (nat \<times> nat \<times> fd_table) option" where
  "pipe_fd n f =
     (case free_fd f of
        None \<Rightarrow> None
      | Some p0 \<Rightarrow>
          let f = f(p0 \<mapsto> Pread n) in
          case free_fd f of None \<Rightarrow> None | Some p1 \<Rightarrow> Some (p0, p1, f(p1 \<mapsto> Pwrite n)))"

section \<open>Running a command\<close>

datatype proc_end = Exec "word_at list" fd_table | Exit int fd_table

text \<open>The numbers are those of the next pipe and the next \<^verbatim>\<open>fork\<close>.\<close>

fun runcmd :: "sh_env \<Rightarrow> cmd \<Rightarrow> fd_table \<Rightarrow> nat \<times> nat \<Rightarrow> proc_end list \<times> nat \<times> nat" where
  "runcmd e (EXEC ws) f ns =
     (if ws = [] then ([Exit 1 f], ns)
      else if can_exec e ws then ([Exec ws f], ns)
      else ([Exit 0 f], ns))"
| "runcmd e (REDIR c file mode fd) f ns =
     (let f = (if 0 \<le> fd then close_fd (nat fd) f else f) in
      case open_fd (can_open e file mode) (Opened file mode) f of
        None \<Rightarrow> ([Exit 1 f], ns)
      | Some (_, f) \<Rightarrow> runcmd e c f ns)"
| "runcmd e (LIST l r) f (np, nf) =
     (if \<not> can_fork e nf then ([Exit 1 f], np, Suc nf)
      else
        let (ls, ns) = runcmd e l f (np, Suc nf); (rs, ns) = runcmd e r f ns
        in (ls @ rs, ns))"
| "runcmd e (PIPE l r) f (np, nf) =
     (case pipe_fd np f of
        None \<Rightarrow> ([Exit 1 f], np, nf)
      | Some (p0, p1, f) \<Rightarrow>
          if \<not> can_fork e nf then ([Exit 1 f], Suc np, Suc nf)
          else
            let (ls, (np, nf)) = runcmd e l (close_fd p1 (close_fd p0 (dup_fd p1 (close_fd 1 f)))) (Suc np, Suc nf)
            in if \<not> can_fork e nf then (ls @ [Exit 1 f], np, Suc nf)
               else
                 let (rs, ns) = runcmd e r (close_fd p1 (close_fd p0 (dup_fd p0 (close_fd 0 f)))) (np, Suc nf)
                 in (ls @ rs @ [Exit 0 (close_fd p1 (close_fd p0 f))], ns))"
| "runcmd e (BACK c) f (np, nf) =
     (if \<not> can_fork e nf then ([Exit 1 f], np, Suc nf)
      else let (ls, ns) = runcmd e c f (np, Suc nf) in (ls @ [Exit 0 f], ns))"

text \<open>The loop at the start of \<^verbatim>\<open>main\<close>.\<close>

function open_console :: "sh_env \<Rightarrow> fd_table \<Rightarrow> fd_table" where
  "open_console e f =
     (case open_fd (has_console e) Console f of
        None \<Rightarrow> f
      | Some (fd, f) \<Rightarrow> if fd \<ge> 3 then close_fd fd f else open_console e f)"
  by pat_completeness auto

lemma free_fd_Some: "free_fd f = Some k \<longleftrightarrow> k < NOFILE \<and> f k = None \<and> (\<forall>j<k. f j \<noteq> None)"
  unfolding free_fd_def by (auto simp: find_Some_iff)

lemma free_fd_None: "free_fd f = None \<longleftrightarrow> (\<forall>k<NOFILE. f k \<noteq> None)"
  unfolding free_fd_def by (auto simp: find_None_iff)

termination open_console
proof (relation "measure (\<lambda>(e, f). card {k. k < 3 \<and> f k = None})")
  fix e f x fd g
  assume o: "open_fd (has_console e) Console f = Some x" "(fd, g) = x" "\<not> 3 \<le> fd"
  then have g: "f fd = None" "g = f(fd \<mapsto> Console)" by (auto simp: open_fd_def free_fd_Some split: if_splits)
  have "{k. k < 3 \<and> g k = None} \<subset> {k. k < 3 \<and> f k = None}"
  proof (rule psubsetI)
    show "{k. k < 3 \<and> g k = None} \<subseteq> {k. k < 3 \<and> f k = None}" unfolding g(2) by (auto split: if_splits)
    have "fd \<in> {k. k < 3 \<and> f k = None}" "fd \<notin> {k. k < 3 \<and> g k = None}" using g o(3) by simp_all
    then show "{k. k < 3 \<and> g k = None} \<noteq> {k. k < 3 \<and> f k = None}" by blast
  qed
  then show "((e, g), (e, f)) \<in> measure (\<lambda>(e, f). card {k. k < 3 \<and> f k = None})" by (simp add: psubset_card_mono)
qed simp

declare open_console.simps [simp del]


lemma open_console_std:
  assumes "has_console e"
  shows "(\<forall>k<3. open_console e f k \<noteq> None) \<and> (\<forall>k. f k \<noteq> None \<or> 3 \<le> k \<longrightarrow> open_console e f k = f k)"
  using assms
proof (induction e f rule: open_console.induct)
  case (1 e f)
  show ?case
  proof (cases "free_fd f")
    case None
    then have "open_console e f = f" by (simp add: open_console.simps [of e f] open_fd_def)
    then show ?thesis using None by (auto simp: free_fd_None)
  next
    case (Some fd)
    then have f: "f fd = None" "\<forall>j<fd. f j \<noteq> None" by (auto simp: free_fd_Some)
    have o: "open_fd (has_console e) Console f = Some (fd, f(fd \<mapsto> Console))" using Some 1(2) by (simp add: open_fd_def)
    show ?thesis
    proof (cases "3 \<le> fd")
      case True
      then have "open_console e f = f" using o f by (auto simp: open_console.simps [of e f] close_fd_def)
      then show ?thesis using f True by auto
    next
      case False
      define g where "g = f(fd \<mapsto> Console)"
      have e: "open_console e f = open_console e g" using o False by (simp add: open_console.simps [of e f] g_def)
      have "(\<forall>k<3. open_console e g k \<noteq> None) \<and> (\<forall>k. g k \<noteq> None \<or> 3 \<le> k \<longrightarrow> open_console e g k = g k)"
        using 1(1) [OF o refl False 1(2)] unfolding g_def .
      moreover have "g k = f k" if "f k \<noteq> None \<or> 3 \<le> k" for k using that f(1) False by (auto simp: g_def)
      ultimately show ?thesis unfolding e by metis
    qed
  qed
qed

lemma open_console_new: "open_console e f k = f k \<or> open_console e f k = Some Console"
proof (induction e f rule: open_console.induct)
  case (1 e f)
  show ?case
  proof (cases "open_fd (has_console e) Console f")
    case None
    then show ?thesis by (simp add: open_console.simps [of e f])
  next
    case (Some r)
    obtain fd g where r: "r = (fd, g)" by (cases r)
    then have g: "f fd = None" "g = f(fd \<mapsto> Console)" using Some by (auto simp: open_fd_def free_fd_Some split: if_splits)
    show ?thesis
    proof (cases "3 \<le> fd")
      case True
      then show ?thesis using Some r g by (simp add: open_console.simps [of e f] close_fd_def)
    next
      case False
      then have "open_console e f = open_console e g" using Some r by (simp add: open_console.simps [of e f])
      moreover have "g k = f k \<or> g k = Some Console" using g(2) by simp
      ultimately show ?thesis using 1 [OF Some r [symmetric] False] by metis
    qed
  qed
qed

section \<open>The main loop\<close>

text \<open>What \<^verbatim>\<open>main\<close> does with a line: nothing, \<^verbatim>\<open>chdir\<close>, or a process that parses and runs it.\<close>

datatype sh_action = Blank | Chdir string | Run "(string + cmd \<times> string) option"

definition sh_line :: "string \<Rightarrow> sh_action" where
  "sh_line buf =
     (let cmd = dropWhile (\<lambda>c. c = CHR '' '' \<or> c = CHR 0x09) buf in
      if char_at cmd 0 = CHR ''\<newline>'' then Blank
      else if take 3 cmd = ''cd '' then Chdir (drop 3 (butlast cmd))
      else Run (parsecmd cmd))"

definition getcmd :: "nat \<Rightarrow> string \<Rightarrow> string \<times> string" where
  "getcmd nbuf inp = (let (s, rest) = gets nbuf inp in (takeWhile (\<lambda>c. c \<noteq> CHR 0x00) s, rest))"

lemma gets_le: "length (snd (gets_loop i n inp)) \<le> length inp"
proof (induction inp arbitrary: i)
  case Nil
  then show ?case by (simp add: gets_loop.simps)
next
  case (Cons c inp)
  then show ?case using le_SucI [OF Cons [of "Suc i"]] by (subst gets_loop.simps) (auto split: prod.split)
qed

lemma gets_shorter: "fst (gets_loop i n inp) \<noteq> [] \<Longrightarrow> length (snd (gets_loop i n inp)) < length inp"
proof (cases inp)
  case (Cons c r)
  assume "fst (gets_loop i n inp) \<noteq> []"
  then have "i + 1 < n" using Cons by (subst (asm) gets_loop.simps) (simp split: if_splits)
  then show ?thesis using Cons gets_le [of "Suc i" n r] by (subst gets_loop.simps) (auto split: prod.split)
qed (simp add: gets_loop.simps split: if_splits)

function sh_main :: "string \<Rightarrow> sh_action list" where
  "sh_main inp =
     (let (buf, rest) = getcmd 100 inp in
      if buf = [] then [] else sh_line buf # sh_main rest)"
  by pat_completeness auto
termination sh_main
proof (relation "measure length")
  fix inp x buf rest
  assume "x = getcmd 100 inp" "(buf, rest) = x" "buf \<noteq> []"
  then have "fst (gets_loop 0 100 inp) \<noteq> []" "rest = snd (gets_loop 0 100 inp)" by (auto simp: getcmd_def gets_def split: prod.splits)
  then show "(rest, inp) \<in> measure length" using gets_shorter by simp
qed simp

declare sh_main.simps [simp del]

text \<open>Lines that fit the buffer are taken one by one.\<close>

lemma gets_line:
  "\<forall>c\<in>set l. c \<noteq> CHR ''\<newline>'' \<and> c \<noteq> CHR 0x0D \<Longrightarrow> i + length l + 1 < n \<Longrightarrow>
    gets_loop i n (l @ CHR ''\<newline>'' # rest) = (l @ [CHR ''\<newline>''], rest)"
  by (induction l arbitrary: i) (simp_all add: gets_loop.simps)

lemma sh_main_lines:
  assumes "\<forall>l\<in>set ls. length l < 99 \<and> (\<forall>c\<in>set l. c \<noteq> CHR ''\<newline>'' \<and> c \<noteq> CHR 0x0D \<and> c \<noteq> CHR 0x00)"
  shows "sh_main (concat (map (\<lambda>l. l @ [CHR ''\<newline>'']) ls)) = map (\<lambda>l. sh_line (l @ [CHR ''\<newline>''])) ls"
  using assms
proof (induction ls)
  case Nil
  then show ?case by (simp add: sh_main.simps getcmd_def gets_def gets_loop.simps)
next
  case (Cons l ls)
  have "gets_loop 0 100 (l @ CHR ''\<newline>'' # concat (map (\<lambda>l. l @ [CHR ''\<newline>'']) ls)) =
    (l @ [CHR ''\<newline>''], concat (map (\<lambda>l. l @ [CHR ''\<newline>'']) ls))" using Cons.prems by (intro gets_line) auto
  moreover have "takeWhile (\<lambda>c. c \<noteq> CHR 0x00) (l @ [CHR ''\<newline>'']) = l @ [CHR ''\<newline>'']" using Cons.prems by (auto simp: takeWhile_append)
  ultimately show ?case using Cons by (subst sh_main.simps) (simp add: getcmd_def gets_def)
qed

section \<open>Pipelines\<close>

lemma pipe_tables:
  assumes p: "pipe_fd n f = Some (p0, p1, g)" and std: "f 0 \<noteq> None" "f 1 \<noteq> None"
  shows "close_fd p1 (close_fd p0 (dup_fd p1 (close_fd 1 g))) = f(1 \<mapsto> Pwrite n)"
    "close_fd p1 (close_fd p0 (dup_fd p0 (close_fd 0 g))) = f(0 \<mapsto> Pread n)" "close_fd p1 (close_fd p0 g) = f"
proof -
  have q: "f p0 = None" "(f(p0 \<mapsto> Pread n)) p1 = None" "g = f(p0 \<mapsto> Pread n, p1 \<mapsto> Pwrite n)"
    using p by (auto simp: pipe_fd_def Let_def free_fd_Some split: option.splits)
  then have d: "p0 \<noteq> p1" "f p1 = None" by (auto split: if_splits)
  have n: "p0 \<noteq> 0" "p0 \<noteq> 1" "p1 \<noteq> 0" "p1 \<noteq> 1" using std q(1) d(2) by metis+
  have f1: "free_fd (close_fd 1 g) = Some 1" and f0: "free_fd (close_fd 0 g) = Some 0"
    using std n q(3) by (auto simp: free_fd_Some close_fd_def)
  show "close_fd p1 (close_fd p0 g) = f" using q(1, 3) d by (auto simp: close_fd_def fun_eq_iff)
  have c: "close_fd 1 g p1 = Some (Pwrite n)" "close_fd 0 g p0 = Some (Pread n)" using n d(1) q(3) by (simp_all add: close_fd_def)
  show "close_fd p1 (close_fd p0 (dup_fd p1 (close_fd 1 g))) = f(1 \<mapsto> Pwrite n)"
    unfolding dup_fd_def c f1 option.case using n q(1, 3) d by (auto simp: close_fd_def fun_eq_iff)
  show "close_fd p1 (close_fd p0 (dup_fd p0 (close_fd 0 g))) = f(0 \<mapsto> Pread n)"
    unfolding dup_fd_def c f0 option.case using n q(1, 3) d by (auto simp: close_fd_def fun_eq_iff)
qed

lemma pipe_room:
  assumes "i < j" "j < NOFILE" "f i = None" "f j = None"
  shows "\<exists>p0 p1 g. pipe_fd n f = Some (p0, p1, g)"
proof -
  obtain p0 where p0: "free_fd f = Some p0" using assms free_fd_None [of f] by (cases "free_fd f") auto
  have "(f(p0 \<mapsto> Pread n)) i = None \<or> (f(p0 \<mapsto> Pread n)) j = None" using assms by auto
  then have "free_fd (f(p0 \<mapsto> Pread n)) \<noteq> None" using assms unfolding free_fd_None by (meson order.strict_trans)
  then show ?thesis using p0 by (auto simp: pipe_fd_def Let_def)
qed

fun pipeline :: "word_at list list \<Rightarrow> cmd" where
  "pipeline [] = EXEC []"
| "pipeline [w] = EXEC w"
| "pipeline (w # v # ws) = PIPE (EXEC w) (pipeline (v # ws))"

text \<open>The open files of the programs of a pipeline.\<close>

fun wired :: "word_at list list \<Rightarrow> fd_table \<Rightarrow> nat \<Rightarrow> proc_end list" where
  "wired [] f n = []"
| "wired [w] f n = [Exec w f]"
| "wired (w # v # ws) f n = Exec w (f(1 \<mapsto> Pwrite n)) # wired (v # ws) (f(0 \<mapsto> Pread n)) (Suc n)"

definition execs :: "proc_end list \<Rightarrow> proc_end list" where
  "execs ps = filter (\<lambda>p. case p of Exec _ _ \<Rightarrow> True | Exit _ _ \<Rightarrow> False) ps"

definition table :: "proc_end \<Rightarrow> fd_table" where
  "table p = (case p of Exec _ f \<Rightarrow> f | Exit _ f \<Rightarrow> f)"

lemma pipeline_run:
  assumes "\<forall>w\<in>set ws. w \<noteq> [] \<and> can_exec e w" "ws \<noteq> []" "\<forall>k. can_fork e k" "f 0 \<noteq> None" "f 1 \<noteq> None"
    "i < j" "j < NOFILE" "f i = None" "f j = None"
  shows "execs (fst (runcmd e (pipeline ws) f (n, m))) = wired ws f n \<and>
    (\<forall>p\<in>set (fst (runcmd e (pipeline ws) f (n, m))). p \<in> set (wired ws f n) \<or> (\<exists>g. p = Exit 0 g \<and> (\<forall>fd. fd \<noteq> 0 \<longrightarrow> g fd = f fd) \<and>
       (g 0 = f 0 \<or> (\<exists>q. g 0 = Some (Pread q)))))"
  using assms
proof (induction ws arbitrary: f n m rule: pipeline.induct)
  case (3 w v ws)
  obtain p0 p1 g where p: "pipe_fd n f = Some (p0, p1, g)" using pipe_room [OF 3(7-10)] by blast
  note t = pipe_tables [OF p 3(5, 6)]
  let ?f = "f(0 \<mapsto> Pread n)"
  obtain rs ns where r: "runcmd e (pipeline (v # ws)) ?f (Suc n, Suc (Suc m)) = (rs, ns)" by (cases "runcmd e (pipeline (v # ws)) ?f (Suc n, Suc (Suc m))")
  have run: "runcmd e (pipeline (w # v # ws)) f (n, m) = (Exec w (f(1 \<mapsto> Pwrite n)) # rs @ [Exit 0 f], ns)"
    using p t r 3(2, 4) by simp
  have ij: "i \<noteq> 0" "j \<noteq> 0" using 3(5, 9, 10) by metis+
  have "execs rs = wired (v # ws) ?f (Suc n) \<and> (\<forall>p\<in>set rs. p \<in> set (wired (v # ws) ?f (Suc n)) \<or>
      (\<exists>g. p = Exit 0 g \<and> (\<forall>fd. fd \<noteq> 0 \<longrightarrow> g fd = ?f fd) \<and> (g 0 = ?f 0 \<or> (\<exists>q. g 0 = Some (Pread q)))))"
    by (rule 3(1) [OF _ _ 3(4) _ _ 3(7, 8), of ?f "Suc n" "Suc (Suc m)", unfolded r fst_conv]) (use 3(2, 6, 9, 10) ij in simp_all)
  then show ?case unfolding run by (auto simp: execs_def)
qed (auto simp: execs_def)

text \<open>Who has the write end of a pipe.\<close>

lemma wired_old: "q < n \<Longrightarrow> \<forall>fd. f fd \<noteq> Some (Pwrite q) \<Longrightarrow> p \<in> set (wired ws f n) \<Longrightarrow> table p fd \<noteq> Some (Pwrite q)"
proof (induction ws f n rule: wired.induct)
  case (3 w v ws f n)
  have nf: "\<forall>fd. (f(0 \<mapsto> Pread n)) fd \<noteq> Some (Pwrite q)" and q: "q < Suc n" using 3(2, 3) by simp_all
  show ?case
  proof (cases "p = Exec w (f(1 \<mapsto> Pwrite n))")
    case True
    then show ?thesis using 3(2, 3) by (simp add: table_def)
  next
    case False
    then have "p \<in> set (wired (v # ws) (f(0 \<mapsto> Pread n)) (Suc n))" using 3(4) by simp
    then show ?thesis by (rule 3(1) [OF q nf])
  qed
qed (auto simp: table_def)

lemma wired_writer:
  assumes "q \<ge> n" "\<forall>fd. f fd \<noteq> Some (Pwrite q)" "p \<in> set (wired ws f n)" "table p fd = Some (Pwrite q)"
  shows "fd = 1 \<and> q - n < length ws - 1 \<and> p = wired ws f n ! (q - n)"
  using assms
proof (induction ws f n rule: wired.induct)
  case (3 w v ws f n)
  show ?case
  proof (cases "p = Exec w (f(1 \<mapsto> Pwrite n))")
    case True
    then show ?thesis using 3(3, 5) by (auto simp: table_def split: if_splits)
  next
    case False
    then have p: "p \<in> set (wired (v # ws) (f(0 \<mapsto> Pread n)) (Suc n))" using 3(4) by simp
    have nf: "\<forall>fd. (f(0 \<mapsto> Pread n)) fd \<noteq> Some (Pwrite q)" using 3(3) by simp
    show ?thesis
    proof (cases "q = n")
      case True
      then show ?thesis using wired_old [OF _ nf p, of fd] 3(5) by simp
    next
      case False
      then have "q - n = Suc (q - Suc n)" "Suc n \<le> q" using 3(2) by auto
      then show ?thesis using 3(1) [OF _ nf p 3(5)] by (auto simp: fun_upd_def)
    qed
  qed
qed (auto simp: table_def)

lemma wired_map:
  "wired ws f n = map (\<lambda>k. Exec (ws ! k) (f(0 := if k = 0 then f 0 else Some (Pread (n + k - 1)),
     1 := if Suc k = length ws then f 1 else Some (Pwrite (n + k))))) [0..<length ws]"
proof (induction ws f n rule: wired.induct)
  case (3 w v ws f n)
  have e: "map g [0..<length (w # v # ws)] = g 0 # map (\<lambda>k. g (Suc k)) [0..<length (v # ws)]" for g :: "nat \<Rightarrow> proc_end"
    using map_upt_Suc [of g "length (v # ws)"] by simp
  have "f(0 := f 0) = f" by simp
  then show ?case unfolding wired.simps 3 e by (auto simp: fun_eq_iff)
qed (simp_all add: fun_eq_iff)

text \<open>C16: the shell connects a pipeline as it should.  Started with any open files and a console, with two descriptors left over, a
  pipeline of programs that can be run becomes one process for each program, in order: the standard output of each is the pipe that
  the standard input of the next reads from, all other files are those of the shell, and no process but the writer, the waiting
  shells included, has the write end of a pipe, so that its reader sees the end of the data.\<close>

theorem pipeline_connected:
  assumes ws: "\<forall>w\<in>set ws. w \<noteq> [] \<and> can_exec e w" "ws \<noteq> []" and ok: "\<forall>k. can_fork e k" "has_console e"
    and room: "3 \<le> i" "i < j" "j < NOFILE" "f i = None" "f j = None" and fresh: "\<forall>q\<ge>n. \<forall>fd. f fd \<noteq> Some (Pwrite q)"
  shows "\<exists>F ends. F = open_console e f \<and> ends = fst (runcmd e (pipeline ws) F (n, m)) \<and> F 0 \<noteq> None \<and> F 1 \<noteq> None \<and> F 2 \<noteq> None \<and>
    execs ends = map (\<lambda>k. Exec (ws ! k) (F(0 := if k = 0 then F 0 else Some (Pread (n + k - 1)),
                                      1 := if Suc k = length ws then F 1 else Some (Pwrite (n + k))))) [0..<length ws] \<and>
    (\<forall>p\<in>set ends. \<forall>fd q. n \<le> q \<longrightarrow> table p fd = Some (Pwrite q) \<longrightarrow> fd = 1 \<and> q - n < length ws - 1 \<and> p = execs ends ! (q - n))"
proof -
  let ?F = "open_console e f" and ?ends = "fst (runcmd e (pipeline ws) (open_console e f) (n, m))"
  note c = open_console_std [OF ok(2), of f]
  have F: "?F 0 \<noteq> None" "?F 1 \<noteq> None" "?F 2 \<noteq> None" using c by auto
  have r: "?F i = None" "?F j = None" using c room by auto
  have nw: "?F fd \<noteq> Some (Pwrite q)" if "n \<le> q" for fd q
    using open_console_new [of e f fd] fresh that by auto
  note p = pipeline_run [OF ws ok(1) F(1, 2) room(2, 3) r, of n m]
  have "fd = 1 \<and> q - n < length ws - 1 \<and> x = execs ?ends ! (q - n)"
    if x: "x \<in> set ?ends" "n \<le> q" "table x fd = Some (Pwrite q)" for x fd q
  proof (cases "x \<in> set (wired ws ?F n)")
    case True
    then show ?thesis using wired_writer [OF x(2) _ True x(3)] nw [OF x(2)] p by simp
  next
    case False
    then obtain g where g: "x = Exit 0 g" "\<forall>fd. fd \<noteq> 0 \<longrightarrow> g fd = ?F fd" "g 0 = ?F 0 \<or> (\<exists>q. g 0 = Some (Pread q))" using p x(1) by blast
    then have "table x fd \<noteq> Some (Pwrite q)" using nw [OF x(2), of fd] nw [OF x(2), of 0] by (cases "fd = 0") (auto simp: table_def)
    then show ?thesis using x(3) by simp
  qed
  then show ?thesis using F p unfolding wired_map by blast
qed

theorem pipeline_connected_witness:
  "\<exists>ends. fst (runcmd \<lparr>can_open = \<lambda>_ _. True, can_exec = \<lambda>_. True, can_fork = \<lambda>_. True, has_console = True\<rparr>
      (PIPE (EXEC [(0, 2)]) (EXEC [(5, 7)])) (open_console \<lparr>can_open = \<lambda>_ _. True, can_exec = \<lambda>_. True, can_fork = \<lambda>_. True, has_console = True\<rparr>
        (\<lambda>_. None)) (0, 0)) = ends \<and> length (execs ends) = 2 \<and> table (execs ends ! 0) 1 = Some (Pwrite 0) \<and> table (execs ends ! 1) 0 = Some (Pread 0)"
proof -
  let ?e = "\<lparr>can_open = \<lambda>_ _. True, can_exec = \<lambda>_. True, can_fork = \<lambda>_. True, has_console = True\<rparr> :: sh_env"
  have "\<exists>F ends. F = open_console ?e (\<lambda>_. None) \<and> ends = fst (runcmd ?e (pipeline [[(0, 2)], [(5, 7)]]) F (0, 0)) \<and>
    execs ends = map (\<lambda>k. Exec ([[(0, 2)], [(5, 7)]] ! k) (F(0 := if k = 0 then F 0 else Some (Pread (0 + k - 1)),
                                      1 := if Suc k = length [[(0 :: nat, 2 :: nat)], [(5, 7)]] then F 1 else Some (Pwrite (0 + k))))) [0..<2]"
    using pipeline_connected [of "[[(0, 2)], [(5, 7)]]" ?e 3 4 "\<lambda>_. None" 0 0] by (auto simp: numeral_2_eq_2)
  then show ?thesis by (auto simp: table_def numeral_2_eq_2)
qed

end
