(* ===== verification/Umalloc.thy ===== *)
theory Umalloc
  imports Linked Prelude
begin

text \<open>
  \<^verbatim>\<open>user/umalloc.c\<close>: the allocator of the user programs.  Free blocks are in a ring in the order of their addresses,
  threaded through their headers; \<^verbatim>\<open>base\<close> is the header of an empty block below the heap.  An address is a number,
  a header has sixteen bytes, and \<open>h_ptr\<close> and \<open>h_size\<close> are the fields of the header at an address.  The end of the
  heap moves by \<^verbatim>\<open>sbrk\<close>, which is a parameter: from the end of the heap and the argument it gives the address it returns
  and the new end, or fails.
\<close>

section \<open>The allocator\<close>

record uheap =
  h_ptr :: "nat \<Rightarrow> nat"
  h_size :: "nat \<Rightarrow> nat"
  freep :: nat
  ubase :: nat
  ubrk :: nat

type_synonym sbrk_fun = "nat \<Rightarrow> int \<Rightarrow> (nat \<times> nat) option"

abbreviation (input) unit_bytes :: nat where "unit_bytes \<equiv> 16"

text \<open>\<^verbatim>\<open>uint\<close> arithmetic.\<close>

abbreviation (input) uwrap :: "nat \<Rightarrow> nat" where "uwrap n \<equiv> n mod 2 ^ 32"

text \<open>The loop of \<^verbatim>\<open>free\<close>: the block of the ring after which \<open>bp\<close> belongs.\<close>

partial_function (option) free_find :: "uheap \<Rightarrow> nat \<Rightarrow> nat \<Rightarrow> nat option" where
  "free_find s bp p =
     (if bp > p \<and> bp < h_ptr s p then Some p
      else if p \<ge> h_ptr s p \<and> (bp > p \<or> bp < h_ptr s p) then Some p
      else free_find s bp (h_ptr s p))"

definition join_next :: "nat \<Rightarrow> nat \<Rightarrow> uheap \<Rightarrow> uheap" where
  "join_next bp p s =
     (let n = h_ptr s p in
      if bp + unit_bytes * h_size s bp = n then
        s\<lparr>h_size := (h_size s)(bp := uwrap (h_size s bp + h_size s n)), h_ptr := (h_ptr s)(bp := h_ptr s n)\<rparr>
      else s\<lparr>h_ptr := (h_ptr s)(bp := n)\<rparr>)"

definition join_prev :: "nat \<Rightarrow> nat \<Rightarrow> uheap \<Rightarrow> uheap" where
  "join_prev bp p s =
     (if p + unit_bytes * h_size s p = bp then
        s\<lparr>h_size := (h_size s)(p := uwrap (h_size s p + h_size s bp)), h_ptr := (h_ptr s)(p := h_ptr s bp)\<rparr>
      else s\<lparr>h_ptr := (h_ptr s)(p := bp)\<rparr>)"

definition free :: "nat \<Rightarrow> uheap \<Rightarrow> uheap option" where
  "free ap s =
     (let bp = ap - unit_bytes in
      case free_find s bp (freep s) of
        None \<Rightarrow> None
      | Some p \<Rightarrow> Some ((join_prev bp p (join_next bp p s))\<lparr>freep := p\<rparr>))"

text \<open>\<^verbatim>\<open>morecore\<close>: the address of the ring it leaves, 0 when \<^verbatim>\<open>sbrk\<close> fails.  Its argument is an \<^verbatim>\<open>int\<close>.\<close>

definition morecore :: "sbrk_fun \<Rightarrow> nat \<Rightarrow> uheap \<Rightarrow> (nat \<times> uheap) option" where
  "morecore sbrk nu s =
     (let nu = (if nu < 4096 then 4096 else nu) in
      case sbrk (ubrk s) (sint (of_nat (nu * unit_bytes) :: u32)) of
        None \<Rightarrow> Some (0, s)
      | Some (hp, brk) \<Rightarrow>
          (case free (hp + unit_bytes) (s\<lparr>ubrk := brk, h_size := (h_size s)(hp := nu)\<rparr>) of
             None \<Rightarrow> None
           | Some t \<Rightarrow> Some (freep t, t)))"

definition malloc_take :: "nat \<Rightarrow> nat \<Rightarrow> nat \<Rightarrow> uheap \<Rightarrow> nat \<times> uheap" where
  "malloc_take nunits prevp p s =
     (if h_size s p = nunits then
        (p + unit_bytes, s\<lparr>h_ptr := (h_ptr s)(prevp := h_ptr s p), freep := prevp\<rparr>)
      else
        (let sz = h_size s p - nunits; q = p + unit_bytes * sz in
         (q + unit_bytes, s\<lparr>h_size := (h_size s)(p := sz, q := nunits), freep := prevp\<rparr>)))"

partial_function (option) malloc_loop :: "sbrk_fun \<Rightarrow> nat \<Rightarrow> nat \<Rightarrow> nat \<Rightarrow> uheap \<Rightarrow> (nat \<times> uheap) option" where
  "malloc_loop sbrk nunits prevp p s =
     (if h_size s p \<ge> nunits then Some (malloc_take nunits prevp p s)
      else if p = freep s then
        (case morecore sbrk nunits s of
           None \<Rightarrow> None
         | Some (p, t) \<Rightarrow> if p = 0 then Some (0, t) else malloc_loop sbrk nunits p (h_ptr t p) t)
      else malloc_loop sbrk nunits p (h_ptr s p) s)"

definition malloc :: "sbrk_fun \<Rightarrow> u32 \<Rightarrow> uheap \<Rightarrow> (nat \<times> uheap) option" where
  "malloc sbrk nbytes s =
     (let nunits = (unat nbytes + unit_bytes - 1) div unit_bytes + 1;
          s = (if freep s = 0 then
                 s\<lparr>h_ptr := (h_ptr s)(ubase s := ubase s), freep := ubase s, h_size := (h_size s)(ubase s := 0)\<rparr>
               else s)
      in malloc_loop sbrk nunits (freep s) (h_ptr s (freep s)) s)"

section \<open>The ring of free blocks\<close>

text \<open>\<open>ring s ys\<close>: the ring is \<^verbatim>\<open>base\<close> followed by the blocks \<open>ys\<close>, in the order of their addresses, with a gap after
  each, as neighbours are joined.\<close>

definition ring :: "uheap \<Rightarrow> nat list \<Rightarrow> bool" where
  "ring s ys \<longleftrightarrow> links (h_ptr s) (ubase s # ys @ [ubase s]) \<and>
     sorted_wrt (\<lambda>a b. a + unit_bytes * h_size s a < b) (ubase s # ys) \<and>
     0 < ubase s \<and> h_size s (ubase s) = 0 \<and> (\<forall>y\<in>set ys. ubase s + unit_bytes \<le> y \<and> 0 < h_size s y) \<and>
     freep s \<in> set (ubase s # ys)"

lemma ring_sorted: "ring s ys \<Longrightarrow> sorted_wrt (<) (ubase s # ys)"
  unfolding ring_def by (auto elim: sorted_wrt_mono_rel [rotated])

lemma ring_distinct: "ring s ys \<Longrightarrow> distinct (ubase s # ys)"
  using ring_sorted strict_sorted_iff by blast

lemma split_at:
  assumes "sorted_wrt (<) (ys :: nat list)" "b \<notin> set ys"
  obtains us vs where "ys = us @ vs" "\<forall>u\<in>set us. u < b" "\<forall>v\<in>set vs. b < v"
proof
  show "ys = takeWhile (\<lambda>y. y < b) ys @ dropWhile (\<lambda>y. y < b) ys" by simp
  show "\<forall>u\<in>set (takeWhile (\<lambda>y. y < b) ys). u < b" by (auto dest: set_takeWhileD)
  show "\<forall>v\<in>set (dropWhile (\<lambda>y. y < b) ys). b < v"
    using assms
  proof (induction ys)
    case (Cons y ys)
    then show ?case by (auto simp: not_less intro: order.strict_trans1 le_neq_trans)
  qed simp
qed

text \<open>A step of the search that goes on, and a path of such steps.\<close>

definition goes_on :: "uheap \<Rightarrow> nat \<Rightarrow> nat \<Rightarrow> bool" where
  "goes_on s bp p \<longleftrightarrow> \<not> (bp > p \<and> bp < h_ptr s p) \<and> \<not> (p \<ge> h_ptr s p \<and> (bp > p \<or> bp < h_ptr s p))"

lemma free_find_path:
  assumes "links (h_ptr s) (ws @ [p])" "\<forall>w\<in>set ws. goes_on s bp w" "\<not> goes_on s bp p"
  shows "free_find s bp (hd (ws @ [p])) = Some p"
  using assms
proof (induction ws)
  case Nil
  then show ?case by (auto simp: goes_on_def free_find.simps [of s bp p])
next
  case (Cons w ws)
  have n: "h_ptr s w = hd (ws @ [p])" "links (h_ptr s) (ws @ [p])" using Cons.prems(1) by (cases ws; simp)+
  have "free_find s bp w = free_find s bp (h_ptr s w)"
    using Cons.prems(2) by (subst free_find.simps) (auto simp: goes_on_def)
  then show ?case using Cons.IH [OF n(2)] Cons.prems(2, 3) n(1) by simp
qed

text \<open>Where the ring is cut by an address that is in none of its blocks.\<close>

definition cut_at :: "uheap \<Rightarrow> nat list \<Rightarrow> nat list \<Rightarrow> nat \<Rightarrow> bool" where
  "cut_at s us vs bp \<longleftrightarrow> ring s (us @ vs) \<and> (\<forall>u\<in>set (ubase s # us). u < bp) \<and> (\<forall>v\<in>set vs. bp < v)"

lemma cut_next: "cut_at s us vs bp \<Longrightarrow> h_ptr s (last (ubase s # us)) = hd (vs @ [ubase s])"
  using links_split(1) [of "h_ptr s" "ubase s # us" vs "ubase s"] by (simp add: cut_at_def ring_def)

lemma cut_stops: "cut_at s us vs bp \<Longrightarrow> \<not> goes_on s bp (last (ubase s # us))"
proof -
  assume c: "cut_at s us vs bp"
  have "last (ubase s # us) \<in> set (ubase s # us)" by (rule last_in_set) simp
  then have "last (ubase s # us) < bp" using c unfolding cut_at_def by blast
  moreover have "bp < hd vs" if "vs \<noteq> []" using c that by (simp add: cut_at_def)
  moreover have "ubase s \<le> last (ubase s # us)" using ring_sorted [of s "us @ vs"] c last_in_set [of us] by (auto simp: cut_at_def less_imp_le)
  ultimately show ?thesis using cut_next [OF c] by (cases vs) (auto simp: goes_on_def)
qed

lemma cut_goes_on:
  assumes c: "cut_at s us vs bp" and "w \<in> set (butlast (ubase s # us)) \<or> w \<in> set vs"
  shows "goes_on s bp w"
  using assms(2)
proof
  assume "w \<in> set (butlast (ubase s # us))"
  then obtain as bs where w: "ubase s # us = as @ w # bs" "bs \<noteq> []"
    by (metis append_butlast_last_id append_Cons append_assoc append_is_Nil_conv list.distinct(1) split_list)
  have "links (h_ptr s) ((ubase s # us) @ vs @ [ubase s])" using c by (simp add: cut_at_def ring_def)
  then have "links (h_ptr s) ((as @ [w]) @ (bs @ vs) @ [ubase s])" unfolding w(1) by simp
  then have "h_ptr s w = hd bs" using links_split(1) [of "h_ptr s" "as @ [w]" "bs @ vs" "ubase s"] w(2) by simp
  moreover have "hd bs \<in> set (ubase s # us)" using w by simp
  moreover have "sorted_wrt (<) (ubase s # us)" using ring_sorted [of s "us @ vs"] c by (simp add: cut_at_def sorted_wrt_append)
  then have "w < hd bs" unfolding w(1) using w(2) by (simp add: sorted_wrt_append)
  ultimately show ?thesis using c by (auto simp: goes_on_def cut_at_def)
next
  assume w: "w \<in> set vs"
  then obtain as bs where v: "vs = as @ w # bs" by (metis split_list)
  have "links (h_ptr s) ((ubase s # us @ as @ [w]) @ bs @ [ubase s])" using c v by (simp add: cut_at_def ring_def)
  then have n: "h_ptr s w = hd (bs @ [ubase s])" using links_split(1) [of "h_ptr s" "ubase s # us @ as @ [w]" bs "ubase s"] by simp
  have "sorted_wrt (<) vs" using ring_sorted [of s "us @ vs"] c by (simp add: cut_at_def sorted_wrt_append)
  then have "w < hd bs" if "bs \<noteq> []" using that by (simp add: v sorted_wrt_append)
  moreover have "bp < w" "ubase s < bp" using c w by (auto simp: cut_at_def)
  ultimately show ?thesis using n by (cases bs) (auto simp: goes_on_def)
qed

lemma free_find_ring:
  assumes c: "cut_at s us vs bp" and x: "x \<in> set (ubase s # us @ vs)"
  shows "free_find s bp x = Some (last (ubase s # us))"
proof -
  let ?U = "ubase s # us"
  have l: "links (h_ptr s) (?U @ vs @ [ubase s])" using c by (simp add: cut_at_def ring_def)
  have U: "?U = butlast ?U @ [last ?U]" by simp
  show ?thesis
  proof (cases "x \<in> set ?U")
    case True
    then obtain as bs where u: "?U = as @ x # bs" by (metis split_list)
    have "x # bs = butlast (x # bs) @ [last ?U]" using u by (metis append_butlast_last_id last_appendR list.distinct(1))
    moreover have "links (h_ptr s) (x # bs)" using links_split(2) [OF l] links_append [of "h_ptr s" as x bs] u by simp
    moreover have "set (butlast (x # bs)) \<subseteq> set (butlast ?U)" unfolding u by (simp add: butlast_append)
    ultimately show ?thesis
      using free_find_path [of s "butlast (x # bs)" "last ?U" bp] cut_goes_on [OF c] cut_stops [OF c] by (metis list.sel(1) subsetD)
  next
    case False
    then obtain as bs where v: "vs = as @ x # bs" using x by (metis Un_iff set_append append_Cons split_list)
    have "links (h_ptr s) (vs @ [ubase s])" using links_split(3) [OF l] by simp
    then have "links (h_ptr s) ((x # bs) @ [ubase s])" using links_append [of "h_ptr s" as x "bs @ [ubase s]"] v by simp
    moreover have "links (h_ptr s) ?U" using links_split(2) [OF l] by simp
    ultimately have "links (h_ptr s) ((x # bs) @ ?U)" using links_append [of "h_ptr s" "x # bs" "ubase s" us] by simp
    then have "links (h_ptr s) (((x # bs) @ butlast ?U) @ [last ?U])" using U by (metis append.assoc)
    moreover have "\<forall>w\<in>set ((x # bs) @ butlast ?U). goes_on s bp w" using cut_goes_on [OF c] v by auto
    ultimately show ?thesis using free_find_path [of s "(x # bs) @ butlast ?U" "last ?U" bp] cut_stops [OF c] by simp
  qed
qed

section \<open>The heap\<close>

text \<open>The bytes of a block, and the invariant: besides the ring of free blocks there are the blocks \<open>A\<close> given to the
  program, and no two blocks share a byte.\<close>

definition blk :: "uheap \<Rightarrow> nat \<Rightarrow> nat set" where
  "blk s a = {a..<a + unit_bytes * h_size s a}"

definition heap_ok :: "uheap \<Rightarrow> nat list \<Rightarrow> nat set \<Rightarrow> bool" where
  "heap_ok s ys A \<longleftrightarrow> ring s ys \<and> ubase s + unit_bytes \<le> ubrk s \<and> ubrk s \<le> 2 ^ 36 \<and> A \<inter> set ys = {} \<and>
     (\<forall>a\<in>set ys \<union> A. ubase s + unit_bytes \<le> a \<and> 0 < h_size s a \<and> a + unit_bytes * h_size s a \<le> ubrk s) \<and>
     (\<forall>a\<in>A. \<forall>b\<in>set ys \<union> A. a \<noteq> b \<longrightarrow> blk s a \<inter> blk s b = {})"

lemma heap_dis: "heap_ok s ys A \<Longrightarrow> a \<in> A \<Longrightarrow> b \<in> set ys \<union> A \<Longrightarrow> a \<noteq> b \<Longrightarrow> blk s a \<inter> blk s b = {}"
  unfolding heap_ok_def by blast

lemma heap_blk:
  "heap_ok s ys A \<Longrightarrow> a \<in> set ys \<union> A \<Longrightarrow> ubase s + unit_bytes \<le> a \<and> 0 < h_size s a \<and> a + unit_bytes * h_size s a \<le> ubrk s"
  unfolding heap_ok_def by blast

lemma blk_before: "blk s a \<inter> blk s b = {} \<Longrightarrow> a < b \<Longrightarrow> 0 < h_size s b \<Longrightarrow> a + unit_bytes * h_size s a \<le> b"
  unfolding blk_def by (rule ccontr) auto

lemma heap_cut:
  assumes h: "heap_ok s ys A" and b: "bp \<in> A"
  obtains us vs where "ys = us @ vs" "cut_at s us vs bp" "\<forall>u\<in>set (ubase s # us). u + unit_bytes * h_size s u \<le> bp"
    "\<forall>v\<in>set vs. bp + unit_bytes * h_size s bp \<le> v"
proof -
  have "bp \<notin> set ys" "sorted_wrt (<) ys" using h b ring_sorted [of s ys] by (auto simp: heap_ok_def)
  then obtain us vs where y: "ys = us @ vs" "\<forall>u\<in>set us. u < bp" "\<forall>v\<in>set vs. bp < v" using split_at by metis
  have base: "ubase s + unit_bytes \<le> bp" "h_size s (ubase s) = 0" using h b by (auto simp: heap_ok_def ring_def)
  have dis: "blk s bp \<inter> blk s y = {}" "0 < h_size s y" if "y \<in> set ys" for y
    using heap_dis [OF h b, of y] heap_blk [OF h, of y] that \<open>bp \<notin> set ys\<close> by auto
  have "cut_at s us vs bp" using h y base(1) by (auto simp: cut_at_def heap_ok_def)
  moreover have "\<forall>u\<in>set us. u + unit_bytes * h_size s u \<le> bp"
  proof
    fix u assume "u \<in> set us"
    then have "blk s u \<inter> blk s bp = {}" "u < bp" using dis [of u] y by auto
    then show "u + unit_bytes * h_size s u \<le> bp" using heap_blk [OF h, of bp] b by (intro blk_before) auto
  qed
  moreover have "\<forall>v\<in>set vs. bp + unit_bytes * h_size s bp \<le> v" using dis y by (auto intro!: blk_before)
  ultimately show thesis using that [of us vs] y(1) base by auto
qed

text \<open>\<open>joined s us vs bp z\<close>: the block that starts at \<open>bp\<close> ends, with its size \<open>z\<close>, before the free blocks \<open>vs\<close>.\<close>

definition joined :: "uheap \<Rightarrow> nat list \<Rightarrow> nat list \<Rightarrow> nat \<Rightarrow> nat \<Rightarrow> nat list \<Rightarrow> bool" where
  "joined s us vs bp z vs' \<longleftrightarrow>
     links (h_ptr s) (vs' @ [ubase s]) \<and> set vs' \<subseteq> set vs \<and> sorted_wrt (\<lambda>a b. a + unit_bytes * h_size s a < b) vs' \<and>
     (\<forall>v\<in>set vs'. bp + unit_bytes * z < v) \<and> h_size s bp \<le> z \<and> bp + unit_bytes * z \<le> ubrk s \<and>
     {bp..<bp + unit_bytes * z} \<subseteq> blk s bp \<union> (\<Union>v\<in>set vs. blk s v)"

lemma units_wrap: "heap_ok s ys A \<Longrightarrow> a + unit_bytes * n \<le> ubrk s \<Longrightarrow> 0 < a \<Longrightarrow> uwrap n = n"
  by (auto simp: heap_ok_def)

lemma join_next_spec:
  assumes h: "heap_ok s (us @ vs) A" and b: "bp \<in> A" and c: "cut_at s us vs bp"
    and v: "\<forall>v\<in>set vs. bp + unit_bytes * h_size s bp \<le> v"
  shows "\<exists>vs' z. join_next bp (last (ubase s # us)) s =
      s\<lparr>h_size := (h_size s)(bp := z), h_ptr := (h_ptr s)(bp := hd (vs' @ [ubase s]))\<rparr> \<and> joined s us vs bp z vs'"
proof (cases "bp + unit_bytes * h_size s bp = hd (vs @ [ubase s])")
  case True
  have bb: "ubase s + unit_bytes \<le> bp" "0 < h_size s bp" using h b by (auto simp: heap_ok_def)
  then have "vs \<noteq> []" using True by (cases vs) auto
  then obtain w vs' where w: "vs = w # vs'" by (cases vs) auto
  then have e: "bp + unit_bytes * h_size s bp = w" using True by simp
  let ?z = "h_size s bp + h_size s w"
  have lim: "bp + unit_bytes * ?z \<le> ubrk s" using h w e by (auto simp: heap_ok_def algebra_simps)
  have wrap: "uwrap ?z = ?z" using units_wrap [OF h lim] bb by simp
  have "sorted_wrt (\<lambda>a b. a + unit_bytes * h_size s a < b) (w # vs')"
    using h w by (auto simp: heap_ok_def ring_def sorted_wrt_append)
  moreover have "links (h_ptr s) (w # vs' @ [ubase s])"
    using links_split(3) [of "h_ptr s" "ubase s # us" vs "ubase s"] h w by (simp add: heap_ok_def ring_def)
  then have "h_ptr s w = hd (vs' @ [ubase s])" "links (h_ptr s) (vs' @ [ubase s])" by (cases vs'; simp)+
  moreover have "join_next bp (last (ubase s # us)) s = s\<lparr>h_size := (h_size s)(bp := ?z), h_ptr := (h_ptr s)(bp := h_ptr s w)\<rparr>"
    unfolding join_next_def cut_next [OF c] using e wrap by (simp add: w Let_def)
  moreover have "{bp..<bp + unit_bytes * ?z} \<subseteq> blk s bp \<union> (\<Union>v\<in>set vs. blk s v)"
    using e w by (auto simp: blk_def algebra_simps)
  ultimately show ?thesis using w e lim
    by (intro exI [of _ vs'] exI [of _ ?z]) (auto simp: joined_def algebra_simps)
next
  case False
  have "join_next bp (last (ubase s # us)) s = s\<lparr>h_ptr := (h_ptr s)(bp := hd (vs @ [ubase s]))\<rparr>"
    unfolding join_next_def cut_next [OF c] using False by (simp add: Let_def)
  moreover have "(h_size s)(bp := h_size s bp) = h_size s" by simp
  moreover have "links (h_ptr s) (vs @ [ubase s])"
    using links_split(3) [of "h_ptr s" "ubase s # us" vs "ubase s"] h by (simp add: heap_ok_def ring_def)
  moreover have srt: "sorted_wrt (\<lambda>a b. a + unit_bytes * h_size s a < b) vs" using h by (simp add: heap_ok_def ring_def sorted_wrt_append)
  moreover have "\<forall>x\<in>set vs. bp + unit_bytes * h_size s bp < x"
  proof
    fix x assume x: "x \<in> set vs"
    then obtain w vs' where w: "vs = w # vs'" by (cases vs) auto
    then have "bp + unit_bytes * h_size s bp < w" using False v by (simp add: le_neq_implies_less)
    then show "bp + unit_bytes * h_size s bp < x" using x srt w by auto
  qed
  ultimately show ?thesis using h b
    by (intro exI [of _ vs] exI [of _ "h_size s bp"]) (auto simp: joined_def heap_ok_def blk_def)
qed

text \<open>\<open>freed s t ys bp ys'\<close>: the free blocks \<open>ys'\<close> of \<open>t\<close> are those of \<open>s\<close> and \<open>bp\<close>, joined where they meet.\<close>

definition freed :: "uheap \<Rightarrow> uheap \<Rightarrow> nat list \<Rightarrow> nat \<Rightarrow> nat list \<Rightarrow> bool" where
  "freed s t ys bp ys' \<longleftrightarrow> ring t ys' \<and> ubase t = ubase s \<and> ubrk t = ubrk s \<and> set ys' \<subseteq> insert bp (set ys) \<and>
     (\<forall>a. a \<notin> insert bp (set ys) \<longrightarrow> h_size t a = h_size s a) \<and>
     (\<forall>y\<in>set ys'. y + unit_bytes * h_size t y \<le> ubrk s \<and> blk t y \<subseteq> blk s bp \<union> (\<Union>v\<in>set ys. blk s v)) \<and>
     (\<exists>y\<in>set ys'. h_size s bp \<le> h_size t y)"

lemma freed_heap:
  assumes h: "heap_ok s ys A" and b: "bp \<in> A" and f: "freed s t ys bp ys'"
  shows "heap_ok t ys' (A - {bp})"
proof -
  have A: "h_size t a = h_size s a" "blk t a = blk s a" "a \<notin> set ys'" "a \<notin> set ys" if "a \<in> A - {bp}" for a
    using h f that by (auto simp: heap_ok_def freed_def blk_def)
  have sub: "blk t y \<subseteq> blk s bp \<union> (\<Union>v\<in>set ys. blk s v)" if "y \<in> set ys'" for y using f that by (simp add: freed_def)
  have dis: "blk s a \<inter> (blk s bp \<union> (\<Union>v\<in>set ys. blk s v)) = {}" if "a \<in> A - {bp}" for a
  proof -
    have "blk s a \<inter> blk s c = {}" if "c \<in> insert bp (set ys)" for c
      using heap_dis [OF h, of a c] that \<open>a \<in> A - {bp}\<close> b A(4) by auto
    then show ?thesis by blast
  qed
  have d: "blk t a \<inter> blk t c = {}" if a: "a \<in> A - {bp}" and c: "c \<in> set ys' \<union> (A - {bp})" "a \<noteq> c" for a c
  proof (cases "c \<in> set ys'")
    case True
    then show ?thesis using sub dis [OF a] A(2) [OF a] by blast
  next
    case False
    then have "c \<in> A - {bp}" using c by blast
    then show ?thesis using heap_dis [OF h, of a c] a c A(2) [OF a] A(2) [of c] by auto
  qed
  have k: "ubase t + unit_bytes \<le> y \<and> 0 < h_size t y \<and> y + unit_bytes * h_size t y \<le> ubrk t" if "y \<in> set ys' \<union> (A - {bp})" for y
  proof (cases "y \<in> set ys'")
    case True
    then show ?thesis using f by (auto simp: freed_def ring_def)
  next
    case False
    then have y: "y \<in> A - {bp}" using that by blast
    then show ?thesis using heap_blk [OF h, of y] A(1) [OF y] f by (auto simp: freed_def)
  qed
  have "ring t ys'" "ubase t + unit_bytes \<le> ubrk t" "ubrk t \<le> 2 ^ 36" using h f by (simp_all add: freed_def heap_ok_def)
  moreover have "(A - {bp}) \<inter> set ys' = {}" using A(3) by blast
  ultimately show ?thesis unfolding heap_ok_def using d k by blast
qed

lemma ring_intro:
  assumes "links (h_ptr t) (ubase t # ys @ [ubase t])" "sorted_wrt (\<lambda>a b. a + unit_bytes * h_size t a < b) ys" "0 < ubase t"
    "h_size t (ubase t) = 0" "\<forall>y\<in>set ys. ubase t + unit_bytes \<le> y \<and> 0 < h_size t y" "freep t \<in> set (ubase t # ys)"
  shows "ring t ys"
  using assms by (auto simp: ring_def)

text \<open>The blocks before \<open>bp\<close>.\<close>

lemma before_facts:
  assumes h: "heap_ok s (us @ vs) A" and c: "cut_at s us vs bp"
  shows "links (h_ptr s) (ubase s # us)" "sorted_wrt (\<lambda>a b. a + unit_bytes * h_size s a < b) (ubase s # us)"
    "distinct (ubase s # us)" "bp \<notin> set (ubase s # us)" "set (ubase s # us) \<inter> set vs = {}" "bp \<notin> set vs"
    "last (ubase s # us) \<in> set (ubase s # us)"
proof -
  have r: "ring s (us @ vs)" using h by (simp add: heap_ok_def)
  then show "links (h_ptr s) (ubase s # us)"
    using links_split(2) [of "h_ptr s" "ubase s # us" vs "ubase s"] by (simp add: ring_def)
  show "sorted_wrt (\<lambda>a b. a + unit_bytes * h_size s a < b) (ubase s # us)" using r by (auto simp: ring_def sorted_wrt_append)
  show "distinct (ubase s # us)" "set (ubase s # us) \<inter> set vs = {}" using ring_distinct [OF r] by auto
  show "bp \<notin> set (ubase s # us)" "bp \<notin> set vs" using c by (auto simp: cut_at_def)
  show "last (ubase s # us) \<in> set (ubase s # us)" by (rule last_in_set) simp
qed

lemma butlast_not_last: "distinct xs \<Longrightarrow> xs \<noteq> [] \<Longrightarrow> last xs \<notin> set (butlast xs)"
  by (metis append_butlast_last_id distinct_append disjoint_iff list.set_intros(1))

lemma gaps_cong:
  "\<forall>x\<in>set xs. h_size t x = h_size s x \<Longrightarrow> sorted_wrt (\<lambda>a b. a + unit_bytes * h_size s a < b) xs \<Longrightarrow>
    sorted_wrt (\<lambda>a b. a + unit_bytes * h_size t a < b) xs"
  by (rule sorted_wrt_mono_rel [rotated]) auto

lemma after_facts:
  assumes h: "heap_ok s (us @ vs) A" and c: "cut_at s us vs bp" and j: "joined s us vs bp z vs'"
  shows "last (ubase s # us) \<noteq> bp" "last (ubase s # us) \<notin> set vs'" "bp \<notin> set vs'"
    "last (ubase s # us) \<notin> set (butlast (ubase s # us))" "bp \<notin> set (butlast (ubase s # us))"
proof -
  note f = before_facts [OF h c]
  have v: "set vs' \<subseteq> set vs" using j by (simp add: joined_def)
  show "last (ubase s # us) \<noteq> bp" using f(4, 7) by metis
  show "last (ubase s # us) \<notin> set vs'" using f(5, 7) v by blast
  show "bp \<notin> set vs'" using f(6) v by blast
  show "last (ubase s # us) \<notin> set (butlast (ubase s # us))" using butlast_not_last [OF f(3)] by simp
  show "bp \<notin> set (butlast (ubase s # us))" using f(4) in_set_butlastD by metis
qed

lemma join_prev_apart:
  assumes h: "heap_ok s (us @ vs) A" and b: "bp \<in> A" and c: "cut_at s us vs bp"
    and u: "\<forall>u\<in>set (ubase s # us). u + unit_bytes * h_size s u \<le> bp" and j: "joined s us vs bp z vs'"
    and n: "last (ubase s # us) + unit_bytes * h_size s (last (ubase s # us)) \<noteq> bp"
    and t: "t = s\<lparr>h_size := (h_size s)(bp := z), h_ptr := (h_ptr s)(bp := hd (vs' @ [ubase s]), last (ubase s # us) := bp),
      freep := last (ubase s # us)\<rparr>"
  shows "freed s t (us @ vs) bp (us @ bp # vs')"
proof -
  let ?p = "last (ubase s # us)"
  note f = before_facts [OF h c]
  note p = after_facts [OF h c j]
  have "links (h_ptr t) (ubase s # us)" using f(1) p t by (simp add: links_upd)
  moreover have "links (h_ptr t) (vs' @ [ubase s])" using j p t by (simp add: joined_def links_upd)
  then have "links (h_ptr t) (bp # vs' @ [ubase s])" using t p by (cases vs') auto
  ultimately have l: "links (h_ptr t) (ubase t # (us @ bp # vs') @ [ubase t])"
    using links_join [of "h_ptr t" "ubase s # us" "bp # vs' @ [ubase s]"] t by simp
  have gap: "a + unit_bytes * h_size s a < bp" if "a \<in> set us" for a
  proof (cases "a = ?p")
    case True
    then show ?thesis using u n that by (simp add: le_neq_implies_less)
  next
    case False
    then have "a \<in> set (butlast (ubase s # us))"
      using that by (metis append_butlast_last_id in_set_conv_decomp list.set_intros(2) list.distinct(1) rotate1.simps(2) set_ConsD set_rotate1)
    moreover have "sorted_wrt (\<lambda>a b. a + unit_bytes * h_size s a < b) (butlast (ubase s # us) @ [?p])" using f(2) by simp
    ultimately have "a + unit_bytes * h_size s a < ?p" by (simp only: sorted_wrt_append) simp
    moreover have "?p < bp" using f(7) c unfolding cut_at_def by blast
    ultimately show ?thesis by simp
  qed
  have sz: "h_size t a = h_size s a" if "a \<noteq> bp" for a using that t by simp
  have szu: "\<forall>x\<in>set us. h_size t x = h_size s x" using f(4) sz by (metis list.set_intros(2))
  have szv: "\<forall>x\<in>set vs'. h_size t x = h_size s x" using p(3) sz by metis
  have "sorted_wrt (\<lambda>a b. a + unit_bytes * h_size t a < b) us"
    using f(2) szu by (intro gaps_cong [of us t s]) auto
  moreover have "sorted_wrt (\<lambda>a b. a + unit_bytes * h_size t a < b) vs'"
    using j szv by (intro gaps_cong [of vs' t s]) (auto simp: joined_def)
  moreover have "\<forall>x\<in>set us. x + unit_bytes * h_size t x < bp" using gap szu by auto
  moreover have b': "\<forall>v\<in>set vs'. bp < v \<and> bp + unit_bytes * h_size t bp < v" using j c t by (auto simp: joined_def)
  ultimately have srt: "sorted_wrt (\<lambda>a b. a + unit_bytes * h_size t a < b) (us @ bp # vs')"
    by (fastforce simp: sorted_wrt_append)
  have hb: "ubase s + unit_bytes \<le> bp" "0 < h_size s bp" using heap_blk [OF h, of bp] b by auto
  have ring: "ring t (us @ bp # vs')"
  proof (rule ring_intro [OF l srt])
    show "0 < ubase t" "h_size t (ubase t) = 0" using h hb t by (auto simp: heap_ok_def ring_def)
    show "\<forall>y\<in>set (us @ bp # vs'). ubase t + unit_bytes \<le> y \<and> 0 < h_size t y"
      using h j hb t by (auto simp: heap_ok_def ring_def joined_def)
    show "freep t \<in> set (ubase t # us @ bp # vs')" using f(7) t by auto
  qed
  have "y + unit_bytes * h_size t y \<le> ubrk s \<and> blk t y \<subseteq> blk s bp \<union> (\<Union>v\<in>set (us @ vs). blk s v)" if y: "y \<in> set (us @ bp # vs')" for y
  proof (cases "y = bp")
    case True
    then show ?thesis using j t by (auto simp: joined_def blk_def)
  next
    case False
    then have "y \<in> set (us @ vs)" using y j by (auto simp: joined_def)
    then show ?thesis using heap_blk [OF h, of y] sz [OF False] by (auto simp: blk_def)
  qed
  then show ?thesis using ring j t unfolding freed_def by (auto simp: joined_def)
qed

lemma join_prev_meet:
  assumes h: "heap_ok s (us @ vs) A" and b: "bp \<in> A" and c: "cut_at s us vs bp"
    and j: "joined s us vs bp z vs'"
    and n: "last (ubase s # us) + unit_bytes * h_size s (last (ubase s # us)) = bp"
    and t: "t = s\<lparr>h_size := (h_size s)(bp := z, last (ubase s # us) := h_size s (last (ubase s # us)) + z),
      h_ptr := (h_ptr s)(bp := hd (vs' @ [ubase s]), last (ubase s # us) := hd (vs' @ [ubase s])),
      freep := last (ubase s # us)\<rparr>"
  shows "freed s t (us @ vs) bp (us @ vs')"
proof -
  let ?p = "last (ubase s # us)"
  note f = before_facts [OF h c]
  note p = after_facts [OF h c j]
  have hb: "ubase s + unit_bytes \<le> bp" "0 < h_size s bp" "h_size s (ubase s) = 0"
    using heap_blk [OF h, of bp] b h by (auto simp: heap_ok_def ring_def)
  have "us \<noteq> []" using n hb by (cases us) auto
  then obtain ws where us: "us = ws @ [?p]" by (metis append_butlast_last_id last_ConsR)
  have pu: "?p \<in> set us" by (subst us) simp
  have dus: "distinct (ubase s # ws @ [?p])" using f(3) us by metis
  have "links (h_ptr t) (ubase s # us)" using f(1) p t by (simp add: links_upd)
  moreover have "links (h_ptr t) (vs' @ [ubase s])" using j p t by (simp add: joined_def links_upd)
  ultimately have l: "links (h_ptr t) (ubase t # (us @ vs') @ [ubase t])"
    using links_join [of "h_ptr t" "ubase s # us" "vs' @ [ubase s]"] t by simp
  have sz: "h_size t a = h_size s a" if "a \<noteq> bp" "a \<noteq> ?p" for a using that t by simp
  have szp: "h_size t ?p = h_size s ?p + z" using t by simp
  have szw: "\<forall>x\<in>set ws. h_size t x = h_size s x"
    using sz f(4) dus us by (metis distinct.simps(2) distinct_append disjoint_iff list.set_intros in_set_conv_decomp Un_iff set_append)
  have szv: "\<forall>x\<in>set vs'. h_size t x = h_size s x" using sz p(2, 3) by metis
  have pend: "?p + unit_bytes * h_size t ?p = bp + unit_bytes * z" using n szp by (simp add: algebra_simps)
  have sw: "sorted_wrt (\<lambda>a b. a + unit_bytes * h_size s a < b) (ws @ [?p])" using f(2) us by (metis sorted_wrt.simps(2))
  have "sorted_wrt (\<lambda>a b. a + unit_bytes * h_size t a < b) ws"
    using sw szw by (intro gaps_cong [of ws t s]) (simp_all only: sorted_wrt_append)
  moreover have wp: "\<forall>x\<in>set ws. x + unit_bytes * h_size t x < ?p" using sw szw by (simp only: sorted_wrt_append) simp
  moreover have "sorted_wrt (\<lambda>a b. a + unit_bytes * h_size t a < b) vs'"
    using j szv by (intro gaps_cong [of vs' t s]) (auto simp: joined_def)
  moreover have v: "\<forall>v\<in>set vs'. ?p < v \<and> ?p + unit_bytes * h_size t ?p < v" using j pend n by (auto simp: joined_def)
  ultimately have "sorted_wrt (\<lambda>a b. a + unit_bytes * h_size t a < b) (ws @ ?p # vs')"
    by (fastforce simp only: sorted_wrt_append sorted_wrt.simps list.set ball_simps)
  then have srt: "sorted_wrt (\<lambda>a b. a + unit_bytes * h_size t a < b) (us @ vs')" using us by (metis append.assoc append_Cons append_Nil)
  have bnd: "ubase s + unit_bytes \<le> y \<and> 0 < h_size s y" if "y \<in> set (us @ vs)" for y using heap_blk [OF h, of y] that by auto
  have ring: "ring t (us @ vs')"
  proof (rule ring_intro [OF l srt])
    have "ubase s \<noteq> ?p" using f(3) pu by auto
    then show "0 < ubase t" "h_size t (ubase t) = 0" using h hb t by (auto simp: heap_ok_def ring_def)
    show "\<forall>y\<in>set (us @ vs'). ubase t + unit_bytes \<le> y \<and> 0 < h_size t y"
    proof
      fix y assume y: "y \<in> set (us @ vs')"
      then have "y \<in> set (us @ vs)" using j by (auto simp: joined_def)
      then show "ubase t + unit_bytes \<le> y \<and> 0 < h_size t y" using bnd [of y] t j hb(2) by (auto simp: joined_def)
    qed
    show "freep t \<in> set (ubase t # us @ vs')" using pu t by auto
  qed
  have all: "y + unit_bytes * h_size t y \<le> ubrk s \<and> blk t y \<subseteq> blk s bp \<union> (\<Union>v\<in>set (us @ vs). blk s v)" if y: "y \<in> set (us @ vs')" for y
  proof (cases "y = ?p")
    case True
    have "blk t ?p = blk s ?p \<union> {bp..<bp + unit_bytes * z}" unfolding blk_def pend using n by auto
    then show ?thesis using j pend pu True by (auto simp: joined_def)
  next
    case False
    have "y \<in> set (us @ vs)" "y \<noteq> bp" using y j p(3) f(4) by (auto simp: joined_def)
    then show ?thesis using heap_blk [OF h, of y] sz [of y] False by (auto simp: blk_def)
  qed
  have "set (us @ vs') \<subseteq> insert bp (set (us @ vs))" using j by (auto simp: joined_def)
  moreover have "\<forall>a. a \<notin> insert bp (set (us @ vs)) \<longrightarrow> h_size t a = h_size s a" using sz pu by (metis Un_iff insert_iff set_append)
  moreover have "\<exists>y\<in>set (us @ vs'). h_size s bp \<le> h_size t y" using pu szp j by (intro bexI [of _ ?p]) (auto simp: joined_def)
  ultimately show ?thesis using ring all t unfolding freed_def by simp
qed

lemma free_spec:
  assumes h: "heap_ok s ys A" and b: "bp \<in> A"
  shows "\<exists>t ys'. free (bp + unit_bytes) s = Some t \<and> freed s t ys bp ys'"
proof -
  obtain us vs where c: "ys = us @ vs" "cut_at s us vs bp" "\<forall>u\<in>set (ubase s # us). u + unit_bytes * h_size s u \<le> bp"
    "\<forall>v\<in>set vs. bp + unit_bytes * h_size s bp \<le> v" using heap_cut [OF h b] .
  let ?p = "last (ubase s # us)"
  have h': "heap_ok s (us @ vs) A" using h c(1) by simp
  obtain vs' z where n: "join_next bp ?p s = s\<lparr>h_size := (h_size s)(bp := z), h_ptr := (h_ptr s)(bp := hd (vs' @ [ubase s]))\<rparr>"
    "joined s us vs bp z vs'" using join_next_spec [OF h' b c(2, 4)] by blast
  have "freep s \<in> set (ubase s # us @ vs)" using h c(1) by (simp add: heap_ok_def ring_def)
  then have "free_find s bp (freep s) = Some ?p" by (rule free_find_ring [OF c(2)])
  then have fr: "free (bp + unit_bytes) s = Some ((join_prev bp ?p (join_next bp ?p s))\<lparr>freep := ?p\<rparr>)" by (simp add: free_def Let_def)
  have pb: "?p \<noteq> bp" using after_facts(1) [OF h' c(2) n(2)] .
  show ?thesis
  proof (cases "?p + unit_bytes * h_size s ?p = bp")
    case True
    have "?p + unit_bytes * (h_size s ?p + z) \<le> ubrk s" using n(2) True by (simp add: joined_def algebra_simps)
    moreover have "0 < ?p" using heap_blk [OF h, of ?p] h last_in_set [of us] c(1) by (cases us) (auto simp: heap_ok_def ring_def)
    ultimately have "uwrap (h_size s ?p + z) = h_size s ?p + z" using units_wrap [OF h] by blast
    then have "(join_prev bp ?p (join_next bp ?p s))\<lparr>freep := ?p\<rparr> = s\<lparr>h_size := (h_size s)(bp := z, ?p := h_size s ?p + z),
      h_ptr := (h_ptr s)(bp := hd (vs' @ [ubase s]), ?p := hd (vs' @ [ubase s])), freep := ?p\<rparr>"
      unfolding n(1) join_prev_def using True pb by simp
    from join_prev_meet [OF h' b c(2) n(2) True this] show ?thesis using fr c(1) by blast
  next
    case False
    then have "(join_prev bp ?p (join_next bp ?p s))\<lparr>freep := ?p\<rparr> = s\<lparr>h_size := (h_size s)(bp := z),
      h_ptr := (h_ptr s)(bp := hd (vs' @ [ubase s]), ?p := bp), freep := ?p\<rparr>"
      unfolding n(1) join_prev_def using pb by simp
    from join_prev_apart [OF h' b c(2, 3) n(2) False this] show ?thesis using fr c(1) by blast
  qed
qed

section \<open>Allocation\<close>

text \<open>\<open>gave s t A p n\<close>: \<open>t\<close> is \<open>s\<close> after the block \<open>p\<close> of \<open>n\<close> units has gone from the free blocks to the program.\<close>

definition gave :: "uheap \<Rightarrow> uheap \<Rightarrow> nat set \<Rightarrow> nat \<Rightarrow> nat \<Rightarrow> bool" where
  "gave s t A p n \<longleftrightarrow> p \<notin> A \<and> (\<exists>ys. heap_ok t ys (insert p A)) \<and> h_size t p = n \<and> (\<forall>a\<in>A. h_size t a = h_size s a) \<and> ubase t = ubase s"

lemma ring_pred:
  assumes r: "ring s ys" and w: "w \<in> set ys" "h_ptr s prev = w" "prev \<in> set (ubase s # ys)"
  obtains as bs where "ys = as @ w # bs" "prev = last (ubase s # as)"
proof -
  obtain cs ds where c: "ubase s # ys = cs @ prev # ds" using w(3) by (metis split_list)
  have "links (h_ptr s) ((cs @ [prev]) @ ds @ [ubase s])" using r c by (metis ring_def append.assoc append_Cons append_Nil)
  then have "h_ptr s prev = hd (ds @ [ubase s])" using links_split(1) [of "h_ptr s" "cs @ [prev]" ds "ubase s"] by simp
  moreover have "w \<noteq> ubase s" using ring_distinct [OF r] w(1) by auto
  ultimately obtain bs where ds: "ds = w # bs" using w(2) by (cases ds) auto
  show thesis
  proof (cases cs)
    case Nil
    then show ?thesis using that [of "[]" bs] c ds by simp
  next
    case (Cons x cs')
    then show ?thesis using that [of "cs' @ [prev]" bs] c ds by simp
  qed
qed

lemma take_all:
  assumes h: "heap_ok s ys A" and w: "w \<in> set ys" "h_ptr s prev = w" "prev \<in> set (ubase s # ys)"
  shows "gave s (s\<lparr>h_ptr := (h_ptr s)(prev := h_ptr s w), freep := prev\<rparr>) A w (h_size s w)"
proof -
  let ?t = "s\<lparr>h_ptr := (h_ptr s)(prev := h_ptr s w), freep := prev\<rparr>"
  have r: "ring s ys" using h by (simp add: heap_ok_def)
  obtain as bs where y: "ys = as @ w # bs" "prev = last (ubase s # as)" using ring_pred [OF r w] .
  have d: "distinct (ubase s # as @ w # bs)" using ring_distinct [OF r] y(1) by simp
  have l: "links (h_ptr s) (ubase s # as @ w # bs @ [ubase s])" using r y(1) by (simp add: ring_def)
  have "links (h_ptr ?t) (ubase s # (as @ bs) @ [ubase s])"
    using links_remove [OF l d] y(2) by (metis append.assoc uheap.select_convs(1) uheap.surjective uheap.update_convs(1, 3))
  moreover have "prev \<in> set (ubase s # as @ bs)" unfolding y(2) by (cases "as = []") auto
  ultimately have "ring ?t (as @ bs)" using r y(1) by (auto simp: ring_def sorted_wrt_append)
  moreover have "blk ?t = blk s" by (simp add: blk_def fun_eq_iff)
  moreover have nA: "w \<notin> A" using h w(1) by (auto simp: heap_ok_def)
  moreover have "blk s w \<inter> blk s b = {}" if b: "b \<in> set (as @ bs) \<union> A" for b
  proof (cases "b \<in> A")
    case True
    then show ?thesis using heap_dis [OF h True, of w] w(1) nA by auto
  next
    case False
    then have "b \<in> set as \<or> b \<in> set bs" using b by auto
    moreover have "sorted_wrt (\<lambda>a b. a + unit_bytes * h_size s a < b) (as @ w # bs)" using r y(1) by (simp add: ring_def)
    ultimately have "b + unit_bytes * h_size s b < w \<or> w + unit_bytes * h_size s w < b" by (auto simp: sorted_wrt_append)
    then show ?thesis by (auto simp: blk_def)
  qed
  then have "\<forall>a\<in>insert w A. \<forall>b\<in>set (as @ bs) \<union> insert w A. a \<noteq> b \<longrightarrow> blk s a \<inter> blk s b = {}"
    using heap_dis [OF h] y(1) by (auto simp: Int_commute)
  moreover have "insert w A \<inter> set (as @ bs) = {}" using h d y(1) by (auto simp: heap_ok_def)
  moreover have "\<forall>a\<in>set (as @ bs) \<union> insert w A. ubase s + unit_bytes \<le> a \<and> 0 < h_size s a \<and> a + unit_bytes * h_size s a \<le> ubrk s"
    using heap_blk [OF h] y(1) by auto
  moreover have "ubase s + unit_bytes \<le> ubrk s" "ubrk s \<le> 2 ^ 36" using h by (simp_all add: heap_ok_def)
  ultimately have "heap_ok ?t (as @ bs) (insert w A)" unfolding heap_ok_def by simp
  then show ?thesis using nA by (auto simp: gave_def)
qed

lemma take_tail:
  assumes h: "heap_ok s ys A" and w: "w \<in> set ys" "prev \<in> set (ubase s # ys)" and n: "0 < n" "n < h_size s w"
    and q: "q = w + unit_bytes * (h_size s w - n)"
    and t: "t = s\<lparr>h_size := (h_size s)(w := h_size s w - n, q := n), freep := prev\<rparr>"
  shows "gave s t A q n"
proof -
  have r: "ring s ys" using h by (simp add: heap_ok_def)
  have qw: "w < q" "q + unit_bytes * n = w + unit_bytes * h_size s w" using n q by (auto simp: algebra_simps)
  have bw: "blk t w = {w..<q}" "blk t q = {q..<w + unit_bytes * h_size s w}" "q \<in> blk s w" using qw q t n by (auto simp: blk_def)
  have wA: "w \<notin> A" using h w by (auto simp: heap_ok_def)
  have qA: "q \<notin> A"
  proof
    assume a: "q \<in> A"
    then have "blk s q \<inter> blk s w = {}" "0 < h_size s q" using heap_dis [OF h a, of w] heap_blk [OF h, of q] w wA by auto
    then show False using bw(3) by (auto simp: blk_def)
  qed
  have apart: "y + unit_bytes * h_size s y < w \<or> w + unit_bytes * h_size s w < y" if y: "y \<in> set ys" "y \<noteq> w" for y
  proof -
    obtain as bs where e: "ys = as @ w # bs" using w(1) by (metis split_list)
    then have "sorted_wrt (\<lambda>a b. a + unit_bytes * h_size s a < b) (as @ w # bs)" using r by (simp add: ring_def)
    moreover have "y \<in> set as \<or> y \<in> set bs" using y e by auto
    ultimately show ?thesis by (auto simp: sorted_wrt_append)
  qed
  have qy: "q \<notin> set ys" using apart [of q] qw n by fastforce
  have sz: "h_size t a = h_size s a" if "a \<noteq> w" "a \<noteq> q" for a using that t by simp
  have bs: "blk t a = blk s a" if "a \<noteq> w" "a \<noteq> q" for a using sz [OF that] by (simp add: blk_def)
  have wb: "ubase s + unit_bytes \<le> w" "w + unit_bytes * h_size s w \<le> ubrk s" using heap_blk [OF h, of w] w(1) by auto
  have le: "h_size t a \<le> h_size s a" if "a \<in> set (ubase s # ys)" for a
  proof -
    have "a \<noteq> q" using that qy wb qw by auto
    then show ?thesis using t by simp
  qed
  have "sorted_wrt (\<lambda>a b. a + unit_bytes * h_size t a < b) (ubase s # ys)"
  proof (rule sorted_wrt_mono_rel [of "ubase s # ys"])
    show "sorted_wrt (\<lambda>a b. a + unit_bytes * h_size s a < b) (ubase s # ys)" using r unfolding ring_def by blast
    fix x y assume "x \<in> set (ubase s # ys)" "x + unit_bytes * h_size s x < y"
    then show "x + unit_bytes * h_size t x < y" using le [of x] by simp
  qed
  moreover have pos: "ubase s + unit_bytes \<le> y \<and> 0 < h_size t y \<and> y + unit_bytes * h_size t y \<le> ubrk s" if y: "y \<in> set ys \<union> insert q A" for y
  proof -
    consider "y = q" | "y = w" "w \<noteq> q" | "y \<noteq> w" "y \<noteq> q" "y \<in> set ys \<union> A" using y w(1) by blast
    then show ?thesis
    proof cases
      case 1
      then show ?thesis using t n wb qw by simp
    next
      case 2
      then show ?thesis using t n wb qw by simp
    next
      case 3
      then show ?thesis using heap_blk [OF h 3(3)] sz by simp
    qed
  qed
  ultimately have ring: "ring t ys" using r w(2) t qw wb by (auto simp: ring_def)
  have sub: "blk t w \<subseteq> blk s w" "blk t q \<subseteq> blk s w" "blk t w \<inter> blk t q = {}" using bw(1, 2) qw by (auto simp: blk_def)
  have dA: "blk t a \<inter> blk t b = {}" if a: "a \<in> A" and b: "b \<in> set ys \<union> A" "a \<noteq> b" for a b
  proof -
    have "blk t a = blk s a" using bs a wA qA by metis
    moreover have "blk t b \<subseteq> blk s b" using bs [of b] sub(1) b qy qA by (cases "b = w") auto
    ultimately show ?thesis using heap_dis [OF h a b] by blast
  qed
  have dq: "blk t q \<inter> blk t b = {}" if b: "b \<in> set ys \<union> A" for b
  proof -
    consider "b = w" | "b \<in> set ys" "b \<noteq> w" | "b \<in> A" using b by blast
    then show ?thesis
    proof cases
      case 2
      then have "blk t b = blk s b" using bs qy by metis
      then show ?thesis using apart [OF 2] sub(2) by (auto simp: blk_def)
    next
      case 3
      then have ne: "b \<noteq> w" "b \<noteq> q" using wA qA by blast+
      then have "blk t b = blk s b" "blk s b \<inter> blk s w = {}" using bs [OF ne] heap_dis [OF h 3, of w] w(1) by auto
      then show ?thesis using sub(2) by blast
    qed (use sub(3) in blast)
  qed
  have "\<forall>a\<in>insert q A. \<forall>b\<in>set ys \<union> insert q A. a \<noteq> b \<longrightarrow> blk t a \<inter> blk t b = {}" using dA dq by (auto simp: Int_commute)
  moreover have "insert q A \<inter> set ys = {}" using h qy by (auto simp: heap_ok_def)
  moreover have "ubase t + unit_bytes \<le> ubrk t" "ubrk t \<le> 2 ^ 36" "ubase t = ubase s" "ubrk t = ubrk s" using h t by (simp_all add: heap_ok_def)
  ultimately have "heap_ok t ys (insert q A)" using ring pos unfolding heap_ok_def by auto
  moreover have "\<forall>a\<in>A. h_size t a = h_size s a" using sz wA qA by metis
  ultimately show ?thesis using qA t by (auto simp: gave_def)
qed

lemma malloc_take_spec:
  assumes h: "heap_ok s ys A" and w: "w \<in> set ys" "h_ptr s prev = w" "prev \<in> set (ubase s # ys)" and n: "0 < n" "n \<le> h_size s w"
  shows "\<exists>p t. malloc_take n prev w s = (p + unit_bytes, t) \<and> gave s t A p n"
proof (cases "h_size s w = n")
  case True
  then show ?thesis using take_all [OF h w] by (simp add: malloc_take_def)
next
  case False
  then show ?thesis using take_tail [OF h w(1, 3) n(1) _ refl refl] n(2) by (simp add: malloc_take_def Let_def)
qed

text \<open>The loop walks over blocks that are too small.\<close>

lemma malloc_walk:
  assumes "links (h_ptr s) (prevp # as @ [w])" "\<forall>a\<in>set as. h_size s a < n \<and> a \<noteq> freep s"
  shows "malloc_loop sbrk n prevp (h_ptr s prevp) s = malloc_loop sbrk n (last (prevp # as)) w s"
  using assms
proof (induction as arbitrary: prevp)
  case (Cons a as)
  then have "malloc_loop sbrk n prevp a s = malloc_loop sbrk n a (h_ptr s a) s" by (subst malloc_loop.simps) simp
  then show ?case using Cons by simp
qed simp

lemma ring_rotate:
  assumes r: "ring s ys"
  obtains ws where "links (h_ptr s) (freep s # ws @ [freep s])" "set (freep s # ws) = set (ubase s # ys)" "distinct (freep s # ws)"
proof -
  obtain us vs where u: "ubase s # ys = us @ freep s # vs" using r unfolding ring_def by (metis split_list)
  have l: "links (h_ptr s) (us @ freep s # vs @ [ubase s])" using r u by (metis ring_def append.assoc append_Cons)
  have d: "distinct (us @ freep s # vs)" using ring_distinct [OF r] u by simp
  show thesis
  proof (cases us)
    case Nil
    then show ?thesis using that [of vs] u l d by simp
  next
    case (Cons b us')
    then have b: "b = ubase s" using u by simp
    have "links (h_ptr s) ((freep s # vs) @ [ubase s])" "links (h_ptr s) (ubase s # us' @ [freep s])"
      using l links_append [of "h_ptr s" us "freep s" "vs @ [ubase s]"] Cons b by simp_all
    then have "links (h_ptr s) ((freep s # vs) @ ubase s # us' @ [freep s])"
      using links_append [of "h_ptr s" "freep s # vs" "ubase s" "us' @ [freep s]"] by simp
    moreover have "set (freep s # vs @ us) = set (ubase s # ys)" using u by auto
    moreover have "distinct (freep s # vs @ us)" using d by auto
    ultimately show ?thesis using that [of "vs @ us"] Cons b by simp
  qed
qed

text \<open>A round of the loop: a block large enough is taken, or the heap has to grow.\<close>

lemma malloc_round:
  assumes h: "heap_ok s ys A" and n: "0 < n"
  shows "(\<exists>y\<in>set ys. n \<le> h_size s y) \<Longrightarrow>
      \<exists>p t. malloc_loop sbrk n (freep s) (h_ptr s (freep s)) s = Some (p + unit_bytes, t) \<and> gave s t A p n"
    and "\<not> (\<exists>y\<in>set ys. n \<le> h_size s y) \<Longrightarrow> malloc_loop sbrk n (freep s) (h_ptr s (freep s)) s =
      (case morecore sbrk n s of None \<Rightarrow> None
       | Some (p, t) \<Rightarrow> if p = 0 then Some (0, t) else malloc_loop sbrk n p (h_ptr t p) t)"
proof -
  have r: "ring s ys" using h by (simp add: heap_ok_def)
  have b0: "h_size s (ubase s) = 0" using r by (simp add: ring_def)
  obtain ws where w: "links (h_ptr s) (freep s # ws @ [freep s])" "set (freep s # ws) = set (ubase s # ys)" "distinct (freep s # ws)"
    using ring_rotate [OF r] .
  {
    assume "\<exists>y\<in>set ys. n \<le> h_size s y"
    moreover have "set ys \<subseteq> set (ws @ [freep s])" using w(2) by auto
    ultimately have "\<exists>x\<in>set (ws @ [freep s]). n \<le> h_size s x" by blast
    then obtain as x cs where x: "ws @ [freep s] = as @ x # cs" "n \<le> h_size s x" "\<forall>a\<in>set as. \<not> n \<le> h_size s a"
      using split_list_first_prop [of "ws @ [freep s]" "\<lambda>a. n \<le> h_size s a"] by blast
    have "distinct (ws @ [freep s])" using w(3) by simp
    have nf: "\<forall>a\<in>set as. h_size s a < n \<and> a \<noteq> freep s"
    proof
      fix a assume a: "a \<in> set as"
      have "freep s \<in> set (x # cs)" using x(1) by (metis last_appendR last_in_set last_snoc list.distinct(1))
      then have "a \<noteq> freep s" using a \<open>distinct (ws @ [freep s])\<close> unfolding x(1) by auto
      then show "h_size s a < n \<and> a \<noteq> freep s" using x(3) a by (auto simp: not_le)
    qed
    have lk: "links (h_ptr s) ((freep s # as) @ x # cs)" using w(1) x(1) by simp
    then have l: "links (h_ptr s) (freep s # as @ [x])" using links_append [of "h_ptr s" "freep s # as" x cs] by simp
    then have p: "h_ptr s (last (freep s # as)) = x" using links_split(1) [of "h_ptr s" "freep s # as" "[]" x] by simp
    have xs: "x \<in> set (freep s # ws)" "set as \<subseteq> set (freep s # ws)"
      using x(1) by (metis Un_iff insert_iff list.set(2) set_append rotate1.simps(2) set_rotate1, metis x(1) Un_upper1 set_append rotate1.simps(2) set_rotate1)
    have "x \<noteq> ubase s" using x(2) b0 n by auto
    then have xy: "x \<in> set ys" using xs(1) unfolding w(2) by simp
    have "last (freep s # as) \<in> set (freep s # as)" by (rule last_in_set) simp
    then have pr: "last (freep s # as) \<in> set (ubase s # ys)" using xs(2) w(2) by auto
    obtain q t where "malloc_take n (last (freep s # as)) x s = (q + unit_bytes, t)" "gave s t A q n"
      using malloc_take_spec [OF h xy p pr n x(2)] by blast
    moreover have "malloc_loop sbrk n (freep s) (h_ptr s (freep s)) s = Some (malloc_take n (last (freep s # as)) x s)"
      unfolding malloc_walk [OF l nf] using x(2) by (subst malloc_loop.simps) simp
    ultimately show "\<exists>p t. malloc_loop sbrk n (freep s) (h_ptr s (freep s)) s = Some (p + unit_bytes, t) \<and> gave s t A p n" by simp
  next
    assume no: "\<not> (\<exists>y\<in>set ys. n \<le> h_size s y)"
    then have sm: "h_size s a < n" if "a \<in> set (freep s # ws)" for a
      using that no b0 n unfolding w(2) by (auto simp: not_le)
    have nf: "\<forall>a\<in>set ws. h_size s a < n \<and> a \<noteq> freep s" using sm w(3) by auto
    show "malloc_loop sbrk n (freep s) (h_ptr s (freep s)) s = (case morecore sbrk n s of None \<Rightarrow> None
       | Some (p, t) \<Rightarrow> if p = 0 then Some (0, t) else malloc_loop sbrk n p (h_ptr t p) t)"
      unfolding malloc_walk [OF w(1) nf] using sm [of "freep s"] by (subst malloc_loop.simps) simp
  }
qed

text \<open>What \<^verbatim>\<open>sbrk\<close> promises for an argument that is not negative: the old end of the heap, which moves up by the argument.
  A process grows page by page out of the 128 MB of physical memory, so the heap stays far below 64 GB.  \<open>Heap_Growth\<close> has the
  system call that keeps the promise.\<close>

definition sbrk_grows :: "sbrk_fun \<Rightarrow> bool" where
  "sbrk_grows sbrk \<longleftrightarrow> (\<forall>b n a b'. 0 \<le> n \<longrightarrow> n < 2 ^ 31 \<longrightarrow> sbrk b n = Some (a, b') \<longrightarrow> a = b \<and> b' = b + nat n \<and> b' \<le> 2 ^ 36)"

lemma grow_heap:
  assumes h: "heap_ok s ys A" and n: "0 < n" "ubrk s + unit_bytes * n \<le> 2 ^ 36"
    and t: "t = s\<lparr>ubrk := ubrk s + unit_bytes * n, h_size := (h_size s)(ubrk s := n)\<rparr>"
  shows "heap_ok t ys (insert (ubrk s) A)" "ubrk s \<notin> A" "\<forall>a\<in>A. h_size t a = h_size s a" "h_size t (ubrk s) = n"
proof -
  have lt: "a < ubrk s" "a + unit_bytes * h_size s a \<le> ubrk s" if "a \<in> set ys \<union> A" for a using heap_blk [OF h that] by auto
  show nA: "ubrk s \<notin> A" using lt(1) by blast
  have ny: "ubrk s \<notin> set ys" "ubrk s \<noteq> ubase s" using lt(1) h by (auto simp: heap_ok_def)
  have sz: "h_size t a = h_size s a" "blk t a = blk s a" if "a \<noteq> ubrk s" for a using that t by (simp_all add: blk_def)
  show "\<forall>a\<in>A. h_size t a = h_size s a" "h_size t (ubrk s) = n" using sz nA t by auto
  have r: "ring s ys" using h by (simp add: heap_ok_def)
  have same: "\<forall>x\<in>set (ubase s # ys). h_size t x = h_size s x" using sz(1) ny by (metis set_ConsD)
  then have "sorted_wrt (\<lambda>a b. a + unit_bytes * h_size t a < b) (ubase s # ys)"
    using r unfolding ring_def by (blast intro: gaps_cong)
  then have "ring t ys" using r same t by (auto simp: ring_def)
  moreover have d1: "blk t (ubrk s) \<inter> blk t a = {}" if "a \<in> set ys \<union> A" for a
  proof -
    have "a \<noteq> ubrk s" using lt(1) [OF that] by simp
    then show ?thesis using lt(2) [OF that] sz by (auto simp: blk_def)
  qed
  moreover have d2: "blk t a \<inter> blk t b = {}" if "a \<in> A" "b \<in> set ys \<union> A" "a \<noteq> b" for a b
  proof -
    have "a \<noteq> ubrk s" "b \<noteq> ubrk s" using that lt(1) by blast+
    then show ?thesis using heap_dis [OF h that] sz(2) by simp
  qed
  moreover have "\<forall>a\<in>insert (ubrk s) A. \<forall>b\<in>set ys \<union> insert (ubrk s) A. a \<noteq> b \<longrightarrow> blk t a \<inter> blk t b = {}"
    using d1 d2 by (auto simp: Int_commute)
  moreover have "ubase t + unit_bytes \<le> a \<and> 0 < h_size t a \<and> a + unit_bytes * h_size t a \<le> ubrk t" if a: "a \<in> set ys \<union> insert (ubrk s) A" for a
  proof (cases "a = ubrk s")
    case True
    then show ?thesis using t n h by (simp add: heap_ok_def)
  next
    case False
    then show ?thesis using a heap_blk [OF h, of a] sz(1) [OF False] t by auto
  qed
  moreover have "insert (ubrk s) A \<inter> set ys = {}" using h ny by (auto simp: heap_ok_def)
  moreover have "ubase t + unit_bytes \<le> ubrk t" "ubrk t \<le> 2 ^ 36" using h n t by (simp_all add: heap_ok_def)
  ultimately show "heap_ok t ys (insert (ubrk s) A)" unfolding heap_ok_def by blast
qed

text \<open>\<^verbatim>\<open>morecore\<close> leaves a ring with a block large enough.\<close>

lemma morecore_spec:
  assumes h: "heap_ok s ys A" and g: "sbrk_grows sbrk" and n: "0 < n" "unit_bytes * n < 2 ^ 31"
  shows "morecore sbrk n s = Some (0, s) \<or>
    (\<exists>t ys'. morecore sbrk n s = Some (freep t, t) \<and> heap_ok t ys' A \<and> (\<exists>y\<in>set ys'. n \<le> h_size t y) \<and>
       (\<forall>a\<in>A. h_size t a = h_size s a) \<and> ubase t = ubase s)"
proof -
  define m where "m = (if n < 4096 then 4096 else n)"
  have m: "0 < m" "n \<le> m" "16 * m < 2 ^ 31" using n by (auto simp: m_def)
  have si: "sint (of_nat (m * unit_bytes) :: u32) = int (unit_bytes * m)" using sint_small [of "m * 16"] m(3) by (simp add: mult.commute)
  show ?thesis
  proof (cases "sbrk (ubrk s) (int (unit_bytes * m))")
    case None
    then show ?thesis using si by (simp add: morecore_def m_def)
  next
    case (Some r)
    moreover have "0 \<le> int (unit_bytes * m)" "int (unit_bytes * m) < 2 ^ 31" using m(3) by simp_all
    ultimately have "fst r = ubrk s \<and> snd r = ubrk s + unit_bytes * m \<and> snd r \<le> 2 ^ 36"
      using g unfolding sbrk_grows_def by (metis prod.collapse nat_int)
    then have r: "r = (ubrk s, ubrk s + unit_bytes * m)" "ubrk s + unit_bytes * m \<le> 2 ^ 36"
      by (simp add: prod_eq_iff, metis)
    let ?u = "s\<lparr>ubrk := ubrk s + unit_bytes * m, h_size := (h_size s)(ubrk s := m)\<rparr>"
    note u = grow_heap [OF h m(1) r(2) refl]
    obtain t ys' where f: "free (ubrk s + unit_bytes) ?u = Some t" "freed ?u t ys (ubrk s) ys'" using free_spec [OF u(1), of "ubrk s"] by auto
    have "heap_ok t ys' A" using freed_heap [OF u(1) _ f(2)] u(2) by simp
    moreover have "\<exists>y\<in>set ys'. n \<le> h_size t y" using f(2) m(2) by (auto simp: freed_def intro: order_trans)
    moreover have "\<forall>a\<in>A. h_size t a = h_size s a"
    proof
      fix a assume "a \<in> A"
      then have "a \<notin> insert (ubrk s) (set ys)" using u(2) h by (auto simp: heap_ok_def)
      then show "h_size t a = h_size s a" using f(2) by (auto simp: freed_def)
    qed
    moreover have "ubase t = ubase s" using f(2) by (simp add: freed_def)
    moreover have "morecore sbrk n s = Some (freep t, t)" using Some si r(1) f(1) by (simp add: morecore_def Let_def flip: m_def)
    ultimately show ?thesis by blast
  qed
qed

lemma malloc_loop_spec:
  assumes h: "heap_ok s ys A" and g: "sbrk_grows sbrk" and n: "0 < n" "unit_bytes * n < 2 ^ 31"
  shows "malloc_loop sbrk n (freep s) (h_ptr s (freep s)) s = Some (0, s) \<or>
    (\<exists>p t. malloc_loop sbrk n (freep s) (h_ptr s (freep s)) s = Some (p + unit_bytes, t) \<and> gave s t A p n)"
proof (cases "\<exists>y\<in>set ys. n \<le> h_size s y")
  case True
  then show ?thesis using malloc_round(1) [OF h n(1)] by blast
next
  case False
  note l = malloc_round(2) [OF h n(1) False, of sbrk]
  from morecore_spec [OF h g n] show ?thesis
  proof
    assume "morecore sbrk n s = Some (0, s)"
    then show ?thesis unfolding l by simp
  next
    assume "\<exists>t ys'. morecore sbrk n s = Some (freep t, t) \<and> heap_ok t ys' A \<and> (\<exists>y\<in>set ys'. n \<le> h_size t y) \<and>
       (\<forall>a\<in>A. h_size t a = h_size s a) \<and> ubase t = ubase s"
    then obtain u zs where u: "morecore sbrk n s = Some (freep u, u)" "heap_ok u zs A" "\<exists>y\<in>set zs. n \<le> h_size u y"
      "\<forall>a\<in>A. h_size u a = h_size s a" "ubase u = ubase s" by blast
    obtain p t where p: "malloc_loop sbrk n (freep u) (h_ptr u (freep u)) u = Some (p + unit_bytes, t)" "gave u t A p n"
      using malloc_round(1) [OF u(2) n(1) u(3)] by blast
    have "freep u \<noteq> 0" using u(2) by (auto simp: heap_ok_def ring_def)
    then have "malloc_loop sbrk n (freep s) (h_ptr s (freep s)) s = Some (p + unit_bytes, t)" unfolding l using u(1) p(1) by simp
    moreover have "gave s t A p n" using p(2) u(4, 5) by (simp add: gave_def)
    ultimately show ?thesis by blast
  qed
qed

section \<open>Programs that use the allocator\<close>

text \<open>A state of a run is the heap with the pointers that are live and the number of bytes asked for.  A program calls
  \<^verbatim>\<open>malloc\<close>, passes a live pointer to \<^verbatim>\<open>free\<close>, writes to what it was given, and may call \<^verbatim>\<open>sbrk\<close> itself.  A write
  leaves every header it does not overlap; what it makes of the others is arbitrary.  Each call has an \<^verbatim>\<open>sbrk\<close> of its own,
  since the memory that is left changes between them.\<close>

type_synonym um_state = "uheap \<times> (nat \<rightharpoonup> nat)"

definition um_init :: "um_state \<Rightarrow> bool" where
  "um_init x \<longleftrightarrow> freep (fst x) = 0 \<and> 0 < ubase (fst x) \<and> ubase (fst x) + unit_bytes \<le> ubrk (fst x) \<and> ubrk (fst x) \<le> 2 ^ 36 \<and>
     snd x = Map.empty"

inductive um_step :: "um_state \<Rightarrow> um_state \<Rightarrow> bool" where
  um_malloc: "sbrk_grows sbrk \<Longrightarrow> malloc sbrk nb s = Some (p, t) \<Longrightarrow> p \<noteq> 0 \<Longrightarrow> unat nb < 2 ^ 30 \<Longrightarrow> um_step (s, L) (t, L(p \<mapsto> unat nb))"
| um_null: "sbrk_grows sbrk \<Longrightarrow> malloc sbrk nb s = Some (0, t) \<Longrightarrow> unat nb < 2 ^ 30 \<Longrightarrow> um_step (s, L) (t, L)"
| um_free: "p \<in> dom L \<Longrightarrow> free p s = Some t \<Longrightarrow> um_step (s, L) (t, L(p := None))"
| um_write: "L p = Some n \<Longrightarrow>
    (\<And>x. {x..<x + unit_bytes} \<inter> {p..<p + n} = {} \<Longrightarrow> f x = h_ptr s x \<and> g x = h_size s x) \<Longrightarrow>
    um_step (s, L) (s\<lparr>h_ptr := f, h_size := g\<rparr>, L)"
| um_sbrk: "sbrk_grows sbrk \<Longrightarrow> 0 \<le> n \<Longrightarrow> n < 2 ^ 31 \<Longrightarrow> sbrk (ubrk s) n = Some (a, b) \<Longrightarrow> um_step (s, L) (s\<lparr>ubrk := b\<rparr>, L)"

definition live :: "(nat \<rightharpoonup> nat) \<Rightarrow> nat set" where
  "live L = (\<lambda>r. r - unit_bytes) ` dom L"

definition um_ok :: "um_state \<Rightarrow> bool" where
  "um_ok x \<longleftrightarrow> um_init x \<or>
     (\<exists>ys. heap_ok (fst x) ys (live (snd x))) \<and>
     (\<forall>r n. snd x r = Some n \<longrightarrow> unit_bytes \<le> r \<and> n + unit_bytes \<le> unit_bytes * h_size (fst x) (r - unit_bytes))"

lemma live_upd: "live (L(p + unit_bytes \<mapsto> n)) = insert p (live L)"
  unfolding live_def by auto

lemma live_del:
  assumes "\<forall>q\<in>dom L. unit_bytes \<le> q" "p \<in> dom L"
  shows "live (L(p := None)) = live L - {p - unit_bytes}"
proof -
  have "inj_on (\<lambda>r. r - unit_bytes) (dom L)" using assms(1) by (auto intro: inj_on_diff_nat)
  then have "(\<lambda>r. r - unit_bytes) ` (dom L - {p}) = live L - {p - unit_bytes}"
    unfolding live_def using inj_on_image_set_diff [of _ "dom L" "dom L" "{p}"] assms(2) by simp
  then show ?thesis by (simp add: live_def)
qed

text \<open>\<^verbatim>\<open>malloc\<close> returns, with a null pointer or with a new block.\<close>

lemma malloc_spec:
  assumes ok: "um_ok (s, L)" and g: "sbrk_grows sbrk" and n: "unat nb < 2 ^ 30"
  shows "(\<exists>t. malloc sbrk nb s = Some (0, t) \<and> um_ok (t, L)) \<or>
    (\<exists>p t. malloc sbrk nb s = Some (p, t) \<and> p \<noteq> 0 \<and> p \<notin> dom L \<and> um_ok (t, L(p \<mapsto> unat nb)))"
proof -
  define k where "k = (unat nb + unit_bytes - 1) div unit_bytes + 1"
  have k: "0 < k" "unit_bytes * k < 2 ^ 31" "unat nb + unit_bytes \<le> unit_bytes * k" using n by (auto simp: k_def)
  define u where "u = (if freep s = 0 then
      s\<lparr>h_ptr := (h_ptr s)(ubase s := ubase s), freep := ubase s, h_size := (h_size s)(ubase s := 0)\<rparr> else s)"
  have m: "malloc sbrk nb s = malloc_loop sbrk k (freep u) (h_ptr u (freep u)) u" unfolding malloc_def Let_def k_def u_def by (rule refl)
  have "(\<exists>ys. heap_ok u ys (live L)) \<and> (\<forall>r n. L r = Some n \<longrightarrow> unit_bytes \<le> r \<and> n + unit_bytes \<le> unit_bytes * h_size u (r - unit_bytes))"
  proof (cases "um_init (s, L)")
    case True
    then have "heap_ok u [] {}" "L = Map.empty" by (auto simp: um_init_def u_def heap_ok_def ring_def)
    then show ?thesis by (auto simp: live_def)
  next
    case False
    then have "freep s \<noteq> 0" using ok by (auto simp: um_ok_def heap_ok_def ring_def)
    then show ?thesis using False ok by (simp add: um_ok_def u_def)
  qed
  then obtain ys where h: "heap_ok u ys (live L)"
    and L: "\<forall>r n. L r = Some n \<longrightarrow> unit_bytes \<le> r \<and> n + unit_bytes \<le> unit_bytes * h_size u (r - unit_bytes)" by blast
  from malloc_loop_spec [OF h g k(1, 2)] show ?thesis
  proof
    assume "malloc_loop sbrk k (freep u) (h_ptr u (freep u)) u = Some (0, u)"
    moreover have "um_ok (u, L)" using h L by (auto simp: um_ok_def)
    ultimately show ?thesis using m by auto
  next
    assume "\<exists>p t. malloc_loop sbrk k (freep u) (h_ptr u (freep u)) u = Some (p + unit_bytes, t) \<and> gave u t (live L) p k"
    then obtain p t where p: "malloc sbrk nb s = Some (p + unit_bytes, t)" "gave u t (live L) p k" using m by auto
    have "p + unit_bytes \<notin> dom L" using p(2) by (force simp: gave_def live_def)
    moreover have "um_ok (t, L(p + unit_bytes \<mapsto> unat nb))"
    proof -
      have "n + unit_bytes \<le> unit_bytes * h_size t (r - unit_bytes)" if "L r = Some n" for r n
      proof -
        have "r - unit_bytes \<in> live L" using that by (auto simp: live_def)
        then show ?thesis using p(2) L that by (simp add: gave_def)
      qed
      then show ?thesis using p(2) L k(3) unfolding um_ok_def gave_def by (auto simp: live_upd)
    qed
    ultimately show ?thesis using p(1) by auto
  qed
qed

text \<open>\<^verbatim>\<open>free\<close> of a live pointer returns.\<close>

lemma um_free_spec:
  assumes ok: "um_ok (s, L)" and p: "p \<in> dom L"
  shows "\<exists>t. free p s = Some t \<and> um_ok (t, L(p := None))"
proof -
  have "\<not> um_init (s, L)" using p by (auto simp: um_init_def)
  then obtain ys where h: "heap_ok s ys (live L)"
    and L: "\<forall>r n. L r = Some n \<longrightarrow> unit_bytes \<le> r \<and> n + unit_bytes \<le> unit_bytes * h_size s (r - unit_bytes)"
    using ok by (auto simp: um_ok_def)
  have 16: "\<forall>q\<in>dom L. unit_bytes \<le> q" using L by blast
  have b: "p - unit_bytes \<in> live L" "p - unit_bytes + unit_bytes = p" using p 16 by (auto simp: live_def)
  obtain t ys' where t: "free p s = Some t" "freed s t ys (p - unit_bytes) ys'" using free_spec [OF h b(1)] b(2) by auto
  have h': "heap_ok t ys' (live (L(p := None)))" using freed_heap [OF h b(1) t(2)] live_del [OF 16 p] by simp
  have "unit_bytes \<le> r \<and> n + unit_bytes \<le> unit_bytes * h_size t (r - unit_bytes)" if "(L(p := None)) r = Some n" for r n
  proof -
    have r: "L r = Some n" "r \<noteq> p" "unit_bytes \<le> r" using that L by (auto split: if_splits)
    have "r - unit_bytes \<in> live L" using r by (auto simp: live_def)
    moreover have "r - unit_bytes \<noteq> p - unit_bytes" using r(2, 3) bspec [OF 16 p] by auto
    ultimately have "r - unit_bytes \<notin> insert (p - unit_bytes) (set ys)" using h by (auto simp: heap_ok_def)
    then have "h_size t (r - unit_bytes) = h_size s (r - unit_bytes)" using t(2) by (auto simp: freed_def)
    then show ?thesis using L r by simp
  qed
  then show ?thesis using t(1) h' unfolding um_ok_def by auto
qed

lemma blk_header: "0 < h_size s a \<Longrightarrow> {a..<a + unit_bytes} \<subseteq> blk s a"
  unfolding blk_def by auto

text \<open>What a program writes to its own bytes leaves the headers of all blocks.\<close>

lemma um_write_ok:
  assumes h: "heap_ok s ys A" and b: "bp \<in> A" "n + unit_bytes \<le> unit_bytes * h_size s bp"
    and w: "\<And>x. {x..<x + unit_bytes} \<inter> {bp + unit_bytes..<bp + unit_bytes + n} = {} \<Longrightarrow> f x = h_ptr s x \<and> g x = h_size s x"
    and t: "t = s\<lparr>h_ptr := f, h_size := g\<rparr>"
  shows "heap_ok t ys A" "\<forall>a\<in>A. h_size t a = h_size s a"
proof -
  have pay: "{bp + unit_bytes..<bp + unit_bytes + n} \<subseteq> blk s bp" using b(2) by (auto simp: blk_def)
  have base: "ubase s + unit_bytes \<le> bp" using heap_blk [OF h, of bp] b(1) by simp
  have same: "h_ptr t x = h_ptr s x \<and> h_size t x = h_size s x" if x: "x \<in> insert (ubase s) (set ys \<union> A)" for x
  proof -
    have "{x..<x + unit_bytes} \<inter> {bp + unit_bytes..<bp + unit_bytes + n} = {}"
    proof (cases "x = ubase s \<or> x = bp")
      case True
      then show ?thesis using base by auto
    next
      case False
      then have "x \<in> set ys \<union> A" "bp \<noteq> x" using x by auto
      then have "blk s bp \<inter> blk s x = {}" "{x..<x + unit_bytes} \<subseteq> blk s x"
        using heap_dis [OF h b(1)] heap_blk [OF h] blk_header by auto
      then show ?thesis using pay by blast
    qed
    then show ?thesis using w [of x] t by simp
  qed
  then show "\<forall>a\<in>A. h_size t a = h_size s a" by simp
  have r: "ring s ys" using h by (simp add: heap_ok_def)
  have e: "ubase t = ubase s" "freep t = freep s" "ubrk t = ubrk s" using t by simp_all
  have "links (h_ptr t) (ubase s # ys @ [ubase s])"
    using r same links_cong [of "ubase s # ys @ [ubase s]" "h_ptr t" "h_ptr s"] by (simp add: ring_def butlast_append)
  moreover have "sorted_wrt (\<lambda>a b. a + unit_bytes * h_size t a < b) (ubase s # ys)"
    by (rule gaps_cong [where s = s]) (use r same in \<open>auto simp: ring_def\<close>)
  ultimately have "ring t ys" using r same by (simp add: ring_def e)
  moreover have "blk t a = blk s a" if "a \<in> set ys \<union> A" for a using same that by (simp add: blk_def)
  ultimately show "heap_ok t ys A" using h same by (simp add: heap_ok_def e)
qed

lemma um_sbrk_ok: "heap_ok s ys A \<Longrightarrow> ubrk s \<le> b \<Longrightarrow> b \<le> 2 ^ 36 \<Longrightarrow> heap_ok (s\<lparr>ubrk := b\<rparr>) ys A"
proof -
  assume h: "heap_ok s ys A" and b: "ubrk s \<le> b" "b \<le> 2 ^ 36"
  let ?t = "s\<lparr>ubrk := b\<rparr>"
  have "ring ?t ys = ring s ys" "blk ?t = blk s" by (simp_all add: ring_def blk_def fun_eq_iff)
  moreover have "a + unit_bytes * h_size s a \<le> b" if "a \<in> set ys \<union> A" for a using heap_blk [OF h that] b(1) by simp
  ultimately show ?thesis using h b by (simp add: heap_ok_def)
qed

lemma um_step_ok:
  assumes st: "um_step x y" and ok: "um_ok x"
  shows "um_ok y"
  using st ok
proof cases
  case (um_malloc sbrk nb s p t L)
  then show ?thesis using malloc_spec [OF _ um_malloc(3, 6), of s L] ok by auto
next
  case (um_null sbrk nb s t L)
  then show ?thesis using malloc_spec [OF _ um_null(3, 5), of s L] ok by auto
next
  case (um_free p L s t)
  then show ?thesis using um_free_spec [of s L p] ok by auto
next
  case (um_write L p n f s g)
  have "\<not> um_init (s, L)" using um_write(3) by (auto simp: um_init_def)
  then obtain ys where h: "heap_ok s ys (live L)"
    and L: "\<forall>r n. L r = Some n \<longrightarrow> unit_bytes \<le> r \<and> n + unit_bytes \<le> unit_bytes * h_size s (r - unit_bytes)"
    using ok um_write(1) by (auto simp: um_ok_def)
  have b: "p - unit_bytes \<in> live L" "p - unit_bytes + unit_bytes = p" using um_write(3) L by (auto simp: live_def)
  have w: "\<And>x. {x..<x + unit_bytes} \<inter> {p - unit_bytes + unit_bytes..<p - unit_bytes + unit_bytes + n} = {} \<Longrightarrow> f x = h_ptr s x \<and> g x = h_size s x"
    using um_write(4) unfolding b(2) by blast
  have n: "n + unit_bytes \<le> unit_bytes * h_size s (p - unit_bytes)" using L um_write(3) by blast
  note k = um_write_ok [OF h b(1) n w refl]
  have "r - unit_bytes \<in> live L" if "L r = Some m" for r m using that by (auto simp: live_def)
  then show ?thesis using k L um_write(2) unfolding um_ok_def by fastforce
next
  case (um_sbrk sbrk n s a b L)
  then have b: "ubrk s \<le> b" "b \<le> 2 ^ 36" unfolding sbrk_grows_def by (metis le_add1)+
  show ?thesis
  proof (cases "um_init (s, L)")
    case True
    then show ?thesis using b um_sbrk(2) by (auto simp: um_ok_def um_init_def)
  next
    case False
    then obtain ys where "heap_ok s ys (live L)" using ok um_sbrk(1) by (auto simp: um_ok_def)
    then have "heap_ok (s\<lparr>ubrk := b\<rparr>) ys (live L)" using um_sbrk_ok b by blast
    then show ?thesis using False ok um_sbrk(1, 2) unfolding um_ok_def by auto
  qed
qed

interpretation um: inv_system um_init um_step um_ok
  by unfold_locales (simp add: um_ok_def, rule um_step_ok)

text \<open>Live blocks do not overlap.\<close>

lemma um_live_apart:
  assumes ok: "um_ok (s, L)" and p: "L p = Some n"
  shows "ubase s + 2 * unit_bytes \<le> p" "p + n \<le> ubrk s"
    "L q = Some m \<Longrightarrow> p \<noteq> q \<Longrightarrow> {p..<p + n} \<inter> {q..<q + m} = {}"
proof -
  have "\<not> um_init (s, L)" using p by (auto simp: um_init_def)
  then obtain ys where h: "heap_ok s ys (live L)"
    and L: "\<forall>r n. L r = Some n \<longrightarrow> unit_bytes \<le> r \<and> n + unit_bytes \<le> unit_bytes * h_size s (r - unit_bytes)"
    using ok by (auto simp: um_ok_def)
  have lv: "r - unit_bytes \<in> live L" "{r..<r + k} \<subseteq> blk s (r - unit_bytes)" if "L r = Some k" for r k
  proof -
    show "r - unit_bytes \<in> live L" using that by (auto simp: live_def)
    have "unit_bytes \<le> r" "k + unit_bytes \<le> unit_bytes * h_size s (r - unit_bytes)" using L that by blast+
    then show "{r..<r + k} \<subseteq> blk s (r - unit_bytes)" by (auto simp: blk_def)
  qed
  have Lp: "unit_bytes \<le> p" "n + unit_bytes \<le> unit_bytes * h_size s (p - unit_bytes)" using L p by blast+
  have "ubase s + unit_bytes \<le> p - unit_bytes" "p - unit_bytes + unit_bytes * h_size s (p - unit_bytes) \<le> ubrk s"
    using heap_blk [OF h, of "p - 16"] lv(1) [OF p] by auto
  then show "ubase s + 2 * unit_bytes \<le> p" "p + n \<le> ubrk s" using Lp by auto
  assume q: "L q = Some m" "p \<noteq> q"
  then have "p - unit_bytes \<noteq> q - unit_bytes" using L Lp(1) by (metis eq_diff_iff)
  then have "blk s (p - unit_bytes) \<inter> blk s (q - unit_bytes) = {}" using heap_dis [OF h] lv(1) p q(1) by blast
  then show "{p..<p + n} \<inter> {q..<q + m} = {}" using lv(2) p q(1) by blast
qed

text \<open>C4: a program that only frees what it was given, once, and writes only inside it, never breaks the allocator.  After
  any sequence of calls of \<^verbatim>\<open>malloc\<close> for less than \<open>2^30\<close> bytes, \<^verbatim>\<open>free\<close>, \<^verbatim>\<open>sbrk\<close> of a number that is not negative and writes, the blocks that are live lie
  in the heap above \<^verbatim>\<open>base\<close> and do not overlap, \<^verbatim>\<open>free\<close> of a live pointer returns, and \<^verbatim>\<open>malloc\<close> returns, with 0 or with a
  pointer that was not live.\<close>

theorem umalloc_safe:
  assumes r: "reach um_init um_step (s, L)"
  shows "(\<forall>p n. L p = Some n \<longrightarrow> ubase s + 2 * unit_bytes \<le> p \<and> p + n \<le> ubrk s \<and> (\<exists>t. free p s = Some t)) \<and>
    (\<forall>p n q m. L p = Some n \<longrightarrow> L q = Some m \<longrightarrow> p \<noteq> q \<longrightarrow> {p..<p + n} \<inter> {q..<q + m} = {}) \<and>
    (\<forall>sbrk nb. sbrk_grows sbrk \<longrightarrow> unat nb < 2 ^ 30 \<longrightarrow> (\<exists>p t. malloc sbrk nb s = Some (p, t) \<and> p \<notin> dom L))"
proof -
  have ok: "um_ok (s, L)" using um.reach_inv [OF r] .
  have z: "0 \<notin> dom L" using um_live_apart(1) [OF ok] by fastforce
  have "\<exists>t. free p s = Some t" if "L p = Some n" for p n using um_free_spec [OF ok, of p] that by blast
  moreover have "\<exists>p t. malloc sbrk nb s = Some (p, t) \<and> p \<notin> dom L" if "sbrk_grows sbrk" "unat nb < 2 ^ 30" for sbrk nb
    using malloc_spec [OF ok that] z by blast
  ultimately show ?thesis using um_live_apart [OF ok] by blast
qed

definition sample_sbrk :: sbrk_fun where
  "sample_sbrk b n = (if 0 \<le> n \<and> b + nat n \<le> 2 ^ 27 then Some (b, b + nat n) else None)"

definition sample_heap :: uheap where
  "sample_heap = \<lparr>h_ptr = \<lambda>_. 0, h_size = \<lambda>_. 0, freep = 0, ubase = 4096, ubrk = 8192\<rparr>"

lemmas sample_run = malloc_def malloc_loop.simps malloc_take_def morecore_def free_def free_find.simps join_next_def join_prev_def
  sample_sbrk_def sample_heap_def Let_def

lemma sample_malloc: "map_option fst (malloc sample_sbrk 100 sample_heap) = Some 73616"
  by (simp add: sample_run)

lemma sample_malloc_again:
  "map_option fst (Option.bind (malloc sample_sbrk 100 sample_heap) (\<lambda>(p, s). malloc sample_sbrk 40 s)) = Some 73552"
  by (simp add: sample_run)

lemma sample_grows: "sbrk_grows sample_sbrk"
  by (simp add: sbrk_grows_def sample_sbrk_def)

lemma sample_reach:
  "\<exists>s. reach um_init um_step (s, [73616 \<mapsto> 100, 73552 \<mapsto> 40])"
proof -
  obtain s where s: "malloc sample_sbrk 100 sample_heap = Some (73616, s)" using sample_malloc by auto
  then obtain t where t: "malloc sample_sbrk 40 s = Some (73552, t)" using sample_malloc_again by auto
  have "reach um_init um_step (sample_heap, Map.empty)"
    by (rule reach_init) (simp add: um_init_def sample_heap_def)
  then have "reach um_init um_step (s, [73616 \<mapsto> 100])"
    using um_malloc [OF sample_grows s, of Map.empty] by (auto intro: reach_step)
  then show ?thesis using um_malloc [OF sample_grows t, of "[73616 \<mapsto> 100]"] by (auto intro: reach_step)
qed

theorem umalloc_safe_witness:
  "\<exists>s. (\<exists>t. free 73616 s = Some t) \<and> {73616..<73616 + 100} \<inter> {73552..<73552 + 40} = ({} :: nat set) \<and>
     (\<exists>p t. malloc sample_sbrk 8 s = Some (p, t) \<and> p \<notin> {73616, 73552})"
proof -
  define L :: "nat \<rightharpoonup> nat" where "L = [73616 \<mapsto> 100, 73552 \<mapsto> 40]"
  obtain s where r: "reach um_init um_step (s, L)" using sample_reach unfolding L_def by blast
  note c = umalloc_safe [OF r]
  have L: "L 73616 = Some 100" "L 73552 = Some 40" "dom L = {73616, 73552}" by (auto simp: L_def)
  have "\<exists>t. free 73616 s = Some t" using c L(1) by blast
  moreover have "{73616..<73616 + 100} \<inter> {73552..<73552 + 40} = ({} :: nat set)" by simp
  moreover have "\<exists>p t. malloc sample_sbrk 8 s = Some (p, t) \<and> p \<notin> dom L"
    using c [THEN conjunct2, THEN conjunct2, rule_format, OF sample_grows, of 8] by simp
  ultimately show ?thesis unfolding L(3) by blast
qed

text \<open>The argument of \<^verbatim>\<open>sbrk\<close> is an \<^verbatim>\<open>int\<close>: for a request of \<open>2^32 - 48\<close> bytes \<^verbatim>\<open>morecore\<close> asks for a negative number of
  bytes.  \<^verbatim>\<open>sbrk\<close> shrinks the heap and returns its old end, where a block of that size is then freed.\<close>

lemma morecore_negative:
  assumes "sbrk (ubrk s) (- 32) = Some (ubrk s, ubrk s - 32)"
  shows "morecore sbrk (2 ^ 28 - 2) s =
    map_option (\<lambda>t. (freep t, t)) (free (ubrk s + unit_bytes) (s\<lparr>ubrk := ubrk s - 32, h_size := (h_size s)(ubrk s := 2 ^ 28 - 2)\<rparr>))"
  using assms by (simp add: morecore_def split: option.split)

end
