(* ===== verification/Heap_Growth.thy ===== *)
theory Heap_Growth
  imports Process Sysproc Umalloc
begin

unbundle bit_operations_syntax

text \<open>
  How the heap of a program grows: \<^verbatim>\<open>sys_sbrk\<close> (\<^verbatim>\<open>src/kernel/sysproc.c\<close>), \<^verbatim>\<open>growproc\<close> (\<^verbatim>\<open>src/kernel/proc.c\<close>)
  and \<^verbatim>\<open>uvmalloc\<close> (\<^verbatim>\<open>src/kernel/vm.c\<close>).  With enough free pages the call succeeds, and the pages it adds are
  fresh, cleared and mapped.
\<close>

section \<open>Adding pages\<close>

text \<open>The user pages \<open>as\<close> have been added to the page table \<open>pt\<close>: the page at \<open>a\<close> is \<open>f a\<close>, taken from the free
  pages, filled with zeros and mapped with \<open>perm\<close>.  The free pages went from \<open>F\<close> to \<open>G\<close>, at most three for
  each page added; the other translations and the memory outside the free pages and the page tables
  are as before.\<close>

definition heap_step :: "u64 \<Rightarrow> u64 list \<Rightarrow> u64 \<Rightarrow> (u64 \<Rightarrow> u64) \<Rightarrow> 'a proc_st_scheme \<Rightarrow> u64 set \<Rightarrow> 'a proc_st_scheme \<Rightarrow> u64 set \<Rightarrow> bool" where
  "heap_step pt as perm f s F t G \<longleftrightarrow> vm_ok t pt G \<and> G \<subseteq> F \<and> vm_eq s t \<and> card F \<le> card G + 3 * length as \<and>
     pt_pages (phys t) pt \<subseteq> pt_pages (phys s) pt \<union> (F - G) \<and>
     inj_on f (set as) \<and> f ` set as \<subseteq> F - G - pt_pages (phys t) pt \<and>
     (\<forall>a\<in>set as. \<forall>x. PGROUNDDOWN x = f a \<longrightarrow> phys t x = 0) \<and>
     (\<forall>a\<in>set as. \<forall>vb. vpn vb = vpn a \<longrightarrow> pte_of (phys t) pt vb = PA2PTE (f a) OR perm OR PTE_V) \<and>
     (\<forall>vb. vpn vb \<notin> vpn ` set as \<longrightarrow> pte_of (phys t) pt vb = pte_of (phys s) pt vb) \<and>
     (\<forall>x. PGROUNDDOWN x \<notin> F \<union> pt_pages (phys s) pt \<longrightarrow> phys t x = phys s x)"

lemma uvmalloc_page_ok:
  assumes ok: "vm_ok s pt F" and c: "3 < card F" and a: "aligned 12 a" "a < MAXVA" "\<not> bit (pte_of (phys s) pt a) 0"
  shows "\<exists>q t G. uvmalloc_page pt old perm a s = Ret None t \<and> heap_step pt [a] perm (\<lambda>_. q) s F t G"
proof -
  have fr: "kmem_free s F" and tree: "pt_tree (phys s) pt" and pool: "pt_pages (phys s) pt \<subseteq> kmem_pool s - F"
    using ok by (auto simp: vm_ok_def)
  have fin: "finite F" by (rule kmem_free_finite [OF fr])
  have "F \<noteq> {}" using c by auto
  with kalloc_zero [OF fr] obtain q u where q: "q \<in> F" "kalloc s = Ret q u" "q \<noteq> 0" "vm_eq s u"
    "phys u = memset (phys s) q 5 4096" "kmem_free u (F - {q})" by blast
  have qal: "aligned 12 q" using kmem_pool_page free_in_pool [OF fr] q(1) by blast
  define v where "v = u\<lparr>phys := memset (phys s) q 0 4096\<rparr>"
  have v: "kzero q u = Ret () v" by (simp add: kzero_def kmonad v_def q(5) memset_twice)
  have mem: "phys v x = (if PGROUNDDOWN x = q then 0 else phys s x)" for x
    using page_of_offset [OF qal, of x] by (auto simp: v_def memset_apply)
  have sv: "vm_eq s v" unfolding v_def by (rule vm_eq_phys [OF q(4)])
  have fv: "kmem_free v (F - {q})"
  proof (rule kmem_free_frame [OF q(6)])
    show "held v = held u" "kend v = kend u" "freelist v = freelist u" by (simp_all add: v_def)
    show "phys v x = phys u x" if "PGROUNDDOWN x \<in> F - {q}" for x
      using that page_of_offset [OF qal, of x] by (auto simp: mem q(5) memset_apply)
  qed
  have "phys v x = phys s x" if "PGROUNDDOWN x \<in> pt_pages (phys s) pt" for x using that pool q(1) by (auto simp: mem)
  note tv = tree_frame [OF tree this]
  have okv: "vm_ok v pt (F - {q})"
    unfolding vm_ok_def using fv tv(1, 2) pool vm_eq_pool [OF sv] by auto
  have "\<not> bit (pte_of (phys v) pt a) 0" using a(3) tv(3) by simp
  from mappages_one [OF okv a(1, 2) this, of q perm] obtain r t G where t:
    "mappages pt a PGSIZE q perm v = Ret r t" "vm_step pt v (F - {q}) t G" "card (F - {q} - G) \<le> 2"
    "r = -1 \<and> G = {} \<and> same_ptes pt v t \<or> r = 0 \<and> (\<forall>vb. pte_of (phys t) pt vb =
        (if vpn vb = vpn a then PA2PTE q OR perm OR PTE_V else pte_of (phys v) pt vb))" by blast
  have G: "G \<subseteq> F - {q}" "vm_eq v t" "vm_ok t pt G" "pt_pages (phys t) pt = pt_pages (phys v) pt \<union> (F - {q} - G)"
    "\<And>x. PGROUNDDOWN x \<notin> F - {q} \<union> pt_pages (phys v) pt \<Longrightarrow> phys t x = phys v x"
    using t(2) by (auto simp: vm_step_def)
  have card: "card F \<le> card G + 3"
  proof -
    have "F = insert q (G \<union> (F - {q} - G))" using G(1) q(1) by blast
    then have "card F = card (insert q (G \<union> (F - {q} - G)))" by (rule arg_cong)
    moreover have "card (insert q (G \<union> (F - {q} - G))) \<le> Suc (card (G \<union> (F - {q} - G)))" by (rule card_insert_le_m1) simp_all
    moreover have "card (G \<union> (F - {q} - G)) \<le> card G + card (F - {q} - G)" by (rule card_Un_le)
    ultimately show ?thesis using t(3) by linarith
  qed
  then have "G \<noteq> {}" using c by auto
  then have r: "r = 0" and p: "\<forall>vb. pte_of (phys t) pt vb =
        (if vpn vb = vpn a then PA2PTE q OR perm OR PTE_V else pte_of (phys s) pt vb)" using t(4) tv(3) by auto
  have "uvmalloc_page pt old perm a s = Ret None t"
    using q(2, 3) v t(1) r by (simp add: uvmalloc_page_def kmonad)
  moreover have "q \<notin> pt_pages (phys s) pt" using pool q(1) by auto
  moreover from this have "phys t x = 0" if "PGROUNDDOWN x = q" for x
    using that G(5) [of x] tv(2) by (simp add: mem)
  moreover have "phys t x = phys s x" if "PGROUNDDOWN x \<notin> F \<union> pt_pages (phys s) pt" for x
    using that G(5) [of x] tv(2) q(1) by (auto simp: mem)
  ultimately have "heap_step pt [a] perm (\<lambda>_. q) s F t G"
    unfolding heap_step_def using card p G(1, 3, 4) tv(2) q(1) vmf.trans [OF sv G(2)] by auto
  then show ?thesis using \<open>uvmalloc_page pt old perm a s = Ret None t\<close> by blast
qed

lemma heap_step_trans:
  assumes ok: "vm_ok s pt F" and 1: "heap_step pt [a] perm f s F t G" and 2: "heap_step pt as perm g t G u H" and d: "vpn a \<notin> vpn ` set as"
  shows "heap_step pt (a # as) perm (g(a := f a)) s F u H"
proof -
  let ?h = "g(a := f a)"
  have a: "a \<notin> set as" using d by blast
  have f: "f a \<in> F" "f a \<notin> G" "f a \<notin> pt_pages (phys t) pt" using 1 by (auto simp: heap_step_def)
  have g: "g ` set as \<subseteq> G - H - pt_pages (phys u) pt" using 2 by (simp add: heap_step_def)
  have sub: "H \<subseteq> G" "G \<subseteq> F" "pt_pages (phys u) pt \<subseteq> pt_pages (phys t) pt \<union> (G - H)" "pt_pages (phys t) pt \<subseteq> pt_pages (phys s) pt \<union> (F - G)"
    using 1 2 by (auto simp: heap_step_def)
  have keep: "phys u x = phys t x" if "PGROUNDDOWN x \<notin> G \<union> pt_pages (phys t) pt" for x using 2 that by (simp add: heap_step_def)
  have img_as: "?h ` set as = g ` set as" using a by (intro image_cong) auto
  have "inj_on g (set as)" using 2 by (simp add: heap_step_def)
  then have "inj_on ?h (set as)" using a by (simp add: inj_on_def)
  then have inj: "inj_on ?h (set (a # as))"
    using a f(2) g img_as by (simp add: inj_on_insert) blast
  have img: "?h ` set (a # as) \<subseteq> F - H - pt_pages (phys u) pt"
    using f g sub unfolding list.set image_insert img_as by auto
  have zero: "\<forall>b\<in>set (a # as). \<forall>x. PGROUNDDOWN x = ?h b \<longrightarrow> phys u x = 0"
  proof (intro ballI allI impI)
    fix b x assume b: "b \<in> set (a # as)" and x: "PGROUNDDOWN x = ?h b"
    show "phys u x = 0"
    proof (cases "b = a")
      case True
      then show ?thesis using x keep [of x] f 1 by (simp add: heap_step_def)
    next
      case False
      then show ?thesis using b x 2 by (simp add: heap_step_def)
    qed
  qed
  have pte: "\<forall>b\<in>set (a # as). \<forall>vb. vpn vb = vpn b \<longrightarrow> pte_of (phys u) pt vb = PA2PTE (?h b) OR perm OR PTE_V"
  proof (intro ballI allI impI)
    fix b vb assume b: "b \<in> set (a # as)" and vb: "vpn vb = vpn b"
    show "pte_of (phys u) pt vb = PA2PTE (?h b) OR perm OR PTE_V"
    proof (cases "b = a")
      case True
      then have "pte_of (phys u) pt vb = pte_of (phys t) pt vb" using vb d 2 by (simp add: heap_step_def)
      then show ?thesis using True vb 1 by (simp add: heap_step_def)
    next
      case False
      then show ?thesis using b vb 2 by (simp add: heap_step_def)
    qed
  qed
  have rest: "\<forall>vb. vpn vb \<notin> vpn ` set (a # as) \<longrightarrow> pte_of (phys u) pt vb = pte_of (phys s) pt vb"
    using 1 2 by (simp add: heap_step_def)
  have out: "\<forall>x. PGROUNDDOWN x \<notin> F \<union> pt_pages (phys s) pt \<longrightarrow> phys u x = phys s x"
  proof (intro allI impI)
    fix x assume x: "PGROUNDDOWN x \<notin> F \<union> pt_pages (phys s) pt"
    then have "PGROUNDDOWN x \<notin> G \<union> pt_pages (phys t) pt" using sub by blast
    then show "phys u x = phys s x" using keep [of x] x 1 by (simp add: heap_step_def)
  qed
  have "vm_ok u pt H" "vm_eq t u" "vm_eq s t" "card F \<le> card G + 3" "card G \<le> card H + 3 * length as"
    using 1 2 by (simp_all add: heap_step_def)
  then have "vm_ok u pt H" "vm_eq s u" "card F \<le> card H + 3 * length (a # as)" using vmf.trans [of s t u] by simp_all
  moreover have "H \<subseteq> F" "pt_pages (phys u) pt \<subseteq> pt_pages (phys s) pt \<union> (F - H)" using sub by blast+
  ultimately show ?thesis unfolding heap_step_def using inj img zero pte rest out by (intro conjI) assumption+
qed

lemma uvmalloc_loop:
  assumes "vm_ok s pt F" "3 * length as < card F" "distinct (map vpn as)"
    and "\<forall>a\<in>set as. aligned 12 a \<and> a < MAXVA \<and> \<not> bit (pte_of (phys s) pt a) 0"
  shows "\<exists>f t G. kfind as (uvmalloc_page pt old perm) s = Ret None t \<and> heap_step pt as perm f s F t G"
  using assms
proof (induction as arbitrary: s F)
  case Nil
  then show ?case by (intro exI [of _ id] exI [of _ s] exI [of _ F]) (simp add: heap_step_def kmonad vmf.refl)
next
  case (Cons a as)
  from uvmalloc_page_ok [OF Cons.prems(1), of a old perm] Cons.prems obtain q t G where
    1: "uvmalloc_page pt old perm a s = Ret None t" "heap_step pt [a] perm (\<lambda>_. q) s F t G" by auto
  have p: "pte_of (phys t) pt b = pte_of (phys s) pt b" if "b \<in> set as" for b
  proof -
    have "vpn a \<notin> vpn ` set as" "vpn b \<in> vpn ` set as" using that Cons.prems(3) by simp_all
    then have "vpn b \<noteq> vpn a" by metis
    then show ?thesis using 1(2) by (simp add: heap_step_def)
  qed
  have "vm_ok t pt G" "3 * length as < card G" using 1(2) Cons.prems(2) by (auto simp: heap_step_def)
  from Cons.IH [OF this] p Cons.prems(3, 4) obtain g u H where
    2: "kfind as (uvmalloc_page pt old perm) t = Ret None u" "heap_step pt as perm g t G u H" by auto
  have "heap_step pt (a # as) perm (g(a := q)) s F u H"
    by (rule heap_step_trans [OF Cons.prems(1) 1(2) 2(2)]) (use Cons.prems(3) in auto)
  then show ?case using 1(1) 2(1) by (intro exI) (auto simp: kmonad)
qed

lemma uvmalloc_pages:
  assumes "a \<le> b"
  shows "uvmalloc pt a b x = kbind (kfind (pages_upto (PGROUNDUP a) b) (uvmalloc_page pt (PGROUNDUP a) (PTE_R OR PTE_U OR x)))
    (\<lambda>r. kret (case r of Some e \<Rightarrow> e | None \<Rightarrow> b))"
  using assms by (simp add: uvmalloc_def Let_def not_less [symmetric])

lemma pages_upto_ok:
  assumes "unat sz \<le> unat b" "unat b \<le> unat TRAPFRAME"
  defines "as \<equiv> pages_upto (PGROUNDUP sz) b"
  shows "distinct (map vpn as)" "\<forall>a\<in>set as. aligned 12 a \<and> a < MAXVA"
proof -
  let ?o = "PGROUNDUP sz"
  define n where "n = (unat b - unat ?o + 4095) div 4096"
  have as: "as = map (nth_page ?o) [0..<n]" by (simp add: as_def pages_upto_def n_def)
  have sz: "unat sz \<le> 0x3FFFFFE000" using assms(1, 2) by simp
  then have "unat ?o = (unat sz + 4095) div 4096 * 4096" by (intro unat_PGROUNDUP) simp
  moreover have "(unat sz + 4095) div 4096 \<le> (0x3FFFFFE000 + 4095) div 4096" using sz by (intro div_le_mono) simp
  ultimately have o: "unat ?o \<le> 0x3FFFFFE000" by simp
  have "n * 4096 \<le> unat b - unat ?o + 4095" unfolding n_def by simp
  then have "unat ?o + n * 4096 \<le> 0x4000000000" using o assms(2) by simp
  then have r: "user_range ?o n" by (simp add: user_range_def)
  show "\<forall>a\<in>set as. aligned 12 a \<and> a < MAXVA" using unat_nth_page(2, 3) [OF r] by (auto simp: as)
  show "distinct (map vpn as)" using nth_page_inj [OF r] by (auto simp: as distinct_map inj_on_def)
qed

lemma uvmalloc_total:
  assumes "vm_ok s pt F" "a \<le> b" "b \<le> TRAPFRAME" "3 * length (pages_upto (PGROUNDUP a) b) < card F"
    and "\<forall>va\<in>set (pages_upto (PGROUNDUP a) b). \<not> mapped s pt va"
  shows "\<exists>f t G. uvmalloc pt a b x s = Ret b t \<and> heap_step pt (pages_upto (PGROUNDUP a) b) (PTE_R OR PTE_U OR x) f s F t G"
proof -
  note as = pages_upto_ok [OF assms(2, 3) [unfolded word_le_nat_alt]]
  have "\<forall>va\<in>set (pages_upto (PGROUNDUP a) b). aligned 12 va \<and> va < MAXVA \<and> \<not> bit (pte_of (phys s) pt va) 0"
    using as(2) assms(5) by (simp add: mapped_def)
  from uvmalloc_loop [OF assms(1, 4) as(1) this, of "PGROUNDUP a" "PTE_R OR PTE_U OR x"] obtain f t G where
    l: "kfind (pages_upto (PGROUNDUP a) b) (uvmalloc_page pt (PGROUNDUP a) (PTE_R OR PTE_U OR x)) s = Ret None t"
      "heap_step pt (pages_upto (PGROUNDUP a) b) (PTE_R OR PTE_U OR x) f s F t G" by blast
  have "uvmalloc pt a b x s = Ret b t"
    using l(1) by (simp add: uvmalloc_pages [OF assms(2)] kmonad)
  then show ?thesis using l(2) by blast
qed

section \<open>What a call returns\<close>

text \<open>Whatever memory is left, a \<^verbatim>\<open>sbrk\<close> of a number that is not negative and that returns to the program
  either returns -1 or returns the old size of the process, which has grown by that number: what the
  allocator of the theory \<open>Umalloc\<close> assumes of it.\<close>

lemma kfind_Some:
  assumes "\<And>a s x t. f a s = Ret (Some x) t \<Longrightarrow> P x"
  shows "kfind xs f s = Ret (Some x) t \<Longrightarrow> P x"
  by (induction xs arbitrary: s) (auto simp: kbind_def kret_def assms split: out.splits option.splits)

lemma uvmalloc_ret:
  assumes u: "uvmalloc pt a b x s = Ret r t" "a \<le> b"
  shows "r = b \<or> r = 0"
proof -
  let ?body = "uvmalloc_page pt (PGROUNDUP a) (PTE_R OR PTE_U OR x)"
  have z: "e = 0" if "?body a' s' = Ret (Some e) t'" for a' s' e t'
    using that unfolding uvmalloc_page_def by (auto simp: kbind_def kthen_def kret_def split: out.splits if_splits)
  have "e = 0" if "kfind xs ?body s' = Ret (Some e) t'" for xs s' e t'
    using kfind_Some [where P = "\<lambda>e. e = 0", OF z that] .
  then show ?thesis using u(1) unfolding uvmalloc_pages [OF u(2)]
    by (auto simp: kbind_def kret_def split: out.splits option.splits)
qed

lemma growproc_grows:
  assumes g: "growproc n s = Ret r t" and p: "cproc s = Some p" and n: "0 \<le> n" "n < 2 ^ 31" and z: "unat (p_sz (procs s p)) \<le> 2 ^ 36"
  shows "r = 0 \<and> unat (p_sz (procs t p)) = unat (p_sz (procs s p)) + nat n \<or> r = - 1 \<and> p_sz (procs t p) = p_sz (procs s p)"
proof (cases "n = 0")
  case True
  then show ?thesis using g p by (auto simp: growproc_def kmonad Let_def)
next
  case False
  let ?a = "p_sz (procs s p)" and ?b = "p_sz (procs s p) + word_of_int n"
  have "unat (word_of_int n :: u64) = nat n" using n by (simp add: unat_eq_nat_uint uint_word_of_int)
  then have b: "unat ?b = unat ?a + nat n" using z n by (simp add: unat_word_ariths)
  then have ab: "?a \<le> ?b" "?b \<noteq> 0" using False n by (auto simp: word_le_nat_alt unat_eq_0 [symmetric])
  have g': "(if ?b > TRAPFRAME then kret (-1)
        else kbind (uvmalloc (p_pagetable (procs s p)) ?a ?b PTE_W) (\<lambda>r.
          if r = 0 then kret (-1) else kthen (upd_proc p (\<lambda>P. P\<lparr>p_sz := r\<rparr>)) (kret 0))) s = Ret r t"
    using g p False n by (simp add: growproc_def kmonad Let_def)
  show ?thesis
  proof (cases "?b > TRAPFRAME")
    case True
    then show ?thesis using g' by (simp add: kret_def)
  next
    case False
    then obtain e u where e: "uvmalloc (p_pagetable (procs s p)) ?a ?b PTE_W s = Ret e u"
      using g' by (auto simp: kbind_def split: out.splits)
    have "procs u = procs s" using kkeeps_Ret [OF keeps_uvmalloc e] by (auto simp: vm_eq_upd)
    then show ?thesis using g' False e uvmalloc_ret [OF e ab(1)] ab(2) b by (auto simp: kbind_def kmonad kret_def)
  qed
qed

lemma sys_sbrk_grows:
  assumes g: "sys_sbrk s = Ret r t" "r \<noteq> - 1" and p: "cproc s = Some p" and z: "unat (p_sz (procs s p)) \<le> 2 ^ 36"
    and n: "to_int (load64 (phys s) (p_trapframe (procs s p) + TF_a0)) = n" "0 \<le> n"
    and eager: "to_int (load64 (phys s) (p_trapframe (procs s p) + TF_a0 + 8)) = 1"
  shows "r = p_sz (procs s p)" "unat (p_sz (procs t p)) = unat r + nat n"
proof -
  have "n < 2 ^ 31" unfolding n(1) [symmetric] to_int_def using sint_lt [of "ucast (load64 (phys s) (p_trapframe (procs s p) + TF_a0)) :: u32"] by simp
  have "kbind (growproc n) (\<lambda>r. kret (if r < 0 then -1 else p_sz (procs s p))) s = Ret r t"
    using g(1) p n eager by (simp add: sys_sbrk_def argint_def argraw_def tf_get_def kmonad Let_def add.assoc)
  then obtain e where e: "growproc n s = Ret e t" "r = (if e < 0 then -1 else p_sz (procs s p))"
    by (auto simp: kbind_def kret_def split: out.splits)
  then show "r = p_sz (procs s p)" "unat (p_sz (procs t p)) = unat r + nat n"
    using g(2) growproc_grows [OF e(1) p n(2) \<open>n < 2 ^ 31\<close> z] by (auto split: if_splits)
qed

lemma to_int_of_cint: "0 \<le> n \<Longrightarrow> n < 2 ^ 31 \<Longrightarrow> to_int (of_cint n) = n"
  unfolding to_int_def of_cint_def
  by (simp add: sint_uint signed_take_bit_int_eq_self unsigned_ucast_eq uint_word_of_int take_bit_int_eq_self)

lemma load_store_next: "load64 (store64 m (a + 8) v) a = load64 m a"
proof (rule load64_eqI)
  fix i :: nat assume "i < 8"
  then have "unat (a + of_nat i - (a + 8)) \<ge> 8" by (simp add: unat_word_ariths unat_sub_if' unat_of_nat)
  then show "store64 m (a + 8) v (a + of_nat i) = m (a + of_nat i)" by (rule store64_apply)
qed

section \<open>Growing the heap\<close>

lemma growproc_total:
  assumes p: "cproc s = Some p" and n: "0 < n" "unat (p_sz (procs s p)) + nat n \<le> unat TRAPFRAME"
    and vm: "vm_ok s (p_pagetable (procs s p)) F"
    and as: "as = pages_upto (PGROUNDUP (p_sz (procs s p))) (p_sz (procs s p) + of_cint n)"
      "3 * length as < card F" "\<forall>va\<in>set as. \<not> mapped s (p_pagetable (procs s p)) va"
  shows "\<exists>f u G. growproc n s = Ret 0 (u\<lparr>procs := (procs s)(p := (procs s p)\<lparr>p_sz := p_sz (procs s p) + of_cint n\<rparr>)\<rparr>) \<and>
    heap_step (p_pagetable (procs s p)) as (PTE_R OR PTE_U OR PTE_W) f s F u G"
proof -
  let ?a = "p_sz (procs s p)" and ?b = "p_sz (procs s p) + of_cint n"
  have "nat n < 2 ^ 64" using n(2) by simp
  then have "unat (of_cint n) = nat n" using n(1) by (simp add: of_cint_def unat_eq_nat_uint uint_word_of_int)
  then have b: "unat ?b = unat ?a + nat n" using n(2) by (simp add: unat_word_ariths)
  then have ab: "?a \<le> ?b" "?b \<le> TRAPFRAME" "?b \<noteq> 0" using n by (auto simp: word_le_nat_alt unat_eq_0 [symmetric])
  from uvmalloc_total [OF vm ab(1, 2), of PTE_W] as obtain f u G where
    u: "uvmalloc (p_pagetable (procs s p)) ?a ?b PTE_W s = Ret ?b u"
      "heap_step (p_pagetable (procs s p)) as (PTE_R OR PTE_U OR PTE_W) f s F u G" by auto
  have "procs u = procs s" using u(2) vm_eq_fields by (auto simp: heap_step_def)
  then have "growproc n s = Ret 0 (u\<lparr>procs := (procs s)(p := (procs s p)\<lparr>p_sz := ?b\<rparr>)\<rparr>)"
    using u(1) ab(2, 3) n(1) p by (simp add: growproc_def kmonad Let_def of_cint_def not_less [symmetric])
  then show ?thesis using u(2) by blast
qed

text \<open>C20: an eager \<^verbatim>\<open>sbrk(n)\<close>, \<open>n > 0\<close>, of a process that stays below its trap frame succeeds when no page it is
  about to add is mapped and the allocator has more than three pages for each of them (the page and
  at most two new page tables).  It returns the old size and makes the process larger by \<open>n\<close>; every
  page added is a page of its own that was free, filled with zeros and mapped for the user to read
  and write; no other translation and no memory but free pages and page tables changes.\<close>

theorem sbrk_grows_heap:
  assumes p: "cproc s = Some p"
    and args: "to_int (load64 (phys s) (p_trapframe (procs s p) + TF_a0)) = n"
      "to_int (load64 (phys s) (p_trapframe (procs s p) + TF_a0 + 8)) = 1"
    and n: "0 < n" "unat (p_sz (procs s p)) + nat n \<le> unat TRAPFRAME"
    and vm: "vm_ok s (p_pagetable (procs s p)) F"
    and as: "as = pages_upto (PGROUNDUP (p_sz (procs s p))) (p_sz (procs s p) + of_cint n)"
      "3 * length as < card F" "\<forall>va\<in>set as. \<not> mapped s (p_pagetable (procs s p)) va"
  shows "\<exists>f u G. sys_sbrk s = Ret (p_sz (procs s p))
      (u\<lparr>procs := (procs s)(p := (procs s p)\<lparr>p_sz := p_sz (procs s p) + of_cint n\<rparr>)\<rparr>) \<and>
    heap_step (p_pagetable (procs s p)) as (PTE_R OR PTE_U OR PTE_W) f s F u G"
proof -
  from growproc_total [OF p n vm as] obtain f u G where
    g: "growproc n s = Ret 0 (u\<lparr>procs := (procs s)(p := (procs s p)\<lparr>p_sz := p_sz (procs s p) + of_cint n\<rparr>)\<rparr>)"
      "heap_step (p_pagetable (procs s p)) as (PTE_R OR PTE_U OR PTE_W) f s F u G" by blast
  have "sys_sbrk s = kbind (growproc n) (\<lambda>r. kret (if r < 0 then -1 else p_sz (procs s p))) s"
    using p args by (simp add: sys_sbrk_def argint_def argraw_def tf_get_def kmonad Let_def add.assoc)
  then show ?thesis using g by (intro exI [of _ f] exI [of _ u] exI [of _ G]) (simp add: kmonad)
qed

lemma vm_ok_outside:
  assumes ok: "vm_ok s pt F" and t: "held t = held s" "kend t = kend s" "freelist t = freelist s"
    and m: "\<And>x. PGROUNDDOWN x \<in> kmem_pool s \<Longrightarrow> phys t x = phys s x"
  shows "vm_ok t pt F" "pte_of (phys t) pt va = pte_of (phys s) pt va"
proof -
  have fr: "kmem_free s F" and tree: "pt_tree (phys s) pt" and pool: "pt_pages (phys s) pt \<subseteq> kmem_pool s - F"
    using ok by (auto simp: vm_ok_def)
  have "phys t x = phys s x" if "PGROUNDDOWN x \<in> pt_pages (phys s) pt" for x using that pool m by blast
  note tv = tree_frame [OF tree this]
  show "pte_of (phys t) pt va = pte_of (phys s) pt va" by (rule tv(3))
  have "kmem_free t F" by (rule kmem_free_frame [OF fr t]) (use m free_in_pool [OF fr] in blast)
  moreover have "kmem_pool t = kmem_pool s" using t(2) by (simp add: kmem_pool_def page_ok_def)
  ultimately show "vm_ok t pt F" unfolding vm_ok_def using tv(1, 2) pool by auto
qed

lemma page_zero_regs:
  assumes "PGROUNDDOWN x \<noteq> 0"
  shows "store64 (store64 m (0 + TF_a0) v) (0 + TF_a0 + 8) w x = m x"
proof -
  have "unat x \<ge> 4096" using assms unat_PGROUNDDOWN [of x] by (metis div_less mult_0 not_le unat_eq_zero)
  then have "8 \<le> unat (x - TF_a0)" "8 \<le> unat (x - (TF_a0 + 8))" by (simp_all add: unat_sub_if' word_le_nat_alt)
  then show ?thesis by (simp add: store64_apply)
qed

text \<open>A process of 100 bytes with an empty page table, about to call \<^verbatim>\<open>sbrk(5000)\<close>.\<close>

lemma sbrk_example:
  "\<exists>(s :: sync_st) F. cproc s = Some 0 \<and> p_sz (procs s 0) = 100 \<and>
     to_int (load64 (phys s) (p_trapframe (procs s 0) + TF_a0)) = 5000 \<and>
     to_int (load64 (phys s) (p_trapframe (procs s 0) + TF_a0 + 8)) = 1 \<and>
     vm_ok s (p_pagetable (procs s 0)) F \<and> 3 < card F \<and> (\<forall>va. \<not> mapped s (p_pagetable (procs s 0)) va)"
proof -
  let ?s = "blank_sync (\<lambda>_. idle_proc) () :: sync_st"
  obtain t F where t: "vm_eq ?s t" "kmem_free t F" "6 < card F"
    using booted_from [of ?s] by (auto simp: blank)
  have "F \<noteq> {}" using t(3) by auto
  then obtain q u where q: "q \<in> F" "vm_ok u q (F - {q})" "\<forall>va. pte_of (phys u) q va = 0" "vm_eq t u"
    using uvmcreate_ok [OF t(2)] by blast
  define w where "w = u\<lparr>procs := (\<lambda>_. idle_proc\<lparr>p_pagetable := q, p_sz := 100, p_trapframe := 0\<rparr>), cproc := Some 0,
     phys := store64 (store64 (phys u) (0 + TF_a0) (of_cint 5000)) (0 + TF_a0 + 8) 1\<rparr>"
  have mem: "phys w = store64 (store64 (phys u) (0 + TF_a0) (of_cint 5000)) (0 + TF_a0 + 8) 1"
    and pr: "procs w 0 = idle_proc\<lparr>p_pagetable := q, p_sz := 100, p_trapframe := 0\<rparr>" by (simp_all add: w_def)
  have m: "phys w x = phys u x" if "PGROUNDDOWN x \<in> kmem_pool u" for x
    unfolding mem by (rule page_zero_regs) (use that kmem.pool_null in metis)
  note vw = vm_ok_outside [OF q(2), of w, OF _ _ _ m]
  have "vm_ok w q (F - {q})" "\<forall>va. \<not> mapped w q va" using vw q(3) by (simp_all add: w_def mapped_def)
  moreover have "to_int (load64 (phys w) (0 + TF_a0)) = 5000"
    unfolding mem load_store_next load_store_same by (rule to_int_of_cint) simp_all
  moreover have "to_int (load64 (phys w) (0 + TF_a0 + 8)) = 1"
    unfolding mem load_store_same by (simp add: to_int_def)
  moreover have "3 < card (F - {q})" using t(3) q(1) kmem_free_finite [OF t(2)] by simp
  ultimately show ?thesis using pr
    by (intro exI [of _ w] exI [of _ "F - {q}"]) (simp add: w_def)
qed

theorem sbrk_grows_heap_witness:
  "\<exists>(s :: sync_st) t. p_sz (procs s 0) = 100 \<and> sys_sbrk s = Ret 100 t \<and> p_sz (procs t 0) = 5100 \<and>
     \<not> mapped s (p_pagetable (procs s 0)) 4096 \<and> mapped t (p_pagetable (procs t 0)) 4096"
proof -
  obtain s :: sync_st and F where s: "cproc s = Some 0" "p_sz (procs s 0) = 100"
     "to_int (load64 (phys s) (p_trapframe (procs s 0) + TF_a0)) = 5000"
     "to_int (load64 (phys s) (p_trapframe (procs s 0) + TF_a0 + 8)) = 1"
     "vm_ok s (p_pagetable (procs s 0)) F" "3 < card F" "\<forall>va. \<not> mapped s (p_pagetable (procs s 0)) va"
    using sbrk_example by blast
  have as: "[4096] = pages_upto (PGROUNDUP (p_sz (procs s 0))) (p_sz (procs s 0) + of_cint 5000)"
    unfolding s(2) by code_simp
  have "0 < (5000 :: int)" "unat (p_sz (procs s 0)) + nat 5000 \<le> unat TRAPFRAME" "3 * length [4096 :: u64] < card F"
    "\<forall>va\<in>set [4096]. \<not> mapped s (p_pagetable (procs s 0)) va" using s by simp_all
  from sbrk_grows_heap [OF s(1, 3, 4) this(1, 2) s(5) as this(3, 4)] obtain f u G where
    u: "sys_sbrk s = Ret (p_sz (procs s 0)) (u\<lparr>procs := (procs s)(0 := (procs s 0)\<lparr>p_sz := p_sz (procs s 0) + of_cint 5000\<rparr>)\<rparr>)"
      "heap_step (p_pagetable (procs s 0)) [4096] (PTE_R OR PTE_U OR PTE_W) f s F u G" by blast
  have "pte_of (phys u) (p_pagetable (procs s 0)) 4096 = PA2PTE (f 4096) OR (PTE_R OR PTE_U OR PTE_W) OR PTE_V"
    using u(2) by (simp add: heap_step_def)
  then have "mapped u (p_pagetable (procs s 0)) 4096" by (simp add: mapped_def bit_or_iff)
  then show ?thesis using u(1) s(2, 7)
    by (intro exI [of _ s] exI) (auto simp: mapped_def of_cint_def)
qed

end
