(* ===== verification/Mkfs.thy ===== *)
theory Mkfs
  imports Fs
begin

unbundle bit_operations_syntax

text \<open>
  \<^verbatim>\<open>mkfs/mkfs.c\<close>: the program that builds the first file system image on the build machine.  The image is a file of the host,
  a sequence of blocks at multiples of \<^verbatim>\<open>BSIZE\<close>; a block that was never written reads as zeros, and a read past the end is short.
  Writes to the image succeed.  A run that ends in \<^verbatim>\<open>die\<close> or at an \<^verbatim>\<open>assert\<close> is a panic of the outcome monad.  The host is
  little endian, as it is for \<^verbatim>\<open>sb.magic\<close>, which the program stores without \<^verbatim>\<open>xint\<close>.
\<close>

section \<open>The program\<close>

abbreviation (input) FSSIZE :: nat where "FSSIZE \<equiv> 2000"
abbreviation (input) NINODES :: nat where "NINODES \<equiv> 200"
abbreviation (input) LOGBLOCKS :: nat where "LOGBLOCKS \<equiv> 30"

definition nbitmap :: nat where "nbitmap = FSSIZE div BPB + 1"
definition ninodeblocks :: nat where "ninodeblocks = NINODES div IPB + 1"
definition nlog :: nat where "nlog = LOGBLOCKS + 1"

record mk_st =
  img :: "u32 \<Rightarrow> block"
  flen :: nat
  mk_sb :: superblock
  freeinode :: u32
  freeblock :: u32

definition xshort :: "u16 \<Rightarrow> u16" where
  "xshort x = get16 ((\<lambda>_. 0)(0 := ucast x, 1 := ucast (drop_bit 8 x))) 0"

definition xint :: "u32 \<Rightarrow> u32" where
  "xint x = get32 ((\<lambda>_. 0)(0 := ucast x, 1 := ucast (drop_bit 8 x), 2 := ucast (drop_bit 16 x), 3 := ucast (drop_bit 24 x))) 0"

definition wsect :: "u32 \<Rightarrow> block \<Rightarrow> (mk_st, unit) km" where
  "wsect sec b = kmod (\<lambda>s. s\<lparr>img := (img s)(sec * 1024 := b), flen := max (flen s) (unat (sec * 1024) + BSIZE)\<rparr>)"

definition rsect :: "u32 \<Rightarrow> (mk_st, block) km" where
  "rsect sec = kbind (kget (\<lambda>s. s)) (\<lambda>s.
     if unat (sec * 1024) + BSIZE \<le> flen s then kret (img s (sec * 1024)) else kpanic ''read'')"

definition winode :: "u32 \<Rightarrow> inode \<Rightarrow> (mk_st, unit) km" where
  "winode inum ip =
     kbind (kget mk_sb) (\<lambda>sb.
     let bn = IBLOCK inum sb in
     kbind (rsect bn) (\<lambda>buf.
     wsect bn (dinode_store ip (dino_off inum) buf)))"

definition rinode :: "u32 \<Rightarrow> (mk_st, inode) km" where
  "rinode inum =
     kbind (kget mk_sb) (\<lambda>sb.
     kbind (rsect (IBLOCK inum sb)) (\<lambda>buf.
     kret (dinode_load buf (dino_off inum) blank_inode)))"

definition ialloc_mk :: "u16 \<Rightarrow> (mk_st, u32) km" where
  "ialloc_mk ty =
     kbind (kget freeinode) (\<lambda>inum.
     kthen (kmod (\<lambda>s. s\<lparr>freeinode := freeinode s + 1\<rparr>))
     (kthen (winode inum (blank_inode\<lparr>i_type := xshort ty, i_nlink := xshort 1, i_size := xint 0\<rparr>))
     (kret inum)))"

definition balloc_mk :: "u32 \<Rightarrow> (mk_st, unit) km" where
  "balloc_mk used =
     (if \<not> sint used < int BPB then kpanic ''assert''
      else
        kbind (kget mk_sb) (\<lambda>sb.
        wsect (sb_bmapstart sb)
          (fold (\<lambda>i buf. buf(i div 8 := buf (i div 8) OR bit_mask i)) [0..<nat (sint used)] (\<lambda>_. 0))))"

text \<open>\<^verbatim>\<open>freeblock++\<close>.\<close>

definition next_block :: "(mk_st, u32) km" where
  "next_block = kbind (kget freeblock) (\<lambda>x. kthen (kmod (\<lambda>s. s\<lparr>freeblock := freeblock s + 1\<rparr>)) (kret x))"

text \<open>The block of the file for \<^verbatim>\<open>fbn\<close>, allocated where there is none yet: the inode and the number of the block.\<close>

definition iappend_block :: "inode \<Rightarrow> nat \<Rightarrow> (mk_st, inode \<times> u32) km" where
  "iappend_block din fbn =
     (if fbn < NDIRECT then
        kbind (if xint (i_addrs din fbn) = 0 then
                 kbind next_block (\<lambda>b. kret (din\<lparr>i_addrs := (i_addrs din)(fbn := xint b)\<rparr>))
               else kret din) (\<lambda>din.
        kret (din, xint (i_addrs din fbn)))
      else
        kbind (if xint (i_addrs din NDIRECT) = 0 then
                 kbind next_block (\<lambda>b. kret (din\<lparr>i_addrs := (i_addrs din)(NDIRECT := xint b)\<rparr>))
               else kret din) (\<lambda>din.
        kbind (rsect (xint (i_addrs din NDIRECT))) (\<lambda>indirect.
        kbind (if get32 indirect (4 * (fbn - NDIRECT)) = 0 then
                 kbind next_block (\<lambda>b.
                 let indirect = put32 indirect (4 * (fbn - NDIRECT)) (xint b) in
                 kthen (wsect (xint (i_addrs din NDIRECT)) indirect) (kret indirect))
               else kret indirect) (\<lambda>indirect.
        kret (din, xint (get32 indirect (4 * (fbn - NDIRECT))))))))"

text \<open>The loop; \<open>p\<close> is what is left to write.\<close>

function iappend_loop :: "inode \<Rightarrow> nat \<Rightarrow> u8 list \<Rightarrow> (mk_st, inode \<times> nat) km" where
  "iappend_loop din off p =
     (if p = [] then kret (din, off)
      else
        let fbn = off div BSIZE in
        if \<not> fbn < MAXFILE then kpanic ''assert''
        else
          kbind (iappend_block din fbn) (\<lambda>(din, x).
          let n1 = min (length p) ((fbn + 1) * BSIZE - off) in
          kbind (rsect x) (\<lambda>buf.
          kthen (wsect x (blit buf (off - fbn * BSIZE) (take n1 p)))
          (iappend_loop din (off + n1) (drop n1 p)))))"
  by pat_completeness auto
termination iappend_loop
proof (relation "measure (\<lambda>(din, off, p). length p)")
  fix off :: nat and p :: "u8 list" and n1 fbn
  assume "p \<noteq> []" "fbn = off div BSIZE" "n1 = min (length p) ((fbn + 1) * BSIZE - off)"
  moreover have "off < (off div BSIZE + 1) * BSIZE" using dividend_less_div_times [of BSIZE off] by simp
  ultimately show "((din, off + n1, drop n1 p), (din', off, p)) \<in> measure (\<lambda>(din, off, p). length p)" for din din' :: inode
    by (cases p) auto
qed simp

declare iappend_loop.simps [simp del]

definition iappend :: "u32 \<Rightarrow> u8 list \<Rightarrow> (mk_st, unit) km" where
  "iappend inum p =
     kbind (rinode inum) (\<lambda>din.
     kbind (iappend_loop din (unat (xint (i_size din))) p) (\<lambda>(din, off).
     winode inum (din\<lparr>i_size := xint (of_nat off)\<rparr>)))"

text \<open>\<^verbatim>\<open>main\<close>.  \<open>host\<close> is what a path of the host names: the pieces \<^verbatim>\<open>read\<close> returns, one after the other, if it can be opened.\<close>

definition mk_super :: superblock where
  "mk_super = (let nmeta = 2 + nlog + ninodeblocks + nbitmap in
     \<lparr>sb_magic = FSMAGIC, sb_size = xint (of_nat FSSIZE), sb_nblocks = xint (of_nat (FSSIZE - nmeta)),
      sb_ninodes = xint (of_nat NINODES), sb_nlog = xint (of_nat nlog), sb_logstart = xint 2,
      sb_inodestart = xint (of_nat (2 + nlog)), sb_bmapstart = xint (of_nat (2 + nlog + ninodeblocks))\<rparr>)"

definition sb_bytes :: "superblock \<Rightarrow> block" where
  "sb_bytes b = fold (\<lambda>(k, v) d. put32 d (4 * k) v) (zip [0..<8]
     [sb_magic b, sb_size b, sb_nblocks b, sb_ninodes b, sb_nlog b, sb_logstart b, sb_inodestart b, sb_bmapstart b]) (\<lambda>_. 0)"

definition user_dir :: "u8 list" where "user_dir = [117, 115, 101, 114, 47]"

definition shortname :: "u8 list \<Rightarrow> u8 list" where
  "shortname arg = (if take 5 arg = user_dir then drop 5 arg else arg)"

definition skip_underscore :: "u8 list \<Rightarrow> u8 list" where
  "skip_underscore nm = (if nm \<noteq> [] \<and> hd nm = 95 then tl nm else nm)"

definition add_file :: "(u8 list \<Rightarrow> u8 list list option) \<Rightarrow> u32 \<Rightarrow> u8 list \<Rightarrow> (mk_st, unit) km" where
  "add_file host rootino arg =
     (if slash \<in> set (shortname arg) then kpanic ''assert''
      else
        case host arg of
          None \<Rightarrow> kpanic ''open''
        | Some pieces \<Rightarrow>
            let nm = skip_underscore (shortname arg) in
            if \<not> length nm \<le> DIRSIZ then kpanic ''assert''
            else
              kbind (ialloc_mk T_FILE) (\<lambda>inum.
              kthen (iappend rootino (mk_dirent (xshort (ucast inum)) nm))
              (kfor (takeWhile (\<lambda>p. p \<noteq> []) pieces) (iappend inum))))"

definition fix_root :: "u32 \<Rightarrow> (mk_st, unit) km" where
  "fix_root rootino =
     kbind (rinode rootino) (\<lambda>din.
     let off = xint (i_size din); off = (off div 1024 + 1) * 1024 in
     winode rootino (din\<lparr>i_size := xint off\<rparr>))"

definition mkfs :: "(u8 list \<Rightarrow> u8 list list option) \<Rightarrow> u8 list list \<Rightarrow> (mk_st, unit) km" where
  "mkfs host args =
     kthen (kmod (\<lambda>s. s\<lparr>img := \<lambda>_ _. 0, flen := 0, mk_sb := mk_super, freeinode := 1, freeblock := of_nat (2 + nlog + ninodeblocks + nbitmap)\<rparr>))
     (kthen (kfor [0..<FSSIZE] (\<lambda>i. wsect (of_nat i) (\<lambda>_. 0)))
     (kthen (wsect 1 (sb_bytes mk_super))
     (kbind (ialloc_mk T_DIR) (\<lambda>rootino.
      if rootino \<noteq> ROOTINO then kpanic ''assert''
      else
        kthen (iappend rootino (mk_dirent (xshort (ucast rootino)) [46]))
        (kthen (iappend rootino (mk_dirent (xshort (ucast rootino)) [46, 46]))
        (kthen (kfor args (add_file host rootino))
        (kthen (fix_root rootino)
        (kbind (kget freeblock) balloc_mk))))))))"

section \<open>Sectors\<close>

lemma xint_id [simp]: "xint x = x"
  using get32_put32 [of "\<lambda>_. 0" 0 x] by (simp add: xint_def put32_def numeral_eq_Suc)

lemma xshort_id [simp]: "xshort x = x"
  using get16_put16 [of "\<lambda>_. 0" 0 x] by (simp add: xshort_def put16_def)

abbreviation sect :: "mk_st \<Rightarrow> u32 \<Rightarrow> block" where
  "sect s x \<equiv> img s (x * 1024)"

lemma sec_off: "unat (x :: u32) < 4000 \<Longrightarrow> unat (x * 1024) = unat x * 1024"
  by (simp add: unat_word_ariths)

lemma sec_inj: "unat (x :: u32) < 4000 \<Longrightarrow> unat (y :: u32) < 4000 \<Longrightarrow> x * 1024 = y * 1024 \<longleftrightarrow> x = y"
  using sec_off [of x] sec_off [of y] by (metis mult_right_cancel unsigned_word_eqI zero_neq_numeral)

lemma sect_upd:
  "unat x < 4000 \<Longrightarrow> unat y < 4000 \<Longrightarrow> ((img s)(x * 1024 := b)) (y * 1024) = (if y = x then b else sect s y)"
  by (simp add: sec_inj)

lemma wsect_eval: "flen s = 2048000 \<Longrightarrow> unat x < FSSIZE \<Longrightarrow> wsect x b s = Ret () (s\<lparr>img := (img s)(x * 1024 := b)\<rparr>)"
  by (simp add: wsect_def kmonad sec_off)

lemma rsect_eval: "flen s = 2048000 \<Longrightarrow> unat x < FSSIZE \<Longrightarrow> rsect x s = Ret (sect s x) s"
  by (simp add: rsect_def kmonad sec_off)

section \<open>The blocks of the files\<close>

text \<open>The address in slot \<open>k\<close> of an inode: the direct blocks, the indirect block, and the entries of the indirect block.  An
  inode without an indirect block has zeros there, as the boot block has.\<close>

definition adr :: "mk_st \<Rightarrow> inode \<Rightarrow> nat \<Rightarrow> u32" where
  "adr s I k = (if k \<le> NDIRECT then i_addrs I k else get32 (sect s (i_addrs I NDIRECT)) (4 * (k - NDIRECT - 1)))"

definition slot :: "nat \<Rightarrow> nat" where
  "slot f = (if f < NDIRECT then f else f + 1)"

lemma adr_size [simp]: "adr s (I\<lparr>i_size := z\<rparr>) k = adr s I k"
  by (simp add: adr_def)

lemma slot_less [simp]: "slot f < 269 \<longleftrightarrow> f < 268"
  by (simp add: slot_def)

lemma slot_inj [simp]: "slot f = slot g \<longleftrightarrow> f = g" "slot f \<noteq> NDIRECT"
  by (auto simp: slot_def)

definition owned :: "mk_st \<Rightarrow> (nat \<Rightarrow> inode) \<Rightarrow> nat \<Rightarrow> bool" where
  "owned s D N \<longleftrightarrow> flen s = 2048000 \<and> mk_sb s = mk_super \<and> 47 \<le> unat (freeblock s) \<and> unat (freeblock s) \<le> FSSIZE \<and>
     (\<forall>x. unat (freeblock s) \<le> unat x \<and> unat x < FSSIZE \<longrightarrow> sect s x = (\<lambda>_. 0)) \<and> sect s 0 = (\<lambda>_. 0) \<and>
     (\<forall>i\<in>{1..<N}. \<forall>k<MAXFILE + 1. adr s (D i) k \<noteq> 0 \<longrightarrow> 47 \<le> unat (adr s (D i) k) \<and> unat (adr s (D i) k) < unat (freeblock s)) \<and>
     (\<forall>i\<in>{1..<N}. \<forall>j\<in>{1..<N}. \<forall>k<MAXFILE + 1. \<forall>l<MAXFILE + 1.
        adr s (D i) k \<noteq> 0 \<longrightarrow> adr s (D i) k = adr s (D j) l \<longrightarrow> i = j \<and> k = l)"

lemma owned_range:
  "owned s D N \<Longrightarrow> i \<in> {1..<N} \<Longrightarrow> k < MAXFILE + 1 \<Longrightarrow> adr s (D i) k \<noteq> 0 \<Longrightarrow>
    47 \<le> unat (adr s (D i) k) \<and> unat (adr s (D i) k) < unat (freeblock s)"
  unfolding owned_def by blast

lemma owned_inj:
  "owned s D N \<Longrightarrow> i \<in> {1..<N} \<Longrightarrow> j \<in> {1..<N} \<Longrightarrow> k < MAXFILE + 1 \<Longrightarrow> l < MAXFILE + 1 \<Longrightarrow> adr s (D i) k \<noteq> 0 \<Longrightarrow>
    adr s (D i) k = adr s (D j) l \<Longrightarrow> i = j \<and> k = l"
  unfolding owned_def by blast

text \<open>Giving the next free block to a slot that is empty.\<close>

lemma owned_alloc:
  assumes o: "owned s D N" and fb: "unat (freeblock s) < FSSIZE"
    and t: "flen t = flen s" "mk_sb t = mk_sb s" "freeblock t = freeblock s + 1"
      "\<And>x. unat (freeblock s) < unat x \<Longrightarrow> unat x < FSSIZE \<Longrightarrow> sect t x = sect s x" "sect t 0 = sect s 0"
    and a: "\<And>j l. j \<in> {1..<N} \<Longrightarrow> l < MAXFILE + 1 \<Longrightarrow> adr t (D' j) l = (if j = i \<and> l = k then freeblock s else adr s (D j) l)"
  shows "owned t D' N" "unat (freeblock t) = unat (freeblock s) + 1"
proof -
  have f: "unat (freeblock t) = unat (freeblock s) + 1" using fb t(3) by (simp add: unat_word_ariths)
  then show "unat (freeblock t) = unat (freeblock s) + 1" .
  have nf: "adr s (D j) l \<noteq> freeblock s" if "j \<in> {1..<N}" "l < MAXFILE + 1" for j l
    using owned_range [OF o that] o by (cases "adr s (D j) l = 0") (auto simp: owned_def)
  have q: "47 \<le> unat (freeblock s)" "flen s = 2048000" "mk_sb s = mk_super" "sect s 0 = (\<lambda>_. 0)"
    "\<And>x. unat (freeblock s) \<le> unat x \<Longrightarrow> unat x < FSSIZE \<Longrightarrow> sect s x = (\<lambda>_. 0)" using o by (simp_all add: owned_def)
  have r: "47 \<le> unat (adr t (D' j) l) \<and> unat (adr t (D' j) l) < unat (freeblock t)"
    if "j \<in> {1..<N}" "l < MAXFILE + 1" "adr t (D' j) l \<noteq> 0" for j l
  proof (cases "j = i \<and> l = k")
    case True
    then show ?thesis using a [OF that(1, 2)] f q(1) by simp
  next
    case False
    have "adr t (D' j) l = adr s (D j) l" using a [OF that(1, 2)] unfolding if_not_P [OF False] .
    then show ?thesis using owned_range [OF o that(1, 2)] that(3) f by simp
  qed
  have u: "j = j' \<and> l = l'" if "j \<in> {1..<N}" "j' \<in> {1..<N}" "l < MAXFILE + 1" "l' < MAXFILE + 1" "adr t (D' j) l \<noteq> 0"
      "adr t (D' j) l = adr t (D' j') l'" for j j' l l'
    using that(5, 6) a [OF that(1, 3)] a [OF that(2, 4)] nf [OF that(1, 3)] nf [OF that(2, 4)] owned_inj [OF o that(1-4)]
    by (metis (full_types))
  moreover have "sect t x = (\<lambda>_. 0)" if "unat (freeblock t) \<le> unat x" "unat x < FSSIZE" for x
    using t(4) [of x] q(5) [of x] that f by simp
  moreover have "flen t = 2048000" "mk_sb t = mk_super" "47 \<le> unat (freeblock t)" "unat (freeblock t) \<le> FSSIZE" "sect t 0 = (\<lambda>_. 0)"
    using t q fb f by simp_all
  ultimately show "owned t D' N" unfolding owned_def using r by blast
qed

lemma owned_small:
  assumes o: "owned s D N" "i \<in> {1..<N}" "k < MAXFILE + 1"
  shows "unat (adr s (D i) k) < FSSIZE"
proof (cases "adr s (D i) k = 0")
  case False
  then show ?thesis using owned_range [OF o False] o(1) by (auto simp: owned_def)
qed simp

text \<open>A direct block or the indirect block.\<close>

lemma slot_inode:
  assumes o: "owned s D N" and i: "i \<in> {1..<N}" and fb: "unat (freeblock s) < FSSIZE" and k: "k \<le> NDIRECT" "i_addrs (D i) k = 0"
    and t: "t = s\<lparr>freeblock := freeblock s + 1\<rparr>" and D': "D' = D(i := (D i)\<lparr>i_addrs := (i_addrs (D i))(k := freeblock s)\<rparr>)"
  shows "owned t D' N" "unat (freeblock t) = unat (freeblock s) + 1"
    "\<And>j l. j \<in> {1..<N} \<Longrightarrow> l < MAXFILE + 1 \<Longrightarrow> adr t (D' j) l = (if j = i \<and> l = k then freeblock s else adr s (D j) l)"
proof -
  have z: "sect s (freeblock s) = (\<lambda>_. 0)" "sect s 0 = (\<lambda>_. 0)" using o fb by (auto simp: owned_def)
  show a: "adr t (D' j) l = (if j = i \<and> l = k then freeblock s else adr s (D j) l)" if "j \<in> {1..<N}" "l < MAXFILE + 1" for j l
  proof (cases "j = i \<and> k = NDIRECT")
    case True
    then show ?thesis using k z by (simp add: adr_def t D')
  next
    case False
    then show ?thesis using k by (auto simp: adr_def t D')
  qed
  show "owned t D' N" "unat (freeblock t) = unat (freeblock s) + 1"
    by (rule owned_alloc [OF o fb _ _ _ _ _ a]; simp add: t)+
qed

text \<open>An entry of the indirect block.\<close>

lemma slot_entry:
  assumes o: "owned s D N" and i: "i \<in> {1..<N}" and fb: "unat (freeblock s) < FSSIZE" and f: "NDIRECT < k" "k < MAXFILE + 1"
    and a: "a = i_addrs (D i) NDIRECT" "a \<noteq> 0"
    and t: "t = s\<lparr>freeblock := freeblock s + 1, img := (img s)(a * 1024 := put32 (sect s a) (4 * (k - NDIRECT - 1)) (freeblock s))\<rparr>"
  shows "owned t D N" "unat (freeblock t) = unat (freeblock s) + 1"
    "\<And>j l. j \<in> {1..<N} \<Longrightarrow> l < MAXFILE + 1 \<Longrightarrow> adr t (D j) l = (if j = i \<and> l = k then freeblock s else adr s (D j) l)"
    "\<And>y. unat y < 4000 \<Longrightarrow> y \<noteq> a \<Longrightarrow> sect t y = sect s y"
proof -
  have aa: "a = adr s (D i) NDIRECT" using a by (simp add: adr_def)
  have ar: "47 \<le> unat a" "unat a < unat (freeblock s)" "unat a < 4000"
    using owned_range [OF o i, of NDIRECT] owned_small [OF o i, of NDIRECT] a aa by simp_all
  show y: "sect t y = sect s y" if "unat y < 4000" "y \<noteq> a" for y using sect_upd [OF ar(3) that(1)] that(2) by (simp add: t)
  have ya: "sect t a = put32 (sect s a) (4 * (k - NDIRECT - 1)) (freeblock s)" by (simp add: t)
  show adr: "adr t (D j) l = (if j = i \<and> l = k then freeblock s else adr s (D j) l)" if jl: "j \<in> {1..<N}" "l < MAXFILE + 1" for j l
  proof (cases "l \<le> NDIRECT")
    case True
    then show ?thesis using f by (simp add: adr_def)
  next
    case False
    show ?thesis
    proof (cases "j = i")
      case True
      have "l = k \<or> 4 * (k - NDIRECT - 1) + 4 \<le> 4 * (l - NDIRECT - 1) \<or> 4 * (l - NDIRECT - 1) + 4 \<le> 4 * (k - NDIRECT - 1)"
        using False f by linarith
      then have "get32 (sect t a) (4 * (l - NDIRECT - 1)) = (if l = k then freeblock s else get32 (sect s a) (4 * (l - NDIRECT - 1)))"
        unfolding ya by (auto simp: get32_put32 get32_put32_other)
      then show ?thesis using True False a(1) by (simp add: adr_def)
    next
      case j: False
      have "adr s (D i) NDIRECT \<noteq> adr s (D j) NDIRECT"
        using owned_inj [OF o i jl(1), of NDIRECT NDIRECT] a(2) aa j by auto
      moreover have "unat (adr s (D j) NDIRECT) < 4000" using owned_small [OF o jl(1), of NDIRECT] by simp
      ultimately have "sect t (adr s (D j) NDIRECT) = sect s (adr s (D j) NDIRECT)" using y aa by metis
      then show ?thesis using j False by (simp add: adr_def)
    qed
  qed
  have nz: "sect t x = sect s x" if "unat (freeblock s) < unat x" "unat x < FSSIZE" for x using y [of x] that ar(2) by (cases "x = a") auto
  have n0: "sect t 0 = sect s 0" using y [of 0] a by simp
  show "owned t D N" "unat (freeblock t) = unat (freeblock s) + 1"
    by (rule owned_alloc [OF o fb _ _ _ nz n0 adr]; simp add: t)+
qed

text \<open>Writing a data block.\<close>

lemma slot_write:
  assumes o: "owned s D N" and i: "i \<in> {1..<N}" and f: "f < MAXFILE" and x: "x = adr s (D i) (slot f)" "x \<noteq> 0"
    and t: "t = s\<lparr>img := (img s)(x * 1024 := b)\<rparr>"
  shows "owned t D N" "\<And>j l. j \<in> {1..<N} \<Longrightarrow> l < MAXFILE + 1 \<Longrightarrow> adr t (D j) l = adr s (D j) l"
    "\<And>y. unat y < 4000 \<Longrightarrow> y \<noteq> x \<Longrightarrow> sect t y = sect s y"
proof -
  have sf: "slot f < MAXFILE + 1" using f by simp
  have xr: "47 \<le> unat x" "unat x < unat (freeblock s)" "unat x < 4000"
    using owned_range [OF o i sf] owned_small [OF o i sf] x by simp_all
  show y: "sect t y = sect s y" if "unat y < 4000" "y \<noteq> x" for y using sect_upd [OF xr(3) that(1)] that(2) by (simp add: t)
  show adr: "adr t (D j) l = adr s (D j) l" if jl: "j \<in> {1..<N}" "l < MAXFILE + 1" for j l
  proof -
    have "adr s (D i) (slot f) \<noteq> adr s (D j) NDIRECT"
      using owned_inj [OF o i jl(1) sf, of NDIRECT] x by auto
    moreover have "unat (adr s (D j) NDIRECT) < 4000" using owned_small [OF o jl(1), of NDIRECT] by simp
    ultimately have "sect t (adr s (D j) NDIRECT) = sect s (adr s (D j) NDIRECT)" using y x by metis
    then show ?thesis by (simp add: adr_def)
  qed
  have e: "flen t = flen s" "mk_sb t = mk_sb s" "freeblock t = freeblock s" by (simp_all add: t)
  have nz: "sect t z = sect s z" if "unat (freeblock s) \<le> unat z" "unat z < FSSIZE" for z using y [of z] that xr(2) by (cases "z = x") auto
  have n0: "sect t 0 = sect s 0" using y [of 0] x by simp
  show "owned t D N" using o nz n0 adr unfolding owned_def e by auto
qed

text \<open>The blocks a file of \<open>z\<close> bytes needs, and an inode whose blocks are those of a file of \<open>z\<close> bytes.\<close>

definition blocks :: "nat \<Rightarrow> nat" where
  "blocks z = (z + 1023) div 1024 + (if NDIRECT * BSIZE < z then 1 else 0)"

definition sized :: "mk_st \<Rightarrow> inode \<Rightarrow> nat \<Rightarrow> bool" where
  "sized s I z \<longleftrightarrow> z \<le> MAXFILE * BSIZE \<and> (adr s I NDIRECT \<noteq> 0 \<longleftrightarrow> NDIRECT * BSIZE < z) \<and>
     (\<forall>f<MAXFILE. adr s I (slot f) \<noteq> 0 \<longleftrightarrow> BSIZE * f < z)"

lemma blocks_step:
  assumes "fbn = off div BSIZE" "off < z" "z \<le> BSIZE * (fbn + 1)"
  shows "blocks z = blocks off + (if BSIZE * fbn < off then 0 else 1) + (if fbn < NDIRECT \<or> NDIRECT * BSIZE < off then 0 else 1)"
proof -
  have o: "1024 * fbn \<le> off" "off < 1024 * (fbn + 1)" using assms(1) by (auto simp: mult.commute)
  have "(z + 1023) div 1024 = fbn + 1" using assms(2, 3) o by (intro div_nat_eqI) auto
  moreover have "(off + 1023) div 1024 = (if 1024 * fbn < off then fbn + 1 else fbn)" using o by (auto intro!: div_nat_eqI)
  ultimately show ?thesis using o assms(2, 3) unfolding blocks_def by auto
qed

text \<open>\<open>advance s t D D' N i k\<close>: slot \<open>k\<close> of inode \<open>i\<close> has a block in \<open>t\<close>, the next free one if it had none.\<close>

definition advance :: "mk_st \<Rightarrow> mk_st \<Rightarrow> (nat \<Rightarrow> inode) \<Rightarrow> (nat \<Rightarrow> inode) \<Rightarrow> nat \<Rightarrow> nat \<Rightarrow> nat \<Rightarrow> bool" where
  "advance s t D D' N i k \<longleftrightarrow> owned t D' N \<and> adr t (D' i) k \<noteq> 0 \<and>
     (\<forall>j\<in>{1..<N}. \<forall>l<MAXFILE + 1. (j \<noteq> i \<or> l \<noteq> k \<or> adr s (D j) l \<noteq> 0) \<longrightarrow> adr t (D' j) l = adr s (D j) l) \<and>
     unat (freeblock t) = unat (freeblock s) + (if adr s (D i) k = 0 then 1 else 0) \<and> freeinode t = freeinode s \<and>
     (\<forall>x. unat x < 4000 \<longrightarrow> x \<noteq> adr t (D' i) NDIRECT \<longrightarrow> sect t x = sect s x)"

lemma advance_none: "owned s D N \<Longrightarrow> adr s (D i) k \<noteq> 0 \<Longrightarrow> advance s s D D N i k"
  by (simp add: advance_def)

definition same_file :: "inode \<Rightarrow> inode \<Rightarrow> bool" where
  "same_file I J \<longleftrightarrow> (\<exists>A. J = I\<lparr>i_addrs := A\<rparr> \<and> (\<forall>k>NDIRECT. A k = i_addrs I k))"

lemma same_file_refl: "same_file I I"
  unfolding same_file_def by (rule exI [of _ "i_addrs I"]) simp

lemma same_file_trans: "same_file I J \<Longrightarrow> same_file J K \<Longrightarrow> same_file I K"
  by (auto simp: same_file_def)

lemma ensure_inode:
  assumes o: "owned s D N" and i: "i \<in> {1..<N}" "D i = I" and k: "k \<le> NDIRECT"
    and fb: "i_addrs I k = 0 \<Longrightarrow> unat (freeblock s) < FSSIZE"
  shows "\<exists>J t. (if xint (i_addrs I k) = 0 then kbind next_block (\<lambda>b. kret (I\<lparr>i_addrs := (i_addrs I)(k := xint b)\<rparr>)) else kret I) s =
    Ret J t \<and> advance s t D (D(i := J)) N i k \<and> same_file I J"
proof (cases "i_addrs I k = 0")
  case True
  let ?J = "I\<lparr>i_addrs := (i_addrs I)(k := freeblock s)\<rparr>" and ?t = "s\<lparr>freeblock := freeblock s + 1\<rparr>"
  have z: "i_addrs (D i) k = 0" using True i by simp
  have D': "D(i := ?J) = D(i := (D i)\<lparr>i_addrs := (i_addrs (D i))(k := freeblock s)\<rparr>)" using i(2) by simp
  note r = slot_inode [OF o i(1) fb [OF True] k z refl D']
  have a: "adr s (D i) k = 0" using z k by (simp add: adr_def)
  have n: "freeblock s \<noteq> 0" using o by (auto simp: owned_def)
  have "adr ?t ((D(i := ?J)) i) k = freeblock s" using k by (simp add: adr_def)
  then have "advance s ?t D (D(i := ?J)) N i k" unfolding advance_def using r a n by auto
  moreover have "same_file I ?J" using k by (auto simp: same_file_def)
  ultimately show ?thesis using True by (auto simp: next_block_def kmonad)
next
  case False
  then have "adr s (D i) k \<noteq> 0" using i k by (simp add: adr_def)
  then show ?thesis using False advance_none [OF o] same_file_refl [of I] i(2) by (auto simp: kmonad fun_upd_idem)
qed

lemma ensure_entry:
  assumes o: "owned s D N" and i: "i \<in> {1..<N}" "D i = I" and k: "k = fbn + 1" "NDIRECT \<le> fbn" "fbn < MAXFILE" and a: "i_addrs I NDIRECT = a" "a \<noteq> 0"
    and fb: "adr s I k = 0 \<Longrightarrow> unat (freeblock s) < FSSIZE"
  shows "\<exists>b t. (if get32 (sect s a) (4 * (fbn - NDIRECT)) = 0 then
                 kbind next_block (\<lambda>b.
                 let indirect = put32 (sect s a) (4 * (fbn - NDIRECT)) (xint b) in
                 kthen (wsect a indirect) (kret indirect))
               else kret (sect s a)) s = Ret b t \<and> get32 b (4 * (fbn - NDIRECT)) = adr t I k \<and> advance s t D D N i k"
proof -
  have ad: "adr s I k = get32 (sect s a) (4 * (fbn - NDIRECT))" using k a by (simp add: adr_def)
  show ?thesis
  proof (cases "adr s I k = 0")
    case True
    let ?b = "put32 (sect s a) (4 * (fbn - NDIRECT)) (freeblock s)"
    let ?t = "s\<lparr>freeblock := freeblock s + 1, img := (img s)(a * 1024 := put32 (sect s a) (4 * (k - NDIRECT - 1)) (freeblock s))\<rparr>"
    have k': "NDIRECT < k" "k < MAXFILE + 1" using k by simp_all
    have a': "a = i_addrs (D i) NDIRECT" using a i by simp
    note r = slot_entry [OF o i(1) fb [OF True] k' a' a(2) refl]
    have n: "freeblock s \<noteq> 0" using o by (auto simp: owned_def)
    have at: "adr ?t (D i) k = freeblock s" using r(3) [OF i(1) k'(2)] by simp
    have "adr ?t (D i) NDIRECT = a" using a' by (simp add: adr_def)
    then have "advance s ?t D D N i k" unfolding advance_def using r at n True i(2) by auto
    moreover have "unat a < FSSIZE" using owned_small [OF o i(1), of NDIRECT] a' by (simp add: adr_def)
    moreover have "flen s = 2048000" using o by (simp add: owned_def)
    ultimately show ?thesis using True ad k at i(2) by (auto simp: next_block_def kmonad wsect_eval get32_put32 Let_def)
  next
    case False
    then show ?thesis using ad advance_none [OF o, of i k] i(2) by (auto simp: kmonad)
  qed
qed

lemma advance_adr:
  "advance s t D D' N i k \<Longrightarrow> j \<in> {1..<N} \<Longrightarrow> l < 269 \<Longrightarrow> j \<noteq> i \<or> l \<noteq> k \<or> adr s (D j) l \<noteq> 0 \<Longrightarrow> adr t (D' j) l = adr s (D j) l"
  unfolding advance_def by simp

lemma advance_free: "advance s t D D' N i k \<Longrightarrow> unat (freeblock t) = unat (freeblock s) + (if adr s (D i) k = 0 then 1 else 0)"
  unfolding advance_def by simp

lemma advance_sect: "advance s t D D' N i k \<Longrightarrow> unat x < 4000 \<Longrightarrow> x \<noteq> adr t (D' i) NDIRECT \<Longrightarrow> sect t x = sect s x"
  unfolding advance_def by blast

text \<open>What a step keeps: the blocks before the data, and the data blocks of all files.\<close>

definition kept :: "mk_st \<Rightarrow> mk_st \<Rightarrow> (nat \<Rightarrow> inode) \<Rightarrow> (nat \<Rightarrow> inode) \<Rightarrow> nat \<Rightarrow> bool" where
  "kept s t D D' N \<longleftrightarrow> freeinode t = freeinode s \<and> (\<forall>x. unat x < 47 \<longrightarrow> sect t x = sect s x) \<and>
     (\<forall>j\<in>{1..<N}. \<forall>f<MAXFILE. adr s (D j) (slot f) \<noteq> 0 \<longrightarrow>
        adr t (D' j) (slot f) = adr s (D j) (slot f) \<and> sect t (adr s (D j) (slot f)) = sect s (adr s (D j) (slot f)))"

lemma kept_trans: "kept s t D D' N \<Longrightarrow> kept t u D' D'' N \<Longrightarrow> kept s u D D'' N"
  unfolding kept_def by metis

lemma advance_kept:
  assumes os: "owned s D N" and v: "advance s t D D' N i k" and i: "i \<in> {1..<N}"
  shows "kept s t D D' N"
proof -
  have o: "owned t D' N" using v by (simp add: advance_def)
  have z: "sect t 0 = sect s 0" using o os by (simp add: owned_def)
  have low: "sect t x = sect s x" if "unat x < 47" for x
  proof (cases "x = adr t (D' i) NDIRECT")
    case True
    then have "x = 0" using owned_range [OF o i, of NDIRECT] that by force
    then show ?thesis using z by simp
  next
    case False
    then show ?thesis using advance_sect [OF v _ False] that by simp
  qed
  have "adr t (D' j) (slot f) = adr s (D j) (slot f) \<and> sect t (adr s (D j) (slot f)) = sect s (adr s (D j) (slot f))"
    if j: "j \<in> {1..<N}" "f < MAXFILE" "adr s (D j) (slot f) \<noteq> 0" for j f
  proof -
    have e: "adr t (D' j) (slot f) = adr s (D j) (slot f)" using advance_adr [OF v j(1), of "slot f"] j by simp
    then have "adr t (D' j) (slot f) \<noteq> adr t (D' i) NDIRECT" using owned_inj [OF o j(1) i, of "slot f" NDIRECT] j by auto
    moreover have "unat (adr t (D' j) (slot f)) < 4000" using owned_small [OF o j(1), of "slot f"] j(2) by simp
    ultimately show ?thesis using advance_sect [OF v, of "adr t (D' j) (slot f)"] e by simp
  qed
  then show ?thesis unfolding kept_def using low v by (simp add: advance_def)
qed

text \<open>The block for \<^verbatim>\<open>fbn\<close> is there, and the file has room for the bytes up to \<open>z\<close>.\<close>

definition readied :: "mk_st \<Rightarrow> mk_st \<Rightarrow> (nat \<Rightarrow> inode) \<Rightarrow> nat \<Rightarrow> nat \<Rightarrow> inode \<Rightarrow> nat \<Rightarrow> nat \<Rightarrow> bool" where
  "readied s t D N i J off z \<longleftrightarrow> owned t (D(i := J)) N \<and> sized t J z \<and>
    unat (freeblock t) + blocks off = unat (freeblock s) + blocks z \<and> kept s t D (D(i := J)) N \<and>
    (\<forall>j\<in>{1..<N}. \<forall>l<MAXFILE + 1. j \<noteq> i \<longrightarrow> adr t (D j) l = adr s (D j) l)"

lemma step_bounds:
  assumes f: "fbn = off div BSIZE" "fbn < MAXFILE" and z: "off < z" "z \<le> BSIZE * (fbn + 1)"
  shows "1024 * fbn \<le> off" "off < 1024 * (fbn + 1)" "z \<le> MAXFILE * BSIZE" "BSIZE * fbn < z"
proof -
  show o: "1024 * fbn \<le> off" "off < 1024 * (fbn + 1)" using f(1) by (auto simp: mult.commute)
  show "z \<le> MAXFILE * BSIZE" "BSIZE * fbn < z" using z f(2) o by auto
qed

lemma step_empty:
  assumes "sized s I off" "fbn = off div BSIZE" "fbn < MAXFILE"
  shows "adr s I (slot fbn) = 0 \<longleftrightarrow> \<not> 1024 * fbn < off" "adr s I NDIRECT = 0 \<longleftrightarrow> \<not> NDIRECT * BSIZE < off"
  using assms by (auto simp: sized_def)

lemma step_other:
  assumes sz: "sized s I off" and f: "fbn = off div BSIZE" "fbn < MAXFILE" and z: "off < z" "z \<le> BSIZE * (fbn + 1)" and g: "g < MAXFILE" "g \<noteq> fbn"
  shows "adr s I (slot g) \<noteq> 0 \<longleftrightarrow> BSIZE * g < z"
proof -
  have "g < fbn \<or> fbn + 1 \<le> g" using g by linarith
  then have "BSIZE * g < off \<longleftrightarrow> BSIZE * g < z" using step_bounds [OF f z] z by auto
  then show ?thesis using sz g by (simp add: sized_def)
qed

lemma iappend_direct:
  assumes o: "owned s D N" and i: "i \<in> {1..<N}" "D i = I" and sz: "sized s I off"
    and f: "fbn = off div BSIZE" "fbn < MAXFILE" and z: "off < z" "z \<le> BSIZE * (fbn + 1)"
    and room: "unat (freeblock s) + blocks z \<le> FSSIZE + blocks off" and True: "fbn < NDIRECT"
  shows "\<exists>J t. iappend_block I fbn s = Ret (J, adr t J (slot fbn)) t \<and> same_file I J \<and> readied s t D N i J off z"
proof -
  note b = blocks_step [OF f(1) z] and az = step_empty [OF sz f] and other = step_other [OF sz f z] and zm = step_bounds(3, 4) [OF f z]
    and o1 = step_bounds(1, 2) [OF f z]
  have sl: "slot fbn = fbn" "adr s I fbn = i_addrs I fbn" using True by (simp_all add: slot_def adr_def)
  have "i_addrs I fbn = 0 \<Longrightarrow> unat (freeblock s) < FSSIZE" using b room az(1) sl True by simp
  from ensure_inode [where k = fbn, OF o i _ this] True obtain J t where J:
    "(if xint (i_addrs I fbn) = 0 then kbind next_block (\<lambda>b. kret (I\<lparr>i_addrs := (i_addrs I)(fbn := xint b)\<rparr>)) else kret I) s = Ret J t"
    "advance s t D (D(i := J)) N i fbn" "same_file I J" by auto
  have a: "adr t J l = adr s I l" if "l < 269" "l \<noteq> fbn" for l using advance_adr [OF J(2) i(1) that(1)] that(2) i(2) by simp
  have "adr t J fbn \<noteq> 0" using J(2) by (simp add: advance_def)
  then have "adr t J (slot g) \<noteq> 0 \<longleftrightarrow> BSIZE * g < z" if "g < MAXFILE" for g
    using other [OF that] a [of "slot g"] that zm(2) sl(1) by (cases "g = fbn") (auto simp: slot_def split: if_splits)
  moreover have "\<not> NDIRECT * BSIZE < off" "\<not> NDIRECT * BSIZE < z" using True z o1 by auto
  then have "adr t J NDIRECT \<noteq> 0 \<longleftrightarrow> NDIRECT * BSIZE < z" using a [of NDIRECT] az(2) True by simp
  ultimately have "sized t J z" using zm(1) by (simp add: sized_def)
  moreover have "iappend_block I fbn s = Ret (J, adr t J (slot fbn)) t"
    using True J(1) sl(1) unfolding iappend_block_def by (simp add: kbind_eval kret_eval adr_def)
  moreover have "unat (freeblock t) + blocks off = unat (freeblock s) + blocks z" using advance_free [OF J(2)] b az(1) sl True i(2) by auto
  moreover have "adr t (D j) l = adr s (D j) l" if "j \<in> {1..<N}" "l < MAXFILE + 1" "j \<noteq> i" for j l
    using advance_adr [OF J(2) that(1), of l] that by simp
  moreover have "owned t (D(i := J)) N" using J(2) by (simp add: advance_def)
  ultimately show ?thesis unfolding readied_def using J(3) advance_kept [OF o J(2) i(1)] by blast
qed

lemma iappend_indirect:
  assumes o: "owned s D N" and i: "i \<in> {1..<N}" "D i = I" and sz: "sized s I off"
    and f: "fbn = off div BSIZE" "fbn < MAXFILE" and z: "off < z" "z \<le> BSIZE * (fbn + 1)"
    and room: "unat (freeblock s) + blocks z \<le> FSSIZE + blocks off" and False: "\<not> fbn < NDIRECT"
  shows "\<exists>J t. iappend_block I fbn s = Ret (J, adr t J (slot fbn)) t \<and> same_file I J \<and> readied s t D N i J off z"
proof -
  note b = blocks_step [OF f(1) z] and az = step_empty [OF sz f] and other = step_other [OF sz f z] and zm = step_bounds(3, 4) [OF f z]
    and o1 = step_bounds(1, 2) [OF f z]
  have sl: "slot fbn = fbn + 1" "NDIRECT \<noteq> fbn + 1" "fbn + 1 < 269" using False f(2) by (simp_all add: slot_def)
  have "i_addrs I NDIRECT = 0 \<Longrightarrow> unat (freeblock s) < FSSIZE" using b room az(2) False by (simp add: adr_def)
  from ensure_inode [where k = NDIRECT, OF o i _ this] obtain J u where J:
    "(if xint (i_addrs I NDIRECT) = 0 then kbind next_block (\<lambda>b. kret (I\<lparr>i_addrs := (i_addrs I)(NDIRECT := xint b)\<rparr>)) else kret I) s = Ret J u"
    "advance s u D (D(i := J)) N i NDIRECT" "same_file I J" by auto
  have ou: "owned u (D(i := J)) N" using J(2) by (simp add: advance_def)
  have a: "adr u J l = adr s I l" if "l < 269" "l \<noteq> NDIRECT" for l using advance_adr [OF J(2) i(1) that(1)] that(2) i(2) by simp
  have nz: "i_addrs J NDIRECT \<noteq> 0" using J(2) by (simp add: advance_def adr_def)
  have fu: "unat (freeblock u) = unat (freeblock s) + (if adr s I NDIRECT = 0 then 1 else 0)" using advance_free [OF J(2)] i(2) by simp
  have "adr u J (fbn + 1) = 0 \<Longrightarrow> unat (freeblock u) < FSSIZE" using a [OF sl(3)] sl fu b room az False by auto
  from ensure_entry [OF ou i(1) _ refl _ f(2) refl nz this] False obtain c t where c:
    "(if get32 (sect u (i_addrs J NDIRECT)) (4 * (fbn - NDIRECT)) = 0 then
               kbind next_block (\<lambda>b.
               let indirect = put32 (sect u (i_addrs J NDIRECT)) (4 * (fbn - NDIRECT)) (xint b) in
               kthen (wsect (i_addrs J NDIRECT) indirect) (kret indirect))
             else kret (sect u (i_addrs J NDIRECT))) u = Ret c t" "get32 c (4 * (fbn - NDIRECT)) = adr t J (fbn + 1)"
    "advance u t (D(i := J)) (D(i := J)) N i (fbn + 1)" by auto
  have d: "adr t J l = adr u J l" if "l < 269" "l \<noteq> fbn + 1" for l using advance_adr [OF c(3) i(1) that(1)] that(2) by simp
  have "adr t J (slot fbn) \<noteq> 0" using c(3) sl by (simp add: advance_def)
  then have "adr t J (slot g) \<noteq> 0 \<longleftrightarrow> BSIZE * g < z" if "g < MAXFILE" for g
    using other [OF that] a [of "slot g"] d [of "slot g"] that zm(2) sl(1) slot_inj(1) [of g fbn] by (cases "g = fbn") auto
  moreover have "adr t J NDIRECT \<noteq> 0" using d [of NDIRECT] nz sl by (simp add: adr_def)
  moreover have "NDIRECT * BSIZE < z" using False z o1 by auto
  ultimately have "sized t J z" using zm(1) by (simp add: sized_def)
  moreover have "unat (i_addrs J NDIRECT) < FSSIZE" using owned_small [OF ou i(1), of NDIRECT] by (simp add: adr_def)
  then have rs: "rsect (i_addrs J NDIRECT) u = Ret (sect u (i_addrs J NDIRECT)) u" using ou by (simp add: rsect_eval owned_def)
  have "iappend_block I fbn s = Ret (J, adr t J (slot fbn)) t"
    unfolding iappend_block_def xint_id if_not_P [OF False]
    by (subst kbind_Ret, rule J(1) [unfolded xint_id], subst kbind_Ret, rule rs, subst kbind_Ret, rule c(1) [unfolded xint_id])
      (simp only: c(2) sl(1) kret_eval)
  moreover have "unat (freeblock t) + blocks off = unat (freeblock s) + blocks z"
    using advance_free [OF c(3)] fu a [OF sl(3)] b az sl False by auto
  moreover have "adr t (D j) l = adr s (D j) l" if "j \<in> {1..<N}" "l < MAXFILE + 1" "j \<noteq> i" for j l
    using advance_adr [OF J(2) that(1), of l] advance_adr [OF c(3) that(1), of l] that by simp
  moreover have "owned t (D(i := J)) N" using c(3) by (simp add: advance_def)
  ultimately show ?thesis unfolding readied_def using J(3) kept_trans [OF advance_kept [OF o J(2) i(1)] advance_kept [OF ou c(3) i(1)]] by blast
qed

lemma iappend_block_spec:
  assumes o: "owned s D N" and i: "i \<in> {1..<N}" "D i = I" and sz: "sized s I off"
    and f: "fbn = off div BSIZE" "fbn < MAXFILE" and z: "off < z" "z \<le> BSIZE * (fbn + 1)"
    and room: "unat (freeblock s) + blocks z \<le> FSSIZE + blocks off"
  shows "\<exists>J t. iappend_block I fbn s = Ret (J, adr t J (slot fbn)) t \<and> same_file I J \<and> readied s t D N i J off z"
  using iappend_direct [OF assms] iappend_indirect [OF assms] by blast

section \<open>Appending\<close>

text \<open>The first \<open>z\<close> bytes of a file.\<close>

definition bytes :: "mk_st \<Rightarrow> inode \<Rightarrow> nat \<Rightarrow> u8 list" where
  "bytes s I z = map (\<lambda>q. sect s (adr s I (slot (q div BSIZE))) (q mod BSIZE)) [0..<z]"

lemma bytes_size [simp]: "bytes s (I\<lparr>i_size := y\<rparr>) z = bytes s I z"
  by (simp add: bytes_def)

lemma sized_size [simp]: "sized s (I\<lparr>i_size := y\<rparr>) z = sized s I z"
  by (simp add: sized_def)

text \<open>What work on inode \<open>i\<close> leaves of the rest.\<close>

definition others :: "mk_st \<Rightarrow> mk_st \<Rightarrow> (nat \<Rightarrow> inode) \<Rightarrow> nat \<Rightarrow> nat \<Rightarrow> bool" where
  "others s t D N i \<longleftrightarrow> freeinode t = freeinode s \<and> (\<forall>x. unat x < 47 \<longrightarrow> sect t x = sect s x) \<and>
     (\<forall>j\<in>{1..<N}. j \<noteq> i \<longrightarrow> (\<forall>l<MAXFILE + 1. adr t (D j) l = adr s (D j) l) \<and>
        (\<forall>f<MAXFILE. adr s (D j) (slot f) \<noteq> 0 \<longrightarrow> sect t (adr s (D j) (slot f)) = sect s (adr s (D j) (slot f))))"

lemma others_refl: "others s s D N i"
  by (simp add: others_def)

lemma others_trans: "others s t D N i \<Longrightarrow> others t u (D(i := J)) N i \<Longrightarrow> others s u D N i"
  unfolding others_def by simp

lemma others_file:
  assumes o: "others s t D N i" and j: "j \<in> {1..<N}" "j \<noteq> i" and z: "sized s (D j) z"
  shows "sized t (D j) z" "bytes t (D j) z = bytes s (D j) z"
proof -
  have a: "adr t (D j) l = adr s (D j) l" if "l < 269" for l using o j that by (simp add: others_def)
  then show "sized t (D j) z" using z by (simp add: sized_def)
  have "sect t (adr t (D j) (slot (q div BSIZE))) = sect s (adr s (D j) (slot (q div BSIZE)))" if "q < z" for q
  proof -
    have "q div BSIZE < MAXFILE" "BSIZE * (q div BSIZE) < z" using that z by (auto simp: sized_def less_mult_imp_div_less le_less_trans [OF times_div_less_eq_dividend])
    then show ?thesis using o j a z by (simp add: others_def sized_def)
  qed
  then show "bytes t (D j) z = bytes s (D j) z" by (simp add: bytes_def)
qed

lemma kept_file:
  "kept s t D D' N \<Longrightarrow> j \<in> {1..<N} \<Longrightarrow> f < MAXFILE \<Longrightarrow> adr s (D j) (slot f) \<noteq> 0 \<Longrightarrow>
    adr t (D' j) (slot f) = adr s (D j) (slot f) \<and> sect t (adr s (D j) (slot f)) = sect s (adr s (D j) (slot f))"
  unfolding kept_def by blast

text \<open>One piece of the data: the block is found and written.\<close>

lemma piece_bytes:
  assumes o: "owned t (D(i := J)) N" and i: "i \<in> {1..<N}" "D i = I" and k: "kept s t D (D(i := J)) N" and sz: "sized s I off"
    and f: "fbn = off div BSIZE" "fbn < MAXFILE" and x: "x = adr t J (slot fbn)" "x \<noteq> 0"
    and p: "off + length p \<le> BSIZE * (fbn + 1)"
    and u: "u = t\<lparr>img := (img t)(x * 1024 := blit (sect t x) (off - fbn * BSIZE) p)\<rparr>"
  shows "bytes u J (off + length p) = bytes s I off @ p"
proof (rule nth_equalityI)
  show "length (bytes u J (off + length p)) = length (bytes s I off @ p)" by (simp add: bytes_def)
  fix q assume "q < length (bytes u J (off + length p))"
  then have q: "q < off + length p" by (simp add: bytes_def)
  have o1: "BSIZE * fbn \<le> off" "off < BSIZE * (fbn + 1)" using f(1) by (auto simp: mult.commute)
  have x': "x = adr t ((D(i := J)) i) (slot fbn)" using x by simp
  note w = slot_write [OF o i(1) f(2) x' x(2) u]
  have a: "adr u J l = adr t J l" if "l < 269" for l using w(2) [OF i(1)] that by simp
  have sx: "sect u x = blit (sect t x) (off - fbn * BSIZE) p" by (simp add: u)
  have b: "bytes u J (off + length p) ! q = sect u (adr u J (slot (q div BSIZE))) (q mod BSIZE)" using q by (simp add: bytes_def)
  show "bytes u J (off + length p) ! q = (bytes s I off @ p) ! q"
  proof (cases "q < off")
    case True
    let ?f = "q div BSIZE"
    have qf: "BSIZE * ?f \<le> q" "q mod BSIZE = q - BSIZE * ?f" by (simp_all add: minus_mult_div_eq_mod)
    have f': "?f < MAXFILE" "adr s I (slot ?f) \<noteq> 0"
      using True sz qf(1) f by (auto simp: sized_def intro: le_less_trans [OF div_le_mono [of q off]])
    then have e: "adr t J (slot ?f) = adr s I (slot ?f)" "sect t (adr s I (slot ?f)) = sect s (adr s I (slot ?f))"
      using kept_file [OF k i(1) f'(1)] i(2) by simp_all
    have "sect u (adr u J (slot ?f)) (q mod BSIZE) = sect s (adr s I (slot ?f)) (q mod BSIZE)"
    proof (cases "?f = fbn")
      case True
      then have "q mod BSIZE < off - fbn * BSIZE" using qf \<open>q < off\<close> by simp
      then show ?thesis using True sx x(1) e a [of "slot fbn"] f(2) by (simp add: blit_def)
    next
      case False
      have "unat (adr t J (slot ?f)) < 4000" using owned_small [OF o i(1), of "slot ?f"] f'(1) by simp
      moreover have "adr t J (slot ?f) \<noteq> x"
      proof
        assume "adr t J (slot ?f) = x"
        then have "slot fbn = slot ?f"
          using owned_inj [OF o i(1) i(1), of "slot fbn" "slot ?f"] f'(1) f(2) x by (simp del: slot_inj)
        then show False using False by simp
      qed
      ultimately show ?thesis using w(3) e a [of "slot ?f"] f'(1) by simp
    qed
    then show ?thesis using b True by (simp add: bytes_def nth_append)
  next
    case False
    have d: "q div BSIZE = fbn" using False q p o1 by (intro div_nat_eqI) auto
    then have m: "q mod BSIZE = q - fbn * BSIZE" by (metis minus_mult_div_eq_mod mult.commute)
    have "off - fbn * BSIZE \<le> q - fbn * BSIZE \<and> q - fbn * BSIZE < off - fbn * BSIZE + length p"
      "q - fbn * BSIZE - (off - fbn * BSIZE) = q - off" using False q o1 by auto
    then have "sect u x (q mod BSIZE) = p ! (q - off)" unfolding sx m blit_def by (simp only: if_True simp_thms)
    then show ?thesis using b d False x(1) a [of "slot fbn"] f(2) by (simp add: bytes_def nth_append)
  qed
qed

lemma blocks_mono: "y \<le> z \<Longrightarrow> blocks y \<le> blocks z"
  unfolding blocks_def by (auto intro: add_le_mono div_le_mono)

lemma kept_others:
  assumes o: "kept s t D (D(i := J)) N" and a: "\<forall>j\<in>{1..<N}. \<forall>l<MAXFILE + 1. j \<noteq> i \<longrightarrow> adr t (D j) l = adr s (D j) l"
  shows "others s t D N i"
  using o a unfolding kept_def others_def by simp

lemma write_others:
  assumes o: "owned t D N" and i: "i \<in> {1..<N}" and f: "f < MAXFILE" and x: "x = adr t (D i) (slot f)" "x \<noteq> 0"
    and u: "u = t\<lparr>img := (img t)(x * 1024 := b)\<rparr>"
  shows "others t u D N i"
proof -
  note w = slot_write [OF o i f x u]
  have "47 \<le> unat x" using owned_range [OF o i, of "slot f"] f x by simp
  then have "sect u y = sect t y" if "unat y < 47" for y using w(3) [of y] that by (cases "y = x") auto
  moreover have "sect u (adr t (D j) (slot g)) = sect t (adr t (D j) (slot g))" if j: "j \<in> {1..<N}" "j \<noteq> i" "g < MAXFILE" for j g
  proof -
    have "x \<noteq> adr t (D j) (slot g)" using owned_inj [OF o i j(1), of "slot f" "slot g"] f x j by auto
    then show ?thesis using w(3) [of "adr t (D j) (slot g)"] owned_small [OF o j(1), of "slot g"] j(3) by simp
  qed
  ultimately show ?thesis using w(2) u unfolding others_def by simp
qed

text \<open>The loop appends all of \<open>p\<close>, when the image has the blocks it needs.\<close>

lemma iappend_loop_spec:
  assumes "owned s D N" "i \<in> {1..<N}" "D i = I" "sized s I off" "off + length p \<le> MAXFILE * BSIZE"
    "unat (freeblock s) + blocks (off + length p) \<le> FSSIZE + blocks off"
  shows "\<exists>J t. iappend_loop I off p s = Ret (J, off + length p) t \<and> same_file I J \<and> owned t (D(i := J)) N \<and> sized t J (off + length p) \<and>
    unat (freeblock t) + blocks off = unat (freeblock s) + blocks (off + length p) \<and> others s t D N i \<and>
    bytes t J (off + length p) = bytes s I off @ p"
  using assms
proof (induction "length p" arbitrary: I off p s D rule: less_induct)
  case less
  note o = less.prems(1) and i = less.prems(2, 3) and sz = less.prems(4)
  show ?case
  proof (cases "p = []")
    case True
    have "D(i := I) = D" using i(2) by auto
    then show ?thesis using True o i sz same_file_refl others_refl by (simp add: iappend_loop.simps kmonad)
  next
    case False
    define fbn where "fbn = off div BSIZE"
    define n1 where "n1 = min (length p) ((fbn + 1) * BSIZE - off)"
    define z where "z = off + n1"
    have o1: "BSIZE * fbn \<le> off" "off < BSIZE * (fbn + 1)" unfolding fbn_def by (auto simp: mult.commute)
    have n: "0 < n1" "n1 \<le> length p" "z \<le> BSIZE * (fbn + 1)" "off < z" "z + length (drop n1 p) = off + length p" "length (take n1 p) = n1"
      using False o1 unfolding n1_def z_def by auto
    have f: "fbn < MAXFILE" using less.prems(5) n o1 by auto
    have "blocks z \<le> blocks (off + length p)" using n by (intro blocks_mono) (simp add: z_def)
    then have room: "unat (freeblock s) + blocks z \<le> FSSIZE + blocks off" using less.prems(6) by simp
    obtain J t where J: "iappend_block I fbn s = Ret (J, adr t J (slot fbn)) t" "same_file I J" "owned t (D(i := J)) N" "sized t J z"
      "unat (freeblock t) + blocks off = unat (freeblock s) + blocks z" "kept s t D (D(i := J)) N"
      "\<forall>j\<in>{1..<N}. \<forall>l<MAXFILE + 1. j \<noteq> i \<longrightarrow> adr t (D j) l = adr s (D j) l"
      using iappend_block_spec [OF o i sz fbn_def f n(4, 3) room] unfolding readied_def by blast
    define x where "x = adr t J (slot fbn)"
    have xi: "x = adr t ((D(i := J)) i) (slot fbn)" by (simp add: x_def)
    have x0: "x \<noteq> 0" using J(4) f o1 n(4) by (simp add: x_def sized_def)
    have xs: "unat x < FSSIZE" using owned_small [OF J(3) i(1), of "slot fbn"] f by (simp add: x_def)
    define u where "u = t\<lparr>img := (img t)(x * 1024 := blit (sect t x) (off - fbn * BSIZE) (take n1 p))\<rparr>"
    note w = slot_write [OF J(3) i(1) f xi x0 u_def]
    have au: "adr u J l = adr t J l" if "l < 269" for l using w(2) [OF i(1), of l] that by simp
    have su: "sized u J z" using J(4) au by (simp add: sized_def)
    have fl: "flen t = 2048000" "freeblock u = freeblock t" using J(3) by (simp_all add: owned_def u_def)
    have step: "iappend_loop I off p s = iappend_loop J z (drop n1 p) u"
      using False f J(1) fl xs by (subst iappend_loop.simps)
        (simp add: Let_def kbind_eval kthen_eval rsect_eval wsect_eval u_def z_def n1_def flip: fbn_def x_def)
    have bt: "bytes u J z = bytes s I off @ take n1 p"
      using piece_bytes [OF J(3) i J(6) sz fbn_def f x_def x0 _ u_def] n(3, 6) by (simp add: z_def)
    have lt: "length (drop n1 p) < length p" using n(1) False by (cases p) auto
    have "unat (freeblock u) + blocks (z + length (drop n1 p)) \<le> FSSIZE + blocks z"
      using less.prems(6) J(5) fl(2) n(5) by simp
    from less.hyps [OF lt w(1) i(1) fun_upd_same su _ this, unfolded n(5) fun_upd_upd] less.prems(5) obtain K v where K:
      "iappend_loop J z (drop n1 p) u = Ret (K, off + length p) v" "same_file J K" "owned v (D(i := K)) N" "sized v K (off + length p)"
      "unat (freeblock v) + blocks z = unat (freeblock u) + blocks (off + length p)" "others u v (D(i := J)) N i"
      "bytes v K (off + length p) = bytes u J z @ drop n1 p" by blast
    have "others s u D N i"
      by (rule others_trans [OF kept_others [OF J(6, 7)] write_others [OF J(3) i(1) f xi x0 u_def]])
    then have "others s v D N i" using K(6) by (rule others_trans)
    moreover have "unat (freeblock v) + blocks off = unat (freeblock s) + blocks (off + length p)" using K(5) J(5) fl(2) by simp
    moreover have "bytes v K (off + length p) = bytes s I off @ p" using K(7) bt by simp
    ultimately show ?thesis using step K(1, 3, 4) same_file_trans [OF J(2) K(2)] by auto
  qed
qed

section \<open>Inodes in the image\<close>

definition on_disk :: "inode \<Rightarrow> bool" where
  "on_disk I \<longleftrightarrow> i_dev I = 0 \<and> i_inum I = 0 \<and> i_ref I = 0 \<and> \<not> i_valid I \<and> (\<forall>k>NDIRECT. i_addrs I k = 0)"

lemma dinode_load_store:
  assumes "on_disk I"
  shows "dinode_load (dinode_store I off d) off blank_inode = I"
proof (rule inode.equality)
  show "i_addrs (dinode_load (dinode_store I off d) off blank_inode) = i_addrs I"
    using assms by (auto simp: fun_eq_iff on_disk_def dinode_load_def dinode_store_def put32s_get32 blank_inode_def
        simp del: fold_simps upt_Suc)
qed (use assms in \<open>simp_all add: on_disk_def dinode_load_def dinode_store_def put32s_get16 put32s_get32_before
      get16_put32_other get16_put16_other get16_put16 get32_put32 blank_inode_def del: fold_simps upt_Suc\<close>)

definition din :: "mk_st \<Rightarrow> nat \<Rightarrow> inode" where
  "din s i = dinode_load (sect s (IBLOCK (of_nat i) mk_super)) (dino_off (of_nat i)) blank_inode"

lemma on_disk_din: "on_disk (din s i)"
  by (simp add: on_disk_def din_def dinode_load_def blank_inode_def)

lemma iblock: "i < NINODES \<Longrightarrow> unat (IBLOCK (of_nat i) mk_super) = i div 16 + 33"
  by (simp add: IBLOCK_def mk_super_def Let_def nlog_def unat_word_ariths unat_div unat_of_nat)

lemma din_low: "(\<And>x. unat x < 47 \<Longrightarrow> sect t x = sect s x) \<Longrightarrow> i < NINODES \<Longrightarrow> din t i = din s i"
  using iblock [of i] by (simp add: din_def)

lemma rinode_eval: "flen s = 2048000 \<Longrightarrow> mk_sb s = mk_super \<Longrightarrow> i < NINODES \<Longrightarrow> rinode (of_nat i) s = Ret (din s i) s"
  using iblock [of i] by (simp add: rinode_def kmonad rsect_eval din_def)

lemma winode_eval:
  assumes "flen s = 2048000" "mk_sb s = mk_super" "i < NINODES" "on_disk I"
  shows "\<exists>t. winode (of_nat i) I s = Ret () t \<and> flen t = flen s \<and> mk_sb t = mk_sb s \<and> freeinode t = freeinode s \<and> freeblock t = freeblock s \<and>
    (\<forall>x. unat x < 4000 \<longrightarrow> unat x < 33 \<or> 46 \<le> unat x \<longrightarrow> sect t x = sect s x) \<and> (\<forall>j<NINODES. din t j = (if j = i then I else din s j))"
proof -
  let ?b = "IBLOCK (of_nat i) mk_super"
  let ?t = "s\<lparr>img := (img s)(?b * 1024 := dinode_store I (dino_off (of_nat i)) (sect s ?b))\<rparr>"
  have b: "unat ?b = i div 16 + 33" "unat ?b < 46" using iblock [OF assms(3)] assms(3) by auto
  have w: "winode (of_nat i) I s = Ret () ?t" using assms b by (simp add: winode_def kmonad Let_def rsect_eval wsect_eval)
  have "sect ?t x = sect s x" if "unat x < 4000" "unat x < 33 \<or> 46 \<le> unat x" for x
    using sect_upd [of ?b x s] that b by auto
  moreover have "din ?t j = (if j = i then I else din s j)" if j: "j < NINODES" for j
  proof (cases "j div 16 = i div 16")
    case True
    then have e: "IBLOCK (of_nat j) mk_super = ?b" using iblock [OF j] b by (metis unsigned_word_eqI)
    show ?thesis
    proof (cases "j = i")
      case False
      have "j mod 16 \<noteq> i mod 16" using True False by (metis div_mod_decomp)
      then have "dino_off (of_nat i) \<noteq> dino_off (of_nat j)" using j assms(3) by (simp add: dino_off_def unat_of_nat)
      then show ?thesis using False e dinode_load_other by (simp add: din_def)
    qed (simp add: din_def dinode_load_store assms(4))
  next
    case False
    then have "IBLOCK (of_nat j) mk_super \<noteq> ?b" using iblock [OF j] b by auto
    then show ?thesis using sect_upd [of ?b "IBLOCK (of_nat j) mk_super" s] iblock [OF j] b j False by (auto simp: din_def)
  qed
  ultimately show ?thesis using w by simp
qed

text \<open>Writes to the blocks of the inodes and of the bitmap leave the files.\<close>

lemma meta_write:
  assumes o: "owned u D N" and t: "flen t = flen u" "mk_sb t = mk_sb u" "freeblock t = freeblock u"
    and s: "\<forall>x. x = 0 \<or> 47 \<le> unat x \<longrightarrow> unat x < FSSIZE \<longrightarrow> sect t x = sect u x"
    and D: "\<forall>j\<in>{1..<N}. \<forall>k\<le>NDIRECT. i_addrs (D' j) k = i_addrs (D j) k"
  shows "owned t D' N" "\<And>j k. j \<in> {1..<N} \<Longrightarrow> k < 269 \<Longrightarrow> adr t (D' j) k = adr u (D j) k"
    "\<And>j z. j \<in> {1..<N} \<Longrightarrow> sized u (D j) z \<Longrightarrow> sized t (D' j) z \<and> bytes t (D' j) z = bytes u (D j) z"
proof -
  have in_range: "sect t (adr u (D j) k) = sect u (adr u (D j) k)" if "j \<in> {1..<N}" "k < 269" for j k
    using s [rule_format, of "adr u (D j) k"] owned_range [OF o that(1), of k] owned_small [OF o that(1), of k] that(2) by auto
  show a: "adr t (D' j) k = adr u (D j) k" if "j \<in> {1..<N}" "k < 269" for j k
    using D that(1) in_range [OF that(1), of NDIRECT] by (simp add: adr_def)
  have "sect t x = sect u x" if "unat (freeblock u) \<le> unat x" "unat x < FSSIZE" for x
    using s [rule_format, of x] that o by (simp add: owned_def)
  moreover have "sect t 0 = sect u 0" using s [rule_format, of 0] by simp
  ultimately show "owned t D' N" using o a unfolding owned_def t(1-3) by auto
  show "sized t (D' j) z \<and> bytes t (D' j) z = bytes u (D j) z" if j: "j \<in> {1..<N}" "sized u (D j) z" for j z
  proof
    show "sized t (D' j) z" using j a by (simp add: sized_def)
    have "q div BSIZE < MAXFILE" if "q < z" for q using that j(2) by (simp add: sized_def less_mult_imp_div_less)
    then show "bytes t (D' j) z = bytes u (D j) z" using a [OF j(1)] in_range [OF j(1)] by (simp add: bytes_def)
  qed
qed

section \<open>The image\<close>

text \<open>An image in which each inode has the blocks of its size, and the file of an inode.\<close>

definition fs_ok :: "mk_st \<Rightarrow> bool" where
  "fs_ok s \<longleftrightarrow> 1 \<le> unat (freeinode s) \<and> unat (freeinode s) \<le> NINODES \<and> owned s (din s) (unat (freeinode s)) \<and>
     (\<forall>i\<in>{1..<unat (freeinode s)}. sized s (din s i) (unat (i_size (din s i))))"

definition ifile :: "mk_st \<Rightarrow> nat \<Rightarrow> u16 \<times> u16 \<times> u8 list" where
  "ifile s i = (i_type (din s i), i_nlink (din s i), bytes s (din s i) (unat (i_size (din s i))))"

abbreviation fsize :: "mk_st \<Rightarrow> nat \<Rightarrow> nat" where
  "fsize s i \<equiv> unat (i_size (din s i))"

lemma bytes_length [simp]: "length (bytes s I z) = z"
  by (simp add: bytes_def)

lemma unat_small: "n < 2 ^ 32 \<Longrightarrow> unat (of_nat n :: u32) = n"
  by (simp add: unsigned_of_nat take_bit_nat_eq_self)

lemma iappend_spec:
  assumes ok: "fs_ok s" and i: "i \<in> {1..<unat (freeinode s)}" and len: "fsize s i + length p \<le> MAXFILE * BSIZE"
    and room: "unat (freeblock s) + blocks (fsize s i + length p) \<le> FSSIZE + blocks (fsize s i)"
    and fi: "ifile s i = (ty, nl, bs)"
  shows "\<exists>t. iappend (of_nat i) p s = Ret () t \<and> fs_ok t \<and> freeinode t = freeinode s \<and> sect t 1 = sect s 1 \<and> ifile t i = (ty, nl, bs @ p) \<and>
    (\<forall>j\<in>{1..<unat (freeinode s)}. j \<noteq> i \<longrightarrow> ifile t j = ifile s j) \<and>
    unat (freeblock t) + blocks (fsize s i) = unat (freeblock s) + blocks (fsize s i + length p)"
proof -
  let ?N = "unat (freeinode s)" and ?z = "fsize s i + length p"
  have o: "owned s (din s) ?N" and sz: "sized s (din s i) (fsize s i)" and N: "?N \<le> NINODES" using ok i by (auto simp: fs_ok_def)
  have fl: "flen s = 2048000" "mk_sb s = mk_super" using o by (simp_all add: owned_def)
  have iN: "i < NINODES" using i N by auto
  obtain J u where J: "iappend_loop (din s i) (fsize s i) p s = Ret (J, ?z) u" "same_file (din s i) J" "owned u ((din s)(i := J)) ?N"
    "sized u J ?z" "unat (freeblock u) + blocks (fsize s i) = unat (freeblock s) + blocks ?z" "others s u (din s) ?N i"
    "bytes u J ?z = bytes s (din s i) (fsize s i) @ p"
    using iappend_loop_spec [OF o i refl sz len room] by blast
  have uz: "unat (of_nat ?z :: u32) = ?z" by (rule unat_small) (use len in simp)
  have low: "sect u x = sect s x" if "unat x < 47" for x using J(6) that by (simp add: others_def)
  have fu: "flen u = 2048000" "mk_sb u = mk_super" "freeinode u = freeinode s" using J(3, 6) by (simp_all add: owned_def others_def)
  let ?J = "J\<lparr>i_size := of_nat ?z\<rparr>"
  have "on_disk ?J" using J(2) on_disk_din [of s i] by (auto simp: same_file_def on_disk_def)
  from winode_eval [OF fu(1, 2) iN this] obtain t where t: "winode (of_nat i) ?J u = Ret () t" "flen t = flen u" "mk_sb t = mk_sb u"
    "freeinode t = freeinode u" "freeblock t = freeblock u" "\<And>x. unat x < 4000 \<Longrightarrow> unat x < 33 \<or> 46 \<le> unat x \<Longrightarrow> sect t x = sect u x"
    "\<And>j. j < NINODES \<Longrightarrow> din t j = (if j = i then ?J else din u j)" by blast
  have run: "iappend (of_nat i) p s = Ret () t"
    unfolding iappend_def using fl iN J(1) t(1) by (simp add: kbind_eval rinode_eval)
  have dt: "din t j = ((din s)(i := ?J)) j" if "j \<in> {1..<?N}" for j using t(7) [of j] din_low [OF low, of j] that N by simp
  have "i_addrs (din t j) k = i_addrs (((din s)(i := J)) j) k" if "j \<in> {1..<?N}" for j k using dt [OF that] by simp
  then have D: "\<forall>j\<in>{1..<?N}. \<forall>k\<le>NDIRECT. i_addrs (din t j) k = i_addrs (((din s)(i := J)) j) k" by blast
  have hi: "\<forall>x. x = 0 \<or> 47 \<le> unat x \<longrightarrow> unat x < FSSIZE \<longrightarrow> sect t x = sect u x"
    using t(6) by (intro allI impI) (auto simp del: mult_zero_left)
  note m = meta_write [where D' = "din t", OF J(3) t(2, 3, 5) hi D]
  have mi: "sized t (din t i) ?z \<and> bytes t (din t i) ?z = bytes u J ?z" using m(3) [OF i, of ?z] J(4) by auto
  have zi: "fsize t i = ?z" using dt [OF i] uz by simp
  have fj: "sized t (din t j) (fsize t j) \<and> ifile t j = ifile s j" if j: "j \<in> {1..<?N}" "j \<noteq> i" for j
  proof -
    have e: "din t j = din s j" using dt [OF j(1)] j(2) by simp
    have "sized s (din s j) (fsize s j)" using ok j(1) by (simp add: fs_ok_def)
    note k = others_file [OF J(6) j this]
    have "sized t (din t j) (fsize s j) \<and> bytes t (din t j) (fsize s j) = bytes u (din s j) (fsize s j)"
      using m(3) [OF j(1), of "fsize s j"] k(1) j(2) by auto
    then show ?thesis using e k by (simp add: ifile_def)
  qed
  have "fs_ok t" unfolding fs_ok_def
  proof (intro conjI ballI)
    show "1 \<le> unat (freeinode t)" "unat (freeinode t) \<le> NINODES" using i N t(4) fu(3) by simp_all
    show "owned t (din t) (unat (freeinode t))" using m(1) t(4) fu(3) by auto
    fix j assume "j \<in> {1..<unat (freeinode t)}"
    then show "sized t (din t j) (fsize t j)" using fj [of j] mi zi t(4) fu(3) by (cases "j = i") auto
  qed
  moreover have "ifile t i = (ty, nl, bs @ p)" using fi mi zi J(2, 7) dt [OF i] by (auto simp: ifile_def same_file_def)
  moreover have "sect t 1 = sect s 1" using t(6) [of 1] low [of 1] by simp
  ultimately show ?thesis using run t(4, 5) fu(3) J(5) fj by auto
qed

lemma owned_extend:
  assumes o: "owned t D N" and z: "\<forall>k<MAXFILE + 1. adr t (D N) k = 0"
  shows "owned t D (Suc N)"
proof -
  have e: "j \<in> {1..<N}" if "j \<in> {1..<Suc N}" "k < MAXFILE + 1" "adr t (D j) k \<noteq> 0" for j k
    using z that by (cases "j = N") auto
  have "47 \<le> unat (adr t (D i) k) \<and> unat (adr t (D i) k) < unat (freeblock t)"
    if "i \<in> {1..<Suc N}" "k < MAXFILE + 1" "adr t (D i) k \<noteq> 0" for i k
    by (rule owned_range [OF o e [OF that] that(2, 3)])
  moreover have "i = j \<and> k = l" if i: "i \<in> {1..<Suc N}" "j \<in> {1..<Suc N}" "k < MAXFILE + 1" "l < MAXFILE + 1" "adr t (D i) k \<noteq> 0"
    "adr t (D i) k = adr t (D j) l" for i j k l
    using owned_inj [OF o e [OF i(1, 3, 5)] e [OF i(2, 4)] i(3, 4, 5, 6)] i(5, 6) by simp
  ultimately show ?thesis using o unfolding owned_def by blast
qed

lemma ialloc_spec:
  assumes ok: "fs_ok s" and N: "unat (freeinode s) = N" "N < NINODES"
  shows "\<exists>t. ialloc_mk ty s = Ret (of_nat N) t \<and> fs_ok t \<and> unat (freeinode t) = Suc N \<and> freeblock t = freeblock s \<and> sect t 1 = sect s 1 \<and>
    ifile t N = (ty, 1, []) \<and> (\<forall>j\<in>{1..<N}. ifile t j = ifile s j)"
proof -
  let ?I = "blank_inode\<lparr>i_type := ty, i_nlink := 1, i_size := 0\<rparr>" and ?s = "s\<lparr>freeinode := freeinode s + 1\<rparr>"
  have o: "owned s (din s) N" using ok N by (simp add: fs_ok_def)
  have fl: "flen ?s = 2048000" "mk_sb ?s = mk_super" using o by (simp_all add: owned_def)
  have iN: "freeinode s = of_nat N" using N by auto
  have "on_disk ?I" by (simp add: on_disk_def blank_inode_def)
  from winode_eval [OF fl N(2) this] obtain t where t: "winode (of_nat N) ?I ?s = Ret () t" "flen t = flen s" "mk_sb t = mk_sb s"
    "freeinode t = freeinode s + 1" "freeblock t = freeblock s" "\<And>x. unat x < 4000 \<Longrightarrow> unat x < 33 \<or> 46 \<le> unat x \<Longrightarrow> sect t x = sect s x"
    "\<And>j. j < NINODES \<Longrightarrow> din t j = (if j = N then ?I else din ?s j)" by auto
  have ds: "din ?s j = din s j" for j by (simp add: din_def)
  have dt: "din t j = din s j" if "j \<in> {1..<N}" for j using t(7) [of j] that N ds by simp
  have dN: "din t N = ?I" using t(7) [OF N(2)] by simp
  have hi: "\<forall>x. x = 0 \<or> 47 \<le> unat x \<longrightarrow> unat x < FSSIZE \<longrightarrow> sect t x = sect s x"
    using t(6) by (intro allI impI) (auto simp del: mult_zero_left)
  have "\<forall>j\<in>{1..<N}. \<forall>k\<le>NDIRECT. i_addrs (din t j) k = i_addrs (din s j) k" using dt by simp
  note m = meta_write [where D' = "din t", OF o t(2, 3, 5) hi this]
  have z0: "sect t 0 = (\<lambda>_. 0)" using m(1) by (simp add: owned_def)
  have aN: "\<forall>k<MAXFILE + 1. adr t (din t N) k = 0" using z0 by (simp add: adr_def dN blank_inode_def get32_def)
  have fN: "unat (freeinode t) = Suc N" using t(4) N by (simp add: unat_word_ariths)
  have sN: "sized t (din t N) (fsize t N)" using aN by (simp add: sized_def dN)
  have fj: "sized t (din t j) (fsize t j) \<and> ifile t j = ifile s j" if j: "j \<in> {1..<N}" for j
    using m(3) [OF j, of "fsize s j"] ok j N dt [OF j] by (simp add: fs_ok_def ifile_def)
  have "fs_ok t" unfolding fs_ok_def fN
  proof (intro conjI ballI)
    show "1 \<le> Suc N" "Suc N \<le> NINODES" using N by simp_all
    show "owned t (din t) (Suc N)" by (rule owned_extend [OF m(1) aN])
    fix j assume "j \<in> {1..<Suc N}"
    then show "sized t (din t j) (fsize t j)" using fj [of j] sN by (cases "j = N") auto
  qed
  moreover have "ifile t N = (ty, 1, [])" by (simp add: ifile_def dN bytes_def)
  moreover have "ialloc_mk ty s = Ret (of_nat N) t" using t(1) iN by (simp add: ialloc_mk_def kbind_eval kthen_eval kmonad)
  moreover have "sect t 1 = sect s 1" using t(6) [of 1] by simp
  ultimately show ?thesis using t(5) fN fj by auto
qed

section \<open>The files of the image\<close>

text \<open>An image with the directory \<open>root\<close> and the files \<open>fs\<close>, which has used no more blocks than they need.\<close>

definition need :: "u8 list list \<Rightarrow> nat" where
  "need fs = sum_list (map (\<lambda>f. blocks (length f)) fs)"

definition holds :: "mk_st \<Rightarrow> u8 list \<Rightarrow> u8 list list \<Rightarrow> bool" where
  "holds s root fs \<longleftrightarrow> fs_ok s \<and> unat (freeinode s) = length fs + 2 \<and> sect s 1 = sb_bytes mk_super \<and> ifile s 1 = (T_DIR, 1, root) \<and>
     (\<forall>k<length fs. ifile s (k + 2) = (T_FILE, 1, fs ! k)) \<and> unat (freeblock s) = 47 + blocks (length root) + need fs"

lemma ifile_size: "ifile s i = (ty, nl, bs) \<Longrightarrow> fsize s i = length bs"
  by (auto simp: ifile_def)

lemma need_snoc [simp]: "need (fs @ [f]) = need fs + blocks (length f)"
  by (simp add: need_def)

lemma append_root:
  assumes h: "holds s root fs" and len: "length root + length p \<le> MAXFILE * BSIZE"
    and room: "47 + blocks (length root + length p) + need fs \<le> FSSIZE"
  shows "\<exists>t. iappend 1 p s = Ret () t \<and> holds t (root @ p) fs"
proof -
  have r: "ifile s 1 = (T_DIR, 1, root)" and i: "1 \<in> {1..<unat (freeinode s)}" and ok: "fs_ok s" using h by (auto simp: holds_def)
  have z: "fsize s 1 = length root" by (rule ifile_size [OF r])
  have "unat (freeblock s) + blocks (fsize s 1 + length p) \<le> FSSIZE + blocks (fsize s 1)" using room h z by (simp add: holds_def)
  from iappend_spec [OF ok i _ this r] len z obtain t where t: "iappend (of_nat 1) p s = Ret () t" "fs_ok t" "freeinode t = freeinode s"
    "sect t 1 = sect s 1" "ifile t 1 = (T_DIR, 1, root @ p)" "\<forall>j\<in>{1..<unat (freeinode s)}. j \<noteq> 1 \<longrightarrow> ifile t j = ifile s j"
    "unat (freeblock t) + blocks (fsize s 1) = unat (freeblock s) + blocks (fsize s 1 + length p)" by auto
  have "ifile t (k + 2) = (T_FILE, 1, fs ! k)" if "k < length fs" for k using t(6) h that by (simp add: holds_def)
  then have "holds t (root @ p) fs" using t h z by (simp add: holds_def)
  then show ?thesis using t(1) by auto
qed

lemma append_last:
  assumes h: "holds s root (fs @ [f])" and len: "length f + length p \<le> MAXFILE * BSIZE"
    and room: "47 + blocks (length root) + need fs + blocks (length f + length p) \<le> FSSIZE"
  shows "\<exists>t. iappend (of_nat (length fs + 2)) p s = Ret () t \<and> holds t root (fs @ [f @ p])"
proof -
  let ?i = "length fs + 2"
  have r: "ifile s ?i = (T_FILE, 1, f)" and i: "?i \<in> {1..<unat (freeinode s)}" and ok: "fs_ok s" using h by (auto simp: holds_def)
  have z: "fsize s ?i = length f" by (rule ifile_size [OF r])
  have "unat (freeblock s) + blocks (fsize s ?i + length p) \<le> FSSIZE + blocks (fsize s ?i)" using room h unfolding z by (simp add: holds_def)
  from iappend_spec [OF ok i _ this r] len z obtain t where t: "iappend (of_nat ?i) p s = Ret () t" "fs_ok t" "freeinode t = freeinode s"
    "sect t 1 = sect s 1" "ifile t ?i = (T_FILE, 1, f @ p)" "\<forall>j\<in>{1..<unat (freeinode s)}. j \<noteq> ?i \<longrightarrow> ifile t j = ifile s j"
    "unat (freeblock t) + blocks (fsize s ?i) = unat (freeblock s) + blocks (fsize s ?i + length p)" by auto
  have "ifile t (k + 2) = (T_FILE, 1, (fs @ [f @ p]) ! k)" if "k < length (fs @ [f @ p])" for k
  proof (cases "k = length fs")
    case False
    then have "ifile s (k + 2) = (T_FILE, 1, fs ! k)" "k < length fs" using h that by (auto simp: holds_def nth_append)
    then show ?thesis using t(6) h False by (simp add: holds_def nth_append)
  qed (use t(5) in simp)
  moreover have "unat (freeblock t) = 47 + blocks (length root) + need (fs @ [f @ p])" using t(7) h unfolding z by (simp add: holds_def)
  moreover have "ifile t 1 = (T_DIR, 1, root)" using t(6) h by (simp add: holds_def)
  ultimately have "holds t root (fs @ [f @ p])" using t(2-4) h by (simp add: holds_def)
  then show ?thesis using t(1) by auto
qed

lemma new_file:
  assumes h: "holds s root fs" and n: "length fs + 2 < NINODES"
  shows "\<exists>t. ialloc_mk T_FILE s = Ret (of_nat (length fs + 2)) t \<and> holds t root (fs @ [[]])"
proof -
  have ok: "fs_ok s" "unat (freeinode s) = length fs + 2" using h by (simp_all add: holds_def)
  obtain t where t: "ialloc_mk T_FILE s = Ret (of_nat (length fs + 2)) t" "fs_ok t" "unat (freeinode t) = Suc (length fs + 2)"
    "freeblock t = freeblock s" "sect t 1 = sect s 1" "ifile t (length fs + 2) = (T_FILE, 1, [])" "\<forall>j\<in>{1..<length fs + 2}. ifile t j = ifile s j"
    using ialloc_spec [OF ok n] by blast
  have "ifile t (k + 2) = (T_FILE, 1, (fs @ [[]]) ! k)" if "k < length (fs @ [[]])" for k
    using t(6, 7) h that by (cases "k = length fs") (auto simp: holds_def nth_append)
  moreover have "ifile t 1 = (T_DIR, 1, root)" using t(7) h by (simp add: holds_def)
  ultimately have "holds t root (fs @ [[]])" using t h by (simp add: holds_def blocks_def)
  then show ?thesis using t(1) by auto
qed

lemma append_pieces:
  assumes "holds s root (fs @ [f])" "length f + length (concat ps) \<le> MAXFILE * BSIZE"
    "47 + blocks (length root) + need fs + blocks (length f + length (concat ps)) \<le> FSSIZE"
  shows "\<exists>t. kfor ps (iappend (of_nat (length fs + 2))) s = Ret () t \<and> holds t root (fs @ [f @ concat ps])"
  using assms
proof (induction ps arbitrary: f s)
  case Nil
  then show ?case by (simp add: kmonad)
next
  case (Cons p ps)
  have "blocks (length f + length p) \<le> blocks (length f + length (concat (p # ps)))" by (rule blocks_mono) simp
  then obtain u where u: "iappend (of_nat (length fs + 2)) p s = Ret () u" "holds u root (fs @ [f @ p])"
    using append_last [OF Cons.prems(1), of p] Cons.prems(2, 3) by auto
  obtain t where "kfor ps (iappend (of_nat (length fs + 2))) u = Ret () t" "holds t root (fs @ [(f @ p) @ concat ps])"
    using Cons.IH [OF u(2)] Cons.prems(2, 3) by (auto simp: add.assoc)
  then show ?case using u(1) by (simp add: kthen_eval)
qed

text \<open>An argument: the name in the directory and the contents of the file.\<close>

definition arg_name :: "u8 list \<Rightarrow> u8 list" where
  "arg_name a = skip_underscore (shortname a)"

definition arg_data :: "(u8 list \<Rightarrow> u8 list list option) \<Rightarrow> u8 list \<Rightarrow> u8 list" where
  "arg_data host a = (case host a of None \<Rightarrow> [] | Some ps \<Rightarrow> concat (takeWhile (\<lambda>p. p \<noteq> []) ps))"

definition arg_ok :: "(u8 list \<Rightarrow> u8 list list option) \<Rightarrow> u8 list \<Rightarrow> bool" where
  "arg_ok host a \<longleftrightarrow> slash \<notin> set (shortname a) \<and> length (arg_name a) \<le> DIRSIZ \<and> host a \<noteq> None \<and> length (arg_data host a) \<le> MAXFILE * BSIZE"

primrec entries :: "nat \<Rightarrow> u8 list list \<Rightarrow> u8 list" where
  "entries n [] = []"
| "entries n (a # as) = mk_dirent (of_nat n) (arg_name a) @ entries (Suc n) as"

lemma mk_dirent_length [simp]: "length (mk_dirent i nm) = 16"
  by (simp add: mk_dirent_def)

lemma ucast_inum: "ucast (of_nat n :: u32) = (of_nat n :: u16)"
  by (rule bit_word_eqI) (auto simp: bit_simps)

lemma add_file_spec:
  assumes h: "holds s root fs" and a: "arg_ok host a" and n: "length fs + 2 < NINODES" and len: "length root + 16 \<le> MAXFILE * BSIZE"
    and room: "47 + blocks (length root + 16) + need fs + blocks (length (arg_data host a)) \<le> FSSIZE"
  shows "\<exists>t. add_file host 1 a s = Ret () t \<and> holds t (root @ mk_dirent (of_nat (length fs + 2)) (arg_name a)) (fs @ [arg_data host a])"
proof -
  obtain ps where ps: "host a = Some ps" "arg_data host a = concat (takeWhile (\<lambda>p. p \<noteq> []) ps)" using a by (auto simp: arg_ok_def arg_data_def)
  let ?e = "mk_dirent (of_nat (length fs + 2)) (arg_name a)"
  obtain u where u: "ialloc_mk T_FILE s = Ret (of_nat (length fs + 2)) u" "holds u root (fs @ [[]])" using new_file [OF h n] by blast
  obtain v where v: "iappend 1 ?e u = Ret () v" "holds v (root @ ?e) (fs @ [[]])"
    using append_root [OF u(2), of ?e] len room by (auto simp: blocks_def [of 0])
  obtain t where t: "kfor (takeWhile (\<lambda>p. p \<noteq> []) ps) (iappend (of_nat (length fs + 2))) v = Ret () t" "holds t (root @ ?e) (fs @ [arg_data host a])"
    using append_pieces [OF v(2), of "takeWhile (\<lambda>p. p \<noteq> []) ps"] a room ps by (auto simp: arg_ok_def)
  have e: "mk_dirent (xshort (ucast (of_nat (length fs + 2) :: u32))) (skip_underscore (shortname a)) = ?e"
    unfolding xshort_id ucast_inum arg_name_def ..
  have "add_file host 1 a s = kbind (ialloc_mk T_FILE) (\<lambda>inum.
      kthen (iappend 1 (mk_dirent (xshort (ucast inum)) (skip_underscore (shortname a)))) (kfor (takeWhile (\<lambda>p. p \<noteq> []) ps) (iappend inum))) s"
    using a ps(1) by (simp add: add_file_def arg_ok_def arg_name_def Let_def)
  also have "\<dots> = Ret () t"
    by (subst kbind_Ret, rule u(1), subst e, subst kthen_Ret, rule v(1)) (rule t(1))
  finally show ?thesis using t(2) by blast
qed

lemma add_files_spec:
  assumes "holds s root fs" "\<forall>a\<in>set args. arg_ok host a" "length fs + length args + 2 \<le> NINODES"
    "length root + 16 * length args \<le> MAXFILE * BSIZE"
    "47 + blocks (length root + 16 * length args) + need fs + need (map (arg_data host) args) \<le> FSSIZE"
  shows "\<exists>t. kfor args (add_file host 1) s = Ret () t \<and> holds t (root @ entries (length fs + 2) args) (fs @ map (arg_data host) args)"
  using assms
proof (induction args arbitrary: s root fs)
  case Nil
  then show ?case by (simp add: kmonad)
next
  case (Cons a args)
  let ?e = "mk_dirent (of_nat (length fs + 2)) (arg_name a)"
  have n: "need (map (arg_data host) (a # args)) = blocks (length (arg_data host a)) + need (map (arg_data host) args)" by (simp add: need_def)
  have "blocks (length root + 16) \<le> blocks (length root + 16 * length (a # args))" by (rule blocks_mono) simp
  then have "47 + blocks (length root + 16) + need fs + blocks (length (arg_data host a)) \<le> FSSIZE" using Cons.prems(5) n by linarith
  from add_file_spec [OF Cons.prems(1) _ _ _ this] Cons.prems(2-4)
  obtain u where u: "add_file host 1 a s = Ret () u" "holds u (root @ ?e) (fs @ [arg_data host a])" by auto
  have l: "length (root @ ?e) + 16 * length args = length root + 16 * length (a # args)" by simp
  have r: "47 + blocks (length (root @ ?e) + 16 * length args) + need (fs @ [arg_data host a]) + need (map (arg_data host) args) \<le> FSSIZE"
    using Cons.prems(5) unfolding l n by simp
  obtain t where t: "kfor args (add_file host 1) u = Ret () t"
    "holds t ((root @ ?e) @ entries (length (fs @ [arg_data host a]) + 2) args) ((fs @ [arg_data host a]) @ map (arg_data host) args)"
    using Cons.IH [OF u(2) _ _ _ r] Cons.prems(2-4) by auto
  then show ?case using u(1) by (simp add: kthen_eval)
qed

lemma mk_super_eq:
  "mk_super = \<lparr>sb_magic = FSMAGIC, sb_size = 2000, sb_nblocks = 1953, sb_ninodes = 200, sb_nlog = 31, sb_logstart = 2,
     sb_inodestart = 33, sb_bmapstart = 46\<rparr>"
  by (simp add: mk_super_def Let_def nlog_def ninodeblocks_def nbitmap_def)

lemma zero_blocks:
  assumes z: "img s = (\<lambda>_ _. 0)" and f: "flen s = 0"
  shows "kfor [0..<FSSIZE] (\<lambda>i. wsect (of_nat i) (\<lambda>_. 0)) s = Ret () (s\<lparr>flen := 2048000\<rparr>)"
proof -
  have "\<exists>t. kfor [0..<FSSIZE] (\<lambda>i. wsect (of_nat i) (\<lambda>_. 0)) s = Ret () t \<and> t = s\<lparr>flen := FSSIZE * BSIZE\<rparr>"
  proof (rule kfor_upt)
    show "s = s\<lparr>flen := 0 * BSIZE\<rparr>" using f by simp
    fix i u assume i: "i < FSSIZE" and u: "u = s\<lparr>flen := i * BSIZE\<rparr>"
    have "unat (of_nat i :: u32) = i" using i by (intro unat_small) simp
    then have o: "unat (of_nat i * 1024 :: u32) = i * 1024" using sec_off [of "of_nat i"] i by simp
    have "(img s)(of_nat i * 1024 := \<lambda>_. 0) = img s" using z by auto
    then show "\<exists>t. wsect (of_nat i) (\<lambda>_. 0) u = Ret () t \<and> t = s\<lparr>flen := Suc i * BSIZE\<rparr>" using o u by (simp add: wsect_def kmonad)
  qed
  then show ?thesis by simp
qed

text \<open>The empty image, and the directory with its first two entries.\<close>

lemma empty_image:
  assumes "img s = (\<lambda>_ _. 0)" "flen s = 2048000" "mk_sb s = mk_super" "freeinode s = 1" "freeblock s = 47"
  shows "\<exists>t. kthen (wsect 1 (sb_bytes mk_super)) (ialloc_mk T_DIR) s = Ret 1 t \<and> holds t [] []"
proof -
  let ?u = "s\<lparr>img := (img s)(1 * 1024 := sb_bytes mk_super)\<rparr>"
  have w: "wsect 1 (sb_bytes mk_super) s = Ret () ?u" using assms(2) by (rule wsect_eval) simp
  have y: "sect ?u x = (if x = 1 then sb_bytes mk_super else (\<lambda>_. 0))" if "unat x < 4000" for x
    using sect_upd [of 1 x s "sb_bytes mk_super"] that assms(1) by simp
  have "sect ?u x = (\<lambda>_. 0)" if "47 \<le> unat x" "unat x < FSSIZE" for x using y [of x] that by auto
  moreover have "sect ?u 0 = (\<lambda>_. 0)" using y [of 0] by simp
  ultimately have "fs_ok ?u" using assms by (simp add: fs_ok_def owned_def)
  moreover have "unat (freeinode ?u) = 1" using assms(4) by simp
  ultimately obtain t where t: "ialloc_mk T_DIR ?u = Ret (of_nat 1) t" "fs_ok t" "unat (freeinode t) = Suc 1" "freeblock t = freeblock ?u"
    "sect t 1 = sect ?u 1" "ifile t 1 = (T_DIR, 1, [])" using ialloc_spec [of ?u 1 T_DIR] by auto
  have "holds t [] []" using t assms(5) y [of 1] by (simp add: holds_def need_def blocks_def)
  then show ?thesis using t(1) w by (simp add: kthen_eval)
qed

definition root_dir :: "u8 list list \<Rightarrow> u8 list" where
  "root_dir args = mk_dirent 1 [46] @ mk_dirent 1 [46, 46] @ entries 2 args"

lemma entries_length [simp]: "length (entries n args) = 16 * length args"
  by (induction args arbitrary: n) simp_all

lemma bitmap_fold:
  "bit (fold (\<lambda>i buf. buf(i div 8 := buf (i div 8) OR bit_mask i)) [0..<n] (\<lambda>_. 0) (b div 8)) (b mod 8) \<longleftrightarrow> b < n"
proof (induction n)
  case (Suc n)
  have "bit (bit_mask n) (b mod 8) \<longleftrightarrow> b mod 8 = n mod 8"
    unfolding bit_mask_def by (auto simp: bit_simps)
  then show ?case using Suc div_mod_decomp [of b 8] div_mod_decomp [of n 8]
    by (cases "b div 8 = n div 8"; cases "b mod 8 = n mod 8") (auto simp: bit_or_iff less_Suc_eq)
qed simp

text \<open>The last steps: the size of the directory is rounded up and the bitmap is written.\<close>

lemma balloc_eval:
  assumes "flen s = 2048000" "mk_sb s = mk_super" "unat b \<le> FSSIZE"
  shows "\<exists>t. balloc_mk b s = Ret () t \<and> flen t = flen s \<and> mk_sb t = mk_sb s \<and> freeblock t = freeblock s \<and>
    (\<forall>x. unat x < 4000 \<longrightarrow> x \<noteq> 46 \<longrightarrow> sect t x = sect s x) \<and> (\<forall>k. bit (sect t 46 (k div 8)) (k mod 8) \<longleftrightarrow> k < unat b)"
proof -
  let ?m = "fold (\<lambda>i buf. buf(i div 8 := buf (i div 8) OR bit_mask i)) [0..<unat b] (\<lambda>_. 0)"
  let ?t = "s\<lparr>img := (img s)(46 * 1024 := ?m)\<rparr>"
  have "sint b = int (unat b)" using sint_small [of "unat b"] assms(3) by simp
  then have "sint b < int BPB" "nat (sint b) = unat b" using assms(3) by linarith+
  then have "balloc_mk b s = Ret () ?t" using assms by (simp add: balloc_mk_def kmonad mk_super_eq wsect_eval)
  moreover have "sect ?t x = sect s x" if "unat x < 4000" "x \<noteq> 46" for x using sect_upd [of 46 x s ?m] that by simp
  ultimately show ?thesis using bitmap_fold [of "unat b"] by simp
qed

lemma finish_spec:
  assumes h: "holds s root fs" and N: "length fs + 2 \<le> NINODES"
  shows "\<exists>t. kthen (fix_root 1) (kbind (kget freeblock) balloc_mk) s = Ret () t \<and> freeblock t = freeblock s \<and> sect t 1 = sect s 1 \<and>
    owned t (din t) (length fs + 2) \<and>
    (\<forall>k<length fs. ifile t (k + 2) = (T_FILE, 1, fs ! k)) \<and> i_type (din t 1) = T_DIR \<and> bytes t (din t 1) (length root) = root \<and>
    (\<forall>b. bit (sect t 46 (b div 8)) (b mod 8) \<longleftrightarrow> b < unat (freeblock t))"
proof -
  let ?N = "length fs + 2" and ?I = "(din s 1)\<lparr>i_size := (i_size (din s 1) div 1024 + 1) * 1024\<rparr>"
  have ok: "fs_ok s" "unat (freeinode s) = ?N" and r: "ifile s 1 = (T_DIR, 1, root)" using h by (simp_all add: holds_def)
  have o: "owned s (din s) ?N" and sz: "\<And>i. i \<in> {1..<?N} \<Longrightarrow> sized s (din s i) (fsize s i)"
    using ok(1) unfolding fs_ok_def ok(2) by blast+
  have fl: "flen s = 2048000" "mk_sb s = mk_super" "unat (freeblock s) \<le> FSSIZE" using o by (simp_all add: owned_def)
  have "on_disk ?I" using on_disk_din [of s 1] by (simp add: on_disk_def)
  from winode_eval [OF fl(1, 2) _ this, of 1] obtain u where u: "winode 1 ?I s = Ret () u" "flen u = flen s" "mk_sb u = mk_sb s"
    "freeblock u = freeblock s" "\<And>x. unat x < 4000 \<Longrightarrow> unat x < 33 \<or> 46 \<le> unat x \<Longrightarrow> sect u x = sect s x"
    "\<And>j. j < NINODES \<Longrightarrow> din u j = (if j = 1 then ?I else din s j)" by auto
  have fu: "fix_root 1 s = Ret () u" using fl u(1) rinode_eval [of s 1] by (simp add: fix_root_def kbind_eval Let_def)
  obtain t where t: "balloc_mk (freeblock s) u = Ret () t" "flen t = flen u" "mk_sb t = mk_sb u" "freeblock t = freeblock u"
    "\<And>x. unat x < 4000 \<Longrightarrow> x \<noteq> 46 \<Longrightarrow> sect t x = sect u x" "\<And>k. bit (sect t 46 (k div 8)) (k mod 8) \<longleftrightarrow> k < unat (freeblock s)"
    using balloc_eval [of u "freeblock s"] u fl by auto
  have run: "kthen (fix_root 1) (kbind (kget freeblock) balloc_mk) s = Ret () t" using fu t(1) u(4) by (simp add: kthen_eval kbind_eval kmonad)
  have dt: "din t j = (if j = 1 then ?I else din s j)" if "j < NINODES" for j
  proof -
    have b: "unat (IBLOCK (of_nat j) mk_super) < 46" using iblock [OF that] that by simp
    then have "IBLOCK (of_nat j) mk_super \<noteq> 46" by auto
    then have "din t j = din u j" using t(5) b by (simp add: din_def)
    then show ?thesis using u(6) [OF that] by simp
  qed
  have hi: "sect t x = sect s x" if "unat x < 33 \<or> 47 \<le> unat x" "unat x < 4000" for x
    using t(5) [of x] u(5) [of x] that by (cases "x = 46") auto
  have hi': "\<forall>x. x = 0 \<or> 47 \<le> unat x \<longrightarrow> unat x < FSSIZE \<longrightarrow> sect t x = sect s x"
    using hi by (intro allI impI) (auto simp del: mult_zero_left)
  have e: "flen t = flen s" "mk_sb t = mk_sb s" "freeblock t = freeblock s" using t u by simp_all
  have "\<forall>j\<in>{1..<?N}. \<forall>k\<le>NDIRECT. i_addrs (din t j) k = i_addrs (din s j) k" using dt N by auto
  note m = meta_write [where D' = "din t", OF o e hi' this]
  have "ifile t (k + 2) = (T_FILE, 1, fs ! k)" if "k < length fs" for k
  proof -
    have "din t (k + 2) = din s (k + 2)" using dt [of "k + 2"] that N by simp
    moreover have "ifile s (k + 2) = (T_FILE, 1, fs ! k)" using h that by (simp add: holds_def)
    ultimately show ?thesis using m(3) [of "k + 2" "fsize s (k + 2)"] sz [of "k + 2"] that by (simp add: ifile_def)
  qed
  moreover have "bytes t (din t 1) (length root) = root"
    using m(3) [of 1 "fsize s 1"] sz [of 1] r ifile_size [OF r] by (auto simp: ifile_def)
  moreover have "i_type (din t 1) = T_DIR" using dt [of 1] r by (simp add: ifile_def)
  moreover have "sect t 1 = sect s 1" using hi [of 1] by simp
  ultimately show ?thesis using run e(3) m(1) t(6) by (auto simp del: of_nat_Suc)
qed

text \<open>What \<^verbatim>\<open>readsb\<close> of the kernel makes of a block.\<close>

definition sb_load :: "block \<Rightarrow> superblock" where
  "sb_load d = \<lparr>sb_magic = get32 d 0, sb_size = get32 d 4, sb_nblocks = get32 d 8, sb_ninodes = get32 d 12, sb_nlog = get32 d 16,
     sb_logstart = get32 d 20, sb_inodestart = get32 d 24, sb_bmapstart = get32 d 28\<rparr>"

lemma sb_load_bytes: "sb_load (sb_bytes b) = b"
  by (simp add: sb_load_def sb_bytes_def upt_conv_Cons get32_put32 get32_put32_other)

text \<open>C5: \<^verbatim>\<open>mkfs\<close> builds the image it is asked for.  For files that can be opened, with names that fit, that need no more than the
  inodes and blocks there are, it ends without an error; the kernel finds the superblock, a root directory with the entries for the
  files in order, and in each inode the contents of the file on the host; no block is in two files or in two places of a file, and
  the bitmap has exactly the blocks in use.\<close>

theorem mkfs_image:
  assumes args: "\<forall>a\<in>set args. arg_ok host a" and n: "length args + 2 \<le> NINODES"
    and room: "47 + blocks (16 * (length args + 2)) + need (map (arg_data host) args) \<le> FSSIZE"
  shows "\<exists>t. mkfs host args s = Ret () t \<and> sb_load (sect t 1) = mk_super \<and> i_type (din t 1) = T_DIR \<and>
    bytes t (din t 1) (16 * (length args + 2)) = root_dir args \<and>
    (\<forall>k<length args. ifile t (k + 2) = (T_FILE, 1, arg_data host (args ! k))) \<and> owned t (din t) (length args + 2) \<and>
    (\<forall>b. bit (sect t (sb_bmapstart mk_super) (b div 8)) (b mod 8) \<longleftrightarrow> b < unat (freeblock t))"
proof -
  let ?s0 = "s\<lparr>img := \<lambda>_ _. 0, flen := 0, mk_sb := mk_super, freeinode := 1, freeblock := of_nat (2 + nlog + ninodeblocks + nbitmap)\<rparr>"
  let ?s1 = "?s0\<lparr>flen := 2048000\<rparr>" and ?d1 = "mk_dirent 1 [46]" and ?d2 = "mk_dirent 1 [46, 46]"
  have z: "kfor [0..<FSSIZE] (\<lambda>i. wsect (of_nat i) (\<lambda>_. 0)) ?s0 = Ret () ?s1" by (rule zero_blocks) simp_all
  obtain a where a: "kthen (wsect 1 (sb_bytes mk_super)) (ialloc_mk T_DIR) ?s1 = Ret 1 a" "holds a [] []"
    using empty_image [of ?s1] by (auto simp: nlog_def ninodeblocks_def nbitmap_def)
  have m: "blocks 16 \<le> blocks (16 * (length args + 2))" "blocks 32 \<le> blocks (16 * (length args + 2))" by (rule blocks_mono, simp)+
  obtain b where b: "iappend 1 ?d1 a = Ret () b" "holds b ?d1 []" using append_root [OF a(2), of ?d1] m(1) room by (auto simp: need_def)
  obtain c where c: "iappend 1 ?d2 b = Ret () c" "holds c (?d1 @ ?d2) []" using append_root [OF b(2), of ?d2] m(2) room by (auto simp: need_def)
  have l: "length (?d1 @ ?d2) + 16 * length args = 16 * (length args + 2)" by simp
  have r: "47 + blocks (length (?d1 @ ?d2) + 16 * length args) + need [] + need (map (arg_data host) args) \<le> FSSIZE"
    unfolding l using room by (simp add: need_def)
  obtain d where d: "kfor args (add_file host 1) c = Ret () d" "holds d (root_dir args) (map (arg_data host) args)"
    using add_files_spec [OF c(2) args _ _ r] n by (auto simp: root_dir_def numeral_2_eq_2)
  have nl: "length (map (arg_data host) args) + 2 \<le> NINODES" using n by simp
  obtain t where t: "kthen (fix_root 1) (kbind (kget freeblock) balloc_mk) d = Ret () t" "sect t 1 = sect d 1"
    "owned t (din t) (length args + 2)" "\<forall>k<length args. ifile t (k + 2) = (T_FILE, 1, arg_data host (args ! k))" "i_type (din t 1) = T_DIR"
    "bytes t (din t 1) (length (root_dir args)) = root_dir args" "\<forall>b. bit (sect t 46 (b div 8)) (b mod 8) \<longleftrightarrow> b < unat (freeblock t)"
    using finish_spec [OF d(2) nl] by auto
  obtain e where e: "wsect 1 (sb_bytes mk_super) ?s1 = Ret () e" "ialloc_mk T_DIR e = Ret 1 a" using a(1) by (auto simp: kthen_Ret_iff)
  have o: "xshort (ucast (1 :: u32)) = 1" by simp
  have "mkfs host args s = Ret () t"
    unfolding mkfs_def
    by (subst kthen_Ret, rule kmod_eval, subst kthen_Ret, rule z, subst kthen_Ret, rule e(1), subst kbind_Ret, rule e(2),
        simp only: o simp_thms if_False, subst kthen_Ret, rule b(1), subst kthen_Ret, rule c(1), subst kthen_Ret, rule d(1)) (rule t(1))
  moreover have "sb_load (sect t 1) = mk_super" using t(2) d(2) by (simp add: holds_def sb_load_bytes)
  moreover have "length (root_dir args) = 16 * (length args + 2)" by (simp add: root_dir_def)
  ultimately show ?thesis using t by (auto simp: mk_super_eq)
qed

definition sample_image :: mk_st where
  "sample_image = \<lparr>img = \<lambda>_ _. 0, flen = 0, mk_sb = mk_super, freeinode = 0, freeblock = 0\<rparr>"

theorem mkfs_image_witness:
  "\<exists>t. mkfs (\<lambda>_. Some [[1, 2, 3], [4]]) [user_dir @ [95, 99]] sample_image = Ret () t \<and> arg_name (user_dir @ [95, 99]) = [99] \<and>
     ifile t 2 = (T_FILE, 1, [1, 2, 3, 4])"
proof -
  have nm: "arg_name (user_dir @ [95, 99]) = [99]" "slash \<notin> set (shortname (user_dir @ [95, 99]))"
    by (simp_all add: arg_name_def shortname_def skip_underscore_def user_dir_def)
  have d: "arg_data (\<lambda>_. Some [[1, 2, 3], [4]]) a = [1, 2, 3, 4]" for a by (simp add: arg_data_def)
  have "\<exists>t. mkfs (\<lambda>_. Some [[1, 2, 3], [4]]) [user_dir @ [95, 99]] sample_image = Ret () t \<and> ifile t 2 = (T_FILE, 1, [1, 2, 3, 4])"
    using mkfs_image [of "[user_dir @ [95, 99]]" "\<lambda>_. Some [[1, 2, 3], [4]]" sample_image] nm
    by (auto simp: arg_ok_def d need_def blocks_def numeral_2_eq_2)
  then show ?thesis using nm(1) by auto
qed

end
