(* ===== verification/Spec2Isabelle.thy ===== *)
theory Spec2Isabelle
  imports Spinlock Semaphore User_Trap Pipe Console_Line Virtio_Init Log_Commit Grep Sh_Run Heap_Growth Mkfs
begin

text \<open>
  \<^bold>\<open>Verification library for the xv6 kernel and its user programs.\<close>

  The program is a small multiprocessor Unix kernel for RISC-V (\<^verbatim>\<open>src/kernel\<close>) with the programs that run on it
  (\<^verbatim>\<open>src/user\<close>).  A trap enters the kernel (\<^verbatim>\<open>trap.c\<close>), which runs an interrupt handler or dispatches a system call
  (\<^verbatim>\<open>syscall.c\<close>) to its handler (\<^verbatim>\<open>sysproc.c\<close>, \<^verbatim>\<open>sysfile.c\<close>, \<^verbatim>\<open>exec.c\<close>).  The handlers work on processes (\<^verbatim>\<open>proc.c\<close>), address
  spaces (\<^verbatim>\<open>vm.c\<close>) and open files (\<^verbatim>\<open>file.c\<close>, \<^verbatim>\<open>pipe.c\<close>, \<^verbatim>\<open>console.c\<close>).  Files live in inodes (\<^verbatim>\<open>fs.c\<close>), whose blocks go through
  the write-ahead log (\<^verbatim>\<open>log.c\<close>), the buffer cache (\<^verbatim>\<open>bio.c\<close>) and the disk driver (\<^verbatim>\<open>virtio_disk.c\<close>).  Everything uses
  spin locks (\<^verbatim>\<open>spinlock.c\<close>), sleep locks (\<^verbatim>\<open>sleeplock.c\<close>) and the page allocator (\<^verbatim>\<open>kalloc.c\<close>).

  \<^bold>\<open>How the code is modelled.\<close>  A kernel function is a function from a kernel state to an outcome (theory Prelude): it
  returns a value in a new state, panics with a message, or gives the processor up in \<^verbatim>\<open>sched\<close>.  What a function
  does when it is scheduled again is a definition of its own, with the suffix \<open>resume\<close> or \<open>loop\<close>, so a call that sleeps
  is a first run and a number of resumed ones, and theorems about interleavings are about sequences of runs.  The state
  is a chain of records, one extension per component, in the order in which the components build on each other.
  Physical memory is one flat byte memory, in which the free list of the allocator, page tables, trap frames and user
  pages lie at their addresses.  Addresses, registers, ring indices, ticks and the fields on the disk are machine words of
  their width.  A C \<^verbatim>\<open>int\<close> is an integer that is reduced to 32 bits where the code can make it overflow (the next pid, the
  count of a semaphore, arguments of system calls); counters that stay small because of what they count (\<^verbatim>\<open>noff\<close>,
  reference counts, sizes of arrays) are plain numbers.  A kernel function runs on one processor, which knows of
  a spin lock whether it holds it; the theory Spinlock has the lock code on several processors and shows that each of
  them sees exactly this through \<^verbatim>\<open>holding()\<close>.

  \<^bold>\<open>Theories.\<close>
    \<^item> Prelude: machine types, limits (\<^verbatim>\<open>param.h\<close>), the outcome monad with its Hoare triples, invariants of step systems
      (locale \<open>inv_system\<close>), frames (\<open>frame_rel\<close>).
    \<^item> Printf: \<^verbatim>\<open>kernel/printf.c\<close> and \<^verbatim>\<open>user/printf.c\<close>.  Numbers read back; the two separately written format loops and
      conversion chains agree up to the case of hexadecimal digits.
    \<^item> Locks, Spinlock: \<^verbatim>\<open>spinlock.c\<close>.  Mutual exclusion, the interrupt nesting invariant, and the refinement of the set of
      held locks that the rest of the kernel is modelled with.
    \<^item> Memory: \<^verbatim>\<open>string.c\<close>.  Kalloc: \<^verbatim>\<open>kalloc.c\<close>, with the free list threaded through free pages; allocation is exclusive
      for every sequence of operations from boot on (locale \<open>page_allocator\<close>).
    \<^item> Proc_Table, Proc, Process: \<^verbatim>\<open>proc.c\<close>.  The priority scheduler, sleep and wakeup (locale \<open>cond_wait\<close>), kill, allocation, fork, threads,
      exit, wait, shared memory.
    \<^item> Pagetable, Vm, Vm_Map, Copy: \<^verbatim>\<open>vm.c\<close> and the macros of \<^verbatim>\<open>riscv.h\<close>.  Page tables as trees in memory; mapping and
      unmapping ranges; copies to and from user memory.
    \<^item> Sleeplock: \<^verbatim>\<open>sleeplock.c\<close>.  Bio, Bio_Cache: \<^verbatim>\<open>bio.c\<close>.  The list through the buffers is in order of use; a buffer that is
      held has the current contents of its block.
    \<^item> Virtio, Virtio_Init: \<^verbatim>\<open>virtio_disk.c\<close>.  A request through the descriptor rings, the device, the interrupt and the wakeup has the
      effect of the one-step transfer that Bio uses; the set-up leaves the driver and the device ready.
    \<^item> Log, Log_Commit: \<^verbatim>\<open>log.c\<close>.  A commit is atomic under a crash at any block write, and so is recovery.
    \<^item> Fs: \<^verbatim>\<open>fs.c\<close>.  Paths, directory entries and inodes on the disk.
    \<^item> Ring_Buffer: queues behind free-running 32-bit counters (locale \<open>ring_queue\<close>), interpreted for the pipe and for the
      console.  Console, Console_Line: \<^verbatim>\<open>uart.c\<close>, \<^verbatim>\<open>console.c\<close>.  File, Pipe: \<^verbatim>\<open>file.c\<close>, \<^verbatim>\<open>pipe.c\<close>.
    \<^item> Syscall_Args, Sysproc, Exec, Sysfile: \<^verbatim>\<open>syscall.c\<close>, \<^verbatim>\<open>sysproc.c\<close>, \<^verbatim>\<open>exec.c\<close>, \<^verbatim>\<open>sysfile.c\<close>.  Kernel mutexes: mutual
      exclusion for every interleaving in which only a holder releases and nobody re-initialises, and a run that shows both
      conditions are needed.  Semaphore: the semaphores as a step system; units are conserved in every interleaving (up to
      the overflow of the count), and no wakeup is lost unless the semaphore is initialised again.
    \<^item> Trap, User_Trap: \<^verbatim>\<open>trap.c\<close>.  The way back to user space, which a killed process does not take except after the yield of
      a timer interrupt; system call numbers and arguments; the clock.
    \<^item> Ulib, Grep, Sh, Sh_Run: \<^verbatim>\<open>user/ulib.c\<close>, \<^verbatim>\<open>user/grep.c\<close>, \<^verbatim>\<open>user/sh.c\<close>.  \<^verbatim>\<open>grep\<close> prints the lines in the language of the
      pattern, of inputs with short, terminated lines; the parser of the shell returns for every line, and its words are terminated correctly;
      a pipeline is connected so that only its writer has the write end of each pipe.
    \<^item> Mkfs: \<^verbatim>\<open>mkfs/mkfs.c\<close>.  The image it builds has the files it was given, in the format that Fs reads, in blocks of their own.
    \<^item> Linked: lists threaded through fields, for \<^verbatim>\<open>bio.c\<close> and \<^verbatim>\<open>umalloc.c\<close>.  Umalloc: \<^verbatim>\<open>user/umalloc.c\<close>.  The ring of free blocks stays
      sorted and joined, and live blocks never overlap, for every program that keeps to its own blocks.  Its requests are below
      \<open>2^30\<close> bytes and its \<^verbatim>\<open>sbrk\<close> is not given a negative number.  Heap_Growth: \<^verbatim>\<open>sys_sbrk\<close> with enough memory adds fresh, cleared,
      mapped pages; whatever it returns other than -1 is as the allocator's contract \<open>sbrk_grows\<close> says.

  \<^bold>\<open>Bounds and fuel.\<close>  \<^verbatim>\<open>freewalk\<close> and \<^verbatim>\<open>walk\<close> recurse over the three levels of a page table.  \<^verbatim>\<open>free_chain\<close> follows at
  most as many links as there are descriptors, which is enough because a descriptor freed twice panics; the loop of
  \<^verbatim>\<open>virtio_disk_intr\<close> makes at most \<open>2^16\<close> rounds, which drain a ring with a 16-bit index.  Both are proved.
  The list walks of \<^verbatim>\<open>bget\<close> follow \<^verbatim>\<open>NBUF\<close> links, and the cache invariant says that the list has that many buffers.
  The mutually recursive parsers of the shell have four units of fuel per character and four more, which is proved to be
  enough.  Loops of C that end at a nul, and the walks of the allocator round its ring, are
  \<open>partial_function (option)\<close>; that they return is part of the theorems.  Requests of the allocator are below \<open>2^30\<close> bytes and
  its heap below \<open>2^36\<close>, so that the number of units of a block fits an \<^verbatim>\<open>uint\<close> and the argument of \<^verbatim>\<open>sbrk\<close> an \<^verbatim>\<open>int\<close>.

  \<^bold>\<open>Parameters.\<close>  The disk device is not code of the repository: the theorems about the driver take it as a function, with
  what the virtio specification says of a block request as the hypothesis \<open>virtio_blk_device\<close>, which \<open>sample_device\<close>
  satisfies, and of its registers as \<open>virtio_mmio_device\<close>, which \<open>sample_mmio\<close> satisfies.  Addresses the linker chooses are fields of the state.  The files of the host that \<^verbatim>\<open>mkfs\<close> reads are a function from
  paths to the pieces \<^verbatim>\<open>read\<close> returns.  Which files the shell can open, which programs it can run and which forks succeed is the
  record \<open>sh_env\<close>.  The trap code takes the call of \<^verbatim>\<open>virtio_disk_intr\<close> as an argument, since the driver is modelled on a state with
  its rings; what the theorem about traps assumes of it is proved of the driver (\<open>km_virtio\<close>).  The contract \<open>sbrk_grows\<close> is a hypothesis
  of the allocator's theorem, which \<open>sample_sbrk\<close> satisfies.

  \<^bold>\<open>Not modelled.\<close>  Assembly and machine mode (\<^verbatim>\<open>entry.S\<close>, \<^verbatim>\<open>start.c\<close>, \<^verbatim>\<open>kernelvec.S\<close>, \<^verbatim>\<open>trampoline.S\<close>, \<^verbatim>\<open>swtch.S\<close>), whose
  effects are the boundaries of the functions modelled; \<^verbatim>\<open>main.c\<close> and the set-up of the serial port and the interrupt
  controller; the wait of a process for the sleep lock of a buffer in the theorems about the buffer cache and the log; the caches and the
  weak memory order behind the fences of the lock code; the test programs (\<^verbatim>\<open>usertests.c\<close>, \<^verbatim>\<open>grind.c\<close> and the smaller
  ones) and the programs that only make system calls for their arguments.
\<close>

end
